(* ===== verification/Prelude.thy ===== *)
theory Prelude
  imports Main "HOL-Library.Word" "HOL-Library.Signed_Division"
begin

text \<open>
  What every component of the driver model shares.

  \<^item> The fixed-width types of \<open>src_drv/core.h\<close>. Unsigned types are words, so their arithmetic
    wraps by itself. Signed types are integers: \<open>to_s32\<close>, \<open>to_s16\<close> and \<open>to_s8\<close> write out the
    reduction a C value of that type undergoes (two's complement, as the driver's compiler
    implements it). Reduction is a homomorphism for sums and products, so one reduction around
    a polynomial expression stands for the reduction after each of its operators.
  \<^item> C's truncating division and remainder are \<open>sdiv\<close> and \<open>smod\<close> of the library.
  \<^item> Little-endian dwords, and the lemmas on lists that stand for fixed-size arrays.
  \<^item> The collections \<open>c_arith\<close> (range and reduction facts) and \<open>frame\<close> (what an operation
    leaves alone) that the component theories extend.
\<close>

unbundle bit_operations_syntax

named_theorems c_arith
named_theorems frame

type_synonym u8 = "8 word"
type_synonym u16 = "16 word"
type_synonym u32 = "32 word"
type_synonym u64 = "64 word"
type_synonym s32 = int
type_synonym s16 = int
type_synonym s8 = int

text \<open>A C pointer, as an address; 0 is the null pointer.\<close>

type_synonym ptr = nat

section \<open>Signed integers of a fixed width\<close>

definition to_s32 :: "int \<Rightarrow> int" where
  "to_s32 x = signed_take_bit 31 x"

definition to_s16 :: "int \<Rightarrow> int" where
  "to_s16 x = signed_take_bit 15 x"

definition to_s8 :: "int \<Rightarrow> int" where
  "to_s8 x = signed_take_bit 7 x"

definition is_s32 :: "int \<Rightarrow> bool" where
  "is_s32 x \<longleftrightarrow> - 2147483648 \<le> x \<and> x < 2147483648"

definition is_s16 :: "int \<Rightarrow> bool" where
  "is_s16 x \<longleftrightarrow> - 32768 \<le> x \<and> x < 32768"

definition is_s8 :: "int \<Rightarrow> bool" where
  "is_s8 x \<longleftrightarrow> - 128 \<le> x \<and> x < 128"

text \<open>\<open>(u32)x\<close>, \<open>(s32)w\<close> and \<open>(s32)(s8)b\<close>.\<close>

definition u32_of :: "int \<Rightarrow> u32" where
  "u32_of x = word_of_int x"

definition u8_of :: "int \<Rightarrow> u8" where
  "u8_of x = word_of_int x"

definition u16_of :: "int \<Rightarrow> u16" where
  "u16_of x = word_of_int x"

definition s32_of :: "u32 \<Rightarrow> s32" where
  "s32_of w = sint w"

definition s8_of :: "u8 \<Rightarrow> s32" where
  "s8_of b = sint b"

definition s16_of :: "u16 \<Rightarrow> s32" where
  "s16_of w = sint w"

lemma to_s32_id [c_arith]: "is_s32 x \<Longrightarrow> to_s32 x = x"
  by (simp add: to_s32_def is_s32_def signed_take_bit_int_eq_self)

lemma to_s16_id [c_arith]: "is_s16 x \<Longrightarrow> to_s16 x = x"
  by (simp add: to_s16_def is_s16_def signed_take_bit_int_eq_self)

lemma to_s8_id [c_arith]: "is_s8 x \<Longrightarrow> to_s8 x = x"
  by (simp add: to_s8_def is_s8_def signed_take_bit_int_eq_self)

lemma is_s32_to_s32 [simp]: "is_s32 (to_s32 x)"
  using signed_take_bit_int_greater_eq_minus_exp [of 31 x] signed_take_bit_int_less_exp [of 31 x]
  by (simp add: is_s32_def to_s32_def)

lemma is_s16_to_s16 [simp]: "is_s16 (to_s16 x)"
  using signed_take_bit_int_greater_eq_minus_exp [of 15 x] signed_take_bit_int_less_exp [of 15 x]
  by (simp add: is_s16_def to_s16_def)

lemma is_s8_to_s8 [simp]: "is_s8 (to_s8 x)"
  using signed_take_bit_int_greater_eq_minus_exp [of 7 x] signed_take_bit_int_less_exp [of 7 x]
  by (simp add: is_s8_def to_s8_def)

text \<open>One reduction around a polynomial is the reduction after each operator.\<close>

lemma to_s32_add: "to_s32 (to_s32 x + to_s32 y) = to_s32 (x + y)"
  by (simp add: to_s32_def signed_take_bit_add)

lemma to_s32_mult: "to_s32 (to_s32 x * to_s32 y) = to_s32 (x * y)"
  by (simp add: to_s32_def signed_take_bit_mult)

lemma to_s32_diff: "to_s32 (to_s32 x - to_s32 y) = to_s32 (x - y)"
  by (simp add: to_s32_def signed_take_bit_diff)

lemma s8_of_range [simp]: "- 128 \<le> s8_of b" "s8_of b \<le> 127"
  using sint_greater_eq [of b] sint_less [of b] by (simp_all add: s8_of_def)

lemma s16_of_range [simp]: "- 32768 \<le> s16_of b" "s16_of b \<le> 32767"
  using sint_greater_eq [of b] sint_less [of b] by (simp_all add: s16_of_def)

lemma s32_of_range [simp]: "- 2147483648 \<le> s32_of b" "s32_of b \<le> 2147483647"
  using sint_greater_eq [of b] sint_less [of b] by (simp_all add: s32_of_def)

lemma is_s32_s32_of [simp]: "is_s32 (s32_of w)"
  using s32_of_range [of w] unfolding is_s32_def by linarith

lemma s32_of_u32_of [c_arith]: "is_s32 x \<Longrightarrow> s32_of (u32_of x) = x"
  by (simp add: is_s32_def s32_of_def u32_of_def sint_sbintrunc' signed_take_bit_int_eq_self)

lemma u32_of_s32_of [simp]: "u32_of (s32_of w) = w"
  by (simp add: s32_of_def u32_of_def)

section \<open>Truncating division\<close>

text \<open>The magnitude of a truncated quotient never exceeds the dividend's.\<close>

lemma abs_sdiv_le: "\<bar>(a::int) sdiv b\<bar> \<le> \<bar>a\<bar>"
proof -
  have "\<bar>a\<bar> div \<bar>b\<bar> \<le> \<bar>a\<bar>"
    by (cases "b = 0") (auto intro: order_trans [OF zdiv_mono2 [of "\<bar>a\<bar>" 1 "\<bar>b\<bar>"]])
  moreover have "0 \<le> \<bar>a\<bar> div \<bar>b\<bar>"
    by (cases "b = 0") (simp_all add: pos_imp_zdiv_nonneg_iff)
  ultimately show ?thesis
    by (auto simp: signed_divide_int_def abs_mult sgn_if)
qed

lemma sdiv_pos: "0 \<le> (a::int) \<Longrightarrow> 0 < b \<Longrightarrow> a sdiv b = a div b"
  by (auto simp: signed_divide_int_def sgn_if)

lemma sdiv_neg: "(a::int) < 0 \<Longrightarrow> 0 < b \<Longrightarrow> a sdiv b = - ((- a) div b)"
  by (auto simp: signed_divide_int_def sgn_if)

lemma sdiv_minus: "(- (a::int)) sdiv b = - (a sdiv b)"
  by (simp add: signed_divide_int_def sgn_if)

lemma sdiv_mono:
  assumes "0 < (b::int)" and "x \<le> y"
  shows "x sdiv b \<le> y sdiv b"
proof (cases "0 \<le> x")
  case True
  with assms show ?thesis by (simp add: sdiv_pos zdiv_mono1)
next
  case False
  show ?thesis
  proof (cases "0 \<le> y")
    case True
    with False assms(1) have "x sdiv b \<le> 0" by (simp add: sdiv_neg pos_imp_zdiv_nonneg_iff)
    also have "0 \<le> y sdiv b" using True assms(1) by (simp add: sdiv_pos pos_imp_zdiv_nonneg_iff)
    finally show ?thesis .
  next
    case False
    with \<open>\<not> 0 \<le> x\<close> assms show ?thesis by (simp add: sdiv_neg zdiv_mono1)
  qed
qed

lemma smod_pos: "0 \<le> (a::int) \<Longrightarrow> 0 < b \<Longrightarrow> a smod b = a mod b"
  by (cases "a = 0") (simp_all add: signed_modulo_int_def sgn_if)

lemma sdiv_nonneg: "0 \<le> (a::int) \<Longrightarrow> 0 < b \<Longrightarrow> 0 \<le> a sdiv b"
  by (simp add: sdiv_pos pos_imp_zdiv_nonneg_iff)

section \<open>Bits of the masks the code uses\<close>

text \<open>The library reads the bits of a word numeral off the integer numeral, so the masks are
  stated there.\<close>

lemma bit_int_mask: "(mask m :: int) = c \<Longrightarrow> bit c n \<longleftrightarrow> n < m"
  by (auto simp: bit_mask_iff)

lemma bit_mask_numerals [simp]:
  "bit (15 :: int) n \<longleftrightarrow> n < 4"
  "bit (31 :: int) n \<longleftrightarrow> n < 5"
  "bit (63 :: int) n \<longleftrightarrow> n < 6"
  "bit (255 :: int) n \<longleftrightarrow> n < 8"
  "bit (2047 :: int) n \<longleftrightarrow> n < 11"
  "bit (4095 :: int) n \<longleftrightarrow> n < 12"
  by (rule bit_int_mask, simp add: mask_eq_exp_minus_1)+

lemma bit_pow_numerals [simp]:
  "bit (16 :: int) n \<longleftrightarrow> n = 4"
  "bit (32 :: int) n \<longleftrightarrow> n = 5"
  "bit (64 :: int) n \<longleftrightarrow> n = 6"
  "bit (128 :: int) n \<longleftrightarrow> n = 7"
  "bit (1024 :: int) n \<longleftrightarrow> n = 10"
  using bit_exp_iff [of 4 n, where 'a = int] bit_exp_iff [of 5 n, where 'a = int]
    bit_exp_iff [of 6 n, where 'a = int] bit_exp_iff [of 7 n, where 'a = int]
    bit_exp_iff [of 10 n, where 'a = int]
  by auto

text \<open>Cancelling an exclusive or.\<close>

lemma xor_word_cancel [simp]:
  fixes x y z :: "'a::len word"
  shows "z XOR x = z XOR y \<longleftrightarrow> x = y" "x XOR z = y XOR z \<longleftrightarrow> x = y"
    "(x XOR z) XOR z = x" "x XOR y = 0 \<longleftrightarrow> x = y"
  by (metis xor.assoc xor.commute xor_self_eq xor.right_neutral)+

lemma bit_shifted_masks [simp]:
  "bit (240 :: int) n \<longleftrightarrow> 4 \<le> n \<and> n < 8"
  "bit (65520 :: int) n \<longleftrightarrow> 4 \<le> n \<and> n < 16"
proof -
  have "(240 :: int) = push_bit 4 15" "(65520 :: int) = push_bit 4 4095" by simp_all
  then show "bit (240 :: int) n \<longleftrightarrow> 4 \<le> n \<and> n < 8" "bit (65520 :: int) n \<longleftrightarrow> 4 \<le> n \<and> n < 16"
    by (auto simp only: bit_push_bit_iff bit_mask_numerals possible_bit_int)
qed

section \<open>Little-endian dwords\<close>

definition rd32 :: "u8 list \<Rightarrow> nat \<Rightarrow> u32" where
  "rd32 p at = ucast (p ! at) OR push_bit 8 (ucast (p ! (at + 1)))
     OR push_bit 16 (ucast (p ! (at + 2))) OR push_bit 24 (ucast (p ! (at + 3)))"

definition wr32 :: "u32 \<Rightarrow> u8 list" where
  "wr32 v = [ucast (v AND 0xFF), ucast (drop_bit 8 v AND 0xFF),
     ucast (drop_bit 16 v AND 0xFF), ucast (drop_bit 24 v AND 0xFF)]"

lemma length_wr32 [simp]: "length (wr32 v) = 4"
  by (simp add: wr32_def)

lemma rd32_wr32: "rd32 (wr32 v) 0 = v"
proof (rule bit_word_eqI)
  fix n
  assume "n < LENGTH(32)"
  then have "n < 8 \<or> 8 \<le> n \<and> n < 16 \<or> 16 \<le> n \<and> n < 24 \<or> 24 \<le> n \<and> n < 32"
    by auto
  then show "bit (rd32 (wr32 v) 0) n = bit v n"
    by (elim disjE conjE)
      (auto simp: rd32_def wr32_def bit_simps)
qed

end
