(* ===== verification/Core_State.thy ===== *)
theory Core_State
  imports Prelude
begin

text \<open>
  The state of \<open>src_drv/core.c\<close>: \<open>core_state\<close> of \<open>core.h\<close> field by field, the effect slots, the
  ring entries and the vendor request, and the life cycle \<open>core_init\<close> and \<open>core_reset\<close>, with
  \<open>core_emit\<close>.

  The outside world arrives through function pointers. A pointer is a \<open>ptr\<close> field (0 is null) and
  the record \<open>seams\<close> says what a call through one does: to the field \<open>world\<close>, which stands for
  everything outside \<open>core_state\<close>, and for the two hooks and the synchronous transfer, in the course of
  which the device's own code runs on it, to the whole \<open>core_state\<close>. An \<open>int\<close> the code only ever sets to 0
  or 1 is a \<open>bool\<close>. A guard \<open>cs == 0\<close> has no counterpart, the state being passed by value; the
  other pointer arguments a function tests against null are options.
\<close>

section \<open>Data\<close>

record core_vendor_req =
  bmRequestType :: u8
  bRequest :: u8
  wValue :: u16
  wIndex :: u16
  wLength :: u16

text \<open>The eight bytes of an axis parameter block, and the two readings the union gives them.\<close>

type_synonym core_effect_axis = "u8 list"

definition periodic_magnitude :: "core_effect_axis \<Rightarrow> s32" where
  "periodic_magnitude ax = s8_of (ax ! 0)"

definition periodic_offset :: "core_effect_axis \<Rightarrow> s32" where
  "periodic_offset ax = s8_of (ax ! 1)"

definition periodic_phase :: "core_effect_axis \<Rightarrow> s32" where
  "periodic_phase ax = s16_of (ucast (ax ! 2) OR push_bit 8 (ucast (ax ! 3)))"

definition periodic_period :: "core_effect_axis \<Rightarrow> s32" where
  "periodic_period ax = s32_of (rd32 ax 4)"

definition condition_center :: "core_effect_axis \<Rightarrow> s32" where
  "condition_center ax = s8_of (ax ! 0)"

definition condition_positive_coeff :: "core_effect_axis \<Rightarrow> s32" where
  "condition_positive_coeff ax = s8_of (ax ! 1)"

definition condition_negative_coeff :: "core_effect_axis \<Rightarrow> s32" where
  "condition_negative_coeff ax = s8_of (ax ! 2)"

definition condition_positive_sat :: "core_effect_axis \<Rightarrow> s32" where
  "condition_positive_sat ax = s8_of (ax ! 3)"

definition condition_negative_sat :: "core_effect_axis \<Rightarrow> s32" where
  "condition_negative_sat ax = s8_of (ax ! 4)"

definition condition_dead_band :: "core_effect_axis \<Rightarrow> s32" where
  "condition_dead_band ax = s8_of (ax ! 5)"

definition condition_output :: "core_effect_axis \<Rightarrow> s32" where
  "condition_output ax = s8_of (ax ! 6)"

record core_effect_slot =
  fx_type :: u32
  running :: bool
  start_tick :: s32
  duration :: s32
  attack_level :: s32
  attack_time :: s32
  fade_level :: s32
  fade_time :: s32
  block_length :: s32
  axis :: "core_effect_axis list"

record core_effect_ring_entry =
  re_pulse :: s32
  re_intensity :: s32
  re_filtered_x :: s32
  re_filtered_y :: s32
  re_accumulator :: s32
  re_dither_burst :: s32
  re_tune_counter :: s32

record 'w core_state =
  sink :: ptr
  sink_ctx :: ptr
  now_100ns :: u64
  raw :: "u8 list"
  have_raw :: bool
  stick_x :: s16
  stick_y :: s16
  buttons :: u16
  status :: u8
  prev_status :: u8
  stick_clip :: s32
  stick_stretch :: s32
  button_map :: "u8 list"
  effect :: "core_effect_slot list"
  filtered_x :: s32
  filtered_y :: s32
  accumulator :: s32
  dither_burst :: s32
  tune_counter :: s32
  dither_state :: u32
  effect_idle_ticks :: s32
  ring :: "core_effect_ring_entry list"
  ring_head :: s32
  ring_count :: s32
  ring_base_tick :: s32
  effect_state :: s32
  next_tick :: s32
  keepalive_time :: u64
  effect_next :: u8
  claim_idle_command :: bool
  claim_effect_tick :: bool
  claim_pak_insert :: bool
  claim_pak_remove :: bool
  vendor_claim :: ptr
  tune_period :: s32
  tune_duty :: s32
  tune_duty_complement :: s32
  tune_strength :: s32
  tune_mode :: s32
  prev_raw_x :: u8
  prev_raw_y :: u8
  report_pending :: bool
  device_name :: "u8 list"
  bcd_device :: u16
  counter_two :: u32
  vendor :: ptr
  vendor_ctx :: ptr
  vendor_sync :: ptr
  accessory_state :: u8
  accessory_status :: u8
  probe_step :: u8
  probe_reply :: "u8 list"
  key_modifiers :: u8
  keys_down :: "u8 list"
  key_down_count :: s32
  mouse_buttons :: u8
  mouse_total_x :: s32
  mouse_total_y :: s32
  mouse_total_wheel :: s32
  virtual_mode :: s32
  instance_id :: s32
  reports_enabled :: bool
  last_report :: "u8 list"
  devices_mask :: u32
  collection_enabled :: "u8 list"
  reports_emitted :: u32
  vendor_owner :: u8
  script_owns_stick :: bool
  input_hook :: ptr
  input_ctx :: ptr
  tick_hook :: ptr
  tick_ctx :: ptr
  emu_pak_value :: u32
  emu_pak_present :: bool
  world :: 'w

text \<open>What a call through each of the function pointers does. A result of type \<open>bool\<close> is the C
  call's result being non-zero; the synchronous transfer also fills the data buffer.\<close>

record 'w seams =
  call_sink :: "ptr \<Rightarrow> ptr \<Rightarrow> u8 \<Rightarrow> u8 list \<Rightarrow> u32 \<Rightarrow> 'w \<Rightarrow> 'w"
  call_vendor :: "ptr \<Rightarrow> ptr \<Rightarrow> core_vendor_req \<Rightarrow> 'w \<Rightarrow> bool \<times> 'w"
  call_claim :: "ptr \<Rightarrow> ptr \<Rightarrow> 'w \<Rightarrow> bool \<times> 'w"
  call_vendor_sync :: "ptr \<Rightarrow> ptr \<Rightarrow> core_vendor_req \<Rightarrow> u8 list \<Rightarrow> u32 \<Rightarrow> 'w core_state \<Rightarrow>
    bool \<times> u8 list \<times> 'w core_state"
  call_input_hook :: "ptr \<Rightarrow> ptr \<Rightarrow> u8 list \<Rightarrow> u64 \<Rightarrow> 'w core_state \<Rightarrow> 'w core_state"
  call_tick_hook :: "ptr \<Rightarrow> ptr \<Rightarrow> u64 \<Rightarrow> 'w core_state \<Rightarrow> 'w core_state"

section \<open>Life cycle\<close>

definition CORE_BUTTON_MAP_DEFAULT :: "u8 list" where
  "CORE_BUTTON_MAP_DEFAULT = [0, 3, 9, 8, 10, 11, 12, 13, 0xFF, 0xFF, 6, 7, 5, 1, 4, 2]"

text \<open>\<open>core_zero (cs, sizeof ( *cs))\<close>: every byte of the structure 0.\<close>

definition zero_axis :: core_effect_axis where
  "zero_axis = replicate 8 0"

definition zero_slot :: core_effect_slot where
  "zero_slot = \<lparr>fx_type = 0, running = False, start_tick = 0, duration = 0, attack_level = 0,
     attack_time = 0, fade_level = 0, fade_time = 0, block_length = 0, axis = replicate 2 zero_axis\<rparr>"

definition zero_ring_entry :: core_effect_ring_entry where
  "zero_ring_entry = \<lparr>re_pulse = 0, re_intensity = 0, re_filtered_x = 0, re_filtered_y = 0,
     re_accumulator = 0, re_dither_burst = 0, re_tune_counter = 0\<rparr>"

definition core_zeroed :: "'w \<Rightarrow> 'w core_state" where
  "core_zeroed w = \<lparr>sink = 0, sink_ctx = 0, now_100ns = 0, raw = replicate 5 0, have_raw = False,
     stick_x = 0, stick_y = 0, buttons = 0, status = 0, prev_status = 0, stick_clip = 0,
     stick_stretch = 0, button_map = replicate 16 0, effect = replicate 32 zero_slot,
     filtered_x = 0, filtered_y = 0, accumulator = 0, dither_burst = 0, tune_counter = 0,
     dither_state = 0, effect_idle_ticks = 0, ring = replicate 96 zero_ring_entry, ring_head = 0,
     ring_count = 0, ring_base_tick = 0, effect_state = 0, next_tick = 0, keepalive_time = 0,
     effect_next = 0, claim_idle_command = False, claim_effect_tick = False,
     claim_pak_insert = False, claim_pak_remove = False, vendor_claim = 0, tune_period = 0,
     tune_duty = 0, tune_duty_complement = 0, tune_strength = 0, tune_mode = 0, prev_raw_x = 0,
     prev_raw_y = 0, report_pending = False, device_name = replicate 10 0, bcd_device = 0,
     counter_two = 0, vendor = 0, vendor_ctx = 0, vendor_sync = 0, accessory_state = 0,
     accessory_status = 0, probe_step = 0, probe_reply = replicate 4 0, key_modifiers = 0,
     keys_down = replicate 165 0, key_down_count = 0, mouse_buttons = 0, mouse_total_x = 0,
     mouse_total_y = 0, mouse_total_wheel = 0, virtual_mode = 0, instance_id = 0,
     reports_enabled = False, last_report = replicate 5 0, devices_mask = 0,
     collection_enabled = replicate 3 0, reports_emitted = 0, vendor_owner = 0,
     script_owns_stick = False, input_hook = 0, input_ctx = 0, tick_hook = 0, tick_ctx = 0,
     emu_pak_value = 0, emu_pak_present = False, world = w\<rparr>"

definition core_init :: "ptr \<Rightarrow> ptr \<Rightarrow> 'w core_state \<Rightarrow> 'w core_state" where
  "core_init snk ctx cs =
     (core_zeroed (world cs))
       \<lparr>sink := snk, sink_ctx := ctx, devices_mask := 7, stick_clip := 75, stick_stretch := 10,
        tune_period := 500, tune_duty := 50, tune_duty_complement := 50, tune_strength := 100,
        button_map := CORE_BUTTON_MAP_DEFAULT\<rparr>"

definition core_reset :: "'w core_state \<Rightarrow> 'w core_state" where
  "core_reset cs =
     (core_init (sink cs) (sink_ctx cs) cs)
       \<lparr>vendor := vendor cs, vendor_ctx := vendor_ctx cs, vendor_claim := vendor_claim cs,
        vendor_sync := vendor_sync cs, input_hook := input_hook cs, input_ctx := input_ctx cs,
        tick_hook := tick_hook cs, tick_ctx := tick_ctx cs, devices_mask := devices_mask cs,
        instance_id := instance_id cs, button_map := button_map cs\<rparr>"

definition core_emit :: "'w seams \<Rightarrow> u8 \<Rightarrow> u8 list \<Rightarrow> u32 \<Rightarrow> 'w core_state \<Rightarrow> 'w core_state" where
  "core_emit S report_id data len cs =
     (if sink cs = 0 \<or> report_id = 0 then cs
      else if devices_mask cs AND push_bit (unat report_id - 1) 1 = 0 then cs
      else cs\<lparr>reports_emitted := reports_emitted cs + 1,
              world := call_sink S (sink cs) (sink_ctx cs) report_id data len (world cs)\<rparr>)"

subsection \<open>Installing the seams\<close>

definition core_set_input_hook :: "ptr \<Rightarrow> ptr \<Rightarrow> 'w core_state \<Rightarrow> 'w core_state" where
  "core_set_input_hook fn ctx cs = cs\<lparr>input_hook := fn, input_ctx := ctx\<rparr>"

definition core_set_tick_hook :: "ptr \<Rightarrow> ptr \<Rightarrow> 'w core_state \<Rightarrow> 'w core_state" where
  "core_set_tick_hook fn ctx cs = cs\<lparr>tick_hook := fn, tick_ctx := ctx\<rparr>"

definition core_set_vendor_claim :: "ptr \<Rightarrow> 'w core_state \<Rightarrow> 'w core_state" where
  "core_set_vendor_claim fn cs = cs\<lparr>vendor_claim := fn\<rparr>"

definition core_set_vendor :: "ptr \<Rightarrow> ptr \<Rightarrow> 'w core_state \<Rightarrow> 'w core_state" where
  "core_set_vendor fn ctx cs = cs\<lparr>vendor := fn, vendor_ctx := ctx\<rparr>"

definition core_set_vendor_sync :: "ptr \<Rightarrow> 'w core_state \<Rightarrow> 'w core_state" where
  "core_set_vendor_sync fn cs = cs\<lparr>vendor_sync := fn\<rparr>"

text \<open>An instance for concrete runs: a host that writes down every report it is handed, with no
  transport behind it and no hook.\<close>

definition report_log :: "(u8 \<times> u8 list) list seams" where
  "report_log = \<lparr>call_sink = (\<lambda>_ _ i r len w. w @ [(i, take (unat len) r)]),
     call_vendor = (\<lambda>_ _ _ w. (False, w)), call_claim = (\<lambda>_ _ w. (False, w)),
     call_vendor_sync = (\<lambda>_ _ _ d _ w. (False, d, w)),
     call_input_hook = (\<lambda>_ _ _ _ cs. cs), call_tick_hook = (\<lambda>_ _ _ cs. cs)\<rparr>"

definition logged_core :: "(u8 \<times> u8 list) list core_state" where
  "logged_core = core_init 1 0 (core_zeroed [])"

section \<open>Well-formed states\<close>

text \<open>The arrays have the sizes the declarations give them, the ring's cursor stays inside the
  ring, and the pressed keys are distinct ordinary keycodes. Every operation keeps this.\<close>

definition slot_wf :: "core_effect_slot \<Rightarrow> bool" where
  "slot_wf fx \<longleftrightarrow> length (axis fx) = 2 \<and> (\<forall>ax\<in>set (axis fx). length ax = 8)"

definition arrays_wf :: "'w core_state \<Rightarrow> bool" where
  "arrays_wf cs \<longleftrightarrow> length (raw cs) = 5 \<and> length (button_map cs) = 16 \<and> length (effect cs) = 32 \<and>
     (\<forall>fx\<in>set (effect cs). slot_wf fx) \<and> length (probe_reply cs) = 4 \<and>
     length (last_report cs) = 5 \<and> length (collection_enabled cs) = 3 \<and>
     length (device_name cs) = 10"

definition ring_wf :: "'w core_state \<Rightarrow> bool" where
  "ring_wf cs \<longleftrightarrow> length (ring cs) = 96 \<and> 0 \<le> ring_head cs \<and> ring_head cs < 96 \<and>
     0 \<le> ring_count cs \<and> ring_count cs \<le> 96"

definition held_keys :: "'w core_state \<Rightarrow> u8 list" where
  "held_keys cs = take (nat (key_down_count cs)) (keys_down cs)"

definition keys_wf :: "'w core_state \<Rightarrow> bool" where
  "keys_wf cs \<longleftrightarrow> length (keys_down cs) = 165 \<and> 0 \<le> key_down_count cs \<and>
     key_down_count cs \<le> 165 \<and> distinct (held_keys cs) \<and>
     (\<forall>k\<in>set (held_keys cs). 0x04 \<le> k \<and> k \<le> 0xA4)"

definition core_wf :: "'w core_state \<Rightarrow> bool" where
  "core_wf cs \<longleftrightarrow> arrays_wf cs \<and> ring_wf cs \<and> keys_wf cs"

lemma core_wfI [intro]: "arrays_wf cs \<Longrightarrow> ring_wf cs \<Longrightarrow> keys_wf cs \<Longrightarrow> core_wf cs"
  by (simp add: core_wf_def)

lemma core_wfD [dest]: "core_wf cs \<Longrightarrow> arrays_wf cs \<and> ring_wf cs \<and> keys_wf cs"
  by (simp add: core_wf_def)

text \<open>What an operation that writes none of the guarded fields leaves alone.\<close>

definition wf_fields where
  "wf_fields cs = (length (raw cs), length (button_map cs), effect cs, length (probe_reply cs),
     length (last_report cs), length (collection_enabled cs), length (device_name cs),
     ring cs, ring_head cs, ring_count cs, keys_down cs, key_down_count cs)"

lemma core_wf_cong: "wf_fields cs' = wf_fields cs \<Longrightarrow> core_wf cs' \<longleftrightarrow> core_wf cs"
  by (simp add: wf_fields_def core_wf_def arrays_wf_def ring_wf_def keys_wf_def held_keys_def)

lemma core_emit_frame [frame]: "wf_fields (core_emit S i d n cs) = wf_fields cs"
  by (simp add: core_emit_def wf_fields_def)

lemma core_init_wf: "core_wf (core_init snk ctx cs)"
  by (auto simp: core_init_def core_zeroed_def core_wf_def arrays_wf_def ring_wf_def keys_wf_def
      held_keys_def slot_wf_def zero_slot_def zero_axis_def CORE_BUTTON_MAP_DEFAULT_def)

lemma core_reset_wf: "length (button_map cs) = 16 \<Longrightarrow> core_wf (core_reset cs)"
  using core_init_wf [of "sink cs" "sink_ctx cs" cs]
  by (simp add: core_reset_def core_wf_def arrays_wf_def ring_wf_def keys_wf_def held_keys_def)

text \<open>What a reset keeps: everything else of the state is what \<open>core_init\<close> makes it.\<close>

definition core_identity where
  "core_identity cs = (sink cs, sink_ctx cs, vendor cs, vendor_ctx cs, vendor_claim cs,
     vendor_sync cs, input_hook cs, input_ctx cs, tick_hook cs, tick_ctx cs, devices_mask cs,
     instance_id cs, button_map cs, world cs)"

lemma core_reset_identity:
  "core_identity (core_reset cs) = core_identity cs"
  by (simp add: core_identity_def core_reset_def core_init_def core_zeroed_def)

lemma core_reset_forgets:
  "core_identity cs = core_identity cs' \<Longrightarrow> core_reset cs = core_reset cs'"
  by (simp add: core_identity_def core_reset_def core_init_def)

end
