(* ===== verification/Pak_CRC.thy ===== *)
theory Pak_CRC
  imports Prelude
begin

text \<open>
  The two Controller Pak checksums at the end of \<open>src_drv/core.c\<close>, computed a bit at a time as
  the code does: the 5-bit checksum of an accessory block address and the 8-bit checksum of a
  data block. The interface \<open>crc_register\<close> says what a bit-serial register has to do at each bit
  for the whole run to be polynomial division over GF(2); both of the code's registers are
  interpretations of it. The consequences a bus protocol relies on (the remainder, the wire word
  a multiple of the generator, detection of a corrupted byte) follow.
\<close>

section \<open>The code\<close>

text \<open>One turn of the loop of \<open>core_pak_addr_crc5\<close>: the message and the register.\<close>

definition crc5_feed :: "u8 \<Rightarrow> bool \<Rightarrow> u8" where
  "crc5_feed crc b =
     (let crc = (if b then crc XOR 0x10 else crc);
          crc = push_bit 1 crc;
          crc = (if crc AND 0x20 \<noteq> 0 then crc XOR 0x15 else crc)
      in crc AND 0x1F)"

primrec crc5_loop :: "nat \<Rightarrow> u16 \<Rightarrow> u8 \<Rightarrow> u8" where
  "crc5_loop 0 msg crc = crc"
| "crc5_loop (Suc i) msg crc =
     crc5_loop i (push_bit 1 msg AND 0x7FF) (crc5_feed crc (msg AND 0x400 \<noteq> 0))"

definition core_pak_addr_crc5 :: "u16 \<Rightarrow> u8" where
  "core_pak_addr_crc5 address = crc5_loop 11 (drop_bit 5 address AND 0x7FF) 0"

definition core_pak_addr_encode :: "u16 \<Rightarrow> u16" where
  "core_pak_addr_encode address =
     (let block = drop_bit 5 address AND 0x7FF
      in push_bit 5 block OR ucast (core_pak_addr_crc5 address))"

text \<open>The inner and the outer loop of \<open>core_pak_data_crc8\<close>; a null \<open>data\<close> is \<open>None\<close>.\<close>

definition crc8_feed :: "u8 \<Rightarrow> bool \<Rightarrow> u8" where
  "crc8_feed crc b =
     (let crc = (if b then crc XOR 0x80 else crc)
      in if crc AND 0x80 \<noteq> 0 then push_bit 1 crc XOR 0x85 else push_bit 1 crc)"

primrec crc8_bits :: "nat \<Rightarrow> u8 \<Rightarrow> u8 \<Rightarrow> u8" where
  "crc8_bits 0 byte crc = crc"
| "crc8_bits (Suc i) byte crc =
     crc8_bits i (push_bit 1 byte) (crc8_feed crc (byte AND 0x80 \<noteq> 0))"

primrec crc8_bytes :: "u8 list \<Rightarrow> u8 \<Rightarrow> u8" where
  "crc8_bytes [] crc = crc"
| "crc8_bytes (b # bs) crc = crc8_bytes bs (crc8_bits 8 b crc)"

definition core_pak_data_crc8 :: "u8 list option \<Rightarrow> nat \<Rightarrow> u8" where
  "core_pak_data_crc8 data len =
     (case data of None \<Rightarrow> 0 | Some d \<Rightarrow> crc8_bytes (take len d) 0)"

section \<open>Polynomial division over GF(2)\<close>

text \<open>A polynomial is an integer, its coefficients the bits. A product is in Horner form: the
  quotient's coefficients come highest first.\<close>

definition bits_val :: "bool list \<Rightarrow> int" where
  "bits_val bs = foldl (\<lambda>a b. 2 * a + of_bool b) 0 bs"

definition gf2_mul :: "bool list \<Rightarrow> int \<Rightarrow> int" where
  "gf2_mul qs p = foldl (\<lambda>a q. push_bit 1 a XOR (if q then p else 0)) 0 qs"

definition gf2_feed :: "nat \<Rightarrow> int \<Rightarrow> int \<Rightarrow> bool \<Rightarrow> int" where
  "gf2_feed n p r b =
     (let t = push_bit 1 r XOR (if b then 2 ^ n else 0)
      in if bit t n then t XOR p else t)"

lemma gf2_mul_snoc: "gf2_mul (qs @ [q]) p = push_bit 1 (gf2_mul qs p) XOR (if q then p else 0)"
  by (simp add: gf2_mul_def)

lemma bits_val_snoc: "bits_val (bs @ [b]) = 2 * bits_val bs + of_bool b"
  by (simp add: bits_val_def)

lemma push_bits_val_snoc:
  "push_bit n (bits_val (bs @ [b])) =
     push_bit 1 (push_bit n (bits_val bs)) XOR (if b then 2 ^ n else 0)"
proof -
  have "2 * bits_val bs + of_bool b = push_bit 1 (bits_val bs) XOR of_bool b"
    by (cases b) (auto simp: push_bit_eq_mult xor_one_eq)
  then have "push_bit n (bits_val (bs @ [b])) =
      push_bit n (push_bit 1 (bits_val bs)) XOR push_bit n (of_bool b)"
    by (simp add: bits_val_snoc push_bit_xor)
  also have "push_bit n (of_bool b) = (if b then 2 ^ n else (0::int))"
    by (simp add: push_bit_eq_mult)
  finally show ?thesis by (simp add: push_bit_push_bit add.commute)
qed

lemma range_iff_bits: "(0 \<le> (x::int) \<and> x < 2 ^ n) \<longleftrightarrow> (\<forall>m\<ge>n. \<not> bit x m)"
proof -
  have "(0 \<le> x \<and> x < 2 ^ n) \<longleftrightarrow> take_bit n x = x"
    by (simp add: take_bit_int_eq_self_iff)
  also have "\<dots> \<longleftrightarrow> (\<forall>m. (m < n \<and> bit x m) = bit x m)"
    by (simp only: bit_eq_iff bit_take_bit_iff possible_bit_int simp_thms)
  also have "\<dots> \<longleftrightarrow> (\<forall>m\<ge>n. \<not> bit x m)"
    by (meson not_le)
  finally show ?thesis .
qed

lemma gf2_feed_range:
  assumes r: "0 \<le> r \<and> r < 2 ^ n" and p: "0 \<le> p \<and> p < 2 ^ (n + 1)" "bit p n"
  shows "0 \<le> gf2_feed n p r b \<and> gf2_feed n p r b < 2 ^ n"
proof -
  have r': "\<not> bit r m" if "n \<le> m" for m
    using r that unfolding range_iff_bits by blast
  have p': "\<not> bit p m" if "n + 1 \<le> m" for m
    using p(1) that unfolding range_iff_bits by blast
  have pow: "bit (2 ^ n :: int) m \<longleftrightarrow> m = n" for m
    by (auto simp: bit_exp_iff)
  have "\<not> bit (gf2_feed n p r b) m" if "n \<le> m" for m
    using that r' [of "m - 1"] p' [of m] p(2)
    by (cases "m = n") (auto simp: gf2_feed_def Let_def bit_xor_iff bit_push_bit_iff pow
        simp del: push_bit_Suc One_nat_def)
  then show ?thesis unfolding range_iff_bits by blast
qed

lemma xor_quotient_bit:
  "(a XOR (if c then p else 0)) XOR (if c then t XOR p else t) = a XOR (t :: int)"
  by (rule bit_eqI) (auto simp: bit_xor_iff)

text \<open>The register after a run is the remainder of the message times \<open>x\<^sup>n\<close>.\<close>

lemma gf2_run_remainder:
  "\<exists>qs. length qs = length bs \<and>
     gf2_mul qs p XOR foldl (gf2_feed n p) 0 bs = push_bit n (bits_val bs)"
proof (induction bs rule: rev_induct)
  case Nil
  show ?case by (simp add: gf2_mul_def bits_val_def)
next
  case (snoc b bs)
  then obtain qs where len: "length qs = length bs"
    and eq: "gf2_mul qs p XOR foldl (gf2_feed n p) 0 bs = push_bit n (bits_val bs)" by blast
  let ?r = "foldl (gf2_feed n p) 0 bs"
  let ?t = "push_bit 1 ?r XOR (if b then 2 ^ n else 0)"
  have "gf2_mul (qs @ [bit ?t n]) p XOR gf2_feed n p ?r b = push_bit 1 (gf2_mul qs p) XOR ?t"
    unfolding gf2_mul_snoc gf2_feed_def Let_def by (rule xor_quotient_bit)
  also have "\<dots> = push_bit 1 (gf2_mul qs p XOR ?r) XOR (if b then 2 ^ n else 0)"
    by (simp only: push_bit_xor xor.assoc)
  also have "\<dots> = push_bit n (bits_val (bs @ [b]))"
    by (simp only: eq push_bits_val_snoc)
  finally show ?case using len by (intro exI [of _ "qs @ [bit ?t n]"]) simp
qed

section \<open>The interface of a bit-serial register\<close>

text \<open>
  \<open>feed\<close> takes one message bit, highest first. The law is the one step; the locale's lemmas are
  what any register with that step computes.
\<close>

locale crc_register =
  fixes feed :: "u8 \<Rightarrow> bool \<Rightarrow> u8" and width :: nat and poly :: int
  assumes poly_range: "0 \<le> poly \<and> poly < 2 ^ (width + 1)"
    and poly_top: "bit poly width"
    and feed_gf2: "uint r < 2 ^ width \<Longrightarrow> uint (feed r b) = gf2_feed width poly (uint r) b"
begin

lemma feed_range: "uint r < 2 ^ width \<Longrightarrow> uint (feed r b) < 2 ^ width"
  using feed_gf2 gf2_feed_range [OF _ poly_range poly_top, of "uint r" b] by simp

lemma run_gf2:
  "uint r < 2 ^ width \<Longrightarrow>
     uint (foldl feed r bs) = foldl (gf2_feed width poly) (uint r) bs \<and>
     uint (foldl feed r bs) < 2 ^ width"
proof (induction bs arbitrary: r)
  case (Cons b bs)
  show ?case using Cons.IH [OF feed_range [OF Cons.prems, of b]] feed_gf2 [OF Cons.prems, of b]
    by simp
qed simp

lemma run_remainder:
  "uint (foldl feed 0 bs) < 2 ^ width \<and>
   (\<exists>qs. gf2_mul qs poly XOR uint (foldl feed 0 bs) = push_bit width (bits_val bs))"
  using run_gf2 [of 0 bs] gf2_run_remainder [of bs poly width] by auto

end

section \<open>Both registers keep the interface\<close>

text \<open>A step of either register, at the level of one bit of the integer it stands for.\<close>

lemma bit_133_high: "8 \<le> n \<Longrightarrow> \<not> bit (133 :: int) n"
  using range_iff_bits [of 133 8] by auto

lemma gf2_feed_alt:
  "gf2_feed n (2 ^ n XOR p) r b =
     (let t = push_bit 1 r XOR (if b then 2 ^ n else 0)
      in if bit t n then (t XOR 2 ^ n) XOR p else t)"
  by (simp only: gf2_feed_def Let_def xor.assoc)

lemma crc8_feed_gf2: "uint (crc8_feed r b) = gf2_feed 8 389 (uint r) b"
proof -
  have p: "(389::int) = 2 ^ 8 XOR 133" by simp
  have pow: "bit (256 :: int) m \<longleftrightarrow> m = 8" for m
    using bit_exp_iff [of 8 m, where 'a = int] by auto
  have top: "(w AND 128 \<noteq> 0) = bit w 7" for w :: u8
    using and_exp_eq_0_iff_not_bit [of w 7] by simp
  show ?thesis
  proof (rule bit_eqI)
    fix n :: nat
    have high: "8 < n \<Longrightarrow> \<not> bit r (n - 1)"
      by (auto dest: bit_imp_le_length)
    consider "n = 0" | "1 \<le> n" "n < 8" | "n = 8" | "8 < n" by linarith
    then show "bit (uint (crc8_feed r b)) n = bit (gf2_feed 8 389 (uint r) b) n"
      unfolding p gf2_feed_alt
      by cases (auto simp: crc8_feed_def Let_def top bit_simps pow bit_133_high high
          simp del: push_bit_Suc One_nat_def)
  qed
qed

interpretation crc8: crc_register crc8_feed 8 389
proof
  show "uint r < 2 ^ 8 \<Longrightarrow> uint (crc8_feed r b) = gf2_feed 8 389 (uint r) b" for r b
    by (rule crc8_feed_gf2)
qed simp_all

lemma crc5_feed_table:
  "\<forall>i\<in>set [0..<32]. \<forall>b. uint (crc5_feed (word_of_nat i) b) = gf2_feed 5 53 (int i) b"
  by code_simp

lemma crc5_feed_gf2:
  assumes "uint r < 2 ^ 5"
  shows "uint (crc5_feed r b) = gf2_feed 5 53 (uint r) b"
proof -
  have "uint r < 32" using assms by simp
  then have "int (unat r) < 32" unfolding uint_nat .
  then have "unat r < 32" by linarith
  then have "unat r \<in> set [0..<32]" by simp
  then have "uint (crc5_feed (word_of_nat (unat r)) b) = gf2_feed 5 53 (int (unat r)) b"
    using crc5_feed_table by blast
  moreover have "word_of_nat (unat r) = r" by simp
  ultimately show ?thesis unfolding uint_nat by (simp only:)
qed

interpretation crc5: crc_register crc5_feed 5 53
proof
  show "uint r < 2 ^ 5 \<Longrightarrow> uint (crc5_feed r b) = gf2_feed 5 53 (uint r) b" for r b
    by (rule crc5_feed_gf2)
qed simp_all

section \<open>The loops feed the message highest bit first\<close>

definition msb_bits :: "nat \<Rightarrow> int \<Rightarrow> bool list" where
  "msb_bits k x = map (\<lambda>i. bit x (k - 1 - i)) [0..<k]"

lemma msb_bits_0 [simp]: "msb_bits 0 x = []"
  by (simp add: msb_bits_def)

lemma msb_bits_Suc: "msb_bits (Suc k) x = bit x k # msb_bits k x"
  by (simp add: msb_bits_def upt_conv_Cons del: upt_Suc flip: map_Suc_upt)

lemma msb_bits_snoc: "msb_bits (Suc k) x = msb_bits k (x div 2) @ [bit x 0]"
  by (induction k) (simp_all add: msb_bits_Suc bit_Suc)

lemma bits_val_msb_bits: "bits_val (msb_bits k x) = take_bit k x"
proof (induction k arbitrary: x)
  case 0
  show ?case by (simp add: bits_val_def)
next
  case (Suc k)
  then show ?case
    by (simp add: msb_bits_snoc bits_val_snoc take_bit_Suc bit_0 mod_2_eq_odd)
qed

text \<open>A message bit leaves at the top while the message shifts up beneath it.\<close>

lemma crc5_loop_msb:
  "k \<le> 11 \<Longrightarrow> crc5_loop k (push_bit (11 - k) m AND 0x7FF) crc =
     foldl crc5_feed crc (msb_bits k (uint m))"
proof (induction k arbitrary: m crc)
  case (Suc k)
  have top: "(w AND 1024 \<noteq> 0) = bit w 10" for w :: u16
    using and_exp_eq_0_iff_not_bit [of w 10] by simp
  have "push_bit 1 (push_bit (11 - Suc k) m AND 0x7FF) AND 0x7FF = push_bit (11 - k) m AND (0x7FF :: u16)"
    using Suc.prems by (intro bit_word_eqI) (auto simp: bit_simps simp del: push_bit_Suc One_nat_def)
  moreover have "bit (push_bit (11 - Suc k) m AND 0x7FF :: u16) 10 = bit (uint m) k"
    using Suc.prems by (auto simp: bit_simps)
  ultimately show ?case
    using Suc by (simp add: top msb_bits_Suc)
qed simp

lemma crc5_foldl: "core_pak_addr_crc5 a = foldl crc5_feed 0 (msb_bits 11 (uint (drop_bit 5 a)))"
  using crc5_loop_msb [of 11 "drop_bit 5 a" 0] by (simp add: core_pak_addr_crc5_def)

lemma crc8_bits_msb:
  "k \<le> 8 \<Longrightarrow> crc8_bits k (push_bit (8 - k) byte) crc = foldl crc8_feed crc (msb_bits k (uint byte))"
proof (induction k arbitrary: crc)
  case (Suc k)
  have top: "(w AND 128 \<noteq> 0) = bit w 7" for w :: u8
    using and_exp_eq_0_iff_not_bit [of w 7] by simp
  have "push_bit 1 (push_bit (8 - Suc k) byte) = push_bit (8 - k) byte"
    using Suc.prems by (intro bit_word_eqI) (auto simp: bit_simps simp del: push_bit_Suc One_nat_def)
  moreover have "bit (push_bit (8 - Suc k) byte) 7 = bit (uint byte) k"
    using Suc.prems by (auto simp: bit_simps)
  ultimately show ?case
    using Suc by (simp add: top msb_bits_Suc)
qed simp

definition bytes_bits :: "u8 list \<Rightarrow> bool list" where
  "bytes_bits bs = concat (map (\<lambda>b. msb_bits 8 (uint b)) bs)"

lemma crc8_bytes_foldl: "crc8_bytes bs crc = foldl crc8_feed crc (bytes_bits bs)"
proof (induction bs arbitrary: crc)
  case (Cons b bs)
  then show ?case using crc8_bits_msb [of 8 b crc] by (simp add: bytes_bits_def)
qed (simp add: bytes_bits_def)

section \<open>What the checksums compute\<close>

lemma crc5_lt: "uint (core_pak_addr_crc5 a) < 32"
  using crc5.run_remainder [of "msb_bits 11 (uint (drop_bit 5 a))"] by (simp add: crc5_foldl)

lemma uint_drop_bit_5: "take_bit 11 (uint (drop_bit 5 a)) = uint (drop_bit 5 (a :: u16))"
  by (rule bit_eqI) (auto simp: bit_simps dest: bit_imp_le_length)

text \<open>The 5-bit address checksum is the remainder of the 11-bit block address times \<open>x\<^sup>5\<close> on
  division by \<open>x\<^sup>5 + x\<^sup>4 + x\<^sup>2 + 1\<close>, and it fits in five bits.\<close>

theorem crc5_is_remainder:
  "uint (core_pak_addr_crc5 a) < 32 \<and>
   (\<exists>q. gf2_mul q 53 XOR uint (core_pak_addr_crc5 a) = push_bit 5 (uint (drop_bit 5 a)))"
  using crc5.run_remainder [of "msb_bits 11 (uint (drop_bit 5 a))"]
  by (simp add: crc5_foldl bits_val_msb_bits uint_drop_bit_5)

text \<open>C32. The 8-bit data checksum is the remainder of the message, first byte and highest bit
  first, times \<open>x\<^sup>8\<close> on division by \<open>x\<^sup>8 + x\<^sup>7 + x\<^sup>2 + 1\<close>, whatever the length.\<close>

theorem crc8_is_remainder:
  "\<exists>q. gf2_mul q 389 XOR uint (core_pak_data_crc8 (Some d) len) =
     push_bit 8 (bits_val (bytes_bits (take len d)))"
  using crc8.run_remainder [of "bytes_bits (take len d)"]
  by (simp add: core_pak_data_crc8_def crc8_bytes_foldl)

subsection \<open>The wire word of an address\<close>

lemma bit_crc5_high: "5 \<le> n \<Longrightarrow> \<not> bit (core_pak_addr_crc5 a) n"
  using crc5_lt [of a] range_iff_bits [of "uint (core_pak_addr_crc5 a)" 5]
  by (auto simp: bit_simps dest: bit_imp_le_length)

lemma block_eq: "drop_bit 5 a AND 0x7FF = drop_bit 5 (a :: u16)"
  by (rule bit_word_eqI) (auto simp: bit_simps dest: bit_imp_le_length)

lemma encode_eq:
  "core_pak_addr_encode a = push_bit 5 (drop_bit 5 a) OR ucast (core_pak_addr_crc5 a)"
  by (simp only: core_pak_addr_encode_def Let_def block_eq)

lemma bit_encode:
  "bit (core_pak_addr_encode a) n \<longleftrightarrow>
     (if n < 5 then bit (core_pak_addr_crc5 a) n else bit a n)"
  by (auto simp: encode_eq bit_simps bit_crc5_high
      dest: bit_imp_le_length)

lemma encode_block: "drop_bit 5 (core_pak_addr_encode a) = drop_bit 5 a"
  by (rule bit_word_eqI) (simp add: bit_simps bit_encode)

lemma crc5_block: "drop_bit 5 a = drop_bit 5 b \<Longrightarrow> core_pak_addr_crc5 a = core_pak_addr_crc5 b"
  by (simp add: core_pak_addr_crc5_def)

lemma uint_encode:
  "uint (core_pak_addr_encode a) = push_bit 5 (uint (drop_bit 5 a)) XOR uint (core_pak_addr_crc5 a)"
  by (rule bit_eqI) (auto simp: bit_simps bit_encode bit_crc5_high dest: bit_imp_le_length)

text \<open>An encoded address carries the block address and its checksum: the block is read back
  from the top eleven bits, the checksum from the low five, encoding an encoded word changes
  nothing, and the wire word is a multiple of the generator polynomial.\<close>

theorem addr_encode_roundtrip:
  "drop_bit 5 (core_pak_addr_encode a) = drop_bit 5 a \<and>
   take_bit 5 (core_pak_addr_encode a) = ucast (core_pak_addr_crc5 a) \<and>
   core_pak_addr_encode (core_pak_addr_encode a) = core_pak_addr_encode a \<and>
   (\<exists>q. gf2_mul q 53 = uint (core_pak_addr_encode a))"
proof (intro conjI)
  show "drop_bit 5 (core_pak_addr_encode a) = drop_bit 5 a" by (rule encode_block)
  show "take_bit 5 (core_pak_addr_encode a) = ucast (core_pak_addr_crc5 a)"
    by (rule bit_word_eqI) (auto simp: bit_simps bit_encode bit_crc5_high)
  show "core_pak_addr_encode (core_pak_addr_encode a) = core_pak_addr_encode a"
    unfolding encode_eq [of "core_pak_addr_encode a"] encode_block crc5_block [OF encode_block]
    by (rule encode_eq [symmetric])
  obtain q where "gf2_mul q 53 XOR uint (core_pak_addr_crc5 a) = push_bit 5 (uint (drop_bit 5 a))"
    using crc5.run_remainder [of "msb_bits 11 (uint (drop_bit 5 a))"]
    by (auto simp: crc5_foldl bits_val_msb_bits uint_drop_bit_5)
  then have "gf2_mul q 53 = uint (core_pak_addr_encode a)"
    by (metis uint_encode xor.assoc xor_self_eq xor.right_neutral)
  then show "\<exists>q. gf2_mul q 53 = uint (core_pak_addr_encode a)" by blast
qed

subsection \<open>Corruption of a data block\<close>

text \<open>Feeding a bit is a shift of the register with that bit added at the top. The shift is linear
  and one to one, so eight feeds of a byte are one permutation of the register XOR the byte.\<close>

definition crc8_shift :: "u8 \<Rightarrow> u8" where
  "crc8_shift w = push_bit 1 w XOR (if bit w 7 then 0x85 else 0)"

definition crc8_table :: "u8 \<Rightarrow> u8" where
  "crc8_table x = (crc8_shift ^^ 8) x"

lemma and_128_bit: "(w AND 128 \<noteq> 0) = bit (w :: u8) 7"
  using and_exp_eq_0_iff_not_bit [of w 7] by simp

lemma crc8_feed_shift: "crc8_feed r b = crc8_shift (if b then r XOR 0x80 else r)"
  by (simp add: crc8_feed_def crc8_shift_def Let_def and_128_bit)

lemma crc8_shift_xor: "crc8_shift (x XOR y) = crc8_shift x XOR crc8_shift y"
proof -
  have "crc8_shift (x XOR y) = (push_bit 1 x XOR push_bit 1 y) XOR
      (if bit x 7 \<noteq> bit y 7 then 0x85 else 0)"
    by (simp only: crc8_shift_def push_bit_xor bit_xor_iff)
  then show ?thesis
    by (cases "bit x 7"; cases "bit y 7")
      (simp_all only: crc8_shift_def simp_thms if_True if_False xor.right_neutral ac_simps
        xor_self_eq xor.left_commute, simp_all)
qed

lemma crc8_shift_kernel: "\<forall>i\<in>set [0..<256]. crc8_shift (word_of_nat i) = 0 \<longrightarrow> i = 0"
  by code_simp

lemma crc8_shift_0: "crc8_shift x = 0 \<Longrightarrow> x = 0"
proof -
  assume a: "crc8_shift x = 0"
  have "unat x \<in> set [0..<256]" using unsigned_less [of x, where 'a = nat] by simp
  moreover have "word_of_nat (unat x) = x" by simp
  ultimately have "unat x = 0" using crc8_shift_kernel a by metis
  then show ?thesis by (simp add: unat_eq_zero)
qed

lemma crc8_shift_inj: "crc8_shift x = crc8_shift y \<Longrightarrow> x = y"
  using crc8_shift_0 [of "x XOR y"] by (simp add: crc8_shift_xor)

lemma crc8_table_inj: "crc8_table x = crc8_table y \<longleftrightarrow> x = y"
proof -
  have "(crc8_shift ^^ n) x = (crc8_shift ^^ n) y \<Longrightarrow> x = y" for n
    by (induction n arbitrary: x y) (auto dest: crc8_shift_inj)
  then show ?thesis by (auto simp: crc8_table_def)
qed

lemma crc8_shift_128: "crc8_shift 128 = 0x85"
  by code_simp

lemma crc8_shift_feed:
  "crc8_shift (crc XOR byte) = crc8_feed crc (bit byte 7) XOR push_bit 1 byte"
proof -
  have "crc8_shift byte = push_bit 1 byte XOR (if bit byte 7 then crc8_shift 0x80 else 0)"
    unfolding crc8_shift_128 by (simp add: crc8_shift_def)
  then show ?thesis
    by (simp add: crc8_feed_shift crc8_shift_xor ac_simps del: push_bit_Suc One_nat_def)
qed

lemma crc8_bits_shift:
  "crc8_bits k byte crc = (crc8_shift ^^ k) (crc XOR byte) XOR push_bit k byte"
proof (induction k arbitrary: byte crc)
  case (Suc k)
  have "crc8_bits (Suc k) byte crc =
      (crc8_shift ^^ k) (crc8_feed crc (bit byte 7) XOR push_bit 1 byte XOR 0)
        XOR push_bit k (push_bit 1 byte)"
    by (simp only: crc8_bits.simps Suc.IH and_128_bit xor.right_neutral)
  also have "\<dots> = (crc8_shift ^^ k) (crc8_shift (crc XOR byte)) XOR push_bit (Suc k) byte"
    by (simp only: crc8_shift_feed xor.right_neutral push_bit_push_bit) simp
  finally show ?case by (simp add: funpow_swap1 del: push_bit_Suc)
qed simp

lemma crc8_byte_table: "crc8_bits 8 byte crc = crc8_table (crc XOR byte)"
proof -
  have "push_bit 8 byte = (0 :: u8)" by (rule bit_word_eqI) (simp add: bit_simps)
  then show ?thesis by (simp add: crc8_bits_shift crc8_table_def)
qed

lemma crc8_bytes_append: "crc8_bytes (xs @ ys) crc = crc8_bytes ys (crc8_bytes xs crc)"
  by (induction xs arbitrary: crc) simp_all

lemma crc8_bytes_inj: "crc8_bytes bs r = crc8_bytes bs s \<longleftrightarrow> r = s"
  by (induction bs arbitrary: r s)
    (simp_all add: crc8_byte_table crc8_table_inj del: crc8_bits.simps)

lemma crc8_table_zero: "crc8_table 0 = 0"
  by code_simp

text \<open>The bit-serial data checksum equals the byte-at-a-time form over a 256-entry permutation;
  a block followed by its own checksum sums to zero, which is how a receiver accepts it.\<close>

theorem crc8_bytewise:
  "core_pak_data_crc8 (Some d) len = foldl (\<lambda>c b. crc8_table (c XOR b)) 0 (take len d) \<and>
   inj crc8_table \<and>
   core_pak_data_crc8 (Some (d @ [core_pak_data_crc8 (Some d) (length d)])) (length d + 1) = 0"
proof (intro conjI)
  have "crc8_bytes bs c = foldl (\<lambda>c b. crc8_table (c XOR b)) c bs" for bs c
    by (induction bs arbitrary: c) (simp_all add: crc8_byte_table)
  then show "core_pak_data_crc8 (Some d) len = foldl (\<lambda>c b. crc8_table (c XOR b)) 0 (take len d)"
    by (simp add: core_pak_data_crc8_def)
  show "inj crc8_table" by (rule injI) (simp add: crc8_table_inj)
  show "core_pak_data_crc8 (Some (d @ [core_pak_data_crc8 (Some d) (length d)])) (length d + 1) = 0"
    by (simp add: core_pak_data_crc8_def crc8_bytes_append crc8_byte_table crc8_table_zero
        del: crc8_bits.simps)
qed

text \<open>A block in which exactly one of the bytes summed has changed never keeps its
  checksum, so the compare of a Pak read (\<open>ioctl.c\<close>) always sees such a corruption.\<close>

theorem crc8_detects_byte:
  assumes "i < length d" and "i < len" and "b \<noteq> d ! i"
  shows "core_pak_data_crc8 (Some (d[i := b])) len \<noteq> core_pak_data_crc8 (Some d) len"
proof -
  let ?d = "take len d"
  have i: "i < length ?d" using assms by simp
  have old: "?d = take i ?d @ d ! i # drop (Suc i) ?d"
    using id_take_nth_drop [OF i] assms(2) by simp
  have new: "take len (d[i := b]) = take i ?d @ b # drop (Suc i) ?d"
    using upd_conv_take_nth_drop [OF i, of b] by (simp add: take_update_swap)
  show ?thesis
    using assms(3) unfolding core_pak_data_crc8_def option.case new
    by (subst old) (simp add: crc8_bytes_append crc8_bytes_inj crc8_byte_table crc8_table_inj
        del: crc8_bits.simps)
qed

theorem crc8_detects_byte_witness:
  "core_pak_data_crc8 (Some ([1, 2, 3][1 := 7])) 3 \<noteq> core_pak_data_crc8 (Some [1, 2, 3]) 3"
  using crc8_detects_byte [of 1 "[1, 2, 3]" 3 7] by simp

end
