(* ===== verification/Hid_Reports.thy ===== *)
theory Hid_Reports
  imports Core_State
begin

text \<open>
  The report side of \<open>src_drv/core.c\<close>: the stick and button decode, the packed joystick report,
  the keyboard and mouse state machines, the joystick submit, and the report descriptors. The
  lemmas give the range and the shape of the stick response, the exact meaning of every bit the
  host sees, the abstract keyboard (a modifier byte and the held keys in press order) that the
  dense array implements, and the agreement of the descriptor with what is emitted.
\<close>

section \<open>The stick and the buttons\<close>

text \<open>The negation of Y happens in eight bits.\<close>

definition negate_y :: "s32 \<Rightarrow> s32" where
  "negate_y raw_y = (let y = to_s32 (- raw_y) in if y > 127 then - 128 else y)"

definition clip_to :: "s32 \<Rightarrow> s32 \<Rightarrow> s32" where
  "clip_to limit v =
     (let v = (if v > limit then limit else v) in if v < - limit then - limit else v)"

definition core_decode_stick :: "s32 \<Rightarrow> s32 \<Rightarrow> 'w core_state \<Rightarrow> 'w core_state" where
  "core_decode_stick raw_x raw_y cs =
     (let raw_y = negate_y raw_y;
          x = to_s32 (raw_x * 16);
          y = to_s32 (raw_y * 16);
          (x, y) =
            (if stick_stretch cs \<noteq> 0 then
               let ax = (if raw_x < 0 then to_s32 (- raw_x) else raw_x);
                   ay = (if raw_y < 0 then to_s32 (- raw_y) else raw_y)
               in (to_s32 (x + to_s32 (ay * stick_stretch cs * raw_x) sdiv 256),
                   to_s32 (y + to_s32 (ax * stick_stretch cs * raw_y) sdiv 256))
             else (x, y));
          (x, y) =
            (if stick_clip cs \<noteq> 0 \<and> stick_clip cs \<noteq> 75 then
               (to_s32 (to_s32 (x * 75) sdiv stick_clip cs),
                to_s32 (to_s32 (y * 75) sdiv stick_clip cs))
             else (x, y))
      in cs\<lparr>stick_x := to_s16 (clip_to 1200 x), stick_y := to_s16 (clip_to 1200 y)\<rparr>)"

definition core_decode_buttons :: "u32 \<Rightarrow> u32 \<Rightarrow> 'w core_state \<Rightarrow> 'w core_state" where
  "core_decode_buttons lo hi cs =
     (let word = push_bit 8 lo OR hi
      in cs\<lparr>buttons := foldl (\<lambda>mask i.
           if word AND push_bit (15 - i) 1 \<noteq> 0 then
             let dest = button_map cs ! i
             in if dest \<noteq> 0xFF then mask OR ucast (push_bit (unat dest) (1 :: u32)) else mask
           else mask) 0 [0..<16]\<rparr>)"

text \<open>The five bytes \<open>core_pack_joystick\<close> writes at the front of the caller's buffer.\<close>

definition core_pack_joystick :: "'w core_state \<Rightarrow> u8 list \<Rightarrow> u8 list" where
  "core_pack_joystick cs out =
     (let x = u32_of (stick_x cs) AND 0xFFF;
          y = u32_of (stick_y cs) AND 0xFFF
      in out[0 := ucast (x AND 0xFF),
             1 := ucast ((drop_bit 8 x AND 0x0F) OR push_bit 4 (y AND 0x0F)),
             2 := ucast (drop_bit 4 y AND 0xFF),
             3 := ucast (buttons cs AND 0xFF),
             4 := ucast (drop_bit 8 (buttons cs) AND 0xFF)])"

section \<open>The keyboard\<close>

definition core_hid_key_report :: "'w seams \<Rightarrow> 'w core_state \<Rightarrow> 'w core_state" where
  "core_hid_key_report S cs =
     (let keys = (if key_down_count cs > 10 then replicate 10 0x01
                  else map (\<lambda>i. if int i < key_down_count cs then keys_down cs ! i else 0) [0..<10])
      in core_emit S 2 ([key_modifiers cs, 0] @ keys) 12 cs)"

text \<open>The search loop of \<open>core_hid_key_event\<close>, and the loop that closes the gap.\<close>

function key_search :: "u8 list \<Rightarrow> s32 \<Rightarrow> u8 \<Rightarrow> s32 \<Rightarrow> s32" where
  "key_search keys n usage at =
     (if at < n \<and> keys ! nat at \<noteq> usage then key_search keys n usage (at + 1) else at)"
  by pat_completeness auto
termination by (relation "measure (\<lambda>(keys, n, usage, at). nat (n - at))") auto

function key_close :: "s32 \<Rightarrow> s32 \<Rightarrow> u8 list \<Rightarrow> u8 list" where
  "key_close at n keys =
     (if at < n - 1 then key_close (at + 1) n (keys[nat at := keys ! nat (at + 1)]) else keys)"
  by pat_completeness auto
termination by (relation "measure (\<lambda>(at, n, keys). nat (n - at))") auto

declare key_search.simps [simp del] key_close.simps [simp del]

definition core_hid_key_event ::
    "'w seams \<Rightarrow> u32 \<Rightarrow> bool \<Rightarrow> 'w core_state \<Rightarrow> 'w core_state" where
  "core_hid_key_event S usage down cs =
     (let (changed, cs) =
        (if 0xE0 \<le> usage \<and> usage \<le> 0xE7 then
           let b = ucast (push_bit (unat (usage - 0xE0)) (1 :: u32))
           in if down
              then (key_modifiers cs AND b = 0, cs\<lparr>key_modifiers := key_modifiers cs OR b\<rparr>)
              else (key_modifiers cs AND b \<noteq> 0, cs\<lparr>key_modifiers := key_modifiers cs AND NOT b\<rparr>)
         else if 0x04 \<le> usage \<and> usage \<le> 0xA4 then
           let n = key_down_count cs;
               at = key_search (keys_down cs) n (ucast usage) 0
           in if down
              then if at = n \<and> n < 165
                   then (True, cs\<lparr>keys_down := (keys_down cs)[nat n := ucast usage],
                                  key_down_count := n + 1\<rparr>)
                   else (False, cs)
              else if at < n
                   then (True, cs\<lparr>keys_down := key_close at n (keys_down cs),
                                  key_down_count := n - 1\<rparr>)
                   else (False, cs)
         else if usage = 0 then
           (key_modifiers cs \<noteq> 0 \<or> key_down_count cs \<noteq> 0,
            cs\<lparr>key_modifiers := 0, key_down_count := 0\<rparr>)
         else (False, cs))
      in if changed then core_hid_key_report S cs else cs)"

section \<open>The mouse\<close>

definition core_hid_mouse_button ::
    "'w seams \<Rightarrow> u32 \<Rightarrow> bool \<Rightarrow> 'w core_state \<Rightarrow> 'w core_state" where
  "core_hid_mouse_button S button down cs =
     (if button < 1 \<or> 3 < button then cs
      else
        let b = ucast (push_bit (unat (button - 1)) (1 :: u32));
            before = mouse_buttons cs;
            cs = cs\<lparr>mouse_buttons := (if down then before OR b else before AND NOT b)\<rparr>
        in if mouse_buttons cs = before then cs
           else core_emit S 3 [mouse_buttons cs, 0, 0, 0] 4 cs)"

definition core_hid_mouse_move ::
    "'w seams \<Rightarrow> s32 \<Rightarrow> s32 \<Rightarrow> s32 \<Rightarrow> 'w core_state \<Rightarrow> 'w core_state" where
  "core_hid_mouse_move S dx dy wheel cs =
     (let cs = cs\<lparr>mouse_total_x := to_s32 (mouse_total_x cs + dx),
                  mouse_total_y := to_s32 (mouse_total_y cs + dy),
                  mouse_total_wheel := to_s32 (mouse_total_wheel cs + wheel)\<rparr>
      in core_emit S 3 [mouse_buttons cs, u8_of dx, u8_of dy, u8_of wheel] 4 cs)"

section \<open>The joystick submit\<close>

definition core_submit_joystick ::
    "'w seams \<Rightarrow> u8 list option \<Rightarrow> 'w core_state \<Rightarrow> 'w core_state" where
  "core_submit_joystick S report cs =
     (let cs = (case report of
                  None \<Rightarrow> cs\<lparr>virtual_mode := (if reports_enabled cs then 3 else 0)\<rparr>
                | Some r \<Rightarrow> cs\<lparr>last_report := take 5 r\<rparr>)
      in if virtual_mode cs = 0
         then core_emit S 1 (case report of None \<Rightarrow> last_report cs | Some r \<Rightarrow> take 5 r) 5 cs
         else if report \<noteq> None then cs
         else core_emit S 1
                [1, ucast (push_bit 4 (u32_of (instance_id cs))), u8_of (drop_bit 4 (instance_id cs)),
                 0, 0] 5 cs)"

section \<open>The report descriptors\<close>

definition CORE_HID_DESCRIPTOR :: "u8 list" where
  "CORE_HID_DESCRIPTOR =
    [0x05, 0x01, 0x09, 0x02, 0xA1, 0x01, 0x09, 0x01, 0xA1, 0x00, 0x85, 0x03,
     0x05, 0x09, 0x19, 0x01, 0x29, 0x03, 0x15, 0x00, 0x25, 0x01, 0x75, 0x01,
     0x95, 0x03, 0x81, 0x02, 0x75, 0x05, 0x95, 0x01, 0x81, 0x01, 0x05, 0x01,
     0x09, 0x30, 0x09, 0x31, 0x09, 0x38, 0x15, 0x81, 0x25, 0x7F, 0x75, 0x08,
     0x95, 0x03, 0x81, 0x06, 0xC0, 0xC0, 0x05, 0x01, 0x09, 0x06, 0xA1, 0x01,
     0x85, 0x02, 0x05, 0x07, 0x19, 0xE0, 0x29, 0xE7, 0x15, 0x00, 0x25, 0x01,
     0x75, 0x01, 0x95, 0x08, 0x81, 0x02, 0x95, 0x01, 0x75, 0x08, 0x81, 0x01,
     0x95, 0x05, 0x75, 0x01, 0x05, 0x08, 0x19, 0x01, 0x29, 0x05, 0x91, 0x02,
     0x95, 0x01, 0x75, 0x03, 0x91, 0x01, 0x95, 0x0A, 0x75, 0x08, 0x05, 0x07,
     0x19, 0x00, 0x2A, 0xA5, 0x00, 0x15, 0x00, 0x26, 0xA5, 0x00, 0x81, 0x00,
     0xC0, 0x05, 0x01, 0x09, 0x04, 0xA1, 0x01, 0x09, 0x01, 0xA1, 0x00, 0x85,
     0x01, 0x05, 0x01, 0x09, 0x30, 0x09, 0x31, 0x16, 0x50, 0xFB, 0x26, 0xB0,
     0x04, 0x36, 0x00, 0x00, 0x46, 0x60, 0x09, 0x75, 0x0C, 0x95, 0x02, 0x81,
     0x02, 0xC0, 0x05, 0x09, 0x19, 0x01, 0x29, 0x0E, 0x15, 0x00, 0x25, 0x01,
     0x35, 0x00, 0x45, 0x01, 0x75, 0x01, 0x95, 0x0E, 0x81, 0x02, 0x95, 0x02,
     0x75, 0x01, 0x81, 0x01, 0xC0]"

definition CORE_HID_DESC_TABLE :: "(nat \<times> u32) list" where
  "CORE_HID_DESC_TABLE = [(121, 64), (121, 64), (121, 64), (121, 64), (121, 64), (121, 64),
     (0, 121), (0, 185)]"

text \<open>The pointer the code returns is the descriptor from the table's offset on; the length is
  the out parameter.\<close>

definition core_hid_descriptor :: "u32 \<Rightarrow> u8 list \<times> u32" where
  "core_hid_descriptor m =
     (let i = m AND 7; (offset, len) = CORE_HID_DESC_TABLE ! unat i
      in (drop offset CORE_HID_DESCRIPTOR, len))"

section \<open>The stick response\<close>

lemma clip_to_eq: "0 \<le> l \<Longrightarrow> clip_to l v = max (- l) (min l v)"
  by (auto simp: clip_to_def Let_def)

lemma clip_1200_range: "- 1200 \<le> clip_to 1200 v" "clip_to 1200 v \<le> 1200"
  by (simp_all add: clip_to_eq)

lemma to_s16_clip [simp]: "to_s16 (clip_to 1200 v) = clip_to 1200 v"
  using clip_1200_range [of v] by (intro to_s16_id) (simp add: is_s16_def)

text \<open>The response of one axis without any reduction, \<open>v\<close> the axis and \<open>w\<close> the other one.\<close>

definition stick_warp :: "s32 \<Rightarrow> s32 \<Rightarrow> s32 \<Rightarrow> s32" where
  "stick_warp stretch v w = 16 * v + (\<bar>w\<bar> * stretch * v) sdiv 256"

definition stick_scale :: "s32 \<Rightarrow> s32 \<Rightarrow> s32" where
  "stick_scale clip t = (if clip \<noteq> 0 \<and> clip \<noteq> 75 then (t * 75) sdiv clip else t)"

definition stick_axis :: "s32 \<Rightarrow> s32 \<Rightarrow> s32 \<Rightarrow> s32 \<Rightarrow> s32" where
  "stick_axis stretch clip v w = clip_to 1200 (stick_scale clip (stick_warp stretch v w))"

lemma negate_y_s8: "is_s8 v \<Longrightarrow> negate_y v = (if v = - 128 then - 128 else - v)"
proof -
  assume v: "is_s8 v"
  then have "to_s32 (- v) = - v" by (intro to_s32_id) (auto simp: is_s8_def is_s32_def)
  with v show ?thesis by (auto simp: negate_y_def Let_def is_s8_def)
qed

lemma negate_y_range: "is_s8 v \<Longrightarrow> is_s8 (negate_y v)"
  by (simp add: negate_y_s8) (auto simp: is_s8_def)

lemma stretch_term_bound:
  assumes "is_s8 v" and "is_s8 w" and "\<bar>s\<bar> \<le> 65536"
  shows "\<bar>\<bar>w\<bar> * s * v\<bar> \<le> 1073741824"
proof -
  have "\<bar>w\<bar> \<le> 128" "\<bar>v\<bar> \<le> 128" using assms by (auto simp: is_s8_def)
  then have "\<bar>w\<bar> * \<bar>s\<bar> * \<bar>v\<bar> \<le> 128 * 65536 * 128"
    using assms(3) by (intro mult_mono mult_nonneg_nonneg) auto
  then show ?thesis by (simp add: abs_mult)
qed

text \<open>With a stretch of up to 65536 nothing in the decode of a packet wraps.\<close>

lemma stick_warp_bound:
  assumes v: "is_s8 v" and w: "is_s8 w" and s: "\<bar>s\<bar> \<le> 65536"
  shows "\<bar>(\<bar>w\<bar> * s * v) sdiv 256\<bar> \<le> 4194304" and "\<bar>stick_warp s v w\<bar> \<le> 4196352"
proof -
  let ?m = "\<bar>w\<bar> * s * v"
  have m: "\<bar>?m\<bar> \<le> 1073741824" by (rule stretch_term_bound [OF v w s])
  then show q: "\<bar>?m sdiv 256\<bar> \<le> 4194304"
    using sdiv_mono [of 256 ?m 1073741824] sdiv_mono [of 256 "- 1073741824" ?m]
    by (simp add: sdiv_neg sdiv_pos abs_le_iff)
  then show "\<bar>stick_warp s v w\<bar> \<le> 4196352"
    using v unfolding stick_warp_def is_s8_def by linarith
qed

lemma s8_times_16: "is_s8 v \<Longrightarrow> to_s32 (v * 16) = stick_warp 0 v w"
  by (subst to_s32_id) (auto simp: is_s8_def is_s32_def stick_warp_def)

lemma s8_abs: "is_s8 w \<Longrightarrow> (if w < 0 then to_s32 (- w) else w) = \<bar>w\<bar>"
  by (subst to_s32_id) (auto simp: is_s8_def is_s32_def)

lemma stick_warp_reduce:
  assumes v: "is_s8 v" and w: "is_s8 w" and s: "\<bar>s\<bar> \<le> 65536"
  shows "to_s32 (stick_warp 0 v w + to_s32 (\<bar>w\<bar> * s * v) sdiv 256) = stick_warp s v w"
proof -
  have "is_s32 (\<bar>w\<bar> * s * v)"
    using stretch_term_bound [OF v w s] unfolding is_s32_def by linarith
  moreover have "is_s32 (stick_warp s v w)"
    using stick_warp_bound(2) [OF v w s] unfolding is_s32_def by linarith
  ultimately show ?thesis by (simp add: to_s32_id stick_warp_def)
qed

lemma stick_scale_reduce:
  assumes "\<bar>t\<bar> \<le> 4196352"
  shows "to_s32 (to_s32 (t * 75) sdiv c) = (t * 75) sdiv c"
proof -
  have "is_s32 (t * 75)" using assms unfolding is_s32_def by linarith
  moreover have "is_s32 ((t * 75) sdiv c)"
    using abs_sdiv_le [of "t * 75" c] assms unfolding is_s32_def by linarith
  ultimately show ?thesis by (simp add: to_s32_id)
qed

lemma decode_stick_axis:
  assumes "is_s8 rx" and "is_s8 ry" and "\<bar>stick_stretch cs\<bar> \<le> 65536"
  shows "core_decode_stick rx ry cs =
    cs\<lparr>stick_x := stick_axis (stick_stretch cs) (stick_clip cs) rx (negate_y ry),
       stick_y := stick_axis (stick_stretch cs) (stick_clip cs) (negate_y ry) rx\<rparr>"
proof -
  let ?ry = "negate_y ry" and ?s = "stick_stretch cs"
  have ry: "is_s8 ?ry" by (rule negate_y_range [OF assms(2)])
  note scale = stick_scale_reduce [OF stick_warp_bound(2) [OF assms(1) ry assms(3)]]
    stick_scale_reduce [OF stick_warp_bound(2) [OF ry assms(1) assms(3)]]
  note warp = s8_times_16 [OF assms(1), of ?ry] s8_times_16 [OF ry, of rx]
    s8_abs [OF assms(1)] s8_abs [OF ry] stick_warp_reduce [OF assms(1) ry assms(3)]
    stick_warp_reduce [OF ry assms(1) assms(3)]
  show ?thesis
    unfolding core_decode_stick_def Let_def warp
    using scale by (cases "?s = 0") (simp_all add: stick_axis_def stick_scale_def)
qed

lemma stick_axis_neg: "stick_axis s c (- v) w = - stick_axis s c v w"
proof -
  have "stick_warp s (- v) w = - stick_warp s v w"
    by (simp add: stick_warp_def sdiv_minus)
  moreover have "stick_scale c (- t) = - stick_scale c t" for t
    using sdiv_minus [of "t * 75" c] by (simp add: stick_scale_def)
  moreover have "clip_to 1200 (- t) = - clip_to 1200 t" for t
    by (simp add: clip_to_eq max_def min_def)
  ultimately show ?thesis by (simp add: stick_axis_def)
qed

lemma stick_axis_mono:
  assumes "0 \<le> s" and "0 \<le> c" and "v \<le> v'"
  shows "stick_axis s c v w \<le> stick_axis s c v' w"
proof -
  have "\<bar>w\<bar> * s * v \<le> \<bar>w\<bar> * s * v'" using assms by (intro mult_left_mono) auto
  then have "stick_warp s v w \<le> stick_warp s v' w"
    using assms(3) unfolding stick_warp_def by (intro add_mono sdiv_mono) auto
  moreover have "stick_scale c t \<le> stick_scale c t'" if "t \<le> t'" for t t'
    using that assms(2) sdiv_mono [of c "t * 75" "t' * 75"] by (simp add: stick_scale_def)
  ultimately have "stick_scale c (stick_warp s v w) \<le> stick_scale c (stick_warp s v' w)" by blast
  then show ?thesis
    unfolding stick_axis_def by (simp add: clip_to_eq max_def min_def)
qed

text \<open>Whatever the packet and whatever the two tunables, a decoded stick is within the range
  the report descriptor declares.\<close>

theorem decode_stick_range:
  "stick_x (core_decode_stick rx ry cs) \<in> {- 1200..1200} \<and>
   stick_y (core_decode_stick rx ry cs) \<in> {- 1200..1200}"
  using clip_1200_range
  by (simp add: core_decode_stick_def Let_def split: prod.split)

text \<open>The deflection beyond which the response is at its limit; 75 when the clip is not set.\<close>

definition stick_reach :: "s32 \<Rightarrow> s32" where
  "stick_reach clip = (if clip = 0 then 75 else clip)"

lemma stick_axis_full:
  assumes "0 \<le> s" and "0 \<le> c" and "stick_reach c \<le> v"
  shows "stick_axis s c v w = 1200"
proof -
  have c: "0 < stick_reach c" "0 < v" using assms(2,3) by (auto simp: stick_reach_def split: if_splits)
  have "0 \<le> (\<bar>w\<bar> * s * v) sdiv 256" using assms(1) c by (simp add: sdiv_pos pos_imp_zdiv_nonneg_iff)
  then have warp: "16 * stick_reach c \<le> stick_warp s v w" using assms(3) unfolding stick_warp_def by linarith
  have "1200 \<le> stick_scale c (stick_warp s v w)"
  proof (cases "c \<noteq> 0 \<and> c \<noteq> 75")
    case True
    then have pos: "0 < c" "16 * c \<le> stick_warp s v w" using warp assms(2) by (simp_all add: stick_reach_def)
    then have "1200 * c \<le> stick_warp s v w * 75" by simp
    then have "(1200 * c) div c \<le> (stick_warp s v w * 75) div c" using pos(1) by (rule zdiv_mono1)
    then show ?thesis using True pos by (simp add: stick_scale_def sdiv_pos)
  next
    case False
    then show ?thesis using warp by (auto simp: stick_scale_def stick_reach_def)
  qed
  then show ?thesis by (simp add: stick_axis_def clip_to_eq)
qed

text \<open>C30. For the tunables a configurator writes, the response is centred, odd in each axis and monotone, up on the
  stick being down in the report, and it is at its limit of 1200 for every deflection from the clip on: a stick
  pushed further never reports less, and one pushed all the way reports everything. The one input that has no
  opposite, -128, is left out where an opposite is meant; on the vertical axis it reports the wrong end.\<close>

theorem decode_stick_response:
  assumes "is_s8 rx" and "is_s8 rx'" and "is_s8 ry" and "is_s8 ry'"
    and "0 \<le> stick_stretch cs" and "stick_stretch cs \<le> 65536" and "0 \<le> stick_clip cs"
  shows "stick_x (core_decode_stick 0 ry cs) = 0 \<and> stick_y (core_decode_stick rx 0 cs) = 0 \<and>
    (rx \<noteq> - 128 \<longrightarrow> stick_x (core_decode_stick (- rx) ry cs) = - stick_x (core_decode_stick rx ry cs)) \<and>
    (ry \<noteq> - 128 \<longrightarrow> stick_y (core_decode_stick rx (- ry) cs) = - stick_y (core_decode_stick rx ry cs)) \<and>
    (rx \<le> rx' \<longrightarrow> stick_x (core_decode_stick rx ry cs) \<le> stick_x (core_decode_stick rx' ry cs)) \<and>
    (- 128 < ry \<and> ry \<le> ry' \<longrightarrow>
       stick_y (core_decode_stick rx ry' cs) \<le> stick_y (core_decode_stick rx ry cs)) \<and>
    (stick_reach (stick_clip cs) \<le> rx \<longrightarrow> stick_x (core_decode_stick rx ry cs) = 1200) \<and>
    (rx \<le> - stick_reach (stick_clip cs) \<longrightarrow> stick_x (core_decode_stick rx ry cs) = - 1200) \<and>
    (stick_reach (stick_clip cs) \<le> ry \<longrightarrow> stick_y (core_decode_stick rx ry cs) = - 1200) \<and>
    (- 128 < ry \<and> ry \<le> - stick_reach (stick_clip cs) \<longrightarrow> stick_y (core_decode_stick rx ry cs) = 1200)"
proof -
  have s: "\<bar>stick_stretch cs\<bar> \<le> 65536" using assms by simp
  have z: "is_s8 0" by (simp add: is_s8_def)
  have n: "v \<noteq> - 128 \<Longrightarrow> is_s8 v \<Longrightarrow> is_s8 (- v)" for v by (auto simp: is_s8_def)
  have opp: "is_s8 v \<Longrightarrow> v \<noteq> - 128 \<Longrightarrow> - v \<noteq> - 128" for v by (auto simp: is_s8_def)
  have zero: "stick_axis a c 0 w = 0" for a c w
    using stick_axis_neg [of a c 0 w] by simp
  have above: "ry' \<noteq> - 128" if "- 128 < ry \<and> ry \<le> ry'" using that by simp
  note full = stick_axis_full [OF assms(5,7)]
  have low: "stick_axis (stick_stretch cs) (stick_clip cs) v w = - 1200" if "v \<le> - stick_reach (stick_clip cs)" for v w
    using full [of "- v" w] that by (simp add: stick_axis_neg)
  show ?thesis
    using assms s z zero above n [of rx] n [of ry] opp [of ry] full low
    by (auto simp: decode_stick_axis negate_y_s8 stick_axis_neg intro!: stick_axis_mono)
qed

theorem decode_stick_response_witness:
  "stick_x (core_decode_stick 40 20 (core_init 1 0 (core_zeroed ()))) \<le> 1200 \<and>
   stick_x (core_decode_stick 80 20 (core_init 1 0 (core_zeroed ()))) = 1200"
  using decode_stick_response [of 40 80 20 21 "core_init 1 0 (core_zeroed ())"]
    decode_stick_response [of 80 80 20 21 "core_init 1 0 (core_zeroed ())"]
  by (simp add: is_s8_def core_init_def stick_reach_def)

section \<open>The buttons\<close>

text \<open>The raw button with index \<open>i\<close>: bit 7 of the low byte first, bit 0 of the high byte last.\<close>

definition raw_pressed :: "u8 \<Rightarrow> u8 \<Rightarrow> nat \<Rightarrow> bool" where
  "raw_pressed lo hi i = (if i < 8 then bit lo (7 - i) else bit hi (15 - i))"

lemma bit_foldl_or:
  "bit (foldl (\<lambda>m i. if c i then m OR f i else m) m0 xs :: 'a::len word) d \<longleftrightarrow>
     bit m0 d \<or> (\<exists>i\<in>set xs. c i \<and> bit (f i) d)"
  by (induction xs arbitrary: m0) (auto simp: bit_or_iff)

lemma and_exp_bit: "(w AND 2 ^ k \<noteq> 0) = bit (w :: 'a::len word) k"
  using and_exp_eq_0_iff_not_bit [of w k] by simp

lemma bit_button_word:
  "i < 16 \<Longrightarrow> bit (push_bit 8 (ucast lo) OR ucast hi :: u32) (15 - i) = raw_pressed lo hi i"
  by (auto simp: raw_pressed_def bit_simps dest: bit_imp_le_length)

lemma buttons_foldl:
  "buttons (core_decode_buttons lo hi cs) = foldl (\<lambda>mask i.
     if (push_bit 8 lo OR hi) AND 2 ^ (15 - i) \<noteq> 0 then
       let dest = button_map cs ! i
       in if dest \<noteq> 0xFF then mask OR ucast (2 ^ unat dest :: u32) else mask
     else mask) 0 [0..<16]"
  unfolding core_decode_buttons_def Let_def [of "push_bit 8 lo OR hi"] push_bit_of_1 by simp

lemma buttons_decoded:
  "bit (buttons (core_decode_buttons (ucast lo) (ucast hi) cs)) d \<longleftrightarrow>
     d < 16 \<and> (\<exists>i<16. raw_pressed lo hi i \<and> button_map cs ! i \<noteq> 0xFF \<and> unat (button_map cs ! i) = d)"
proof -
  have dest: "bit (ucast (2 ^ k :: u32) :: u16) d \<longleftrightarrow> d < 16 \<and> k = d" for k
    by (auto simp: bit_simps)
  have nest: "(if c then let x = y in if x \<noteq> (255 :: u8) then t x else e else e) =
      (if c \<and> y \<noteq> 255 then t y else e)" for c y and t :: "u8 \<Rightarrow> u16" and e
    by simp
  show ?thesis
    unfolding buttons_foldl nest and_exp_bit bit_foldl_or dest
    by (auto simp: bit_button_word)
qed

text \<open>A HID button is down in the report exactly when one of the raw buttons mapped to it is
  down. With the default map each of the fourteen real buttons has a HID button of its own, and
  the controller's reset bit and the unused bit press nothing.\<close>

theorem decode_buttons_meaning:
  "(bit (buttons (core_decode_buttons (ucast lo) (ucast hi) cs)) d \<longleftrightarrow>
      d < 16 \<and> (\<exists>i<16. raw_pressed lo hi i \<and> button_map cs ! i \<noteq> 0xFF \<and>
        unat (button_map cs ! i) = d)) \<and>
   (button_map cs = CORE_BUTTON_MAP_DEFAULT \<longrightarrow>
      (\<forall>i<16. CORE_BUTTON_MAP_DEFAULT ! i \<noteq> 0xFF \<longrightarrow>
        bit (buttons (core_decode_buttons (ucast lo) (ucast hi) cs))
          (unat (CORE_BUTTON_MAP_DEFAULT ! i)) = raw_pressed lo hi i))"
proof -
  have inj: "\<forall>i\<in>set [0..<16]. \<forall>j\<in>set [0..<16]. CORE_BUTTON_MAP_DEFAULT ! i \<noteq> 0xFF \<longrightarrow>
      CORE_BUTTON_MAP_DEFAULT ! j \<noteq> 0xFF \<longrightarrow>
      unat (CORE_BUTTON_MAP_DEFAULT ! i) < 16 \<and>
      (unat (CORE_BUTTON_MAP_DEFAULT ! i) = unat (CORE_BUTTON_MAP_DEFAULT ! j) \<longrightarrow> i = j)"
    by code_simp
  have "bit (buttons (core_decode_buttons (ucast lo) (ucast hi) cs))
      (unat (CORE_BUTTON_MAP_DEFAULT ! i)) = raw_pressed lo hi i"
    if m: "button_map cs = CORE_BUTTON_MAP_DEFAULT" and i: "i < 16"
      and used: "CORE_BUTTON_MAP_DEFAULT ! i \<noteq> 0xFF" for i
  proof -
    have lt: "unat (CORE_BUTTON_MAP_DEFAULT ! i) < 16"
      using inj i used by auto
    have uniq: "j = i" if "j < 16" "CORE_BUTTON_MAP_DEFAULT ! j \<noteq> 0xFF"
      "unat (CORE_BUTTON_MAP_DEFAULT ! j) = unat (CORE_BUTTON_MAP_DEFAULT ! i)" for j
      using inj i used that by auto
    show ?thesis
      unfolding buttons_decoded m using lt i used uniq by blast
  qed
  then show ?thesis using buttons_decoded [of lo hi cs d] by blast
qed

theorem decode_buttons_meaning_witness:
  "CORE_BUTTON_MAP_DEFAULT ! 2 \<noteq> 0xFF \<and>
   bit (buttons (core_decode_buttons (ucast (0x20 :: u8)) (ucast (0 :: u8))
     (core_init 1 0 (core_zeroed ())))) (unat (CORE_BUTTON_MAP_DEFAULT ! 2))"
proof -
  have m: "button_map (core_init 1 0 (core_zeroed ())) = CORE_BUTTON_MAP_DEFAULT"
    by (simp add: core_init_def)
  have "CORE_BUTTON_MAP_DEFAULT ! 2 \<noteq> 0xFF" by (simp add: CORE_BUTTON_MAP_DEFAULT_def)
  moreover have "raw_pressed 0x20 0 2" by (simp add: raw_pressed_def)
  ultimately show ?thesis
    using decode_buttons_meaning [of "0x20" 0 "core_init 1 0 (core_zeroed ())" 0] m
    by auto
qed

section \<open>The packed report\<close>

text \<open>What the host reads back out of the five bytes: two twelve-bit two's complement axes and
  fourteen button bits; the two bits above them are declared constant.\<close>

definition host_x :: "u8 list \<Rightarrow> int" where
  "host_x r = signed_take_bit 11 (uint (r ! 0) OR push_bit 8 (uint (r ! 1 AND 0x0F)))"

definition host_y :: "u8 list \<Rightarrow> int" where
  "host_y r = signed_take_bit 11 (uint (drop_bit 4 (r ! 1)) OR push_bit 4 (uint (r ! 2)))"

definition host_buttons :: "u8 list \<Rightarrow> u16" where
  "host_buttons r = ucast (r ! 3) OR push_bit 8 (ucast (r ! 4 AND 0x3F))"

definition host_padding :: "u8 list \<Rightarrow> u8" where
  "host_padding r = drop_bit 6 (r ! 4)"

lemma signed_take_bit_11_cong:
  "(\<And>n. n < 12 \<Longrightarrow> bit a n = bit b n) \<Longrightarrow> signed_take_bit 11 (a :: int) = signed_take_bit 11 b"
  by (rule bit_eqI) (simp add: bit_signed_take_bit_iff min_def)

lemma pack_bytes:
  assumes "5 \<le> length out"
  shows "core_pack_joystick cs out ! 0 = ucast (u32_of (stick_x cs))"
    "core_pack_joystick cs out ! 1 =
       ucast (drop_bit 8 (u32_of (stick_x cs)) AND 0x0F OR push_bit 4 (u32_of (stick_y cs) AND 0x0F))"
    "core_pack_joystick cs out ! 2 = ucast (drop_bit 4 (u32_of (stick_y cs)))"
    "core_pack_joystick cs out ! 3 = ucast (buttons cs)"
    "core_pack_joystick cs out ! 4 = ucast (drop_bit 8 (buttons cs))"
proof -
  have "out \<noteq> []" using assms by auto
  with assms show "core_pack_joystick cs out ! 0 = ucast (u32_of (stick_x cs))"
    "core_pack_joystick cs out ! 1 =
       ucast (drop_bit 8 (u32_of (stick_x cs)) AND 0x0F OR push_bit 4 (u32_of (stick_y cs) AND 0x0F))"
    "core_pack_joystick cs out ! 2 = ucast (drop_bit 4 (u32_of (stick_y cs)))"
    "core_pack_joystick cs out ! 3 = ucast (buttons cs)"
    "core_pack_joystick cs out ! 4 = ucast (drop_bit 8 (buttons cs))"
    by (auto simp: core_pack_joystick_def Let_def bit_simps intro!: bit_word_eqI)
qed

lemma bit_u32_of: "bit (u32_of x) n \<longleftrightarrow> n < 32 \<and> bit x n"
  by (simp add: u32_of_def bit_word_of_int_iff)

lemma masks_14_6: "(0x3FFF :: u16) = Bit_Operations.mask 14" "(0x3F :: u8) = Bit_Operations.mask 6"
  by (simp_all add: mask_eq_exp_minus_1)

text \<open>C31. A host that reads report 1 as the descriptor lays it out gets both axes and the fourteen buttons back, and
  bytes past the fifth are not touched. A button above the fourteenth, which a script may set, is not lost into the
  others: it goes into the bits the descriptor declares constant, which are not 0 then.\<close>

theorem pack_joystick_roundtrip:
  assumes "5 \<le> length out" and "stick_x cs \<in> {- 2048..2047}" and "stick_y cs \<in> {- 2048..2047}"
  shows "host_x (core_pack_joystick cs out) = stick_x cs \<and>
    host_y (core_pack_joystick cs out) = stick_y cs \<and>
    host_buttons (core_pack_joystick cs out) = buttons cs AND 0x3FFF \<and>
    host_padding (core_pack_joystick cs out) = ucast (drop_bit 14 (buttons cs)) \<and>
    drop 5 (core_pack_joystick cs out) = drop 5 out"
proof (intro conjI)
  have x: "signed_take_bit 11 (stick_x cs) = stick_x cs"
    using assms(2) by (simp add: signed_take_bit_int_eq_self)
  have y: "signed_take_bit 11 (stick_y cs) = stick_y cs"
    using assms(3) by (simp add: signed_take_bit_int_eq_self)
  show "host_x (core_pack_joystick cs out) = stick_x cs"
    unfolding host_x_def pack_bytes [OF assms(1)]
    by (subst x [symmetric], rule signed_take_bit_11_cong)
      (auto simp: bit_simps bit_u32_of)
  show "host_y (core_pack_joystick cs out) = stick_y cs"
    unfolding host_y_def pack_bytes [OF assms(1)]
    by (subst y [symmetric], rule signed_take_bit_11_cong)
      (auto simp: bit_simps bit_u32_of)
  show "host_buttons (core_pack_joystick cs out) = buttons cs AND 0x3FFF"
    unfolding host_buttons_def pack_bytes [OF assms(1)] masks_14_6
    by (rule bit_word_eqI) (auto simp: bit_simps)
  show "host_padding (core_pack_joystick cs out) = ucast (drop_bit 14 (buttons cs))"
    unfolding host_padding_def pack_bytes [OF assms(1)]
    by (rule bit_word_eqI) (auto simp: bit_simps dest: bit_imp_le_length)
  show "drop 5 (core_pack_joystick cs out) = drop 5 out"
    by (simp add: core_pack_joystick_def Let_def)
qed

theorem pack_joystick_roundtrip_witness:
  "host_x (core_pack_joystick ((core_zeroed ())\<lparr>stick_x := - 1200, stick_y := 345, buttons := 0xA001\<rparr>)
     (replicate 16 0)) = - 1200 \<and>
   host_buttons (core_pack_joystick ((core_zeroed ())\<lparr>stick_x := - 1200, stick_y := 345, buttons := 0xA001\<rparr>)
     (replicate 16 0)) = 0x2001"
  using pack_joystick_roundtrip [of "replicate 16 0"
      "(core_zeroed ())\<lparr>stick_x := - 1200, stick_y := 345, buttons := 0xA001\<rparr>"] by simp

section \<open>The abstract keyboard\<close>

text \<open>A keyboard is a modifier byte and the held keys in press order; a report shows the first ten,
  or the rollover code ten times.\<close>

type_synonym kbd = "u8 \<times> u8 list"

definition kbd_event :: "u32 \<Rightarrow> bool \<Rightarrow> kbd \<Rightarrow> kbd" where
  "kbd_event usage down k =
     (let (mods, held) = k in
      if 0xE0 \<le> usage \<and> usage \<le> 0xE7 then
        ((if down then set_bit else unset_bit) (unat usage - 0xE0) mods, held)
      else if 0x04 \<le> usage \<and> usage \<le> 0xA4 then
        (mods, if down then (if ucast usage \<in> set held then held else held @ [ucast usage])
               else remove1 (ucast usage) held)
      else if usage = 0 then (0, [])
      else (mods, held))"

definition kbd_report :: "kbd \<Rightarrow> u8 list" where
  "kbd_report k =
     (let (mods, held) = k
      in mods # 0 # (if length held > 10 then replicate 10 1
                     else held @ replicate (10 - length held) 0))"

definition kbd_of :: "'w core_state \<Rightarrow> kbd" where
  "kbd_of cs = (key_modifiers cs, held_keys cs)"

subsection \<open>The two loops\<close>

lemma key_search_spec:
  assumes "at \<le> n"
  shows "at \<le> key_search keys n u at \<and> key_search keys n u at \<le> n \<and>
    (key_search keys n u at < n \<longrightarrow> keys ! nat (key_search keys n u at) = u) \<and>
    (\<forall>j. at \<le> j \<and> j < key_search keys n u at \<longrightarrow> keys ! nat j \<noteq> u)"
  using assms
proof (induction keys n u at rule: key_search.induct)
  case (1 keys n u at)
  show ?case
  proof (cases "at < n \<and> keys ! nat at \<noteq> u")
    case True
    then have step: "key_search keys n u at = key_search keys n u (at + 1)"
      by (subst key_search.simps) simp
    have "keys ! nat j \<noteq> u" if "at \<le> j" "j < key_search keys n u (at + 1)" for j
      using that True 1 by (cases "j = at") auto
    then show ?thesis using True 1 unfolding step by auto
  next
    case False
    have step: "key_search keys n u at = at"
      using False
      by (simp only: key_search.simps [of keys n u at] if_False)
    show ?thesis
      using False "1.prems" unfolding step by (intro conjI impI allI) (simp, simp, blast, linarith)
  qed
qed

lemma key_close_spec:
  assumes "0 \<le> at" and "at < n" and "nat n \<le> length keys"
  shows "key_close at n keys =
    take (nat at) keys @ drop (Suc (nat at)) (take (nat n) keys) @ drop (nat n - 1) keys"
  using assms
proof (induction at n keys rule: key_close.induct)
  case (1 at n keys)
  show ?case
  proof (cases "at < n - 1")
    case True
    let ?a = "nat at"
    have a: "nat (at + 1) = Suc ?a" using 1 by simp
    have lt: "Suc ?a < nat n" using True 1 by linarith
    then have len: "Suc ?a < length keys" using 1 by simp
    have tk: "(take (Suc ?a) keys)[?a := keys ! Suc ?a] = take ?a keys @ [keys ! Suc ?a]"
      using len by (simp add: take_Suc_conv_app_nth list_update_append)
    have dr: "drop (Suc ?a) (take (nat n) keys) =
        keys ! Suc ?a # drop (Suc (Suc ?a)) (take (nat n) keys)"
      using lt len by (subst Cons_nth_drop_Suc [symmetric]) auto
    have "key_close at n keys = key_close (at + 1) n (keys[?a := keys ! Suc ?a])"
      using True by (subst key_close.simps) (simp add: a)
    also have "\<dots> = take (Suc ?a) (keys[?a := keys ! Suc ?a]) @
        drop (Suc (Suc ?a)) (take (nat n) (keys[?a := keys ! Suc ?a])) @
        drop (nat n - 1) (keys[?a := keys ! Suc ?a])"
      using 1 True by (simp add: a)
    also have "\<dots> = take ?a keys @ drop (Suc ?a) (take (nat n) keys) @ drop (nat n - 1) keys"
      using lt by (simp add: tk dr take_update_swap drop_update_swap)
    finally show ?thesis .
  next
    case False
    then have n: "nat n = Suc (nat at)" using 1 by linarith
    show ?thesis
      using False 1 by (subst key_close.simps) (simp add: n)
  qed
qed

lemma remove1_first:
  "i < length xs \<Longrightarrow> xs ! i = u \<Longrightarrow> (\<forall>j<i. xs ! j \<noteq> u) \<Longrightarrow>
     remove1 u xs = take i xs @ drop (Suc i) xs"
proof (induction xs arbitrary: i)
  case (Cons x xs)
  show ?case
  proof (cases i)
    case 0
    with Cons.prems show ?thesis by simp
  next
    case (Suc k)
    with Cons.prems have "x \<noteq> u" by (metis nth_Cons_0 zero_less_Suc)
    moreover have "remove1 u xs = take k xs @ drop (Suc k) xs"
      using Cons.prems Suc by (intro Cons.IH) auto
    ultimately show ?thesis using Suc by simp
  qed
qed simp

subsection \<open>The dense array holds the abstract list\<close>

lemma length_held: "keys_wf cs \<Longrightarrow> length (held_keys cs) = nat (key_down_count cs)"
  by (auto simp: keys_wf_def held_keys_def)

text \<open>Distinct keycodes from the accepted range: the array is never full.\<close>

lemma held_bound:
  assumes "keys_wf cs"
  shows "key_down_count cs \<le> 161"
proof -
  let ?h = "held_keys cs"
  have "distinct (map unat ?h)"
    using assms by (auto simp: keys_wf_def distinct_map inj_on_def word_unat_eq_iff)
  moreover have "set (map unat ?h) \<subseteq> {4..164}"
  proof
    fix n assume "n \<in> set (map unat ?h)"
    then obtain k where k: "k \<in> set ?h" "n = unat k" by auto
    then have "0x04 \<le> k" "k \<le> 0xA4" using assms by (auto simp: keys_wf_def)
    then show "n \<in> {4..164}" using k by (simp add: word_le_nat_alt)
  qed
  ultimately have "length (map unat ?h) \<le> card {4..(164::nat)}"
    by (metis card_mono distinct_card finite_atLeastAtMost)
  then show ?thesis using length_held [OF assms] by simp
qed

lemma search_held:
  fixes u :: u8
  assumes wf: "keys_wf cs"
  defines "n \<equiv> key_down_count cs" and "at \<equiv> key_search (keys_down cs) (key_down_count cs) u 0"
  shows "at < n \<longleftrightarrow> u \<in> set (held_keys cs)" "at = n \<longleftrightarrow> u \<notin> set (held_keys cs)"
    "at < n \<Longrightarrow> take (nat (n - 1)) (key_close at n (keys_down cs)) = remove1 u (held_keys cs)"
    "at < n \<Longrightarrow> length (key_close at n (keys_down cs)) = 165"
proof -
  let ?h = "held_keys cs" and ?k = "keys_down cs"
  have n: "0 \<le> n" "n \<le> 165" "length ?k = 165" using wf by (auto simp: keys_wf_def n_def)
  have spec: "0 \<le> at" "at \<le> n" "at < n \<longrightarrow> ?k ! nat at = u" "\<forall>j. 0 \<le> j \<and> j < at \<longrightarrow> ?k ! nat j \<noteq> u"
    using key_search_spec [OF n(1), of ?k u] by (auto simp: at_def n_def)
  have nth: "j < nat n \<Longrightarrow> ?h ! j = ?k ! j" for j
    by (simp add: held_keys_def n_def)
  have len: "length ?h = nat n" using length_held [OF wf] by (simp add: n_def)
  have before: "\<forall>j<nat at. ?h ! j \<noteq> u"
  proof (intro allI impI)
    fix j assume "j < nat at"
    then have "int j < at" "j < nat n" using spec(2) by linarith+
    then show "?h ! j \<noteq> u" using spec(4) nth by (metis nat_int of_nat_0_le_iff)
  qed
  have found: "?h ! nat at = u" "nat at < length ?h" if "at < n"
    using that spec nth len by auto
  show 1: "at < n \<longleftrightarrow> u \<in> set ?h"
  proof
    assume "at < n"
    then show "u \<in> set ?h" using found nth_mem by metis
  next
    assume "u \<in> set ?h"
    then obtain j where j: "j < length ?h" "?h ! j = u" by (auto simp: in_set_conv_nth)
    with before have "\<not> j < nat at" by blast
    with j(1) len show "at < n" by linarith
  qed
  show "at = n \<longleftrightarrow> u \<notin> set ?h" using 1 spec(2) by auto
  assume lt: "at < n"
  have close: "key_close at n ?k = take (nat at) ?k @ drop (Suc (nat at)) (take (nat n) ?k) @ drop (nat n - 1) ?k"
    using lt spec(1) n by (intro key_close_spec) auto
  have "remove1 u ?h = take (nat at) ?h @ drop (Suc (nat at)) ?h"
    using found [OF lt] before by (intro remove1_first) auto
  also have "\<dots> = take (nat at) ?k @ drop (Suc (nat at)) (take (nat n) ?k)"
    using lt by (simp add: held_keys_def min_def flip: n_def)
  also have "\<dots> = take (nat (n - 1)) (key_close at n ?k)"
  proof -
    have "length (take (nat at) ?k @ drop (Suc (nat at)) (take (nat n) ?k)) = nat (n - 1)"
    proof -
      have "nat at < nat n" "nat n \<le> 165" "nat (n - 1) = nat n - 1" using lt spec(1) n by linarith+
      then show ?thesis using n(3) by (auto simp: min_def simp del: zless_nat_conj)
    qed
    then show ?thesis unfolding close append_assoc [symmetric] by (metis append_eq_conv_conj)
  qed
  finally show "take (nat (n - 1)) (key_close at n ?k) = remove1 u ?h" by simp
  show "length (key_close at n ?k) = 165"
  proof -
    have "nat at < nat n" "nat n \<le> 165" using lt spec(1) n by linarith+
    then show ?thesis using n(3) unfolding close by (auto simp: min_def simp del: zless_nat_conj)
  qed
qed

lemma key_report_abs:
  assumes "keys_wf cs"
  shows "core_hid_key_report S cs = core_emit S 2 (kbd_report (kbd_of cs)) 12 cs"
proof (cases "key_down_count cs > 10")
  case True
  with length_held [OF assms] have "length (held_keys cs) > 10" by simp
  with True show ?thesis
    by (simp add: core_hid_key_report_def kbd_report_def kbd_of_def)
next
  case False
  let ?n = "nat (key_down_count cs)"
  have n: "?n \<le> 10" "0 \<le> key_down_count cs" "?n \<le> length (keys_down cs)"
    using False assms by (auto simp: keys_wf_def)
  have "map (\<lambda>i. if int i < key_down_count cs then keys_down cs ! i else 0) [0..<10] =
      held_keys cs @ replicate (10 - length (held_keys cs)) 0"
    using n by (intro nth_equalityI) (auto simp: held_keys_def nth_append min_def)
  moreover have "length (held_keys cs) \<le> 10" using length_held [OF assms] n by simp
  ultimately show ?thesis
    using False by (simp add: core_hid_key_report_def kbd_report_def kbd_of_def)
qed

lemma emit_kbd [frame]:
  "keys_wf (core_emit S i p n cs) = keys_wf cs" "kbd_of (core_emit S i p n cs) = kbd_of cs"
  by (simp_all add: core_emit_def keys_wf_def kbd_of_def held_keys_def)

lemma emit_world:
  "world (core_emit S i p n (cs\<lparr>key_modifiers := m, keys_down := k, key_down_count := c\<rparr>)) =
     world (core_emit S i p n cs)"
  by (simp add: core_emit_def)

text \<open>All branches end the same way.\<close>

definition key_outcome where
  "key_outcome S cs k' cs' \<longleftrightarrow> keys_wf cs' \<and> kbd_of cs' = k' \<and>
     world cs' = (if k' = kbd_of cs then world cs
                  else world (core_emit S 2 (kbd_report k') 12 cs))"

lemma key_finish:
  assumes "keys_wf (cs\<lparr>key_modifiers := m, keys_down := k, key_down_count := c\<rparr>)"
    and "kbd_of (cs\<lparr>key_modifiers := m, keys_down := k, key_down_count := c\<rparr>) = k'"
    and "changed \<longleftrightarrow> k' \<noteq> kbd_of cs"
  shows "key_outcome S cs k'
    (let cs = cs\<lparr>key_modifiers := m, keys_down := k, key_down_count := c\<rparr>
     in if changed then core_hid_key_report S cs else cs)"
  using assms by (simp add: key_outcome_def Let_def key_report_abs emit_kbd emit_world)

lemma modifier_bit:
  assumes "0xE0 \<le> usage" and "usage \<le> (0xE7 :: u32)"
  defines "b \<equiv> ucast (push_bit (unat (usage - 0xE0)) (1 :: u32)) :: u8"
  shows "(m AND b = 0) = (\<not> bit m (unat usage - 0xE0))" "m OR b = set_bit (unat usage - 0xE0) m"
    "m AND NOT b = unset_bit (unat usage - 0xE0) m"
proof -
  have k: "unat (usage - 0xE0) = unat usage - 0xE0" using assms by (simp add: unat_sub)
  have "unat usage - 0xE0 < 8" using assms by (simp add: word_le_nat_alt)
  then have b: "b = push_bit (unat usage - 0xE0) 1"
    unfolding b_def k by (intro bit_word_eqI) (auto simp: bit_simps)
  show "(m AND b = 0) = (\<not> bit m (unat usage - 0xE0))"
    using and_exp_bit [of m "unat usage - 0xE0"] unfolding b push_bit_of_1 by blast
  show "m OR b = set_bit (unat usage - 0xE0) m" unfolding b by (simp add: set_bit_eq_or)
  show "m AND NOT b = unset_bit (unat usage - 0xE0) m" unfolding b by (simp add: unset_bit_eq_and_not)
qed

lemma set_bit_id: "k < 8 \<Longrightarrow> set_bit k m = m \<longleftrightarrow> bit m k" for m :: u8
proof -
  assume "k < 8"
  then have "bit (set_bit k m) k" by (simp add: bit_set_bit_iff)
  moreover have "set_bit k m = m" if "bit m k"
    using that by (intro bit_word_eqI) (auto simp: bit_set_bit_iff)
  ultimately show ?thesis by metis
qed

lemma unset_bit_id: "unset_bit k m = m \<longleftrightarrow> \<not> bit m k" for m :: u8
proof -
  have "\<not> bit (unset_bit k m) k" by (simp add: bit_unset_bit_iff)
  moreover have "unset_bit k m = m" if "\<not> bit m k"
    using that by (intro bit_word_eqI) (auto simp: bit_unset_bit_iff)
  ultimately show ?thesis by metis
qed

lemma ucast_usage:
  assumes "0x04 \<le> usage" and "usage \<le> (0xA4 :: u32)"
  shows "0x04 \<le> (ucast usage :: u8)" and "(ucast usage :: u8) \<le> 0xA4"
proof -
  have "unat (ucast usage :: u8) = unat usage"
    using assms(2) by (simp add: unsigned_ucast_eq unsigned_take_bit_eq take_bit_nat_eq_self word_le_nat_alt)
  then show "0x04 \<le> (ucast usage :: u8)" "(ucast usage :: u8) \<le> 0xA4"
    using assms by (simp_all add: word_le_nat_alt)
qed

lemma keys_wf_modifiers:
  "keys_wf (cs\<lparr>key_modifiers := m\<rparr>) = keys_wf cs"
  "held_keys (cs\<lparr>key_modifiers := m\<rparr>) = held_keys cs"
  by (simp_all add: keys_wf_def kbd_of_def held_keys_def)

lemma key_append:
  assumes wf: "keys_wf cs" and "0x04 \<le> u" and "u \<le> 0xA4" and new: "u \<notin> set (held_keys cs)"
  defines "n \<equiv> key_down_count cs"
  defines "cs' \<equiv> cs\<lparr>keys_down := (keys_down cs)[nat n := u], key_down_count := n + 1\<rparr>"
  shows "keys_wf cs'" "kbd_of cs' = (key_modifiers cs, held_keys cs @ [u])"
proof -
  have n: "0 \<le> n" "n < 165" "length (keys_down cs) = 165"
    using wf held_bound [OF wf] by (auto simp: keys_wf_def n_def)
  have "nat (n + 1) = Suc (nat n)" using n by simp
  then have held: "held_keys cs' = held_keys cs @ [u]"
    using n by (simp add: held_keys_def cs'_def take_Suc_conv_app_nth flip: n_def)
  then show "kbd_of cs' = (key_modifiers cs, held_keys cs @ [u])"
    by (simp add: kbd_of_def cs'_def)
  have "length (keys_down cs') = 165" "key_down_count cs' = n + 1"
    using n by (simp_all add: cs'_def)
  then show "keys_wf cs'"
    using wf assms(2,3) new n unfolding keys_wf_def held by auto
qed

lemma key_remove:
  assumes wf: "keys_wf cs" and u: "u \<in> set (held_keys cs)"
  defines "n \<equiv> key_down_count cs"
  defines "cs' \<equiv> cs\<lparr>keys_down := key_close (key_search (keys_down cs) n u 0) n (keys_down cs),
                     key_down_count := n - 1\<rparr>"
  shows "keys_wf cs'" "kbd_of cs' = (key_modifiers cs, remove1 u (held_keys cs))"
proof -
  have lt: "key_search (keys_down cs) n u 0 < n"
    using search_held(1) [OF wf, of u] u by (simp add: n_def)
  then have held: "held_keys cs' = remove1 u (held_keys cs)"
    using search_held(3) [OF wf, of u] by (simp add: held_keys_def cs'_def n_def)
  then show "kbd_of cs' = (key_modifiers cs, remove1 u (held_keys cs))"
    by (simp add: kbd_of_def cs'_def)
  have "0 < length (held_keys cs)" using u by (cases "held_keys cs") auto
  then have "1 \<le> n" using length_held [OF wf] by (simp add: n_def)
  moreover have "length (keys_down cs') = 165" "key_down_count cs' = n - 1"
    using search_held(4) [OF wf, of u] lt by (simp_all add: cs'_def n_def)
  ultimately show "keys_wf cs'"
    using wf unfolding keys_wf_def held
    by (auto simp: n_def dest: notin_set_remove1)
qed

lemma key_release_all: "keys_wf cs \<Longrightarrow> keys_wf (cs\<lparr>key_modifiers := 0, key_down_count := 0\<rparr>)"
  by (simp add: keys_wf_def held_keys_def)

lemma key_outcome_report:
  assumes "keys_wf cs'" and "kbd_of cs' = k'" and "sink cs' = sink cs" and "sink_ctx cs' = sink_ctx cs"
    and "devices_mask cs' = devices_mask cs" and "world cs' = world cs"
    and "changed \<longleftrightarrow> k' \<noteq> kbd_of cs"
  shows "key_outcome S cs k' (if changed then core_hid_key_report S cs' else cs')"
  using assms by (auto simp: key_outcome_def key_report_abs emit_kbd) (simp_all add: core_emit_def)

lemmas key_outcome_changed = key_outcome_report [where changed = True, unfolded if_True]
lemmas key_outcome_same = key_outcome_report [where changed = False, unfolded if_False]

lemma remove1_same: "remove1 u xs = xs \<longleftrightarrow> u \<notin> set xs" "xs = remove1 u xs \<longleftrightarrow> u \<notin> set xs"
  by (metis length_remove1 less_not_refl length_pos_if_in_set diff_less zero_less_one remove1_idem)+

lemma key_event_outcome:
  assumes wf: "keys_wf cs"
  shows "key_outcome S cs (kbd_event usage down (kbd_of cs)) (core_hid_key_event S usage down cs)"
proof -
  let ?u = "ucast usage :: u8"
  consider (mods) "0xE0 \<le> usage" "usage \<le> 0xE7"
    | (keys) "\<not> (0xE0 \<le> usage \<and> usage \<le> 0xE7)" "0x04 \<le> usage" "usage \<le> 0xA4"
    | (other) "\<not> (0xE0 \<le> usage \<and> usage \<le> 0xE7)" "\<not> (0x04 \<le> usage \<and> usage \<le> 0xA4)" by blast
  then show ?thesis
  proof cases
    case mods
    then have "unat usage - 0xE0 < 8" by (simp add: word_le_nat_alt)
    with mods wf show ?thesis
      by (cases down)
        (auto simp: core_hid_key_event_def kbd_event_def kbd_of_def keys_wf_modifiers
          modifier_bit [OF mods] set_bit_id unset_bit_id
          simp del: push_bit_of_1 intro: key_outcome_changed key_outcome_same)
  next
    case keys
    note range = ucast_usage [OF keys(2,3)]
    note found = search_held(1,2) [OF wf, of ?u]
    have cap: "key_down_count cs < 165" using held_bound [OF wf] by simp
    show ?thesis
    proof (cases "?u \<in> set (held_keys cs)")
      case True
      with keys found key_remove [OF wf True] wf show ?thesis
        by (auto simp: core_hid_key_event_def kbd_event_def Let_def remove1_same kbd_of_def
            intro: key_outcome_changed key_outcome_same)
    next
      case False
      with keys found cap key_append [OF wf range False] wf show ?thesis
        by (auto simp: core_hid_key_event_def kbd_event_def Let_def remove1_same kbd_of_def
            intro: key_outcome_changed key_outcome_same)
    qed
  next
    case other
    show ?thesis
    proof (cases "usage = 0")
      case True
      let ?cs = "cs\<lparr>key_modifiers := 0, key_down_count := 0\<rparr>"
      have "(key_modifiers cs \<noteq> 0 \<or> key_down_count cs \<noteq> 0) \<longleftrightarrow> (0, []) \<noteq> kbd_of cs"
        using length_held [OF wf] wf by (auto simp: kbd_of_def keys_wf_def)
      moreover have "kbd_of ?cs = (0, [])" by (simp add: kbd_of_def held_keys_def)
      ultimately have "key_outcome S cs (0, []) (if key_modifiers cs \<noteq> 0 \<or> key_down_count cs \<noteq> 0
          then core_hid_key_report S ?cs else ?cs)"
        using key_release_all [OF wf] by (intro key_outcome_report) simp_all
      with True show ?thesis by (simp add: core_hid_key_event_def kbd_event_def kbd_of_def)
    next
      case False
      then have "core_hid_key_event S usage down cs = cs" "kbd_event usage down (kbd_of cs) = kbd_of cs"
        using other
        by (simp_all only: core_hid_key_event_def kbd_event_def kbd_of_def Let_def if_False prod.case)
      with wf show ?thesis by (simp add: key_outcome_def)
    qed
  qed
qed

text \<open>C29. The keyboard code implements the abstract keyboard: an event has exactly its effect on
  the modifier byte and the list of held keys, the dense array stays well formed (distinct codes
  of the accepted range, at most 161 of them, so it never fills its 165 entries), and a report
  goes out exactly when the state changed, carrying the new state.\<close>

theorem key_event_refines:
  assumes "keys_wf cs"
  shows "kbd_of (core_hid_key_event S usage down cs) = kbd_event usage down (kbd_of cs) \<and>
    keys_wf (core_hid_key_event S usage down cs) \<and>
    key_down_count (core_hid_key_event S usage down cs) \<le> 161 \<and>
    world (core_hid_key_event S usage down cs) =
      (if kbd_event usage down (kbd_of cs) = kbd_of cs then world cs
       else world (core_emit S 2 (kbd_report (kbd_event usage down (kbd_of cs))) 12 cs))"
  using key_event_outcome [OF assms, of S usage down] held_bound
  by (auto simp: key_outcome_def)

lemma logged_core_facts:
  "keys_wf logged_core" "kbd_of logged_core = (0, [])" "held_keys logged_core = []"
  "world logged_core = []"
  "world (core_emit report_log 2 [0, 0, 4, 0, 0, 0, 0, 0, 0, 0, 0, 0] 12 logged_core) =
     [(2, [0, 0, 4, 0, 0, 0, 0, 0, 0, 0, 0, 0])]"
proof -
  show "keys_wf logged_core" using core_init_wf core_wfD unfolding logged_core_def by blast
  show "kbd_of logged_core = (0, [])" "held_keys logged_core = []" "world logged_core = []"
    by (simp_all add: kbd_of_def held_keys_def core_init_def core_zeroed_def logged_core_def)
  show "world (core_emit report_log 2 [0, 0, 4, 0, 0, 0, 0, 0, 0, 0, 0, 0] 12 logged_core) =
     [(2, [0, 0, 4, 0, 0, 0, 0, 0, 0, 0, 0, 0])]" by code_simp
qed

theorem key_event_refines_witness:
  "kbd_of (core_hid_key_event report_log 4 True logged_core) = (0, [4]) \<and>
   world (core_hid_key_event report_log 4 True logged_core) =
     [(2, [0, 0, 4, 0, 0, 0, 0, 0, 0, 0, 0, 0])]"
proof -
  have "kbd_event 4 True (0, []) = (0, [4])" "kbd_report (0, [4]) = [0, 0, 4, 0, 0, 0, 0, 0, 0, 0, 0, 0]"
    by code_simp+
  then show ?thesis
    using key_event_refines [of logged_core report_log 4 True] logged_core_facts by simp
qed

lemma kbd_press_release:
  "ucast u \<notin> set (snd k) \<Longrightarrow> 0x04 \<le> u \<Longrightarrow> u \<le> (0xA4 :: u32) \<Longrightarrow>
     kbd_event u False (kbd_event u True k) = k"
  by (cases k) (auto simp: kbd_event_def remove1_append word_le_nat_alt)

text \<open>Rollover is not sticky: with eleven or more keys held the report is all rollover codes,
  and releasing the newest key brings back the report of the keys before it was pressed.\<close>

theorem key_rollover_recovers:
  assumes "keys_wf cs" and "0x04 \<le> u" and "u \<le> 0xA4" and "ucast u \<notin> set (held_keys cs)"
  shows "kbd_of (core_hid_key_event S u False (core_hid_key_event S u True cs)) = kbd_of cs \<and>
    (key_down_count cs \<ge> 10 \<longrightarrow>
      world (core_hid_key_event S u True cs) =
        world (core_emit S 2 ([key_modifiers cs, 0] @ replicate 10 1) 12 cs))"
proof -
  let ?cs = "core_hid_key_event S u True cs"
  have out: "key_outcome S cs (kbd_event u True (kbd_of cs)) ?cs"
    by (rule key_event_outcome [OF assms(1)])
  have new: "ucast u \<notin> set (snd (kbd_of cs))" using assms(4) by (simp add: kbd_of_def)
  have "kbd_event u True (kbd_of cs) = (key_modifiers cs, held_keys cs @ [ucast u])"
    using assms by (auto simp: kbd_event_def kbd_of_def word_le_nat_alt)
  moreover from this have "kbd_event u True (kbd_of cs) \<noteq> kbd_of cs" by (simp add: kbd_of_def)
  moreover have "keys_wf ?cs" "kbd_of ?cs = kbd_event u True (kbd_of cs)"
    using out by (auto simp: key_outcome_def)
  moreover have "key_outcome S ?cs (kbd_event u False (kbd_of ?cs)) (core_hid_key_event S u False ?cs)"
    by (rule key_event_outcome) fact
  ultimately show ?thesis
    using out kbd_press_release [OF new assms(2,3)] length_held [OF assms(1)]
    by (auto simp: key_outcome_def kbd_report_def)
qed

theorem key_rollover_recovers_witness:
  "kbd_of (core_hid_key_event report_log 5 False (core_hid_key_event report_log 5 True logged_core)) =
     (0, [])"
  using key_rollover_recovers [of logged_core 5 report_log] logged_core_facts by simp

section \<open>The mouse and the joystick submit\<close>

text \<open>A mouse button event sets or clears exactly its own bit, ignores buttons the collection
  does not have, and sends a report with no movement exactly when the bit changed.\<close>

theorem mouse_button_meaning:
  "(bit (mouse_buttons (core_hid_mouse_button S button down cs)) i \<longleftrightarrow>
      (if 1 \<le> button \<and> button \<le> 3 \<and> i = unat button - 1 then down else bit (mouse_buttons cs) i)) \<and>
   world (core_hid_mouse_button S button down cs) =
     (if 1 \<le> button \<and> button \<le> 3 \<and> bit (mouse_buttons cs) (unat button - 1) \<noteq> down
      then world (core_emit S 3
             [(if down then set_bit else unset_bit) (unat button - 1) (mouse_buttons cs), 0, 0, 0] 4 cs)
      else world cs)"
proof (cases "button < 1 \<or> 3 < button")
  case True
  then have "core_hid_mouse_button S button down cs = cs" by (simp only: core_hid_mouse_button_def if_True)
  moreover have "\<not> (1 \<le> button \<and> button \<le> 3)" using True by auto
  ultimately show ?thesis by auto
next
  case False
  let ?k = "unat button - 1" and ?m = "mouse_buttons cs"
  have r: "1 \<le> button" "button \<le> 3" using False by (simp_all only: de_Morgan_disj not_less)
  then have k: "?k < 8" "unat (button - 1) = ?k" by (simp_all add: word_le_nat_alt unat_sub)
  have "ucast (push_bit ?k (1 :: u32)) = (push_bit ?k 1 :: u8)"
    using k(1) by (intro bit_word_eqI) (auto simp: bit_simps)
  then have b: "?m OR ucast (push_bit ?k (1 :: u32)) = set_bit ?k ?m"
    "?m AND NOT (ucast (push_bit ?k (1 :: u32))) = unset_bit ?k ?m"
    by (simp_all add: set_bit_eq_or unset_bit_eq_and_not)
  have event: "core_hid_mouse_button S button down cs =
      (let cs' = cs\<lparr>mouse_buttons := (if down then set_bit else unset_bit) ?k ?m\<rparr>
       in if mouse_buttons cs' = ?m then cs' else core_emit S 3 [mouse_buttons cs', 0, 0, 0] 4 cs')"
    using False by (simp only: core_hid_mouse_button_def k b if_False Let_def) (simp split: if_split)
  show ?thesis
    unfolding event using r k
    by (cases down) (auto simp: set_bit_id unset_bit_id bit_set_bit_iff bit_unset_bit_iff core_emit_def
        Let_def)
qed

text \<open>In virtual mode a report from the controller never reaches the host; a resubmit parks the
  stick at X = 1 and Y = the instance number with no button down, and switching the mode off
  replays the last report of the controller.\<close>

theorem submit_virtual_mode:
  assumes "instance_id cs \<in> {- 2048..2047}"
  shows "(virtual_mode cs \<noteq> 0 \<longrightarrow> world (core_submit_joystick S (Some r) cs) = world cs) \<and>
    (reports_enabled cs \<longrightarrow> (\<exists>p. length p = 5 \<and> host_x p = 1 \<and> host_y p = instance_id cs \<and>
      host_buttons p = 0 \<and>
      world (core_submit_joystick S None cs) = world (core_emit S 1 p 5 cs))) \<and>
    (\<not> reports_enabled cs \<longrightarrow>
      world (core_submit_joystick S None (core_submit_joystick S (Some r) cs)) =
      world (core_emit S 1 (take 5 r) 5 (core_submit_joystick S (Some r) cs)))"
proof (intro conjI)
  let ?p = "[1, ucast (push_bit 4 (u32_of (instance_id cs))), u8_of (drop_bit 4 (instance_id cs)), 0, 0]"
  show "virtual_mode cs \<noteq> 0 \<longrightarrow> world (core_submit_joystick S (Some r) cs) = world cs"
    by (simp add: core_submit_joystick_def)
  have "host_x ?p = signed_take_bit 11 1"
    unfolding host_x_def by (rule signed_take_bit_11_cong) (auto simp: bit_simps bit_u32_of)
  then have x: "host_x ?p = 1" by simp
  have "host_y ?p = signed_take_bit 11 (instance_id cs)"
    unfolding host_y_def
    by (rule signed_take_bit_11_cong) (auto simp: bit_simps bit_u32_of u8_of_def)
  then have y: "host_y ?p = instance_id cs" using assms by (simp add: signed_take_bit_int_eq_self)
  have "world (core_submit_joystick S None cs) = world (core_emit S 1 ?p 5 cs)" if "reports_enabled cs"
    using that by (simp add: core_submit_joystick_def core_emit_def)
  moreover have "length ?p = 5" "host_buttons ?p = 0" by (simp_all add: host_buttons_def)
  ultimately show "reports_enabled cs \<longrightarrow> (\<exists>p. length p = 5 \<and> host_x p = 1 \<and>
      host_y p = instance_id cs \<and> host_buttons p = 0 \<and>
      world (core_submit_joystick S None cs) = world (core_emit S 1 p 5 cs))"
    using x y by blast
  show "\<not> reports_enabled cs \<longrightarrow>
      world (core_submit_joystick S None (core_submit_joystick S (Some r) cs)) =
      world (core_emit S 1 (take 5 r) 5 (core_submit_joystick S (Some r) cs))"
    by (cases "virtual_mode cs = 0")
      (simp_all add: core_submit_joystick_def core_emit_def Let_def)
qed

theorem submit_virtual_mode_witness:
  "world (core_submit_joystick report_log (Some [1, 2, 3, 4, 5])
     (logged_core\<lparr>virtual_mode := 3, instance_id := 51\<rparr>)) = []"
  using submit_virtual_mode [of "logged_core\<lparr>virtual_mode := 3, instance_id := 51\<rparr>"] logged_core_facts(4)
  by simp

section \<open>The descriptor declares what is sent\<close>

text \<open>A reader of HID report descriptors: short items, the global report ID, size and count, and
  the collection depth. The result lists, per main item, the report ID, whether it is an input,
  and its bits.\<close>

function hid_parse :: "u8 \<Rightarrow> nat \<Rightarrow> nat \<Rightarrow> nat \<Rightarrow> u8 list \<Rightarrow> (u8 \<times> bool \<times> nat) list option" where
  "hid_parse rid sz cnt depth [] = (if depth = 0 then Some [] else None)"
| "hid_parse rid sz cnt depth (p # ps) =
    (let n = (if p AND 3 = 3 then 4 else unat (p AND 3));
         tag = p AND 0xFC;
         v = (case ps of [] \<Rightarrow> 0 | b # _ \<Rightarrow> b);
         rest = drop n ps
     in if length ps < n then None
        else if tag = 0x84 then hid_parse v sz cnt depth rest
        else if tag = 0x74 then hid_parse rid (unat v) cnt depth rest
        else if tag = 0x94 then hid_parse rid sz (unat v) depth rest
        else if tag = 0x80 then map_option ((#) (rid, True, sz * cnt)) (hid_parse rid sz cnt depth rest)
        else if tag = 0x90 then map_option ((#) (rid, False, sz * cnt)) (hid_parse rid sz cnt depth rest)
        else if tag = 0xA0 then hid_parse rid sz cnt (depth + 1) rest
        else if tag = 0xC0 then
          (if depth = 0 then None else hid_parse rid sz cnt (depth - 1) rest)
        else hid_parse rid sz cnt depth rest)"
  by pat_completeness auto
termination by (relation "measure (\<lambda>(_, _, _, _, ps). length ps)") auto

definition report_bits :: "u8 \<Rightarrow> (u8 \<times> bool \<times> nat) list \<Rightarrow> nat" where
  "report_bits rid xs = sum_list (map (\<lambda>(i, inp, n). if i = rid \<and> inp then n else 0) xs)"

definition view_bits :: "u32 \<Rightarrow> nat list option" where
  "view_bits m =
     (let (d, len) = core_hid_descriptor m
      in map_option (\<lambda>xs. map (\<lambda>i. report_bits i xs) [1, 2, 3])
           (hid_parse 0 0 0 0 (take (unat len) d)))"

lemma view_bits_table:
  "\<forall>i\<in>set [0..<8]. view_bits (word_of_nat i) =
     Some (if i = 7 then [40, 96, 32] else if i = 6 then [0, 96, 32] else [40, 0, 0])"
  by code_simp

lemma descriptor_masked: "core_hid_descriptor (m AND 7) = core_hid_descriptor m"
  by (simp add: core_hid_descriptor_def and.assoc)

text \<open>Each of the eight views of the descriptor is a well-nested descriptor inside the array,
  and the input bits it declares for a report are the bytes the code emits for it: 5 for the
  joystick, 12 for the keyboard, 4 for the mouse; a collection a view leaves out declares none.\<close>

theorem descriptor_declares_reports:
  "view_bits m = Some (if m AND 7 = 7 then [8 * 5, 8 * 12, 8 * 4]
     else if m AND 7 = 6 then [0, 8 * 12, 8 * 4] else [8 * 5, 0, 0])"
proof -
  have "m AND 7 = take_bit 3 m" by (simp add: take_bit_eq_mask mask_eq_exp_minus_1)
  then have "unat (m AND 7) < 8"
    using take_bit_nat_less_exp [of 3 "unat m"] by (simp add: unsigned_take_bit_eq)
  then have i: "unat (m AND 7) \<in> set [0..<8]" by simp
  have w: "word_of_nat (unat (m AND 7)) = m AND 7" by simp
  have "view_bits m = view_bits (m AND 7)" by (simp only: view_bits_def descriptor_masked)
  also have "\<dots> = Some (if unat (m AND 7) = 7 then [40, 96, 32]
      else if unat (m AND 7) = 6 then [0, 96, 32] else [40, 0, 0])"
    using view_bits_table [rule_format, OF i] unfolding w .
  moreover have "unat (m AND 7) = 7 \<longleftrightarrow> m AND 7 = 7" "unat (m AND 7) = 6 \<longleftrightarrow> m AND 7 = 6"
    by (simp_all only: word_unat_eq_iff) simp_all
  ultimately show ?thesis by simp
qed

end
