(* ===== verification/Effect_Engine.thy ===== *)
theory Effect_Engine
  imports Hid_Reports
begin

text \<open>
  The effect engine of \<open>src_drv/core.c\<close> up to one tick: the sine table and the periodic waveforms,
  the value of one axis of one slot (waveform, envelope, clamp), the condition pre-pass, the sum
  over the running slots with its low-pass, and the delta-sigma modulator. The lemmas give the
  range of every stage, the shape of the waveforms, the spring a condition is, and the pulse
  density of the modulator.
\<close>

section \<open>Waveforms\<close>

definition CORE_SINE_TABLE :: "s32 list" where
  "CORE_SINE_TABLE = [0, 87, 174, 259, 342, 423, 500, 574, 643, 707,
     766, 819, 866, 906, 940, 966, 985, 996, 1000, 1000]"

definition core_sine_lerp :: "s32 \<Rightarrow> s32" where
  "core_sine_lerp angle =
     (let angle = (if angle < 0 then 0 else angle);
          angle = (if angle > 9000 then 9000 else angle);
          idx = angle sdiv 500;
          rem = angle smod 500
      in to_s32 (CORE_SINE_TABLE ! nat idx * (500 - rem) + CORE_SINE_TABLE ! nat (idx + 1) * rem)
           sdiv 50)"

definition core_effect_wave :: "u32 \<Rightarrow> s32 \<Rightarrow> s32 \<Rightarrow> s32" where
  "core_effect_wave ty pos period =
     (if ty = 0x30 then (if pos < period sdiv 2 then 10000 else 0)
      else if ty = 0x31 then
        let angle = to_s32 (pos * 36000) sdiv period; q = angle sdiv 9000
        in if q = 0 then core_sine_lerp angle
           else if q = 1 then core_sine_lerp (to_s32 (18000 - angle))
           else if q = 2 then - core_sine_lerp (to_s32 (angle - 18000))
           else - core_sine_lerp (to_s32 (36000 - angle))
      else if ty = 0x32 then
        (if pos < period sdiv 2 then to_s32 (10000 - to_s32 (pos * 20000) sdiv period)
         else to_s32 (to_s32 ((pos - period sdiv 2) * 20000) sdiv period - 10000))
      else if ty = 0x33 then to_s32 (to_s32 (pos * 20000) sdiv period - 10000)
      else if ty = 0x34 then to_s32 (10000 - to_s32 (pos * 20000) sdiv period)
      else 0)"

text \<open>The switch of \<open>core_effect_axis_value\<close>: the value and the bias; \<open>None\<close> is its \<open>default\<close>.\<close>

definition axis_base :: "'w core_state \<Rightarrow> core_effect_slot \<Rightarrow> core_effect_axis \<Rightarrow> s32 \<Rightarrow> (s32 \<times> s32) option" where
  "axis_base cs slot ax elapsed =
     (if fx_type slot = 0x10 then Some (periodic_magnitude ax, 0)
      else if fx_type slot = 0x20 then
        (if duration slot = 0 \<or> duration slot = - 1 then Some (periodic_magnitude ax, 0)
         else Some (to_s32 (to_s32 ((duration slot - elapsed) * periodic_magnitude ax
                + periodic_offset ax * elapsed) sdiv duration slot), 0))
      else if fx_type slot \<in> {0x30, 0x31, 0x32, 0x33, 0x34} then
        let v = (if periodic_period ax \<noteq> 0 then
                   let pos = to_s32 (to_s32 (periodic_phase ax * periodic_period ax) sdiv 36000 + elapsed)
                               smod periodic_period ax
                   in core_effect_wave (fx_type slot) pos (periodic_period ax)
                 else 0)
        in Some (to_s32 (v * periodic_magnitude ax) sdiv 10000, periodic_offset ax)
      else if fx_type slot = 0x40 then
        Some (to_s32 (tune_strength cs * condition_output ax) sdiv 100, 0)
      else None)"

definition core_effect_axis_value :: "'w core_state \<Rightarrow> core_effect_slot \<Rightarrow> int \<Rightarrow> s32 \<Rightarrow> s32" where
  "core_effect_axis_value cs slot a elapsed =
     (if a < 0 \<or> 2 \<le> a then 0
      else case axis_base cs slot (axis slot ! nat a) elapsed of
        None \<Rightarrow> 0
      | Some (v, bias) \<Rightarrow>
          (let v = (if attack_time slot > 0 \<and> elapsed < attack_time slot
                    then to_s32 (to_s32 ((attack_time slot - elapsed) * attack_level slot + v * elapsed)
                           sdiv attack_time slot)
                    else v);
               remain = to_s32 (duration slot - elapsed);
               v = (if fade_time slot > 0 \<and> duration slot \<noteq> - 1 \<and>
                       elapsed \<ge> to_s32 (duration slot - fade_time slot)
                    then to_s32 (to_s32 ((fade_time slot - remain) * fade_level slot + remain * v)
                           sdiv fade_time slot)
                    else v)
           in clip_to 127 (to_s32 (v + bias))))"

section \<open>The condition pre-pass\<close>

definition condition_axis :: "s16 \<Rightarrow> core_effect_axis \<Rightarrow> core_effect_axis" where
  "condition_axis stick cond =
     (let dead = (condition_dead_band cond * 1200) sdiv 127;
          dead = (if dead < 0 then - dead else dead);
          delta = stick - (condition_center cond * 1200) sdiv 127;
          (coeff, sat, delta) =
            (if delta < 1 then
               (if delta < - dead
                then (condition_negative_coeff cond, condition_negative_sat cond, delta + dead)
                else (0, 0, delta))
             else if delta > dead
               then (condition_positive_coeff cond, condition_positive_sat cond, delta - dead)
               else (0, 0, delta));
          out = (coeff * delta) sdiv 1200;
          limit = (if sat = 0 then 127 else sat);
          limit = (if limit < 0 then - limit else limit);
          out = (if out > limit then limit else out);
          out = (if out < - limit then - limit else out)
      in cond[6 := u8_of out])"

definition core_effect_condition_update :: "'w core_state \<Rightarrow> 'w core_state" where
  "core_effect_condition_update cs =
     (if tune_strength cs = 0 then cs
      else cs\<lparr>effect := map (\<lambda>slot.
             if fx_type slot \<noteq> 0x40 \<or> \<not> running slot then slot
             else slot\<lparr>axis := [condition_axis (stick_x cs) (axis slot ! 0),
                               condition_axis (stick_y cs) (axis slot ! 1)]\<rparr>) (effect cs)\<rparr>)"

section \<open>Intensity\<close>

definition slot_live :: "s32 \<Rightarrow> core_effect_slot \<Rightarrow> bool" where
  "slot_live tick slot \<longleftrightarrow>
     (let elapsed = to_s32 (tick - start_tick slot)
      in running slot \<and> \<not> elapsed < 0 \<and> \<not> (duration slot \<noteq> - 1 \<and> elapsed \<ge> duration slot))"

definition effect_sums :: "'w core_state \<Rightarrow> s32 \<Rightarrow> s32 \<times> s32 \<times> bool" where
  "effect_sums cs tick = foldl (\<lambda>(s0, s1, any) slot.
     if slot_live tick slot then
       let elapsed = to_s32 (tick - start_tick slot)
       in (to_s32 (s0 + core_effect_axis_value cs slot 0 elapsed),
           to_s32 (s1 + core_effect_axis_value cs slot 1 elapsed), True)
     else (s0, s1, any)) (0, 0, False) (effect cs)"

definition abs_s32 :: "s32 \<Rightarrow> s32" where
  "abs_s32 v = (if v < 0 then to_s32 (- v) else v)"

text \<open>The soft OR of the two axes, and the boost of the low end.\<close>

definition soft_or :: "s32 \<Rightarrow> s32 \<Rightarrow> s32" where
  "soft_or y x = to_s32 (y - to_s32 (y * x) sdiv 200 + x)"

definition low_boost :: "s32 \<Rightarrow> s32" where
  "low_boost i = (if i < 1 then 0 else if i < 32 then (32 - i) sdiv 3 + i else i)"

definition core_effect_intensity :: "s32 \<Rightarrow> 'w core_state \<Rightarrow> s32 \<times> 'w core_state" where
  "core_effect_intensity tick cs =
     (let (s0, s1, any) = effect_sums cs tick;
          steady = soft_or (abs_s32 s1) (abs_s32 s0);
          dx = abs_s32 (to_s32 (filtered_x cs sdiv 6 - s0));
          dy = abs_s32 (to_s32 (filtered_y cs sdiv 6 - s1));
          transient = soft_or dy dx;
          intensity = to_s32 (to_s32 (steady * (tune_duty cs * tune_period cs)) sdiv 25000
                        + to_s32 (transient * tune_duty_complement cs * tune_period cs) sdiv 25000);
          intensity = (if u32_of (tune_mode cs) AND 1 \<noteq> 0
                       then to_s32 (tune_duty cs * tune_period cs + 999) sdiv 1000 else intensity)
      in (low_boost intensity,
          cs\<lparr>effect_idle_ticks := (if any then 0 else to_s32 (effect_idle_ticks cs + 1)),
             filtered_x := to_s32 (to_s32 (filtered_x cs * 5) sdiv 6 + s0),
             filtered_y := to_s32 (to_s32 (filtered_y cs * 5) sdiv 6 + s1)\<rparr>))"

section \<open>The modulator\<close>

definition tune_slots :: "'w core_state \<Rightarrow> s32" where
  "tune_slots cs =
     (let slots = to_s32 (tune_duty_complement cs * tune_period cs)
      in if slots > 0 then to_s32 (slots + 8000) sdiv 11112 + 1 else slots)"

text \<open>The modulator and the dither, before the tuning mode has its say: the pulse, the accumulator,
  the dither burst and the generator.\<close>

definition pulse_modulate :: "s32 \<Rightarrow> s32 \<Rightarrow> 'w core_state \<Rightarrow> s32 \<times> s32 \<times> s32 \<times> u32" where
  "pulse_modulate intensity base_tick cs =
     (let r = ((dither_state cs * 8) div 7 + u32_of base_tick) mod 10000;
          acc = to_s32 (accumulator cs + intensity);
          burst = (if intensity > 100 \<and> dither_burst cs = 0 then s32_of (r mod 6) + 9
                   else dither_burst cs);
          (pulse, acc, burst, r) =
            (if acc < 100 then (0, acc, 0, r)
             else if burst > 0 then
               let q = r div 7;
                   r = (drop_bit 2 (drop_bit 1 (r - q) + q) + r + u32_of base_tick) mod 10000;
                   burst = burst - 1;
                   threshold = s32_of (u32_of (to_s32 (intensity - 100) sdiv 20) div (r mod 3 + 1))
               in (if burst < 6 \<and> burst < threshold then 0 else 1, acc - 100, burst, r)
             else (1, acc - 100, burst, r))
      in (pulse, if acc > 100 then 100 else acc, burst, r))"

definition core_effect_pulse :: "s32 \<Rightarrow> s32 \<Rightarrow> 'w core_state \<Rightarrow> s32 \<times> 'w core_state" where
  "core_effect_pulse intensity base_tick cs =
     (let (pulse, acc, burst, r) = pulse_modulate intensity base_tick cs;
          (pulse, counter) =
            (if u32_of (tune_mode cs) AND 1 \<noteq> 0 then
               let counter = to_s32 (tune_counter cs + 1)
               in (if tune_counter cs < tune_slots cs then 1 else pulse,
                   if counter > 11 then 0 else counter)
             else (pulse, tune_counter cs))
      in (pulse, cs\<lparr>dither_state := r, accumulator := acc, dither_burst := burst,
                    tune_counter := counter\<rparr>))"

section \<open>The sine\<close>

lemma sine_table_steps:
  "\<forall>i\<in>set [0..<19]. 0 \<le> CORE_SINE_TABLE ! i \<and> CORE_SINE_TABLE ! i \<le> CORE_SINE_TABLE ! Suc i \<and>
     CORE_SINE_TABLE ! Suc i \<le> 1000"
  by code_simp

definition sine_num :: "nat \<Rightarrow> int" where
  "sine_num a = CORE_SINE_TABLE ! (a div 500) * (500 - int (a mod 500))
     + CORE_SINE_TABLE ! Suc (a div 500) * int (a mod 500)"

lemma sine_cell:
  assumes "a \<le> 9000"
  shows "0 \<le> CORE_SINE_TABLE ! (a div 500)"
    "CORE_SINE_TABLE ! (a div 500) \<le> CORE_SINE_TABLE ! Suc (a div 500)"
    "CORE_SINE_TABLE ! Suc (a div 500) \<le> 1000"
proof -
  have "a div 500 \<in> set [0..<19]" using assms by (simp add: less_Suc_eq_le div_le_mono [of a 9000 500, simplified])
  then show "0 \<le> CORE_SINE_TABLE ! (a div 500)"
    "CORE_SINE_TABLE ! (a div 500) \<le> CORE_SINE_TABLE ! Suc (a div 500)"
    "CORE_SINE_TABLE ! Suc (a div 500) \<le> 1000"
    using sine_table_steps by blast+
qed

lemma sine_num_range:
  assumes "a \<le> 9000"
  shows "0 \<le> sine_num a" "sine_num a \<le> 500000"
proof -
  let ?t = "CORE_SINE_TABLE ! (a div 500)" and ?u = "CORE_SINE_TABLE ! Suc (a div 500)"
    and ?r = "int (a mod 500)"
  note c = sine_cell [OF assms]
  have r: "0 \<le> ?r" "0 \<le> 500 - ?r" using mod_less_divisor [of 500 a] by linarith+
  show "0 \<le> sine_num a"
    unfolding sine_num_def using c r by (intro add_nonneg_nonneg mult_nonneg_nonneg) auto
  have "?t * (500 - ?r) + ?u * ?r \<le> 1000 * (500 - ?r) + 1000 * ?r"
    using c r by (intro add_mono mult_right_mono) auto
  then show "sine_num a \<le> 500000" unfolding sine_num_def by (simp add: algebra_simps)
qed

lemma sine_num_step: "a < 9000 \<Longrightarrow> sine_num a \<le> sine_num (Suc a)"
proof (cases "Suc (a mod 500) = 500")
  case True
  assume a: "a < 9000"
  then have "Suc a mod 500 = 0" "Suc a div 500 = Suc (a div 500)"
    using True by (simp_all add: mod_Suc div_Suc)
  moreover have "a mod 500 = 499" using True by simp
  ultimately show ?thesis using sine_cell(2) [of a] a by (simp add: sine_num_def)
next
  case False
  assume a: "a < 9000"
  then have "Suc a mod 500 = Suc (a mod 500)" "Suc a div 500 = a div 500"
    using False by (simp_all add: mod_Suc div_Suc)
  then show ?thesis using sine_cell(2) [of a] a by (simp add: sine_num_def algebra_simps)
qed

lemma sine_num_mono: "a \<le> b \<Longrightarrow> b \<le> 9000 \<Longrightarrow> sine_num a \<le> sine_num b"
proof (induction b)
  case (Suc b)
  then show ?case
    using sine_num_step [of b] by (cases "a = Suc b") (auto simp: le_Suc_eq intro: order_trans)
qed simp

definition clamp_angle :: "s32 \<Rightarrow> s32" where
  "clamp_angle a = max 0 (min 9000 a)"

lemma sine_lerp_num: "core_sine_lerp a = sine_num (nat (clamp_angle a)) div 50"
proof -
  have "0 \<le> clamp_angle a" "clamp_angle a \<le> 9000" by (auto simp: clamp_angle_def)
  then obtain n where n: "clamp_angle a = int n" "n \<le> 9000"
    by (metis nonneg_int_cases of_nat_le_iff of_nat_numeral)
  have c: "(if (if a < 0 then 0 else a) > 9000 then 9000 else if a < 0 then 0 else a) = int n"
    using n(1) by (auto simp: clamp_angle_def)
  have idx: "int n sdiv 500 = int (n div 500)" "int n smod 500 = int (n mod 500)"
    by (simp_all add: sdiv_pos smod_pos zdiv_int zmod_int)
  have suc: "nat (int (n div 500) + 1) = Suc (n div 500)" by simp
  have "to_s32 (sine_num n) = sine_num n"
    using sine_num_range [OF n(2)] by (intro to_s32_id) (simp add: is_s32_def)
  then show ?thesis
    using sine_num_range [OF n(2)]
    unfolding core_sine_lerp_def Let_def c idx suc nat_int n(1)
    by (simp add: sdiv_pos flip: sine_num_def)
qed

lemma sine_lerp_range: "0 \<le> core_sine_lerp a" "core_sine_lerp a \<le> 10000"
proof -
  have "nat (clamp_angle a) \<le> 9000" by (auto simp: clamp_angle_def)
  then show "0 \<le> core_sine_lerp a" "core_sine_lerp a \<le> 10000"
    using sine_num_range [of "nat (clamp_angle a)"] zdiv_mono1 [of "sine_num (nat (clamp_angle a))" 500000 50]
    by (simp_all add: sine_lerp_num pos_imp_zdiv_nonneg_iff)
qed

lemma sine_lerp_mono: "a \<le> b \<Longrightarrow> core_sine_lerp a \<le> core_sine_lerp b"
  unfolding sine_lerp_num by (intro zdiv_mono1 sine_num_mono) (auto simp: clamp_angle_def)

lemma sine_lerp_nodes: "k < 19 \<Longrightarrow> core_sine_lerp (500 * int k) = 10 * CORE_SINE_TABLE ! k"
proof -
  assume k: "k < 19"
  have "clamp_angle (500 * int k) = int (500 * k)" using k by (simp add: clamp_angle_def)
  then have "core_sine_lerp (500 * int k) = sine_num (500 * k) div 50"
    by (simp only: sine_lerp_num nat_int)
  also have "sine_num (500 * k) = 500 * CORE_SINE_TABLE ! k" by (simp add: sine_num_def)
  finally show ?thesis by simp
qed

text \<open>The quarter-wave interpolation rises: it is monotone over the whole argument range, exact
  at the nodes of the table, and therefore between the two neighbouring nodes everywhere else.\<close>

theorem sine_lerp_shape:
  "(a \<le> b \<longrightarrow> core_sine_lerp a \<le> core_sine_lerp b) \<and>
   (k < 19 \<longrightarrow> core_sine_lerp (500 * int k) = 10 * CORE_SINE_TABLE ! k) \<and>
   (k < 18 \<and> 500 * int k \<le> a \<and> a \<le> 500 * (int k + 1) \<longrightarrow>
      core_sine_lerp a \<in> {10 * CORE_SINE_TABLE ! k..10 * CORE_SINE_TABLE ! Suc k}) \<and>
   core_sine_lerp a \<in> {0..10000}"
proof -
  have "core_sine_lerp a \<in> {10 * CORE_SINE_TABLE ! k..10 * CORE_SINE_TABLE ! Suc k}"
    if "k < 18" "500 * int k \<le> a" "a \<le> 500 * (int k + 1)"
    using that sine_lerp_mono [of "500 * int k" a] sine_lerp_mono [of a "500 * int (Suc k)"]
      sine_lerp_nodes [of k] sine_lerp_nodes [of "Suc k"] by simp
  then show ?thesis
    using sine_lerp_mono [of a b] sine_lerp_nodes [of k] sine_lerp_range [of a] by auto
qed

theorem sine_lerp_shape_witness: "core_sine_lerp 3000 = 5000 \<and> core_sine_lerp 3000 \<le> core_sine_lerp 3100"
  using sine_lerp_shape [of 3000 3100 6] by (simp add: CORE_SINE_TABLE_def)

section \<open>The waveforms\<close>

lemma div_below: "0 < (b::int) \<Longrightarrow> x < k * b \<Longrightarrow> x div b < k"
proof (rule ccontr)
  assume b: "0 < b" and x: "x < k * b" and "\<not> x div b < k"
  then have "k * b \<le> x div b * b" by (intro mult_right_mono) auto
  also have "\<dots> \<le> x" using b pos_mod_sign [of b x] by (simp flip: minus_mod_eq_div_mult)
  finally show False using x by simp
qed

text \<open>For periods up to 59652 ticks (fifteen minutes) no product of a waveform wraps.\<close>

lemma wave_products:
  assumes "0 < period" and "period \<le> 59652" and "0 \<le> pos" and "pos < period"
  shows "to_s32 (pos * 36000) sdiv period = pos * 36000 div period"
    "to_s32 (pos * 20000) sdiv period = pos * 20000 div period"
    "period sdiv 2 = period div 2"
    "0 \<le> pos * 36000 div period" "pos * 36000 div period < 36000"
    "0 \<le> pos * 20000 div period" "pos * 20000 div period < 20000"
proof -
  have "is_s32 (pos * 36000)" "is_s32 (pos * 20000)" using assms by (auto simp: is_s32_def)
  then show "to_s32 (pos * 36000) sdiv period = pos * 36000 div period"
    "to_s32 (pos * 20000) sdiv period = pos * 20000 div period"
    using assms by (simp_all add: to_s32_id sdiv_pos)
  show "period sdiv 2 = period div 2" using assms by (simp add: sdiv_pos)
  show "0 \<le> pos * 36000 div period" "pos * 36000 div period < 36000"
    "0 \<le> pos * 20000 div period" "pos * 20000 div period < 20000"
    using assms by (simp_all add: pos_imp_zdiv_nonneg_iff div_below)
qed

lemma s32_small: "\<bar>x\<bar> \<le> 1000000 \<Longrightarrow> to_s32 x = x"
  by (rule to_s32_id) (auto simp: is_s32_def)

lemma wave_range:
  assumes "0 < period" and "period \<le> 59652" and "0 \<le> pos" and "pos < period"
  shows "\<bar>core_effect_wave ty pos period\<bar> \<le> 10000"
proof -
  note w = wave_products [OF assms]
  have h: "0 \<le> pos - period div 2" "pos - period div 2 < period" if "\<not> pos < period div 2"
    using that assms by auto
  note w' = wave_products [OF assms(1,2) h]
  define u where "u = pos * 20000 div period"
  have u: "0 \<le> u" "u < 20000" using w(6,7) by (simp_all add: u_def)
  have lerp: "core_sine_lerp a \<le> 10000" "- core_sine_lerp a \<le> 10000" for a
    using sine_lerp_range [of a] by simp_all
  have tri: "(pos - period div 2) * 20000 div period \<le> 10000" if "\<not> pos < period div 2"
  proof -
    define q where "q = period div 2"
    have "pos - q \<le> q" "2 * q \<le> period" using assms unfolding q_def by presburger+
    then have "(pos - period div 2) * 20000 < 10001 * period"
      using assms unfolding q_def [symmetric] by (simp add: algebra_simps)
    then show ?thesis using div_below [OF assms(1)] by fastforce
  qed
  show ?thesis
  proof (cases "pos < period div 2")
    case True
    then show ?thesis
      unfolding core_effect_wave_def Let_def w(1,2,3) u_def [symmetric]
      using u by (simp add: s32_small lerp abs_le_iff)
  next
    case False
    define t where "t = (pos - period div 2) * 20000 div period"
    have "0 \<le> t" "t \<le> 10000" using w'(6) [OF False False] tri [OF False] by (simp_all add: t_def)
    then show ?thesis
      using False u
      unfolding core_effect_wave_def Let_def w(1,2,3) w'(2) [OF False False]
        t_def [symmetric] u_def [symmetric]
      by (simp add: s32_small lerp abs_le_iff)
  qed
qed

text \<open>A half period later the angle is 180 degrees further.\<close>

lemma half_period:
  assumes "0 < (h::int)"
  shows "(pos + h) * 36000 div (2 * h) = pos * 36000 div (2 * h) + 18000"
    "(pos + h) * 20000 div (2 * h) = pos * 20000 div (2 * h) + 10000"
proof -
  have "(pos + h) * 36000 = pos * 36000 + 18000 * (2 * h)" "(pos + h) * 20000 = pos * 20000 + 10000 * (2 * h)"
    by simp_all
  then show "(pos + h) * 36000 div (2 * h) = pos * 36000 div (2 * h) + 18000"
    "(pos + h) * 20000 div (2 * h) = pos * 20000 div (2 * h) + 10000"
    using div_mult_self1 [of "2 * h" "pos * 36000" 18000] div_mult_self1 [of "2 * h" "pos * 20000" 10000]
      assms by (simp_all only: mult.commute)
qed

lemma sine_half:
  assumes "0 < h" and "2 * h \<le> 59652" and "0 \<le> pos" and "pos < h"
  shows "core_effect_wave 0x31 (pos + h) (2 * h) = - core_effect_wave 0x31 pos (2 * h)"
proof -
  let ?a = "pos * 36000 div (2 * h)"
  have a: "0 \<le> ?a" "?a < 18000"
    using assms wave_products(4) [of "2 * h" pos] by (auto intro!: div_below simp del: div_mult_mult1_if)
  have s: "(x sdiv 9000 = 0) = (x < 9000)" "(x sdiv 9000 = 1) = (9000 \<le> x \<and> x < 18000)"
    "(x sdiv 9000 = 2) = (18000 \<le> x \<and> x < 27000)" if "0 \<le> x" "x < 36000" for x :: int
    using that by (auto simp: sdiv_pos)
  have "to_s32 (pos * 36000) sdiv (2 * h) = ?a" "to_s32 ((pos + h) * 36000) sdiv (2 * h) = ?a + 18000"
    using wave_products(1) [of "2 * h" pos] wave_products(1) [of "2 * h" "pos + h"] assms
      half_period(1) [OF assms(1), of pos] by auto
  then show ?thesis
    using a by (simp add: core_effect_wave_def Let_def s s32_small)
qed

lemma triangle_half:
  assumes "0 < h" and "2 * h \<le> 59652" and "0 \<le> pos" and "pos < h"
  shows "core_effect_wave 0x32 (pos + h) (2 * h) = - core_effect_wave 0x32 pos (2 * h)"
    and "core_effect_wave 0x32 pos (2 * h) = 10000 - pos * 20000 div (2 * h)"
proof -
  have "0 \<le> pos * 20000 div (2 * h)" "pos * 20000 div (2 * h) < 10000"
    using assms wave_products(6) [of "2 * h" pos] by (auto intro!: div_below)
  moreover have "to_s32 (pos * 20000) sdiv (2 * h) = pos * 20000 div (2 * h)" "(2 * h) sdiv 2 = h"
    using wave_products(2,3) [of "2 * h" pos] assms by auto
  ultimately show "core_effect_wave 0x32 (pos + h) (2 * h) = - core_effect_wave 0x32 pos (2 * h)"
    "core_effect_wave 0x32 pos (2 * h) = 10000 - pos * 20000 div (2 * h)"
    using assms by (simp_all add: core_effect_wave_def Let_def s32_small)
qed

text \<open>A periodic waveform stays within full scale; the second half of a sine or a triangle is
  the first half negated. The triangle falls from full scale to zero over the first half and then
  jumps to negative full scale: it is two ramps, not a continuous triangle.\<close>

theorem wave_shape:
  assumes "0 < h" and "2 * h \<le> 59652" and "0 \<le> pos" and "pos < h"
  shows "\<bar>core_effect_wave ty pos (2 * h)\<bar> \<le> 10000 \<and>
    core_effect_wave 0x31 (pos + h) (2 * h) = - core_effect_wave 0x31 pos (2 * h) \<and>
    core_effect_wave 0x32 (pos + h) (2 * h) = - core_effect_wave 0x32 pos (2 * h) \<and>
    core_effect_wave 0x32 pos (2 * h) \<in> {1..10000} \<and>
    core_effect_wave 0x32 h (2 * h) = - 10000"
proof -
  have "core_effect_wave 0x32 pos (2 * h) \<in> {1..10000}"
    using triangle_half(2) [OF assms] wave_products(6) [of "2 * h" pos]
      div_below [of "2 * h" "pos * 20000" 10000] assms by simp
  moreover have "core_effect_wave 0x32 (0 + h) (2 * h) = - core_effect_wave 0x32 0 (2 * h)"
    "core_effect_wave 0x32 0 (2 * h) = 10000 - 0 * 20000 div (2 * h)"
    using triangle_half [of h 0] assms by auto
  ultimately show ?thesis
    using wave_range [of "2 * h" pos ty] sine_half [OF assms] triangle_half(1) [OF assms] assms by simp
qed

theorem wave_shape_witness: "core_effect_wave 0x31 (8 + 16) 32 = - core_effect_wave 0x31 8 32"
  using wave_shape [of 16 8 0] by simp

section \<open>A condition is a spring\<close>

definition spring_cap :: "s32 \<Rightarrow> s32 \<Rightarrow> s32" where
  "spring_cap sat v = (let l = (if sat = 0 then 127 else \<bar>sat\<bar>) in max (- l) (min l v))"

definition spring :: "s16 \<Rightarrow> core_effect_axis \<Rightarrow> s32" where
  "spring stick cond =
     (let dead = \<bar>(condition_dead_band cond * 1200) sdiv 127\<bar>;
          dist = stick - (condition_center cond * 1200) sdiv 127
      in if dist > dead
         then spring_cap (condition_positive_sat cond)
                ((condition_positive_coeff cond * (dist - dead)) sdiv 1200)
         else if dist < - dead
         then spring_cap (condition_negative_sat cond)
                ((condition_negative_coeff cond * (dist + dead)) sdiv 1200)
         else 0)"

lemma s8_of_u8_of: "s8_of (u8_of x) = to_s8 x"
  by (simp add: s8_of_def u8_of_def to_s8_def sint_sbintrunc')

lemma spring_capped:
  "0 < l \<Longrightarrow> (let out = (if v > l then l else v) in if out < - l then - l else out) = max (- l) (min l v)"
  for l v :: int
  by auto

lemma condition_axis_spring: "condition_axis stick cond = cond[6 := u8_of (spring stick cond)]"
proof -
  have "(let limit = (if sat = 0 then 127 else sat); limit = (if limit < 0 then - limit else limit);
      out = (if v > limit then limit else v) in if out < - limit then - limit else out) = spring_cap sat v"
    for sat v :: s32
    by (simp add: spring_cap_def Let_def)
  note cap = this [unfolded Let_def]
  define d where "d = \<bar>(condition_dead_band cond * 1200) sdiv 127\<bar>"
  define x where "x = stick - (condition_center cond * 1200) sdiv 127"
  have dead: "(if (condition_dead_band cond * 1200) sdiv 127 < 0
      then - ((condition_dead_band cond * 1200) sdiv 127)
      else (condition_dead_band cond * 1200) sdiv 127) = d" unfolding d_def by simp
  have side: "(if x < 1 then if x < - d then (nc, ns, x + d) else (0, 0, x)
      else if x > d then (pc, ps, x - d) else (0, 0, x)) =
    (if x > d then (pc, ps, x - d) else if x < - d then (nc, ns, x + d) else (0, 0, x))"
    for nc ns pc ps :: s32
    by (auto simp: d_def)
  have "spring_cap 0 0 = 0" by (simp add: spring_cap_def)
  then show ?thesis
    unfolding condition_axis_def spring_def Let_def dead d_def [symmetric] x_def [symmetric] side
    by (cases "x > d"; cases "x < - d") (simp_all only: if_True if_False prod.case cap mult_zero_left
        not_less_iff_gr_or_eq sdiv_pos, simp_all)
qed

lemma spring_cap_range: "sat \<noteq> - 128 \<Longrightarrow> - 128 \<le> sat \<Longrightarrow> sat \<le> 127 \<Longrightarrow> \<bar>spring_cap sat v\<bar> \<le> 127"
  by (auto simp: spring_cap_def Let_def)

text \<open>A condition effect is a spring about its centre: no force in the dead band, a force
  proportional to the distance beyond it with the coefficient and the saturation of that side,
  and, unless a saturation is -128, the output byte holds exactly that force. The pre-pass writes
  the output byte only, and never reads it.\<close>

theorem condition_is_spring:
  assumes "length cond = 8"
  shows "condition_output (condition_axis stick cond) = to_s8 (spring stick cond) \<and>
    (condition_positive_sat cond \<noteq> - 128 \<and> condition_negative_sat cond \<noteq> - 128 \<longrightarrow>
      condition_output (condition_axis stick cond) = spring stick cond) \<and>
    (\<forall>i. i \<noteq> 6 \<longrightarrow> condition_axis stick cond ! i = cond ! i) \<and>
    condition_axis stick (condition_axis stick' cond) = condition_axis stick cond"
proof -
  have "spring stick (cond[6 := b]) = spring stick cond" for b
    by (simp add: spring_def Let_def condition_center_def condition_positive_coeff_def
        condition_negative_coeff_def condition_positive_sat_def condition_negative_sat_def
        condition_dead_band_def)
  moreover have "\<bar>spring stick cond\<bar> \<le> 127"
    if "condition_positive_sat cond \<noteq> - 128" "condition_negative_sat cond \<noteq> - 128"
    using that spring_cap_range
    by (simp add: spring_def Let_def condition_positive_sat_def condition_negative_sat_def)
  moreover have "to_s8 x = x" if "\<bar>x\<bar> \<le> 127" for x
    using that by (intro to_s8_id) (auto simp: is_s8_def)
  ultimately show ?thesis
    using assms by (simp add: condition_axis_spring condition_output_def s8_of_u8_of)
qed

theorem condition_is_spring_witness:
  "condition_output (condition_axis 1200 [0, 100, 100, 0, 0, 10, 0, 0]) =
   spring 1200 [0, 100, 100, 0, 0, 10, 0, 0]"
  using condition_is_spring [of "[0, 100, 100, 0, 0, 10, 0, 0]" 1200 0]
  by (simp add: condition_positive_sat_def condition_negative_sat_def s8_of_def)

text \<open>A saturation of -128 is taken as a limit of 128, which the output byte cannot hold: a
  spring at that limit is stored as -128, the full force in the opposite direction.\<close>

theorem condition_saturation_reverses:
  "spring 1200 [128, 127, 0, 128, 0, 0, 0, 0] = 128 \<and>
   condition_output (condition_axis 1200 [128, 127, 0, 128, 0, 0, 0, 0]) = - 128"
  by code_simp

section \<open>The envelope\<close>

lemma interp_between:
  assumes "0 < (t::int)" and "0 \<le> e" and "e \<le> t"
  shows "((t - e) * x + e * y) sdiv t \<in> {min x y..max x y}"
proof -
  have lo: "t * min x y \<le> (t - e) * x + e * y" and hi: "(t - e) * x + e * y \<le> t * max x y"
  proof -
    have "(t - e) * min x y + e * min x y \<le> (t - e) * x + e * y"
      using assms by (intro add_mono mult_left_mono) auto
    then show "t * min x y \<le> (t - e) * x + e * y" by (simp add: algebra_simps)
    have "(t - e) * x + e * y \<le> (t - e) * max x y + e * max x y"
      using assms by (intro add_mono mult_left_mono) auto
    then show "(t - e) * x + e * y \<le> t * max x y" by (simp add: algebra_simps)
  qed
  have "(t * z) sdiv t = z" for z
    using assms(1) by (cases "0 \<le> z") (simp_all add: sdiv_pos sdiv_neg mult_pos_neg flip: mult_minus_right)
  then show ?thesis
    using sdiv_mono [OF assms(1) lo] sdiv_mono [OF assms(1) hi] by simp
qed

lemma interp_reduce:
  assumes "0 < t" and "t \<le> 8388607" and "0 \<le> e" and "e \<le> t" and "\<bar>x\<bar> \<le> 127" and "\<bar>y\<bar> \<le> 127"
  shows "to_s32 (to_s32 ((t - e) * x + y * e) sdiv t) = ((t - e) * x + e * y) sdiv t"
    and "((t - e) * x + e * y) sdiv t \<in> {min x y..max x y}"
proof -
  show between: "((t - e) * x + e * y) sdiv t \<in> {min x y..max x y}"
    by (rule interp_between [OF assms(1,3,4)])
  have "(t - e) * \<bar>x\<bar> \<le> 8388607 * 127" "e * \<bar>y\<bar> \<le> 8388607 * 127"
    using assms by (intro mult_mono; simp)+
  then have "\<bar>(t - e) * x\<bar> \<le> 8388607 * 127" "\<bar>e * y\<bar> \<le> 8388607 * 127"
    using assms by (simp_all add: abs_mult)
  then have "is_s32 ((t - e) * x + e * y)" unfolding is_s32_def by linarith
  moreover have "is_s32 (((t - e) * x + e * y) sdiv t)"
    using between assms(5,6) by (auto simp: is_s32_def)
  ultimately show "to_s32 (to_s32 ((t - e) * x + y * e) sdiv t) = ((t - e) * x + e * y) sdiv t"
    by (simp add: to_s32_id mult.commute [of y e])
qed

text \<open>The envelope of a constant effect of up to 36 hours whose attack and fade do not overlap:
  it starts at the attack level, stays between that and the magnitude during the attack, is the
  magnitude in the middle, stays between the magnitude and the fade level during the fade, and
  ends on the fade level.\<close>

theorem constant_envelope:
  fixes slot :: core_effect_slot and a :: int
  assumes "fx_type slot = 0x10" and "a \<in> {0, 1}"
    and "0 \<le> attack_time slot" and "0 \<le> fade_time slot"
    and "attack_time slot + fade_time slot \<le> duration slot" and "duration slot \<le> 8388607"
    and "\<bar>attack_level slot\<bar> \<le> 127" and "\<bar>fade_level slot\<bar> \<le> 127"
    and "\<bar>periodic_magnitude (axis slot ! nat a)\<bar> \<le> 127"
    and "0 \<le> elapsed" and "elapsed \<le> duration slot"
  shows "let m = periodic_magnitude (axis slot ! nat a); v = core_effect_axis_value cs slot a elapsed
    in (elapsed < attack_time slot \<longrightarrow>
          v \<in> {min (attack_level slot) m..max (attack_level slot) m} \<and>
          (elapsed = 0 \<longrightarrow> v = attack_level slot)) \<and>
       (attack_time slot \<le> elapsed \<and> elapsed < duration slot - fade_time slot \<longrightarrow> v = m) \<and>
       (0 < fade_time slot \<and> duration slot - fade_time slot \<le> elapsed \<longrightarrow>
          v \<in> {min (fade_level slot) m..max (fade_level slot) m} \<and>
          (elapsed = duration slot \<longrightarrow> v = fade_level slot))"
proof -
  define m where "m = periodic_magnitude (axis slot ! nat a)"
  define v where "v = core_effect_axis_value cs slot a elapsed"
  let ?A = "attack_time slot" and ?F = "fade_time slot" and ?D = "duration slot"
  let ?L = "attack_level slot" and ?E = "fade_level slot"
  have r: "to_s32 (?D - elapsed) = ?D - elapsed" "to_s32 (?D - ?F) = ?D - ?F"
    using assms by (auto intro!: to_s32_id simp: is_s32_def)
  have v: "v = clip_to 127 (to_s32 (
      let v1 = (if ?A > 0 \<and> elapsed < ?A
                then to_s32 (to_s32 ((?A - elapsed) * ?L + m * elapsed) sdiv ?A) else m)
      in if ?F > 0 \<and> elapsed \<ge> ?D - ?F
         then to_s32 (to_s32 ((?F - (?D - elapsed)) * ?E + (?D - elapsed) * v1) sdiv ?F) else v1))"
    using assms(1,2) assms(3-6) unfolding v_def m_def
    by (auto simp: core_effect_axis_value_def axis_base_def Let_def r)
  have small: "clip_to 127 (to_s32 x) = x" if "\<bar>x\<bar> \<le> 127" for x
    using that by (subst to_s32_id) (auto simp: is_s32_def clip_to_eq)
  have "v \<in> {min ?L m..max ?L m} \<and> (elapsed = 0 \<longrightarrow> v = ?L)" if lt: "elapsed < ?A"
  proof -
    have A: "0 < ?A" "?A \<le> 8388607" "elapsed \<le> ?A" using lt assms by linarith+
    have nf: "\<not> (?F > 0 \<and> elapsed \<ge> ?D - ?F)" using lt assms by linarith
    note i = interp_reduce [OF A(1,2) assms(10) A(3) assms(7) assms(9) [folded m_def]]
    have "\<bar>((?A - elapsed) * ?L + elapsed * m) sdiv ?A\<bar> \<le> 127"
      using i(2) assms(7,9) by (auto simp flip: m_def)
    then have "v = ((?A - elapsed) * ?L + elapsed * m) sdiv ?A"
      using v A(1) lt nf i(1) small by (simp add: Let_def)
    moreover have "(?A * ?L) sdiv ?A = ?L"
      using interp_between [OF A(1), of 0 ?L ?L] A(1) by simp
    ultimately show ?thesis using i(2) by auto
  qed
  moreover have "v = m" if "?A \<le> elapsed" "elapsed < ?D - ?F"
    using v that small [of m] assms(9) by (simp add: Let_def flip: m_def)
  moreover have "v \<in> {min ?E m..max ?E m} \<and> (elapsed = ?D \<longrightarrow> v = ?E)"
    if f: "0 < ?F" "?D - ?F \<le> elapsed"
  proof -
    have F: "?F \<le> 8388607" "0 \<le> ?D - elapsed" "?D - elapsed \<le> ?F" "\<not> (?A > 0 \<and> elapsed < ?A)"
      using f assms by linarith+
    note i = interp_reduce [OF f(1) F(1,2,3) assms(8) assms(9) [folded m_def]]
    have "\<bar>((?F - (?D - elapsed)) * ?E + (?D - elapsed) * m) sdiv ?F\<bar> \<le> 127"
      using i(2) assms(8,9) by (auto simp flip: m_def)
    then have "v = ((?F - (?D - elapsed)) * ?E + (?D - elapsed) * m) sdiv ?F"
      using v f F(4) i(1) small by (simp add: Let_def mult.commute [of m])
    moreover have "(?F * ?E) sdiv ?F = ?E"
      using interp_between [OF f(1), of 0 ?E ?E] f(1) by simp
    ultimately show ?thesis using i(2) by auto
  qed
  ultimately show ?thesis unfolding Let_def m_def v_def by blast
qed

text \<open>A constant effect with attack, middle and fade, for the concrete instances below.\<close>

definition ramped_slot :: core_effect_slot where
  "ramped_slot = zero_slot\<lparr>fx_type := 0x10, running := True, duration := 100, attack_level := 10,
     attack_time := 20, fade_level := 5, fade_time := 30,
     axis := [[100, 0, 0, 0, 0, 0, 0, 0], [100, 0, 0, 0, 0, 0, 0, 0]]\<rparr>"

theorem constant_envelope_witness:
  "core_effect_axis_value (core_zeroed ()) ramped_slot 0 0 = 10 \<and>
   core_effect_axis_value (core_zeroed ()) ramped_slot 0 50 = 100 \<and>
   core_effect_axis_value (core_zeroed ()) ramped_slot 0 100 = 5"
  using constant_envelope [of ramped_slot 0 0 "core_zeroed ()"]
    constant_envelope [of ramped_slot 0 50 "core_zeroed ()"]
    constant_envelope [of ramped_slot 0 100 "core_zeroed ()"]
  by (simp add: ramped_slot_def zero_slot_def periodic_magnitude_def s8_of_def Let_def)

section \<open>The sum over the slots\<close>

lemma clip_range: "0 \<le> l \<Longrightarrow> \<bar>clip_to l v\<bar> \<le> l"
  by (auto simp: clip_to_eq)

lemma axis_value_range: "\<bar>core_effect_axis_value cs slot a elapsed\<bar> \<le> 127"
  using clip_range [of 127]
  by (auto simp: core_effect_axis_value_def Let_def split: option.split)

definition add_slot where
  "add_slot cs tick acc slot = (case acc of (s0, s1, any) \<Rightarrow>
     if slot_live tick slot then
       let elapsed = to_s32 (tick - start_tick slot)
       in (to_s32 (s0 + core_effect_axis_value cs slot 0 elapsed),
           to_s32 (s1 + core_effect_axis_value cs slot 1 elapsed), True)
     else (s0, s1, any))"

lemma effect_sums_fold: "effect_sums cs tick = foldl (add_slot cs tick) (0, 0, False) (effect cs)"
  unfolding effect_sums_def by (rule arg_cong2 [where f = "\<lambda>f. foldl f (0, 0, False)"])
    (auto simp: add_slot_def fun_eq_iff)

lemma add_slot_step:
  assumes "\<bar>fst acc\<bar> \<le> b" and "\<bar>fst (snd acc)\<bar> \<le> b" and "b + 127 \<le> 1000000"
  shows "\<bar>fst (add_slot cs tick acc slot)\<bar> \<le> b + 127"
    "\<bar>fst (snd (add_slot cs tick acc slot))\<bar> \<le> b + 127"
    "snd (snd (add_slot cs tick acc slot)) \<longleftrightarrow> snd (snd acc) \<or> slot_live tick slot"
    "\<not> slot_live tick slot \<Longrightarrow> add_slot cs tick acc slot = acc"
  using assms axis_value_range [of cs slot 0 "to_s32 (tick - start_tick slot)"]
    axis_value_range [of cs slot 1 "to_s32 (tick - start_tick slot)"]
  by (auto simp: add_slot_def Let_def s32_small split: prod.split)

lemma add_slots_bound:
  assumes "\<bar>fst acc\<bar> \<le> b" and "\<bar>fst (snd acc)\<bar> \<le> b" and "b + 127 * int (length slots) \<le> 1000000"
  shows "\<bar>fst (foldl (add_slot cs tick) acc slots)\<bar> \<le> b + 127 * int (length slots) \<and>
    \<bar>fst (snd (foldl (add_slot cs tick) acc slots))\<bar> \<le> b + 127 * int (length slots) \<and>
    (snd (snd (foldl (add_slot cs tick) acc slots)) \<longleftrightarrow>
       snd (snd acc) \<or> (\<exists>slot\<in>set slots. slot_live tick slot)) \<and>
    ((\<forall>slot\<in>set slots. \<not> slot_live tick slot) \<longrightarrow> foldl (add_slot cs tick) acc slots = acc)"
  using assms
proof (induction slots arbitrary: acc b)
  case (Cons slot slots)
  have b: "b + 127 \<le> 1000000" using Cons.prems by simp
  note step = add_slot_step [OF Cons.prems(1,2) b]
  have room: "b + 127 + 127 * int (length slots) \<le> 1000000" using Cons.prems by simp
  have len: "b + 127 * int (length (slot # slots)) = b + 127 + 127 * int (length slots)" by simp
  from Cons.IH [OF step(1,2) room] step(3,4) show ?case
    unfolding len foldl_Cons by (metis (no_types, lifting) list.set_intros(1,2) set_ConsD)
qed simp

lemma effect_sums_bound:
  assumes "length (effect cs) = 32"
  shows "\<bar>fst (effect_sums cs tick)\<bar> \<le> 4064" "\<bar>fst (snd (effect_sums cs tick))\<bar> \<le> 4064"
    "snd (snd (effect_sums cs tick)) \<longleftrightarrow> (\<exists>slot\<in>set (effect cs). slot_live tick slot)"
    "(\<forall>slot\<in>set (effect cs). \<not> slot_live tick slot) \<Longrightarrow> effect_sums cs tick = (0, 0, False)"
  using add_slots_bound [of "(0, 0, False)" 0 "effect cs" cs tick] assms
  by (auto simp: effect_sums_fold)

text \<open>The modulator's input is never negative, and below the low-end boost there is nothing
  but silence: it is 0 or at least 11. The sums it is made from stay within 32 full-scale slots.
  With no effect live at the tick and the tuning mode off, the idle count goes up, both filters
  decay, and once they have settled the input is 0.\<close>

theorem intensity_behaviour:
  assumes "length (effect cs) = 32"
  shows "(let (i, cs') = core_effect_intensity tick cs
     in (i = 0 \<or> 11 \<le> i) \<and>
        \<bar>fst (effect_sums cs tick)\<bar> \<le> 4064 \<and> \<bar>fst (snd (effect_sums cs tick))\<bar> \<le> 4064 \<and>
        ((\<exists>slot\<in>set (effect cs). slot_live tick slot) \<longrightarrow> effect_idle_ticks cs' = 0) \<and>
        ((\<forall>slot\<in>set (effect cs). \<not> slot_live tick slot) \<and> u32_of (tune_mode cs) AND 1 = 0 \<and>
           \<bar>filtered_x cs\<bar> \<le> 100000000 \<and> \<bar>filtered_y cs\<bar> \<le> 100000000 \<longrightarrow>
          effect_idle_ticks cs' = to_s32 (effect_idle_ticks cs + 1) \<and>
          (filtered_x cs \<noteq> 0 \<longrightarrow> \<bar>filtered_x cs'\<bar> < \<bar>filtered_x cs\<bar>) \<and>
          (filtered_y cs \<noteq> 0 \<longrightarrow> \<bar>filtered_y cs'\<bar> < \<bar>filtered_y cs\<bar>) \<and>
          (\<bar>filtered_x cs\<bar> < 6 \<and> \<bar>filtered_y cs\<bar> < 6 \<longrightarrow> i = 0)))"
proof -
  obtain s0 s1 any where sums: "effect_sums cs tick = (s0, s1, any)" by (metis prod_cases3)
  obtain i cs' where run: "core_effect_intensity tick cs = (i, cs')" by fastforce
  note parts = run [unfolded core_effect_intensity_def sums Let_def prod.case prod.inject]
  have "i = 0 \<or> 11 \<le> i"
    by (subst (1 2) conjunct1 [OF parts, symmetric]) (auto simp: low_boost_def sdiv_pos)
  moreover have "effect_idle_ticks cs' = (if any then 0 else to_s32 (effect_idle_ticks cs + 1))"
    "filtered_x cs' = to_s32 (to_s32 (filtered_x cs * 5) sdiv 6 + s0)"
    "filtered_y cs' = to_s32 (to_s32 (filtered_y cs * 5) sdiv 6 + s1)"
    using parts by auto
  moreover have decay: "to_s32 (to_s32 (f * 5) sdiv 6 + 0) = (f * 5) sdiv 6"
    "f \<noteq> 0 \<Longrightarrow> \<bar>(f * 5) sdiv 6\<bar> < \<bar>f\<bar>" if "\<bar>f\<bar> \<le> 100000000" for f
  proof -
    have "is_s32 (f * 5)" using that unfolding is_s32_def by linarith
    moreover from this have "is_s32 ((f * 5) sdiv 6)"
      using abs_sdiv_le [of "f * 5" 6] that unfolding is_s32_def by linarith
    ultimately show "to_s32 (to_s32 (f * 5) sdiv 6 + 0) = (f * 5) sdiv 6" by (simp add: to_s32_id)
    show "f \<noteq> 0 \<Longrightarrow> \<bar>(f * 5) sdiv 6\<bar> < \<bar>f\<bar>"
      by (cases "0 \<le> f") (auto simp: sdiv_pos sdiv_neg)
  qed
  moreover have "i = 0" if "(s0, s1) = (0, 0)" "u32_of (tune_mode cs) AND 1 = 0"
    "\<bar>filtered_x cs\<bar> < 6" "\<bar>filtered_y cs\<bar> < 6"
  proof -
    have "f sdiv 6 = 0" if "\<bar>f\<bar> < 6" for f :: int
      using that by (cases "0 \<le> f") (auto simp: sdiv_pos sdiv_neg)
    moreover have "to_s32 0 = 0" by (simp add: s32_small)
    ultimately show ?thesis
      using that by (subst conjunct1 [OF parts, symmetric]) (simp add: low_boost_def abs_s32_def soft_or_def)
  qed
  ultimately show ?thesis
    using effect_sums_bound [OF assms, of tick] unfolding run sums by auto
qed

theorem intensity_behaviour_witness:
  "effect_idle_ticks (snd (core_effect_intensity 0 (core_init 1 0 (core_zeroed ())))) = 1 \<and>
   fst (core_effect_intensity 0 (core_init 1 0 (core_zeroed ()))) = 0"
proof -
  let ?cs = "core_init 1 0 (core_zeroed ())"
  have "length (effect ?cs) = 32" "\<forall>slot\<in>set (effect ?cs). \<not> slot_live 0 slot"
    "u32_of (tune_mode ?cs) AND 1 = 0" "filtered_x ?cs = 0" "filtered_y ?cs = 0"
    "to_s32 (effect_idle_ticks ?cs + 1) = 1"
    by (simp_all add: core_init_def core_zeroed_def slot_live_def zero_slot_def u32_of_def s32_small)
  then show ?thesis
    using intensity_behaviour [of ?cs 0] by (auto split: prod.splits)
qed

text \<open>One full-scale constant effect on both axes, and a settled state with \<open>n\<close> of them.\<close>

definition full_slot :: core_effect_slot where
  "full_slot = zero_slot\<lparr>fx_type := 0x10, running := True, duration := - 1,
     axis := replicate 2 [127, 0, 0, 0, 0, 0, 0, 0]\<rparr>"

definition settled :: "nat \<Rightarrow> unit core_state" where
  "settled n = (core_init 1 0 (core_zeroed ()))
     \<lparr>effect := replicate n full_slot @ replicate (32 - n) zero_slot,
      filtered_x := 762 * int n, filtered_y := 762 * int n\<rparr>"

text \<open>The soft OR of the axes does not saturate: it is a parabola that turns over at 200. With
  the default calibration one full-scale effect drives the motor at 174 per hundred, and four of
  them together drive it at 0.\<close>

theorem strong_effects_cancel:
  "fst (core_effect_intensity 0 (settled 1)) = 174 \<and>
   fst (core_effect_intensity 0 (settled 4)) = 0 \<and>
   filtered_x (snd (core_effect_intensity 0 (settled 4))) = filtered_x (settled 4)"
  by code_simp

section \<open>The modulator\<close>

definition tuning_off :: "'w core_state \<Rightarrow> bool" where
  "tuning_off cs \<longleftrightarrow> u32_of (tune_mode cs) AND 1 = 0"

definition modulator_ok :: "'w core_state \<Rightarrow> bool" where
  "modulator_ok cs \<longleftrightarrow> 0 \<le> accumulator cs \<and> accumulator cs \<le> 100 \<and>
     0 \<le> dither_burst cs \<and> dither_burst cs \<le> 14 \<and> dither_state cs < 10000 \<and>
     0 \<le> tune_counter cs \<and> tune_counter cs \<le> 11"

lemma mod_10000: "(w mod 10000 :: u32) < 10000"
  by (simp add: word_mod_less_divisor)

lemma burst_armed:
  "s32_of ((w :: u32) mod 6) \<le> 5" "s32_of (w mod 6) \<le> 6" "0 \<le> s32_of (w mod 6)"
  "0 < s32_of (w mod 6) + 9"
proof -
  have u: "0 \<le> uint (w mod 6)" "uint (w mod 6) < 6" by (simp_all add: uint_mod)
  have "is_s32 (uint (w mod 6))" using u unfolding is_s32_def by linarith
  then have "s32_of (w mod 6) = uint (w mod 6)"
    using to_s32_id [of "uint (w mod 6)"] by (simp add: s32_of_def to_s32_def sint_uint)
  then show "s32_of (w mod 6) \<le> 5" "s32_of (w mod 6) \<le> 6" "0 \<le> s32_of (w mod 6)"
    "0 < s32_of (w mod 6) + 9"
    using u by linarith+
qed

lemma pulse_modulator:
  assumes "modulator_ok cs" and "0 \<le> i" and "i \<le> 2147483547"
  shows "modulator_ok (snd (core_effect_pulse i t cs))" "fst (core_effect_pulse i t cs) \<in> {0, 1}"
proof -
  have acc: "to_s32 (accumulator cs + i) = accumulator cs + i"
    using assms by (intro to_s32_id) (auto simp: modulator_ok_def is_s32_def)
  have cnt: "to_s32 (tune_counter cs + 1) = tune_counter cs + 1"
    using assms by (intro to_s32_id) (auto simp: modulator_ok_def is_s32_def)
  show "modulator_ok (snd (core_effect_pulse i t cs))"
    using assms burst_armed mod_10000
    by (auto simp: core_effect_pulse_def pulse_modulate_def modulator_ok_def Let_def acc cnt)
  show "fst (core_effect_pulse i t cs) \<in> {0, 1}"
    by (auto simp: core_effect_pulse_def pulse_modulate_def Let_def)
qed

text \<open>A run of the modulator over a list of inputs: the pulses, and the state left behind.\<close>

fun pulse_run :: "s32 \<Rightarrow> s32 list \<Rightarrow> 'w core_state \<Rightarrow> s32 list \<times> 'w core_state" where
  "pulse_run t [] cs = ([], cs)"
| "pulse_run t (i # is) cs =
     (let (p, cs) = core_effect_pulse i t cs; (ps, cs) = pulse_run t is cs in (p # ps, cs))"

lemma pulse_low:
  assumes "modulator_ok cs" and "tuning_off cs" and "dither_burst cs = 0" and "0 \<le> i" and "i \<le> 100"
  shows "100 * fst (core_effect_pulse i t cs) + accumulator (snd (core_effect_pulse i t cs))
      = accumulator cs + i"
    "tuning_off (snd (core_effect_pulse i t cs))" "dither_burst (snd (core_effect_pulse i t cs)) = 0"
proof -
  have acc: "to_s32 (accumulator cs + i) = accumulator cs + i"
    using assms by (intro to_s32_id) (auto simp: modulator_ok_def is_s32_def)
  show "100 * fst (core_effect_pulse i t cs) + accumulator (snd (core_effect_pulse i t cs))
      = accumulator cs + i"
    "tuning_off (snd (core_effect_pulse i t cs))" "dither_burst (snd (core_effect_pulse i t cs)) = 0"
    using assms by (auto simp: core_effect_pulse_def pulse_modulate_def tuning_off_def modulator_ok_def Let_def acc)
qed

lemma pulse_run_balance:
  assumes "modulator_ok cs" and "tuning_off cs" and "dither_burst cs = 0"
    and "\<forall>i\<in>set is. 0 \<le> i \<and> i \<le> 100"
  shows "100 * sum_list (fst (pulse_run t is cs)) + accumulator (snd (pulse_run t is cs))
      = accumulator cs + sum_list is \<and> modulator_ok (snd (pulse_run t is cs))"
  using assms
proof (induction "is" arbitrary: cs)
  case (Cons i "is")
  let ?cs = "snd (core_effect_pulse i t cs)"
  have i: "0 \<le> i" "i \<le> 100" using Cons.prems by auto
  have ok: "modulator_ok ?cs" using pulse_modulator(1) [OF Cons.prems(1)] i by simp
  note low = pulse_low [OF Cons.prems(1-3) i, of t]
  show ?case
    using Cons.IH [OF ok low(2,3)] Cons.prems(4) low(1) by (simp add: split_beta)
qed simp

text \<open>The modulator is bounded and keeps its density. For any input the accumulator stays in
  0..100, the dither burst in 0..14, the generator below 10000 and the tuning counter in 0..11.
  For inputs of up to 100 without an armed dither the number of pulses sent is the sum of the
  inputs divided by 100, to within one pulse, over a run of any length.\<close>

theorem modulator_density:
  assumes "modulator_ok cs" and "0 \<le> i" and "i \<le> 2147483547"
    and "tuning_off cs" and "dither_burst cs = 0" and "\<forall>j\<in>set is. 0 \<le> j \<and> j \<le> 100"
  shows "modulator_ok (snd (core_effect_pulse i t cs)) \<and>
    \<bar>100 * sum_list (fst (pulse_run t is cs)) - sum_list is\<bar> \<le> 100"
  using pulse_modulator(1) [OF assms(1-3)] pulse_run_balance [OF assms(1,4,5,6), of t] assms(1)
  by (auto simp: modulator_ok_def)

theorem modulator_density_witness:
  "\<bar>100 * sum_list (fst (pulse_run 7 (replicate 32 33) (core_init 1 0 (core_zeroed ()))))
     - sum_list (replicate 32 33)\<bar> \<le> 100"
proof -
  have "modulator_ok (core_init 1 0 (core_zeroed ()))" "tuning_off (core_init 1 0 (core_zeroed ()))"
    "dither_burst (core_init 1 0 (core_zeroed ())) = 0"
    by (simp_all add: modulator_ok_def tuning_off_def core_init_def core_zeroed_def u32_of_def)
  then show ?thesis
    using modulator_density [of "core_init 1 0 (core_zeroed ())" 0 "replicate 32 33" 7] by simp
qed

end
