(* ===== verification/Effect_Ring.thy ===== *)
theory Effect_Ring
  imports Effect_Engine
begin

text \<open>
  The ring of precomputed ticks in \<open>src_drv/core.c\<close>: \<open>core_ring_index\<close>, \<open>core_effect_evaluate\<close> with
  its loop, and \<open>core_effect_window\<close>. The lemmas show that every access stays inside the 96
  entries, that a window that is sent is exactly the stored pulses of the ticks it covers, and
  that an evaluation that sends nothing has confirmed every pulse it stored before.
\<close>

section \<open>The code\<close>

text \<open>The two loops of \<open>core_ring_index\<close>.\<close>

function ring_down :: "s32 \<Rightarrow> s32" where
  "ring_down i = (if i \<ge> 96 then ring_down (i - 96) else i)"
  by pat_completeness auto
termination by (relation "measure nat") auto

function ring_up :: "s32 \<Rightarrow> s32" where
  "ring_up i = (if i < 0 then ring_up (i + 96) else i)"
  by pat_completeness auto
termination by (relation "measure (\<lambda>i. nat (- i))") auto

declare ring_down.simps [simp del] ring_up.simps [simp del]

definition core_ring_index :: "'w core_state \<Rightarrow> s32 \<Rightarrow> s32" where
  "core_ring_index cs offset = ring_up (ring_down (to_s32 (ring_head cs + offset)))"

definition ring_at :: "'w core_state \<Rightarrow> s32 \<Rightarrow> core_effect_ring_entry" where
  "ring_at cs offset = ring cs ! nat (core_ring_index cs offset)"

definition core_effect_ring_reset :: "'w core_state \<Rightarrow> 'w core_state" where
  "core_effect_ring_reset cs = cs\<lparr>ring_count := 0\<rparr>"

text \<open>One turn of the loop of \<open>core_effect_evaluate\<close>: the end of the window, the skip, whether it
  still verifies, and the state. The index is below the end, so \<open>idx++\<close> cannot wrap.\<close>

definition eval_room :: "s32 \<Rightarrow> s32 \<Rightarrow> 'w core_state \<Rightarrow> s32 \<times> 'w core_state" where
  "eval_room idx skip cs =
     (if ring_count cs \<le> idx + skip then
        if ring_count cs = 96 then
          (skip - 1, cs\<lparr>ring_head := core_ring_index cs 1,
                       ring_base_tick := to_s32 (ring_base_tick cs + 1)\<rparr>)
        else (skip, cs\<lparr>ring_count := ring_count cs + 1\<rparr>)
      else (skip, cs))"

definition ring_entry_of :: "s32 \<Rightarrow> s32 \<Rightarrow> 'w core_state \<Rightarrow> core_effect_ring_entry" where
  "ring_entry_of pulse intensity cs =
     \<lparr>re_pulse = pulse, re_intensity = intensity, re_filtered_x = filtered_x cs,
      re_filtered_y = filtered_y cs, re_accumulator = accumulator cs,
      re_dither_burst = dither_burst cs, re_tune_counter = tune_counter cs\<rparr>"

definition eval_step :: "s32 \<Rightarrow> s32 \<Rightarrow> s32 \<Rightarrow> s32 \<Rightarrow> bool \<Rightarrow> 'w core_state \<Rightarrow> s32 \<times> s32 \<times> bool \<times> 'w core_state" where
  "eval_step tick idx end skip verify cs =
     (let (end, verify) =
            (if verify \<and> ring_count cs \<le> idx + skip then (32, False) else (end, verify));
          (skip, cs) = eval_room idx skip cs;
          (intensity, cs) = core_effect_intensity (to_s32 (tick + idx)) cs;
          (pulse, cs) = core_effect_pulse intensity tick cs;
          r = nat (core_ring_index cs (idx + skip));
          (end, verify, cs) =
            (if verify \<and> re_pulse (ring cs ! r) \<noteq> pulse
             then (32, False, cs\<lparr>ring_count := idx + 1 + skip\<rparr>)
             else (end, verify, cs))
      in (end, skip, verify, cs\<lparr>ring := (ring cs)[r := ring_entry_of pulse intensity cs]\<rparr>))"

function eval_loop :: "s32 \<Rightarrow> s32 \<Rightarrow> s32 \<Rightarrow> s32 \<Rightarrow> bool \<Rightarrow> 'w core_state \<Rightarrow> s32 \<times> bool \<times> 'w core_state" where
  "eval_loop tick idx end skip verify cs =
     (if idx < end then
        let (end, skip, verify, cs) = eval_step tick idx end skip verify cs
        in eval_loop tick (idx + 1) end skip verify cs
      else (skip, verify, cs))"
  by pat_completeness auto

text \<open>The end of the window stays or becomes 32, so the loop ends.\<close>

lemma eval_step_end: "fst (eval_step tick idx end skip verify cs) \<in> {end, 32}"
  by (auto simp: eval_step_def Let_def split: prod.split)

termination eval_loop
proof (relation "measure (\<lambda>(tick, idx, end, _). nat (max end 32 - idx))", simp)
  fix tick idx "end" skip :: int and verify and cs :: "'a core_state" and x xa y xb ya xc yb
  assume "idx < end" "x = eval_step tick idx end skip verify cs" "(xa, y) = x"
  then have "xa = end \<or> xa = 32"
    using eval_step_end [of tick idx "end" skip verify cs] by (metis fst_conv insertE singletonD)
  with \<open>idx < end\<close> show "((tick, idx + 1, xa, xb, xc, yb), tick, idx, end, skip, verify, cs)
      \<in> measure (\<lambda>(tick, idx, end, _). nat (max end 32 - idx))"
    by auto
qed

declare eval_loop.simps [simp del]

definition eval_seed :: "s32 \<Rightarrow> s32 \<Rightarrow> 'w core_state \<Rightarrow> 'w core_state" where
  "eval_seed idx skip cs =
     (if idx + skip > 0 \<and> idx + skip \<le> ring_count cs then
        let e = ring_at cs (idx + skip - 1)
        in cs\<lparr>filtered_x := re_filtered_x e, filtered_y := re_filtered_y e,
             accumulator := re_accumulator e, dither_burst := re_dither_burst e,
             tune_counter := re_tune_counter e\<rparr>
      else cs)"

definition eval_payload :: "s32 \<Rightarrow> 'w core_state \<Rightarrow> u8 list" where
  "eval_payload skip cs = foldl (\<lambda>payload i.
     if re_pulse (ring_at cs (int i + skip)) \<noteq> 0
     then payload[i div 8 := payload ! (i div 8) OR push_bit (i mod 8) 1]
     else payload) (replicate 4 0) [0..<32]"

text \<open>The result, the payload and the state; with result 1 the caller's payload is untouched.\<close>

definition core_effect_evaluate ::
    "bool \<Rightarrow> s32 \<Rightarrow> u8 list \<Rightarrow> 'w core_state \<Rightarrow> s32 \<times> u8 list \<times> 'w core_state" where
  "core_effect_evaluate lookahead tick payload cs =
     (let skip = to_s32 (tick - ring_base_tick cs);
          (skip, cs) =
            (if skip < 1 \<or> skip > ring_count cs
             then (0, cs\<lparr>ring_base_tick := tick, ring_count := 0\<rparr>) else (skip, cs));
          (idx, end, verify) =
            (if \<not> lookahead then (ring_count cs - skip, 32, False)
             else if ring_count cs - skip = 0 then (0, 32, False)
             else (0, ring_count cs - skip, True));
          cs = core_effect_condition_update (eval_seed idx skip cs);
          (skip, verify, cs) = eval_loop tick idx end skip verify cs
      in if verify then (1, payload, cs) else (0, eval_payload skip cs, cs))"

definition core_effect_window :: "s32 \<Rightarrow> u8 list \<Rightarrow> 'w core_state \<Rightarrow> u8 list \<times> 'w core_state" where
  "core_effect_window start payload cs =
     snd (core_effect_evaluate True start payload
       (cs\<lparr>ring_count := 0, ring_head := 0, ring_base_tick := start\<rparr>))"

section \<open>What the engine writes\<close>

text \<open>An evaluation writes the effect slots, the modulator's state and the ring, and nothing else.\<close>

definition engine_only :: "'w core_state \<Rightarrow> 'w core_state \<Rightarrow> bool" where
  "engine_only cs cs' \<longleftrightarrow> (\<exists>e fx fy ac db tc ds ei r rh rc rb.
     cs' = cs\<lparr>effect := e, filtered_x := fx, filtered_y := fy, accumulator := ac, dither_burst := db,
              tune_counter := tc, dither_state := ds, effect_idle_ticks := ei, ring := r,
              ring_head := rh, ring_count := rc, ring_base_tick := rb\<rparr>)"

lemma engine_onlyI:
  "cs' = cs\<lparr>effect := effect cs', filtered_x := filtered_x cs', filtered_y := filtered_y cs',
     accumulator := accumulator cs', dither_burst := dither_burst cs', tune_counter := tune_counter cs',
     dither_state := dither_state cs', effect_idle_ticks := effect_idle_ticks cs', ring := ring cs',
     ring_head := ring_head cs', ring_count := ring_count cs', ring_base_tick := ring_base_tick cs'\<rparr>
   \<Longrightarrow> engine_only cs cs'"
  unfolding engine_only_def by blast

lemma engine_only_refl [simp]: "engine_only cs cs"
  by (rule engine_onlyI) simp

lemma engine_only_ring [simp]:
  "engine_only cs (cs\<lparr>ring_count := n\<rparr>)" "engine_only cs (cs\<lparr>ring := r\<rparr>)"
  by (rule engine_onlyI, simp)+

lemma engine_only_trans [trans]: "engine_only a b \<Longrightarrow> engine_only b c \<Longrightarrow> engine_only a c"
  unfolding engine_only_def by (elim exE) (hypsubst, auto intro!: exI)

lemma engine_only_frame [frame]:
  assumes "engine_only cs cs'"
  shows "vendor cs' = vendor cs" "vendor_ctx cs' = vendor_ctx cs" "vendor_claim cs' = vendor_claim cs"
    "claim_idle_command cs' = claim_idle_command cs" "claim_effect_tick cs' = claim_effect_tick cs"
    "claim_pak_insert cs' = claim_pak_insert cs" "claim_pak_remove cs' = claim_pak_remove cs"
    "effect_state cs' = effect_state cs" "next_tick cs' = next_tick cs"
    "keepalive_time cs' = keepalive_time cs" "effect_next cs' = effect_next cs"
    "vendor_owner cs' = vendor_owner cs" "world cs' = world cs"
    "accessory_state cs' = accessory_state cs" "probe_step cs' = probe_step cs"
    "sink cs' = sink cs" "sink_ctx cs' = sink_ctx cs" "devices_mask cs' = devices_mask cs"
    "keys_wf cs' = keys_wf cs" "stick_x cs' = stick_x cs" "stick_y cs' = stick_y cs"
    "tune_mode cs' = tune_mode cs" "buttons cs' = buttons cs" "status cs' = status cs"
    "prev_status cs' = prev_status cs" "now_100ns cs' = now_100ns cs" "raw cs' = raw cs"
    "tune_strength cs' = tune_strength cs" "prev_raw_x cs' = prev_raw_x cs"
    "prev_raw_y cs' = prev_raw_y cs" "input_hook cs' = input_hook cs" "input_ctx cs' = input_ctx cs"
    "script_owns_stick cs' = script_owns_stick cs"
  using assms by (auto simp: engine_only_def keys_wf_def held_keys_def)

lemma engine_only_arrays:
  "engine_only cs cs' \<Longrightarrow> length (effect cs') = 32 \<Longrightarrow> \<forall>fx\<in>set (effect cs'). slot_wf fx \<Longrightarrow>
     arrays_wf cs \<Longrightarrow> arrays_wf cs'"
  by (auto simp: engine_only_def arrays_wf_def)

definition ring_part where
  "ring_part cs = (ring cs, ring_head cs, ring_count cs, ring_base_tick cs)"

lemma intensity_frame [frame]:
  "engine_only cs (snd (core_effect_intensity t cs))"
  "ring_part (snd (core_effect_intensity t cs)) = ring_part cs"
  "effect (snd (core_effect_intensity t cs)) = effect cs"
  by (auto simp: core_effect_intensity_def Let_def ring_part_def split: prod.split intro!: engine_onlyI)

lemma pulse_frame [frame]:
  "engine_only cs (snd (core_effect_pulse i t cs))"
  "ring_part (snd (core_effect_pulse i t cs)) = ring_part cs"
  "effect (snd (core_effect_pulse i t cs)) = effect cs"
  by (auto simp: core_effect_pulse_def Let_def ring_part_def split: prod.split intro!: engine_onlyI)

lemma condition_frame [frame]:
  "engine_only cs (core_effect_condition_update cs)"
  "ring_part (core_effect_condition_update cs) = ring_part cs"
  by (auto simp: core_effect_condition_update_def Let_def ring_part_def intro!: engine_onlyI)

lemma condition_slots:
  "length (effect (core_effect_condition_update cs)) = length (effect cs)"
  "\<forall>fx\<in>set (effect cs). slot_wf fx \<Longrightarrow>
     \<forall>fx\<in>set (effect (core_effect_condition_update cs)). slot_wf fx"
  by (auto simp: core_effect_condition_update_def slot_wf_def condition_axis_spring)

lemma seed_frame [frame]:
  "engine_only cs (eval_seed i k cs)" "ring_part (eval_seed i k cs) = ring_part cs"
  "effect (eval_seed i k cs) = effect cs"
  by (auto simp: eval_seed_def Let_def ring_part_def intro!: engine_onlyI)

section \<open>Ring indices\<close>

lemma ring_down_mod: "0 \<le> i \<Longrightarrow> ring_down i = i mod 96"
proof (induction i rule: ring_down.induct)
  case (1 i)
  then show ?case
    by (subst ring_down.simps) (auto simp: mod_pos_pos_trivial)
qed

lemma ring_down_neg: "i < 0 \<Longrightarrow> ring_down i = i"
  by (subst ring_down.simps) simp

lemma ring_up_mod: "i < 96 \<Longrightarrow> ring_up i = i mod 96"
proof (induction i rule: ring_up.induct)
  case (1 i)
  then show ?case
    by (subst ring_up.simps) (auto simp: mod_pos_pos_trivial)
qed

lemma ring_index_mod: "core_ring_index cs k = to_s32 (ring_head cs + k) mod 96"
proof (cases "0 \<le> to_s32 (ring_head cs + k)")
  case True
  then show ?thesis by (simp add: core_ring_index_def ring_down_mod ring_up_mod)
next
  case False
  then show ?thesis by (simp add: core_ring_index_def ring_down_neg ring_up_mod)
qed

lemma ring_index_range: "0 \<le> core_ring_index cs k" "core_ring_index cs k < 96"
  by (simp_all add: ring_index_mod)

lemma ring_index_small:
  "ring_wf cs \<Longrightarrow> 0 \<le> k \<Longrightarrow> k \<le> 1000 \<Longrightarrow> core_ring_index cs k = (ring_head cs + k) mod 96"
  unfolding ring_index_mod by (subst s32_small) (auto simp: ring_wf_def)

section \<open>The invariant of the loop\<close>

definition loop_inv :: "s32 \<Rightarrow> s32 \<Rightarrow> s32 \<Rightarrow> 'w core_state \<Rightarrow> bool" where
  "loop_inv tick idx skip cs \<longleftrightarrow> ring_wf cs \<and> 0 \<le> idx \<and> 0 \<le> skip \<and> idx + skip \<le> ring_count cs \<and>
     to_s32 (ring_base_tick cs + skip) = tick"

definition mode_inv :: "s32 \<Rightarrow> s32 \<Rightarrow> bool \<Rightarrow> 'w core_state \<Rightarrow> bool" where
  "mode_inv end skip verify cs \<longleftrightarrow> end = (if verify then ring_count cs - skip else 32)"

lemma ring_part_inv:
  "ring_part cs' = ring_part cs \<Longrightarrow> loop_inv tick idx skip cs' = loop_inv tick idx skip cs"
  "ring_part cs' = ring_part cs \<Longrightarrow> mode_inv end skip verify cs' = mode_inv end skip verify cs"
  by (simp_all add: ring_part_def loop_inv_def mode_inv_def ring_wf_def)

lemma room_inv:
  assumes inv: "loop_inv tick idx skip cs" and mode: "mode_inv end skip verify cs" and lt: "idx < end"
    and run: "eval_room idx skip cs = (skip', cs')"
  shows "loop_inv tick (idx + 1) skip' cs'" "mode_inv end skip' verify cs'" "engine_only cs cs'"
    "verify \<Longrightarrow> skip' = skip \<and> cs' = cs" "effect cs' = effect cs"
proof -
  have head: "0 \<le> core_ring_index cs 1" "core_ring_index cs 1 < 96" by (rule ring_index_range)+
  have bump: "to_s32 (to_s32 (b + 1) + (k - 1)) = to_s32 (b + k)" for b k
    using to_s32_add [of "b + 1" "k - 1"] to_s32_add [of "to_s32 (b + 1)" "k - 1"]
    by (simp add: to_s32_def)
  show "loop_inv tick (idx + 1) skip' cs'" "mode_inv end skip' verify cs'" "engine_only cs cs'"
    "verify \<Longrightarrow> skip' = skip \<and> cs' = cs" "effect cs' = effect cs"
    using inv mode lt run head bump [of "ring_base_tick cs" skip]
    by (auto simp: eval_room_def loop_inv_def mode_inv_def ring_wf_def split: if_split_asm
        intro!: engine_onlyI)
qed

definition ring_pulses :: "'w core_state \<Rightarrow> s32 list" where
  "ring_pulses cs = map re_pulse (ring cs)"

text \<open>What a turn leaves untouched as long as it verifies.\<close>

definition verified :: "'w core_state \<Rightarrow> 'w core_state \<Rightarrow> bool" where
  "verified cs cs' \<longleftrightarrow> ring_pulses cs' = ring_pulses cs \<and> ring_head cs' = ring_head cs \<and>
     ring_count cs' = ring_count cs \<and> ring_base_tick cs' = ring_base_tick cs"

lemma verified_trans: "verified a b \<Longrightarrow> verified b c \<Longrightarrow> verified a c"
  by (simp add: verified_def)

lemma pulses_update: "r < length (ring cs) \<Longrightarrow> re_pulse e = re_pulse (ring cs ! r) \<Longrightarrow>
    map re_pulse ((ring cs)[r := e]) = map re_pulse (ring cs)"
  by (metis list_update_id map_update nth_map)

lemma step_inv:
  assumes inv: "loop_inv tick idx skip cs" and mode: "mode_inv end skip verify cs" and lt: "idx < end"
    and run: "eval_step tick idx end skip verify cs = (end', skip', verify', cs')"
  shows "loop_inv tick (idx + 1) skip' cs' \<and> mode_inv end' skip' verify' cs' \<and>
    engine_only cs cs' \<and> effect cs' = effect cs \<and>
    (verify' \<longrightarrow> verify \<and> skip' = skip \<and> end' = end \<and> verified cs cs')"
proof -
  have novf: "\<not> (verify \<and> ring_count cs \<le> idx + skip)" using mode lt by (auto simp: mode_inv_def)
  obtain k c1 where room: "eval_room idx skip cs = (k, c1)" by fastforce
  obtain i c2 where int: "core_effect_intensity (to_s32 (tick + idx)) c1 = (i, c2)" by fastforce
  obtain p c3 where pul: "core_effect_pulse i tick c2 = (p, c3)" by fastforce
  note room' = room_inv [OF inv mode lt room]
  have f2: "engine_only c1 c2" "ring_part c2 = ring_part c1" "effect c2 = effect c1"
    using intensity_frame [where cs = c1 and t = "to_s32 (tick + idx)"] int by auto
  have f3: "engine_only c2 c3" "ring_part c3 = ring_part c2" "effect c3 = effect c2"
    using pulse_frame [where cs = c2 and i = i and t = tick] pul by auto
  have part: "ring_part c3 = ring_part c1" using f2 f3 by simp
  note inv3 = room'(1) [folded ring_part_inv(1) [OF part]] room'(2) [folded ring_part_inv(2) [OF part]]
  have eo: "engine_only cs c3" using room'(3) f2(1) f3(1) engine_only_trans by blast
  let ?r = "nat (core_ring_index c3 (idx + k))"
  have r: "?r < length (ring c3)"
    using ring_index_range [of c3 "idx + k"] inv3(1) by (simp add: loop_inv_def ring_wf_def nat_less_iff)
  define bad where "bad \<longleftrightarrow> verify \<and> re_pulse (ring c3 ! ?r) \<noteq> p"
  define c4 where "c4 = (if bad then c3\<lparr>ring_count := idx + 1 + k\<rparr> else c3)"
  have out: "end' = (if bad then 32 else end)" "skip' = k" "verify' = (verify \<and> \<not> bad)"
    "cs' = c4\<lparr>ring := (ring c4)[?r := ring_entry_of p i c4]\<rparr>"
    using run novf by (auto simp: eval_step_def room int pul bad_def c4_def Let_def split: if_split_asm)
  have "engine_only c3 c4" by (simp add: c4_def)
  then have eo4: "engine_only cs c4" by (rule engine_only_trans [OF eo])
  have "loop_inv tick (idx + 1) k c4" "mode_inv end' k verify' c4" "effect c4 = effect cs"
    using inv3 f2(3) f3(3) room'(5)
    by (auto simp: c4_def loop_inv_def mode_inv_def ring_wf_def out(1,3) bad_def)
  moreover have "engine_only cs cs'" unfolding out(4) by (rule engine_only_trans [OF eo4]) simp
  ultimately have main: "loop_inv tick (idx + 1) skip' cs'" "mode_inv end' skip' verify' cs'" "effect cs' = effect cs"
    "engine_only cs cs'"
    unfolding out(2,4)
    by (auto simp: loop_inv_def mode_inv_def ring_wf_def)
  have "verify \<and> skip' = skip \<and> end' = end \<and> verified cs cs'" if "verify'"
  proof -
    have v: "verify" "\<not> bad" "c4 = c3" using that by (simp_all add: out c4_def)
    have same: "k = skip" "c1 = cs" using room'(4) v by auto
    have "re_pulse (ring_entry_of p i c3) = re_pulse (ring c3 ! ?r)"
      using v by (simp add: bad_def ring_entry_of_def)
    then have "ring_pulses cs' = ring_pulses c3"
      using r by (simp add: out(4) v ring_pulses_def pulses_update)
    then show ?thesis
      using v same part by (simp add: out verified_def ring_part_def ring_pulses_def)
  qed
  with main show ?thesis by blast
qed

lemma loop_result:
  assumes "loop_inv tick idx skip cs" and "mode_inv end skip verify cs"
    and "eval_loop tick idx end skip verify cs = (skip', verify', cs')"
  shows "(\<exists>idx'. loop_inv tick idx' skip' cs' \<and> (\<not> verify' \<longrightarrow> 32 \<le> idx')) \<and> engine_only cs cs' \<and>
    effect cs' = effect cs \<and> (verify' \<longrightarrow> verify \<and> skip' = skip \<and> verified cs cs')"
  using assms
proof (induction tick idx "end" skip verify cs rule: eval_loop.induct)
  case (1 tick idx "end" skip verify cs)
  show ?case
  proof (cases "idx < end")
    case True
    obtain e k v c where step: "eval_step tick idx end skip verify cs = (e, k, v, c)" by (metis prod_cases4)
    note inv = step_inv [OF "1.prems"(1,2) True step]
    have run: "eval_loop tick (idx + 1) e k v c = (skip', verify', cs')"
      using "1.prems"(3) True step by (subst (asm) eval_loop.simps) simp
    have "(\<exists>idx'. loop_inv tick idx' skip' cs' \<and> (\<not> verify' \<longrightarrow> 32 \<le> idx')) \<and> engine_only c cs' \<and>
        effect cs' = effect c \<and> (verify' \<longrightarrow> v \<and> skip' = k \<and> verified c cs')"
      using "1.IH" [OF True step [symmetric]] inv run by blast
    then show ?thesis
      using inv engine_only_trans [of cs c cs'] verified_trans [of cs c cs'] by metis
  next
    case False
    then have "skip' = skip" "verify' = verify" "cs' = cs"
      using "1.prems"(3) by (subst (asm) eval_loop.simps, simp)+
    moreover have "\<not> verify \<longrightarrow> 32 \<le> idx" using False "1.prems"(2) by (auto simp: mode_inv_def)
    ultimately show ?thesis using "1.prems"(1) by (auto simp: verified_def)
  qed
qed

section \<open>The payload\<close>

lemma payload_fold:
  fixes c :: "nat \<Rightarrow> bool"
  assumes "k \<le> 32"
  defines "f \<equiv> \<lambda>payload i. if c i then payload[i div 8 := payload ! (i div 8) OR push_bit (i mod 8) 1]
     else payload"
  shows "length (foldl f (replicate 4 (0 :: u8)) [0..<k]) = 4 \<and>
    (\<forall>i<32. bit (foldl f (replicate 4 (0 :: u8)) [0..<k] ! (i div 8)) (i mod 8) \<longleftrightarrow> i < k \<and> c i)"
  using assms(1)
proof (induction k)
  case 0
  have "replicate 4 (0 :: u8) ! (i div 8) = 0" if "i < 32" for i
    using that by (intro nth_replicate) (simp add: div_less_iff_less_mult)
  then show ?case by simp
next
  case (Suc k)
  let ?p = "foldl f (replicate 4 (0 :: u8)) [0..<k]"
  have IH: "length ?p = 4" "\<And>i. i < 32 \<Longrightarrow> bit (?p ! (i div 8)) (i mod 8) \<longleftrightarrow> i < k \<and> c i"
    using Suc by auto
  have kd: "k div 8 < 4" using Suc.prems by (simp add: div_less_iff_less_mult)
  have same: "i div 8 = k div 8 \<and> i mod 8 = k mod 8 \<longleftrightarrow> i = k" for i
    by (metis div_mult_mod_eq)
  have pb: "bit (push_bit a 1 :: u8) b \<longleftrightarrow> b < 8 \<and> a = b" for a b
    by (auto simp: bit_exp_iff)
  define p where "p = ?p"
  note IH = IH [folded p_def]
  have "bit (f p k ! (i div 8)) (i mod 8) \<longleftrightarrow> i < Suc k \<and> c i" if i: "i < 32" for i
  proof (cases "c k \<and> i div 8 = k div 8")
    case True
    then have "f p k ! (i div 8) = p ! (i div 8) OR push_bit (k mod 8) 1"
      using IH(1) kd by (simp add: f_def)
    then have "bit (f p k ! (i div 8)) (i mod 8) \<longleftrightarrow> i < k \<and> c i \<or> k mod 8 = i mod 8"
      using IH(2) [OF i] by (simp only: bit_or_iff pb) auto
    also have "\<dots> \<longleftrightarrow> i < Suc k \<and> c i" using same [of i] True by (auto simp: less_Suc_eq)
    finally show ?thesis .
  next
    case False
    then have "f p k ! (i div 8) = p ! (i div 8)" by (auto simp: f_def)
    then show ?thesis using IH(2) [OF i] False same [of i] by (auto simp: less_Suc_eq)
  qed
  moreover have "length (f p k) = 4" using IH(1) by (simp add: f_def)
  ultimately show ?case by (simp add: p_def)
qed

lemma payload_bits:
  "length (eval_payload skip cs) = 4"
  "i < 32 \<Longrightarrow> bit (eval_payload skip cs ! (i div 8)) (i mod 8) \<longleftrightarrow> re_pulse (ring_at cs (int i + skip)) \<noteq> 0"
  using payload_fold [of 32 "\<lambda>i. re_pulse (ring_at cs (int i + skip)) \<noteq> 0"]
  by (auto simp: eval_payload_def)

section \<open>An evaluation\<close>

text \<open>The stored entry of the tick that lies \<open>k\<close> ticks after the ring's base.\<close>

definition stored_pulse :: "'w core_state \<Rightarrow> s32 \<Rightarrow> s32" where
  "stored_pulse cs k = re_pulse (ring cs ! nat ((ring_head cs + k) mod 96))"

lemma evaluate_result:
  assumes wf: "ring_wf cs" and tick: "is_s32 tick"
    and run: "core_effect_evaluate la tick payload cs = (r, p, cs')"
  shows "(r = 0 \<or> r = 1) \<and> (\<not> la \<longrightarrow> r = 0) \<and> ring_wf cs' \<and> engine_only cs cs' \<and>
    (\<exists>skip. 0 \<le> skip \<and> skip \<le> ring_count cs' \<and> to_s32 (ring_base_tick cs' + skip) = tick \<and>
      (r = 0 \<longrightarrow> skip + 32 \<le> ring_count cs' \<and> length p = 4 \<and>
        (\<forall>i<32. bit (p ! (i div 8)) (i mod 8) \<longleftrightarrow> stored_pulse cs' (skip + int i) \<noteq> 0))) \<and>
    (r = 1 \<longrightarrow> p = payload \<and> verified cs cs') \<and>
    length (effect cs') = length (effect cs) \<and>
    ((\<forall>fx\<in>set (effect cs). slot_wf fx) \<longrightarrow> (\<forall>fx\<in>set (effect cs'). slot_wf fx))"
proof -
  define s where "s = to_s32 (tick - ring_base_tick cs)"
  define skip where "skip = (if s < 1 \<or> s > ring_count cs then 0 else s)"
  define c0 where "c0 = (if s < 1 \<or> s > ring_count cs
    then cs\<lparr>ring_base_tick := tick, ring_count := 0\<rparr> else cs)"
  define idx where "idx = (if \<not> la then ring_count c0 - skip else 0)"
  define verify where "verify \<longleftrightarrow> la \<and> ring_count c0 - skip \<noteq> 0"
  define e where "e = (if verify then ring_count c0 - skip else 32)"
  define c1 where "c1 = core_effect_condition_update (eval_seed idx skip c0)"
  obtain k v c2 where loop: "eval_loop tick idx e skip verify c1 = (k, v, c2)" by (metis prod_cases3)
  have out: "r = (if v then 1 else 0)" "p = (if v then payload else eval_payload k c2)" "cs' = c2"
    using run loop
    by (auto simp: core_effect_evaluate_def Let_def skip_def c0_def idx_def verify_def e_def c1_def
        simp flip: s_def split: if_split_asm)
  have "to_s32 (ring_base_tick cs + s) = to_s32 tick"
    using to_s32_add [of "ring_base_tick cs" s] to_s32_add [of "ring_base_tick cs" "tick - ring_base_tick cs"]
    unfolding s_def by (simp add: to_s32_def)
  then have t: "to_s32 (ring_base_tick cs + s) = tick" "to_s32 tick = tick"
    using to_s32_id [OF tick] by simp_all
  have inv0: "loop_inv tick idx skip c0"
    using wf t by (auto simp: loop_inv_def ring_wf_def skip_def c0_def idx_def)
  have mode0: "mode_inv e skip verify c0" by (simp add: mode_inv_def e_def)
  have part: "ring_part c1 = ring_part c0" by (simp add: c1_def condition_frame(2) seed_frame(2))
  note inv1 = inv0 [folded ring_part_inv(1) [OF part]] mode0 [folded ring_part_inv(2) [OF part]]
  note res = loop_result [OF inv1 loop]
  have "engine_only cs c0" by (rule engine_onlyI) (simp add: c0_def)
  moreover have "engine_only c0 c1"
    unfolding c1_def using seed_frame(1) condition_frame(1) engine_only_trans by blast
  ultimately have eo: "engine_only cs cs'" using res engine_only_trans unfolding out(3) by blast
  from res obtain idx' where inv2: "loop_inv tick idx' k c2" "\<not> v \<longrightarrow> 32 \<le> idx'" by blast
  have eff: "effect c2 = effect c1" "effect (eval_seed idx skip c0) = effect cs"
    using res by (auto simp: seed_frame(3) c0_def)
  have at: "re_pulse (ring_at c2 (int i + k)) = stored_pulse c2 (k + int i)" if "i < 32" for i
    using inv2(1) ring_index_small [of c2 "int i + k"] that
    by (simp add: loop_inv_def ring_wf_def ring_at_def stored_pulse_def algebra_simps)
  have "verified cs cs'" if v
  proof -
    have "verify" using res that by blast
    then have "c0 = cs" by (auto simp: verify_def c0_def skip_def)
    moreover have "verified c0 c1" using part by (simp add: verified_def ring_part_def ring_pulses_def)
    ultimately show ?thesis using res that verified_trans [of cs c1 c2] unfolding out(3) by blast
  qed
  moreover have "\<not> la \<longrightarrow> \<not> v" using res by (auto simp: verify_def)
  moreover have "\<exists>skip. 0 \<le> skip \<and> skip \<le> ring_count cs' \<and> to_s32 (ring_base_tick cs' + skip) = tick \<and>
      (r = 0 \<longrightarrow> skip + 32 \<le> ring_count cs' \<and> length p = 4 \<and>
        (\<forall>i<32. bit (p ! (i div 8)) (i mod 8) \<longleftrightarrow> stored_pulse cs' (skip + int i) \<noteq> 0))"
  proof -
    have "\<forall>i<32. bit (eval_payload k c2 ! (i div 8)) (i mod 8) \<longleftrightarrow> stored_pulse c2 (k + int i) \<noteq> 0"
      using payload_bits(2) [of _ k c2] at by presburger
    then show ?thesis
      using inv2 payload_bits(1) [of k c2] unfolding out
      by (intro exI [of _ k]) (auto simp: loop_inv_def)
  qed
  ultimately show ?thesis
    using eo inv2(1) eff condition_slots [of "eval_seed idx skip c0"] unfolding out
    by (auto simp: loop_inv_def c1_def [symmetric])
qed

text \<open>C27. A window that is sent covers exactly the 32 ticks from the requested one: every payload
  bit is the stored pulse of its tick, every one of those ticks is a valid entry of the ring, and
  the ring stays well formed. An extending evaluation always sends.\<close>

theorem evaluate_sends_window:
  assumes "ring_wf cs" and "is_s32 tick"
  shows "(let (r, p, cs') = core_effect_evaluate la tick payload cs
     in ring_wf cs' \<and> (\<not> la \<longrightarrow> r = 0) \<and>
        (r = 0 \<longrightarrow> length p = 4 \<and>
          (\<exists>skip. 0 \<le> skip \<and> skip + 32 \<le> ring_count cs' \<and>
             to_s32 (ring_base_tick cs' + skip) = tick \<and>
             (\<forall>i<32. bit (p ! (i div 8)) (i mod 8) \<longleftrightarrow> stored_pulse cs' (skip + int i) \<noteq> 0))))"
proof -
  obtain r p cs' where run: "core_effect_evaluate la tick payload cs = (r, p, cs')"
    by (metis prod_cases3)
  show ?thesis using evaluate_result [OF assms run] unfolding run by auto
qed

theorem evaluate_sends_window_witness:
  "ring_wf (snd (snd (core_effect_evaluate False 7 [] (core_init 1 0 (core_zeroed ()))))) \<and>
   fst (core_effect_evaluate False 7 [] (core_init 1 0 (core_zeroed ()))) = 0"
proof -
  have "ring_wf (core_init 1 0 (core_zeroed ()))" using core_init_wf core_wfD by blast
  moreover have "is_s32 7" by (simp add: is_s32_def)
  ultimately show ?thesis
    using evaluate_sends_window [of "core_init 1 0 (core_zeroed ())" 7 False "[]"]
    by (auto split: prod.splits)
qed

text \<open>An evaluation that sends nothing has lost nothing: the ring covers the same ticks as
  before and holds the same pulse for every one of them, so the bitmap the controller already has
  is still the right one, and the caller's payload is untouched.\<close>

theorem evaluate_confirms:
  assumes "ring_wf cs" and "is_s32 tick"
    and "core_effect_evaluate la tick payload cs = (r, p, cs')" and "r \<noteq> 0"
  shows "la \<and> p = payload \<and> ring_head cs' = ring_head cs \<and> ring_count cs' = ring_count cs \<and>
    ring_base_tick cs' = ring_base_tick cs \<and> (\<forall>k. stored_pulse cs' k = stored_pulse cs k)"
proof -
  note res = evaluate_result [OF assms(1-3)]
  then have v: "verified cs cs'" using assms(4) by auto
  have "stored_pulse c k = ring_pulses c ! nat ((ring_head c + k) mod 96)" if "ring_wf c" for c :: "'a core_state" and k
    using that unfolding stored_pulse_def ring_pulses_def
    by (subst nth_map) (auto simp: ring_wf_def nat_less_iff)
  then have "stored_pulse cs' k = stored_pulse cs k" for k
    using v res assms(1) by (simp add: verified_def)
  then show ?thesis using res v assms(4) by (auto simp: verified_def)
qed

text \<open>A ring of 32 silent ticks and nothing playing: the second evaluation confirms them.\<close>

definition silent_ring :: "unit core_state" where
  "silent_ring = (core_init 1 0 (core_zeroed ()))\<lparr>ring_count := 32, ring_base_tick := 100\<rparr>"

theorem evaluate_confirms_witness:
  "fst (core_effect_evaluate True 131 [9] silent_ring) = 1 \<and>
   fst (snd (core_effect_evaluate True 131 [9] silent_ring)) = [9]"
proof -
  obtain r p cs' where run: "core_effect_evaluate True 131 [9] silent_ring = (r, p, cs')"
    by (metis prod_cases3)
  have "fst (core_effect_evaluate True 131 [9] silent_ring) = 1" by code_simp
  then have r: "r = 1" using run by simp
  have "ring_wf silent_ring"
    using core_init_wf [of 1 0 "core_zeroed ()"] by (auto simp: silent_ring_def core_wf_def ring_wf_def)
  then have "p = [9]"
    using evaluate_confirms [OF _ _ run] r by (simp add: is_s32_def)
  with run r show ?thesis by simp
qed

section \<open>Preservation\<close>

lemma evaluate_wf:
  assumes "core_wf cs" and "is_s32 tick"
  shows "core_wf (snd (snd (core_effect_evaluate la tick payload cs)))"
    "engine_only cs (snd (snd (core_effect_evaluate la tick payload cs)))"
proof -
  obtain r p cs' where run: "core_effect_evaluate la tick payload cs = (r, p, cs')"
    by (metis prod_cases3)
  have wf: "arrays_wf cs" "ring_wf cs" "keys_wf cs" using assms(1) by auto
  note res = evaluate_result [OF wf(2) assms(2) run]
  have "arrays_wf cs'"
    using engine_only_arrays [of cs cs'] res wf(1) by (auto simp: arrays_wf_def)
  moreover have "keys_wf cs'" using res wf(3) engine_only_frame by metis
  ultimately show "core_wf (snd (snd (core_effect_evaluate la tick payload cs)))"
    "engine_only cs (snd (snd (core_effect_evaluate la tick payload cs)))"
    using res run by auto
qed

text \<open>The frame holds for every state, well formed or not.\<close>

lemma step_engine: "engine_only cs (snd (snd (snd (eval_step tick idx end skip verify cs))))"
proof -
  obtain k c1 where room: "eval_room idx skip cs = (k, c1)" by fastforce
  obtain i c2 where int: "core_effect_intensity (to_s32 (tick + idx)) c1 = (i, c2)" by fastforce
  obtain p c3 where pul: "core_effect_pulse i tick c2 = (p, c3)" by fastforce
  have "engine_only cs c1"
    using room by (auto simp: eval_room_def split: if_split_asm intro!: engine_onlyI)
  moreover have "engine_only c1 c2" "engine_only c2 c3"
    using intensity_frame(1) [where cs = c1 and t = "to_s32 (tick + idx)"]
      pulse_frame(1) [where cs = c2 and i = i and t = tick] int pul by auto
  ultimately have c3: "engine_only cs c3" using engine_only_trans by blast
  have "engine_only c3 (c3\<lparr>ring_count := n, ring := r\<rparr>)" for n r
    by (rule engine_onlyI) simp
  then show ?thesis
    using engine_only_trans [OF c3] engine_only_ring
    by (auto simp: eval_step_def room int pul Let_def)
qed

lemma loop_engine: "engine_only cs (snd (snd (eval_loop tick idx end skip verify cs)))"
proof (induction tick idx "end" skip verify cs rule: eval_loop.induct)
  case (1 tick idx "end" skip verify cs)
  show ?case
  proof (cases "idx < end")
    case True
    obtain e k v c where step: "eval_step tick idx end skip verify cs = (e, k, v, c)" by (metis prod_cases4)
    have "engine_only c (snd (snd (eval_loop tick (idx + 1) e k v c)))"
      using "1.IH" [OF True step [symmetric]] by blast
    moreover have "engine_only cs c" using step_engine [of cs tick idx "end" skip verify] step by simp
    ultimately show ?thesis
      using True step engine_only_trans by (subst eval_loop.simps) fastforce
  next
    case False
    then show ?thesis by (subst eval_loop.simps) simp
  qed
qed

lemma evaluate_engine: "engine_only cs (snd (snd (core_effect_evaluate la tick payload cs)))"
proof -
  have a: "engine_only cs (cs\<lparr>ring_base_tick := t, ring_count := n\<rparr>)" for t n and cs :: "'a core_state"
    by (rule engine_onlyI) simp
  have b: "engine_only cs (snd (snd (eval_loop tick idx e k v (core_effect_condition_update (eval_seed i k cs)))))"
    for idx e k v i and cs :: "'a core_state"
    by (rule engine_only_trans [OF engine_only_trans [OF seed_frame(1) condition_frame(1)] loop_engine])
  show ?thesis
    using engine_only_trans [OF a b] b
    by (auto simp: core_effect_evaluate_def Let_def split_beta)
qed

end
