(* ===== verification/Send_Chain.thy ===== *)
theory Send_Chain
  imports Effect_Ring
begin

text \<open>
  The effect engine's way to the wire in \<open>src_drv/core.c\<close>: one transfer handed to the transport
  (\<open>core_effect_issue\<close>), the chain \<open>core_effect_tick\<close>, \<open>core_effect_keepalive\<close>,
  \<open>core_effect_send_periodic\<close> that calls itself through a pending claim, the updates on a Pak
  change, the claim of the single vendor slot, and the drain of deferred work. The interface
  \<open>vendor_transport\<close> states what the engine relies on: a claim takes a free slot, a send needs a
  claimed one. Its lemmas hold for any such transport; \<open>Vendor_Slot\<close> interprets it on the driver's.
\<close>

section \<open>One transfer\<close>

definition core_effect_issue ::
    "'w seams \<Rightarrow> u8 \<Rightarrow> u16 \<Rightarrow> u16 \<Rightarrow> u8 \<Rightarrow> 'w core_state \<Rightarrow> bool \<times> 'w core_state" where
  "core_effect_issue S request v i nxt cs =
     (if vendor cs = 0 then (False, cs)
      else
        let req = \<lparr>bmRequestType = 0x40, bRequest = request, wValue = v, wIndex = i, wLength = 0\<rparr>;
            prev = vendor_owner cs;
            cs = cs\<lparr>effect_next := nxt, vendor_owner := 2\<rparr>;
            (ok, w) = call_vendor S (vendor cs) (vendor_ctx cs) req (world cs);
            cs = cs\<lparr>world := w\<rparr>
        in if ok then (True, cs) else (False, cs\<lparr>vendor_owner := prev\<rparr>))"

definition core_effect_send_bitmap ::
    "'w seams \<Rightarrow> u8 \<Rightarrow> u8 list \<Rightarrow> u8 \<Rightarrow> 'w core_state \<Rightarrow> bool \<times> 'w core_state" where
  "core_effect_send_bitmap S request payload nxt cs =
     (let v = ucast (payload ! 0) OR push_bit 8 (ucast (payload ! 1));
          i = ucast (payload ! 2) OR push_bit 8 (ucast (payload ! 3))
      in core_effect_issue S request v i nxt cs)"

section \<open>The chain\<close>

text \<open>The uninitialised \<open>payload\<close> of the C stack: every evaluation that is sent fills it.\<close>

definition stack_payload :: "u8 list" where
  "stack_payload = replicate 4 0"

definition tick_of :: "u64 \<Rightarrow> s32" where
  "tick_of now = to_s32 (uint (now div 156250))"

lemma evaluate_claim:
  "claim_effect_tick (snd (snd (core_effect_evaluate la t p cs))) = claim_effect_tick cs"
  using engine_only_frame(5) [OF evaluate_engine] .

function (sequential)
  core_effect_keepalive :: "'w seams \<Rightarrow> u64 \<Rightarrow> 'w core_state \<Rightarrow> bool \<times> 'w core_state" and
  core_effect_send_periodic :: "'w seams \<Rightarrow> u64 \<Rightarrow> 'w core_state \<Rightarrow> bool \<times> 'w core_state" and
  core_effect_tick :: "'w seams \<Rightarrow> u64 \<Rightarrow> 'w core_state \<Rightarrow> bool \<times> 'w core_state" where
  "core_effect_keepalive S now cs =
     (if claim_effect_tick cs then core_effect_tick S now cs
      else if keepalive_time cs \<le> now \<and> now \<le> keepalive_time cs + 30000000
      then core_effect_send_periodic S now cs
      else core_effect_issue S 0x72 0xFF22 0x0094 2 (cs\<lparr>keepalive_time := now\<rparr>))"
| "core_effect_send_periodic S now cs =
     (if claim_effect_tick cs then core_effect_tick S now cs
      else
        let cs = cs\<lparr>effect_state := 2\<rparr>;
            (_, payload, cs) = core_effect_evaluate False (next_tick cs) stack_payload cs;
            cs = cs\<lparr>next_tick := to_s32 (next_tick cs + 32)\<rparr>
        in core_effect_send_bitmap S 0x35 payload 0 cs)"
| "core_effect_tick S now cs =
     (let cs = cs\<lparr>claim_effect_tick := False\<rparr>;
          tick = tick_of now;
          (r, payload, cs) = core_effect_evaluate True tick stack_payload cs
      in if r = 0 then
           core_effect_send_bitmap S 0x36 payload 1
             (cs\<lparr>next_tick := to_s32 (tick + 32), effect_state := 1,
                claim_pak_insert := False, claim_pak_remove := False\<rparr>)
         else if effect_state cs = 1 then core_effect_keepalive S now cs
         else (False, cs))"
  by pat_completeness auto

text \<open>A tick clears the claim that could bring the chain back to it, so the chain ends.\<close>

definition chain_rank :: "'w core_state \<Rightarrow> nat \<Rightarrow> nat" where
  "chain_rank cs n = (if claim_effect_tick cs then 4 else n)"

lemma evaluate_unclaimed:
  assumes "(r, p, cs') = core_effect_evaluate la t q (cs\<lparr>claim_effect_tick := False\<rparr>)"
  shows "\<not> claim_effect_tick cs'"
  using evaluate_claim [of la t q "cs\<lparr>claim_effect_tick := False\<rparr>"]
  unfolding assms [symmetric] by simp

termination core_effect_keepalive
  by (relation "measure (\<lambda>x. case x of Inl (S, now, cs) \<Rightarrow> chain_rank cs 2
        | Inr (Inl (S, now, cs)) \<Rightarrow> chain_rank cs 1 | Inr (Inr (S, now, cs)) \<Rightarrow> 3)")
    (auto simp: chain_rank_def dest: evaluate_unclaimed)

declare core_effect_keepalive.simps [simp del] core_effect_send_periodic.simps [simp del]
  core_effect_tick.simps [simp del]

section \<open>Claims, updates, and the drain\<close>

text \<open>\<open>set_flag\<close> is the store through the \<open>claim_flag\<close> pointer.\<close>

definition core_effect_claim ::
    "'w seams \<Rightarrow> ('w core_state \<Rightarrow> 'w core_state) \<Rightarrow> 'w core_state \<Rightarrow> bool \<times> 'w core_state" where
  "core_effect_claim S set_flag cs =
     (if vendor_claim cs = 0 then (True, cs)
      else
        let (ok, w) = call_claim S (vendor_claim cs) (vendor_ctx cs) (world cs);
            cs = cs\<lparr>world := w\<rparr>
        in if ok then (True, cs) else (False, set_flag cs))"

definition core_effect_send_update :: "'w seams \<Rightarrow> u8 \<Rightarrow> 'w core_state \<Rightarrow> bool \<times> 'w core_state" where
  "core_effect_send_update S sub cs =
     (let (_, payload, cs) = core_effect_evaluate False (next_tick cs) stack_payload cs;
          cs = cs\<lparr>next_tick := to_s32 (next_tick cs + 32)\<rparr>
      in if effect_idle_ticks cs > 4
         then core_effect_issue S 0x32 0 0 3 (core_effect_ring_reset cs)
         else core_effect_send_bitmap S sub payload 3 cs)"

definition core_effect_send_idle :: "'w seams \<Rightarrow> 'w core_state \<Rightarrow> bool \<times> 'w core_state" where
  "core_effect_send_idle S cs =
     core_effect_issue S 0x32 0x0200 0xFEFF 0 (cs\<lparr>claim_idle_command := False\<rparr>)"

definition core_effect_on_pak_insert :: "'w seams \<Rightarrow> 'w core_state \<Rightarrow> bool \<times> 'w core_state" where
  "core_effect_on_pak_insert S cs = core_effect_send_update S 0x34 (cs\<lparr>claim_pak_insert := False\<rparr>)"

definition core_effect_on_pak_remove :: "'w seams \<Rightarrow> 'w core_state \<Rightarrow> bool \<times> 'w core_state" where
  "core_effect_on_pak_remove S cs = core_effect_send_update S 0x35 (cs\<lparr>claim_pak_remove := False\<rparr>)"

definition core_effect_on_pak_change :: "'w seams \<Rightarrow> bool \<Rightarrow> 'w core_state \<Rightarrow> 'w core_state" where
  "core_effect_on_pak_change S present cs =
     (if present then
        let (ok, cs) = core_effect_claim S (claim_pak_insert_update (\<lambda>_. True)) cs
        in if ok then snd (core_effect_on_pak_insert S cs) else cs
      else
        let (ok, cs) = core_effect_claim S (claim_pak_remove_update (\<lambda>_. True)) cs
        in if ok then snd (core_effect_on_pak_remove S cs) else cs)"

definition core_effect_update_complete :: "'w core_state \<Rightarrow> 'w core_state" where
  "core_effect_update_complete cs = cs\<lparr>effect_state := 1\<rparr>"

text \<open>The loop of \<open>core_effect_run_deferred\<close>; its guard admits 32 turns.\<close>

fun deferred_loop :: "nat \<Rightarrow> 'w seams \<Rightarrow> u64 \<Rightarrow> 'w core_state \<Rightarrow> bool \<times> 'w core_state" where
  "deferred_loop 0 S now cs = (False, cs)"
| "deferred_loop (Suc guard) S now cs =
     (if claim_idle_command cs then
        let (sent, cs) = core_effect_send_idle S cs
        in if sent then (True, cs) else deferred_loop guard S now cs
      else if claim_effect_tick cs then
        let (sent, cs) = core_effect_tick S now cs
        in if sent then (True, cs) else deferred_loop guard S now cs
      else if claim_pak_insert cs then
        let (sent, cs) = core_effect_on_pak_insert S cs
        in if sent then (True, cs) else deferred_loop guard S now cs
      else if claim_pak_remove cs then
        let (sent, cs) = core_effect_on_pak_remove S cs
        in if sent then (True, cs) else deferred_loop guard S now cs
      else (False, cs))"

definition core_effect_run_deferred :: "'w seams \<Rightarrow> u64 \<Rightarrow> 'w core_state \<Rightarrow> bool \<times> 'w core_state" where
  "core_effect_run_deferred S now cs = deferred_loop 32 S now cs"

definition core_effect_run :: "'w seams \<Rightarrow> u64 \<Rightarrow> 'w core_state \<Rightarrow> bool \<times> 'w core_state" where
  "core_effect_run S now cs =
     (let (ok, cs) = core_effect_claim S (claim_effect_tick_update (\<lambda>_. True)) cs
      in if \<not> ok then (False, cs)
         else
           let (sent, cs) = core_effect_tick S now cs
           in if sent then (True, cs) else core_effect_run_deferred S now cs)"

definition core_effect_kick :: "'w seams \<Rightarrow> u64 \<Rightarrow> 'w core_state \<Rightarrow> bool \<times> 'w core_state" where
  "core_effect_kick S now cs = core_effect_run S now (cs\<lparr>effect_idle_ticks := 0\<rparr>)"

definition core_effect_complete :: "'w seams \<Rightarrow> u64 \<Rightarrow> 'w core_state \<Rightarrow> bool \<times> 'w core_state" where
  "core_effect_complete S now cs =
     (let nxt = effect_next cs; cs = cs\<lparr>effect_next := 0\<rparr>
      in if nxt = 1 then core_effect_keepalive S now cs
         else if nxt = 2 then core_effect_send_periodic S now cs
         else if nxt = 3 then (False, core_effect_update_complete cs)
         else (False, cs))"

section \<open>What the chain writes\<close>

definition chain_only :: "'w core_state \<Rightarrow> 'w core_state \<Rightarrow> bool" where
  "chain_only cs cs' \<longleftrightarrow> (\<exists>es nt kt en ci ct pi pr vo w c. engine_only cs c \<and>
     cs' = c\<lparr>effect_state := es, next_tick := nt, keepalive_time := kt, effect_next := en,
              claim_idle_command := ci, claim_effect_tick := ct, claim_pak_insert := pi,
              claim_pak_remove := pr, vendor_owner := vo, world := w\<rparr>)"

lemma chain_onlyI:
  "engine_only cs c \<Longrightarrow> cs' = c\<lparr>effect_state := effect_state cs', next_tick := next_tick cs',
     keepalive_time := keepalive_time cs', effect_next := effect_next cs',
     claim_idle_command := claim_idle_command cs', claim_effect_tick := claim_effect_tick cs',
     claim_pak_insert := claim_pak_insert cs', claim_pak_remove := claim_pak_remove cs',
     vendor_owner := vendor_owner cs', world := world cs'\<rparr> \<Longrightarrow> chain_only cs cs'"
  unfolding chain_only_def by blast

lemma engine_chain: "engine_only cs cs' \<Longrightarrow> chain_only cs cs'"
  by (rule chain_onlyI [of cs cs']) simp_all

lemma chain_only_refl [simp]: "chain_only cs cs"
  by (rule engine_chain) simp

lemma chain_only_trans [trans]: "chain_only a b \<Longrightarrow> chain_only b c \<Longrightarrow> chain_only a c"
  unfolding chain_only_def engine_only_def by (elim exE conjE) (hypsubst, auto intro!: exI)

lemma chain_only_frame [frame]:
  assumes "chain_only cs cs'"
  shows "vendor cs' = vendor cs" "vendor_ctx cs' = vendor_ctx cs" "vendor_claim cs' = vendor_claim cs"
    "accessory_state cs' = accessory_state cs" "probe_step cs' = probe_step cs"
    "sink cs' = sink cs" "sink_ctx cs' = sink_ctx cs" "devices_mask cs' = devices_mask cs"
    "keys_wf cs' = keys_wf cs" "stick_x cs' = stick_x cs" "stick_y cs' = stick_y cs"
    "tune_mode cs' = tune_mode cs" "buttons cs' = buttons cs" "status cs' = status cs"
    "prev_status cs' = prev_status cs" "now_100ns cs' = now_100ns cs" "raw cs' = raw cs"
    "input_hook cs' = input_hook cs" "input_ctx cs' = input_ctx cs"
    "script_owns_stick cs' = script_owns_stick cs" "reports_emitted cs' = reports_emitted cs"
    "tick_hook cs' = tick_hook cs" "tick_ctx cs' = tick_ctx cs"
  using assms by (auto simp: chain_only_def engine_only_def keys_wf_def held_keys_def)

text \<open>The record is one the chain can run on: well formed, its next tick an \<open>s32\<close>.\<close>

definition chain_wf :: "'w core_state \<Rightarrow> bool" where
  "chain_wf cs \<longleftrightarrow> core_wf cs \<and> is_s32 (next_tick cs)"

lemma chain_wf_cong:
  "wf_fields cs' = wf_fields cs \<Longrightarrow> is_s32 (next_tick cs') \<Longrightarrow> chain_wf cs \<Longrightarrow> chain_wf cs'"
  using core_wf_cong by (auto simp: chain_wf_def)

lemma chain_wf_evaluate:
  "chain_wf cs \<Longrightarrow> is_s32 t \<Longrightarrow> chain_wf (snd (snd (core_effect_evaluate la t p cs)))"
  using evaluate_wf(1) [of cs t la p] engine_only_frame(9) [OF evaluate_engine, of la t p cs]
  by (simp add: chain_wf_def)

lemma is_s32_tick_of [simp]: "is_s32 (tick_of now)"
  by (simp add: tick_of_def)

section \<open>The interface of the transport\<close>

text \<open>The slot as the core sees it. \<open>Slot_elsewhere\<close> is a transfer in flight that is not the core's, so
  that its completion will not come to the core.\<close>

datatype slot_state = Slot_free | Slot_claimed | Slot_in_flight | Slot_elsewhere

text \<open>Who a completion goes to. While the probe is waiting the owner is the probe, and whenever a
  chain is the owner a transfer is in flight whose completion will reach it.\<close>

definition owner_inv :: "('w \<Rightarrow> slot_state) \<Rightarrow> 'w core_state \<Rightarrow> bool" where
  "owner_inv slot cs \<longleftrightarrow> vendor cs \<noteq> 0 \<and> vendor_claim cs \<noteq> 0 \<and>
     (accessory_state cs = 1 \<longrightarrow> vendor_owner cs = 1) \<and>
     (vendor_owner cs = 1 \<or> vendor_owner cs = 2 \<longrightarrow> slot (world cs) = Slot_in_flight)"

lemma owner_inv_cong:
  "vendor cs' = vendor cs \<Longrightarrow> vendor_claim cs' = vendor_claim cs \<Longrightarrow>
   accessory_state cs' = accessory_state cs \<Longrightarrow> vendor_owner cs' = vendor_owner cs \<Longrightarrow>
   slot (world cs') = slot (world cs) \<Longrightarrow> owner_inv slot cs' = owner_inv slot cs"
  by (simp add: owner_inv_def)

text \<open>What an operation that may send promises: it keeps the invariant, it has sent only if a
  transfer of the effect engine is now in flight, and without the claim it has touched nothing of
  the slot.\<close>

definition sends_ok :: "('w \<Rightarrow> slot_state) \<Rightarrow> 'w core_state \<Rightarrow> bool \<times> 'w core_state \<Rightarrow> bool" where
  "sends_ok slot cs res \<longleftrightarrow> (case res of (sent, cs') \<Rightarrow>
     owner_inv slot cs' \<and> chain_wf cs' \<and> chain_only cs cs' \<and>
     (sent \<longrightarrow> slot (world cs') = Slot_in_flight \<and> vendor_owner cs' = 2) \<and>
     (slot (world cs) \<noteq> Slot_claimed \<longrightarrow> \<not> sent \<and> slot (world cs') = slot (world cs)))"

text \<open>A state the chain goes on from: nothing of the slot or of the owner has changed.\<close>

definition goes_on :: "('w \<Rightarrow> slot_state) \<Rightarrow> 'w core_state \<Rightarrow> 'w core_state \<Rightarrow> bool" where
  "goes_on slot cs c \<longleftrightarrow> owner_inv slot c \<and> chain_wf c \<and> chain_only cs c \<and>
     slot (world c) = slot (world cs)"

lemma goes_on_refl: "owner_inv slot cs \<Longrightarrow> chain_wf cs \<Longrightarrow> goes_on slot cs cs"
  by (simp add: goes_on_def)

lemma goes_on_trans: "goes_on slot a b \<Longrightarrow> goes_on slot b c \<Longrightarrow> goes_on slot a c"
  using chain_only_trans by (auto simp: goes_on_def)

lemma goes_on_inv: "goes_on slot cs c \<Longrightarrow> owner_inv slot c" "goes_on slot cs c \<Longrightarrow> chain_wf c"
  by (simp_all add: goes_on_def)

lemma goes_on_touch:
  assumes "goes_on slot a cs"
    and c: "c = cs\<lparr>effect_state := effect_state c, next_tick := next_tick c,
      keepalive_time := keepalive_time c, effect_next := effect_next c,
      claim_idle_command := claim_idle_command c, claim_effect_tick := claim_effect_tick c,
      claim_pak_insert := claim_pak_insert c, claim_pak_remove := claim_pak_remove c\<rparr>"
    and n: "is_s32 (next_tick c)"
  shows "goes_on slot a c"
proof -
  have same: "vendor_owner c = vendor_owner cs" "world c = world cs" "wf_fields c = wf_fields cs"
    by (subst c, simp add: wf_fields_def)+
  have only: "chain_only cs c"
  proof (rule chain_onlyI [of cs cs])
    show "c = cs\<lparr>effect_state := effect_state c, next_tick := next_tick c,
       keepalive_time := keepalive_time c, effect_next := effect_next c,
       claim_idle_command := claim_idle_command c, claim_effect_tick := claim_effect_tick c,
       claim_pak_insert := claim_pak_insert c, claim_pak_remove := claim_pak_remove c,
       vendor_owner := vendor_owner c, world := world c\<rparr>"
      unfolding same by (rule trans [OF c]) simp
  qed simp
  have "owner_inv slot c"
    using assms(1) owner_inv_cong [of c cs slot] same chain_only_frame(1,3,4) [OF only]
    by (simp add: goes_on_def)
  moreover have "chain_wf c" using chain_wf_cong [OF same(3) n] assms(1) by (simp add: goes_on_def)
  ultimately have "goes_on slot cs c" using only same by (simp add: goes_on_def)
  with assms(1) show ?thesis by (rule goes_on_trans)
qed

lemma goes_on_evaluate:
  assumes a: "goes_on slot a cs" and "is_s32 t"
  shows "goes_on slot a (snd (snd (core_effect_evaluate la t p cs)))"
proof (rule goes_on_trans [OF a])
  let ?c = "snd (snd (core_effect_evaluate la t p cs))"
  note e = evaluate_engine [of cs la t p]
  note f = engine_only_frame(1,3,12,13,14) [OF e]
  have "owner_inv slot ?c"
    using a owner_inv_cong [of ?c cs slot] f by (simp add: goes_on_def)
  moreover have "chain_wf ?c" using chain_wf_evaluate [OF _ assms(2), of cs la p] a by (simp add: goes_on_def)
  ultimately show "goes_on slot cs ?c" using engine_chain [OF e] f by (simp add: goes_on_def)
qed

lemma sends_ok_after: "sends_ok slot c res \<Longrightarrow> goes_on slot cs c \<Longrightarrow> sends_ok slot cs res"
  using chain_only_trans by (auto simp: sends_ok_def goes_on_def split: prod.splits)

locale vendor_transport =
  fixes S :: "'w seams" and slot :: "'w \<Rightarrow> slot_state"
  assumes claim_law: "call_claim S f c w = (ok, w') \<Longrightarrow>
      ok = (slot w = Slot_free) \<and> slot w' = (if slot w = Slot_free then Slot_claimed else slot w)"
    and send_law: "call_vendor S f c req w = (ok, w') \<Longrightarrow>
      (ok \<longrightarrow> slot w = Slot_claimed) \<and>
      slot w' = (if slot w = Slot_claimed then (if ok then Slot_in_flight else Slot_free) else slot w)"
begin

lemma issue_sends_ok:
  assumes "owner_inv slot cs" and "chain_wf cs"
  shows "sends_ok slot cs (core_effect_issue S rq v i nx cs)"
proof -
  let ?req = "\<lparr>bmRequestType = 0x40, bRequest = rq, wValue = v, wIndex = i, wLength = 0\<rparr>"
  obtain ok w where send: "call_vendor S (vendor cs) (vendor_ctx cs) ?req (world cs) = (ok, w)"
    by fastforce
  note law = send_law [OF send]
  let ?c = "cs\<lparr>effect_next := nx, vendor_owner := (if ok then 2 else vendor_owner cs), world := w\<rparr>"
  have eq: "core_effect_issue S rq v i nx cs = (ok, ?c)"
    using assms(1) send by (cases ok) (simp_all add: core_effect_issue_def owner_inv_def Let_def)
  have "chain_wf ?c"
    by (rule chain_wf_cong [OF _ _ assms(2)]) (use assms(2) in \<open>simp_all add: wf_fields_def chain_wf_def\<close>)
  moreover have "chain_only cs ?c" by (rule chain_onlyI [of cs cs]) simp_all
  moreover have "owner_inv slot ?c" using assms(1) law by (auto simp: owner_inv_def)
  moreover have "ok \<longrightarrow> slot (world ?c) = Slot_in_flight \<and> vendor_owner ?c = 2"
    "slot (world cs) \<noteq> Slot_claimed \<longrightarrow> \<not> ok \<and> slot (world ?c) = slot (world cs)"
    using law by auto
  ultimately show ?thesis unfolding eq sends_ok_def prod.case by blast
qed

lemma bitmap_sends_ok:
  "owner_inv slot cs \<Longrightarrow> chain_wf cs \<Longrightarrow> sends_ok slot cs (core_effect_send_bitmap S rq p nx cs)"
  unfolding core_effect_send_bitmap_def Let_def by (rule issue_sends_ok)

text \<open>Writing a field the invariant does not read, or evaluating the ring, changes nothing of it.\<close>

lemma quiet_sends_ok: "owner_inv slot cs \<Longrightarrow> chain_wf cs \<Longrightarrow> sends_ok slot cs (False, cs)"
  by (simp add: sends_ok_def)

lemma issue_after: "goes_on slot cs c \<Longrightarrow> sends_ok slot cs (core_effect_issue S rq v i nx c)"
  using issue_sends_ok goes_on_inv sends_ok_after by blast

lemma bitmap_after: "goes_on slot cs c \<Longrightarrow> sends_ok slot cs (core_effect_send_bitmap S rq p nx c)"
  using bitmap_sends_ok goes_on_inv sends_ok_after by blast

lemma quiet_after: "goes_on slot cs c \<Longrightarrow> sends_ok slot cs (False, c)"
  by (simp add: goes_on_def sends_ok_def)

lemma next_tick_s32: "goes_on slot a cs \<Longrightarrow> is_s32 (next_tick cs)"
  by (simp add: goes_on_def chain_wf_def)

lemma chain_sends_ok:
  "T = S \<Longrightarrow> owner_inv slot cs \<Longrightarrow> chain_wf cs \<Longrightarrow>
     sends_ok slot cs (core_effect_keepalive T now cs)"
  "T = S \<Longrightarrow> owner_inv slot cs \<Longrightarrow> chain_wf cs \<Longrightarrow>
     sends_ok slot cs (core_effect_send_periodic T now cs)"
  "T = S \<Longrightarrow> owner_inv slot cs \<Longrightarrow> chain_wf cs \<Longrightarrow>
     sends_ok slot cs (core_effect_tick T now cs)"
proof (induction T now cs and T now cs and T now cs
    rule: core_effect_keepalive_core_effect_send_periodic_core_effect_tick.induct)
  case (1 T now cs)
  have start: "goes_on slot cs cs" by (rule goes_on_refl) fact+
  have poke: "goes_on slot cs (cs\<lparr>keepalive_time := now\<rparr>)"
    by (rule goes_on_touch [OF start]) (simp_all add: next_tick_s32 [OF start])
  show ?case
    using 1 issue_after [OF poke] by (simp add: core_effect_keepalive.simps [of S])
next
  case (2 T now cs)
  have start: "goes_on slot cs cs" by (rule goes_on_refl) fact+
  have state: "goes_on slot cs (cs\<lparr>effect_state := 2\<rparr>)"
    by (rule goes_on_touch [OF start]) (simp_all add: next_tick_s32 [OF start])
  obtain r p c where ev: "core_effect_evaluate False (next_tick cs) stack_payload (cs\<lparr>effect_state := 2\<rparr>) = (r, p, c)"
    by (metis prod_cases3)
  have c: "goes_on slot cs c"
    using goes_on_evaluate [OF state next_tick_s32 [OF start], of False stack_payload] ev by simp
  have "goes_on slot cs (c\<lparr>next_tick := to_s32 (next_tick c + 32)\<rparr>)"
    by (rule goes_on_touch [OF c]) simp_all
  then show ?case
    using 2 bitmap_after ev by (simp add: core_effect_send_periodic.simps [of S])
next
  case (3 T now cs)
  have start: "goes_on slot cs cs" by (rule goes_on_refl) fact+
  have cleared: "goes_on slot cs (cs\<lparr>claim_effect_tick := False\<rparr>)"
    by (rule goes_on_touch [OF start]) (simp_all add: next_tick_s32 [OF start])
  obtain r p c where ev: "core_effect_evaluate True (tick_of now) stack_payload (cs\<lparr>claim_effect_tick := False\<rparr>) = (r, p, c)"
    by (metis prod_cases3)
  have c: "goes_on slot cs c"
    using goes_on_evaluate [OF cleared is_s32_tick_of, of True now stack_payload] ev by simp
  have "goes_on slot cs (c\<lparr>next_tick := to_s32 (tick_of now + 32), effect_state := 1,
      claim_pak_insert := False, claim_pak_remove := False\<rparr>)"
    by (rule goes_on_touch [OF c]) simp_all
  moreover have "sends_ok slot cs (core_effect_keepalive T now c)" if "r \<noteq> 0" "effect_state c = 1"
    using 3 ev that goes_on_inv [OF c] sends_ok_after [OF _ c] by simp
  ultimately show ?case
    using bitmap_after quiet_after [OF c] ev "3.prems"(1) by (simp add: core_effect_tick.simps [of S])
qed

lemma claim_goes_on:
  assumes "owner_inv slot cs" and "chain_wf cs"
    and flag: "\<And>c. goes_on slot a c \<Longrightarrow> goes_on slot a (set_flag c)"
    and run: "core_effect_claim S set_flag cs = (ok, c)"
  shows "ok \<longleftrightarrow> slot (world cs) = Slot_free"
    "ok \<Longrightarrow> owner_inv slot c \<and> chain_wf c \<and> chain_only cs c \<and> slot (world c) = Slot_claimed"
    "\<not> ok \<Longrightarrow> \<exists>b. c = set_flag b \<and> goes_on slot cs b"
proof -
  obtain got w where claim: "call_claim S (vendor_claim cs) (vendor_ctx cs) (world cs) = (got, w)"
    by fastforce
  note law = claim_law [OF claim]
  let ?c = "cs\<lparr>world := w\<rparr>"
  have out: "ok = got" "c = (if got then ?c else set_flag ?c)"
    using run claim assms(1) by (auto simp: core_effect_claim_def owner_inv_def Let_def split: if_split_asm)
  have "chain_wf ?c"
    by (rule chain_wf_cong [OF _ _ assms(2)]) (use assms(2) in \<open>simp_all add: wf_fields_def chain_wf_def\<close>)
  moreover have "chain_only cs ?c" by (rule chain_onlyI [of cs cs]) simp_all
  moreover have "owner_inv slot ?c" using assms(1) law by (auto simp: owner_inv_def)
  ultimately show "ok \<longleftrightarrow> slot (world cs) = Slot_free"
    "ok \<Longrightarrow> owner_inv slot c \<and> chain_wf c \<and> chain_only cs c \<and> slot (world c) = Slot_claimed"
    "\<not> ok \<Longrightarrow> \<exists>b. c = set_flag b \<and> goes_on slot cs b"
    using law out by (auto simp: goes_on_def)
qed

lemma update_sends_ok:
  assumes "owner_inv slot cs" and "chain_wf cs"
  shows "sends_ok slot cs (core_effect_send_update S sub cs)"
proof -
  have start: "goes_on slot cs cs" by (rule goes_on_refl) fact+
  obtain r p c where ev: "core_effect_evaluate False (next_tick cs) stack_payload cs = (r, p, c)"
    by (metis prod_cases3)
  have c: "goes_on slot cs c"
    using goes_on_evaluate [OF start next_tick_s32 [OF start], of False stack_payload] ev by simp
  let ?c = "c\<lparr>next_tick := to_s32 (next_tick c + 32)\<rparr>"
  have n: "goes_on slot cs ?c" by (rule goes_on_touch [OF c]) simp_all
  have "engine_only ?c (core_effect_ring_reset ?c)"
    unfolding core_effect_ring_reset_def by simp
  note e = this
  have "core_wf ?c" using n by (simp add: goes_on_def chain_wf_def)
  then have "core_wf (core_effect_ring_reset ?c)"
    by (auto simp: core_effect_ring_reset_def core_wf_def arrays_wf_def ring_wf_def keys_wf_def held_keys_def)
  then have "goes_on slot ?c (core_effect_ring_reset ?c)"
    using n engine_chain [OF e] engine_only_frame(1,3,9,12,13,14) [OF e]
      owner_inv_cong [of "core_effect_ring_reset ?c" ?c slot]
    by (simp add: goes_on_def chain_wf_def)
  then have "goes_on slot cs (core_effect_ring_reset ?c)" by (rule goes_on_trans [OF n])
  then show ?thesis
    using issue_after bitmap_after [OF n] ev by (simp add: core_effect_send_update_def Let_def)
qed

lemma update_after: "goes_on slot cs c \<Longrightarrow> sends_ok slot cs (core_effect_send_update S sub c)"
  using update_sends_ok goes_on_inv sends_ok_after by blast

lemma flag_goes_on:
  assumes "goes_on slot a c"
  shows "goes_on slot a (c\<lparr>claim_pak_insert := b\<rparr>)" "goes_on slot a (c\<lparr>claim_pak_remove := b\<rparr>)"
    "goes_on slot a (c\<lparr>claim_effect_tick := b\<rparr>)" "goes_on slot a (c\<lparr>claim_idle_command := b\<rparr>)"
    "goes_on slot a (c\<lparr>effect_next := n\<rparr>)" "goes_on slot a (c\<lparr>effect_state := e\<rparr>)"
  by (rule goes_on_touch [OF assms], simp, simp add: next_tick_s32 [OF assms])+

lemma pak_sends_ok:
  assumes "owner_inv slot cs" and "chain_wf cs"
  shows "sends_ok slot cs (core_effect_on_pak_insert S cs)"
    "sends_ok slot cs (core_effect_on_pak_remove S cs)" "sends_ok slot cs (core_effect_send_idle S cs)"
  unfolding core_effect_on_pak_insert_def core_effect_on_pak_remove_def core_effect_send_idle_def
  using update_after issue_after flag_goes_on [OF goes_on_refl [OF assms]] by blast+

lemma tick_after: "goes_on slot cs c \<Longrightarrow> sends_ok slot cs (core_effect_tick S now c)"
  using chain_sends_ok(3) [OF refl] goes_on_inv sends_ok_after by blast

text \<open>Work that sent nothing can be followed by more work.\<close>

lemma unsent_then:
  assumes "sends_ok slot cs (False, c)" and "sends_ok slot c res"
  shows "case res of (sent, c') \<Rightarrow> owner_inv slot c' \<and> chain_wf c' \<and> chain_only cs c' \<and>
    (sent \<longrightarrow> slot (world c') = Slot_in_flight \<and> vendor_owner c' = 2) \<and>
    (slot (world cs) \<noteq> Slot_claimed \<longrightarrow> \<not> sent \<and> slot (world c') = slot (world cs))"
  using assms chain_only_trans by (auto simp: sends_ok_def split: prod.splits)

lemma deferred_sends_ok:
  "owner_inv slot cs \<Longrightarrow> chain_wf cs \<Longrightarrow> sends_ok slot cs (deferred_loop n S now cs)"
proof (induction n arbitrary: cs)
  case 0
  then show ?case by (simp add: quiet_after goes_on_refl)
next
  case (Suc n)
  have start: "goes_on slot cs cs" by (rule goes_on_refl) fact+
  have one: "sends_ok slot cs (case res of (sent, c) \<Rightarrow> if sent then (True, c) else deferred_loop n S now c)"
    if res: "sends_ok slot cs res" for res
  proof -
    obtain sent c where r: "res = (sent, c)" by fastforce
    show ?thesis
    proof (cases sent)
      case True
      with res r show ?thesis by simp
    next
      case False
      have ok: "sends_ok slot cs (False, c)" using res r False by simp
      then have "sends_ok slot c (deferred_loop n S now c)"
        by (intro Suc.IH) (simp_all add: sends_ok_def)
      from unsent_then [OF ok this] False show ?thesis by (simp add: r sends_ok_def)
    qed
  qed
  show ?case
    using one [OF pak_sends_ok(1) [OF Suc.prems]] one [OF pak_sends_ok(2) [OF Suc.prems]]
      one [OF pak_sends_ok(3) [OF Suc.prems]] one [OF tick_after [OF start]] quiet_after [OF start]
    by (simp add: Let_def)
qed

text \<open>A run claims, so it never sends over somebody else's transfer; when the slot was taken it
  only records that the tick is wanted.\<close>

lemma run_ok:
  assumes "owner_inv slot cs" and "chain_wf cs" and "core_effect_run S now cs = (sent, c)"
  shows "owner_inv slot c \<and> chain_wf c \<and> chain_only cs c \<and>
    (sent \<longrightarrow> slot (world c) = Slot_in_flight \<and> vendor_owner c = 2) \<and>
    (slot (world cs) \<noteq> Slot_free \<longrightarrow> \<not> sent \<and> slot (world c) = slot (world cs) \<and> claim_effect_tick c)"
proof -
  obtain ok b where claim: "core_effect_claim S (claim_effect_tick_update (\<lambda>_. True)) cs = (ok, b)"
    by fastforce
  note cl = claim_goes_on [OF assms(1,2) flag_goes_on(3) claim]
  show ?thesis
  proof (cases ok)
    case False
    then show ?thesis
      using cl(1,3) assms(3) claim flag_goes_on(3)
      by (auto simp: core_effect_run_def goes_on_def)
  next
    case True
    obtain t d where tick: "core_effect_tick S now b = (t, d)" by fastforce
    have b: "owner_inv slot b" "chain_wf b" "chain_only cs b" using cl(2) True by auto
    have ok: "sends_ok slot b (t, d)" using chain_sends_ok(3) [OF refl b(1,2), of now] tick by simp
    show ?thesis
    proof (cases t)
      case True
      then show ?thesis
        using ok b chain_only_trans [OF b(3)] cl(1) \<open>ok\<close> assms(3) claim tick
        by (auto simp: core_effect_run_def sends_ok_def)
    next
      case False
      have "sends_ok slot d (deferred_loop 32 S now d)"
        using ok by (intro deferred_sends_ok) (simp_all add: sends_ok_def)
      with ok False have "sends_ok slot b (deferred_loop 32 S now d)"
        using unsent_then [of b d] by (auto simp: sends_ok_def split: prod.splits)
      then show ?thesis
        using False b chain_only_trans [OF b(3)] cl(1) \<open>ok\<close> assms(3) claim tick
        by (auto simp: core_effect_run_def core_effect_run_deferred_def sends_ok_def)
    qed
  qed
qed

lemma kick_ok:
  assumes "owner_inv slot cs" and "chain_wf cs" and "core_effect_kick S now cs = (sent, c)"
  shows "owner_inv slot c \<and> chain_wf c \<and> chain_only cs c"
proof -
  let ?c = "cs\<lparr>effect_idle_ticks := 0\<rparr>"
  have e: "engine_only cs ?c" by (rule engine_onlyI) simp
  have "owner_inv slot ?c" using owner_inv_cong [of ?c cs slot] assms(1) by simp
  moreover have "chain_wf ?c"
    by (rule chain_wf_cong [OF _ _ assms(2)]) (use assms(2) in \<open>simp_all add: wf_fields_def chain_wf_def\<close>)
  ultimately show ?thesis
    using run_ok [of ?c now sent c] assms(3) chain_only_trans [OF engine_chain [OF e]]
    by (simp add: core_effect_kick_def)
qed

lemma pak_change_ok:
  assumes "owner_inv slot cs" and "chain_wf cs"
  shows "owner_inv slot (core_effect_on_pak_change S present cs) \<and>
    chain_wf (core_effect_on_pak_change S present cs) \<and>
    chain_only cs (core_effect_on_pak_change S present cs)"
proof -
  have go: "owner_inv slot d \<and> chain_wf d \<and> chain_only cs d"
    if claim: "core_effect_claim S flag cs = (ok, c)"
      and flag: "\<And>c. goes_on slot cs c \<Longrightarrow> goes_on slot cs (flag c)"
      and send: "\<And>c. owner_inv slot c \<Longrightarrow> chain_wf c \<Longrightarrow> sends_ok slot c (f c)"
      and d: "d = (if ok then snd (f c) else c)" for flag f ok c d
  proof (cases ok)
    case False
    then obtain b where "d = flag b" "goes_on slot cs b"
      using claim_goes_on(3) [OF assms flag claim] d by auto
    with flag [of b] show ?thesis by (simp add: goes_on_def)
  next
    case True
    note got = claim_goes_on(2) [OF assms flag claim True]
    obtain sent e where fc: "f c = (sent, e)" by fastforce
    have "sends_ok slot c (sent, e)" using send [of c] got fc by simp
    then have e: "owner_inv slot e" "chain_wf e" "chain_only c e" by (simp_all add: sends_ok_def)
    have "d = e" using d True fc by simp
    with e got chain_only_trans [OF _ e(3)] show ?thesis by simp
  qed
  obtain ok1 c1 where ins: "core_effect_claim S (claim_pak_insert_update (\<lambda>_. True)) cs = (ok1, c1)"
    by fastforce
  obtain ok2 c2 where rem: "core_effect_claim S (claim_pak_remove_update (\<lambda>_. True)) cs = (ok2, c2)"
    by fastforce
  show ?thesis
    using go [OF ins flag_goes_on(1) pak_sends_ok(1) refl] go [OF rem flag_goes_on(2) pak_sends_ok(2) refl]
    by (simp add: core_effect_on_pak_change_def ins rem)
qed

lemma complete_sends_ok:
  assumes "owner_inv slot cs" and "chain_wf cs"
  shows "sends_ok slot cs (core_effect_complete S now cs)"
proof -
  let ?c = "cs\<lparr>effect_next := 0\<rparr>"
  have c: "goes_on slot cs ?c" by (rule flag_goes_on(5) [OF goes_on_refl [OF assms]])
  have "sends_ok slot cs (core_effect_keepalive S now ?c)"
    "sends_ok slot cs (core_effect_send_periodic S now ?c)"
    using chain_sends_ok(1,2) [OF refl goes_on_inv [OF c]] sends_ok_after c by blast+
  then show ?thesis
    using quiet_after [OF c] quiet_after [OF flag_goes_on(6) [OF c]]
    by (simp add: core_effect_complete_def core_effect_update_complete_def Let_def)
qed

end

section \<open>The drain\<close>

text \<open>The work still pending, and that every step of the drain takes something off it.\<close>

definition pending :: "'w core_state \<Rightarrow> bool \<times> bool \<times> bool \<times> bool" where
  "pending cs = (claim_idle_command cs, claim_effect_tick cs, claim_pak_insert cs, claim_pak_remove cs)"

definition flags_le :: "'w core_state \<Rightarrow> 'w core_state \<Rightarrow> bool" where
  "flags_le c cs \<longleftrightarrow> (claim_idle_command c \<longrightarrow> claim_idle_command cs) \<and>
     (claim_effect_tick c \<longrightarrow> claim_effect_tick cs) \<and> (claim_pak_insert c \<longrightarrow> claim_pak_insert cs) \<and>
     (claim_pak_remove c \<longrightarrow> claim_pak_remove cs)"

lemma flags_le_refl [simp]: "flags_le cs cs"
  by (simp add: flags_le_def)

lemma flags_le_trans: "flags_le c b \<Longrightarrow> flags_le b a \<Longrightarrow> flags_le c a"
  by (simp add: flags_le_def)

lemma pending_frame:
  "pending (snd (core_effect_issue S rq v i nx cs)) = pending cs"
  "pending (snd (core_effect_send_bitmap S rq p nx cs)) = pending cs"
  "pending (snd (snd (core_effect_evaluate la t p cs))) = pending cs"
  using engine_only_frame(4-7) [OF evaluate_engine, of la t p cs]
  by (simp_all add: core_effect_send_bitmap_def core_effect_issue_def pending_def Let_def
      split: prod.split)

lemma flags_le_pending: "pending c = pending b \<Longrightarrow> flags_le b a \<Longrightarrow> flags_le c a"
  by (simp add: pending_def flags_le_def)

lemma chain_flags:
  "flags_le (snd (core_effect_keepalive S now cs)) cs \<and>
     (claim_effect_tick cs \<longrightarrow> \<not> claim_effect_tick (snd (core_effect_keepalive S now cs)))"
  "flags_le (snd (core_effect_send_periodic S now cs)) cs \<and>
     (claim_effect_tick cs \<longrightarrow> \<not> claim_effect_tick (snd (core_effect_send_periodic S now cs)))"
  "flags_le (snd (core_effect_tick S now cs)) cs \<and> \<not> claim_effect_tick (snd (core_effect_tick S now cs))"
proof (induction S now cs and S now cs and S now cs
    rule: core_effect_keepalive_core_effect_send_periodic_core_effect_tick.induct)
  case (1 S now cs)
  have "pending (snd (core_effect_issue S 0x72 0xFF22 0x0094 2 (cs\<lparr>keepalive_time := now\<rparr>))) = pending cs"
    by (simp add: pending_frame) (simp add: pending_def)
  then have "flags_le (snd (core_effect_issue S 0x72 0xFF22 0x0094 2 (cs\<lparr>keepalive_time := now\<rparr>))) cs"
    by (rule flags_le_pending) simp
  then show ?case using 1 by (simp add: core_effect_keepalive.simps [of S])
next
  case (2 S now cs)
  obtain r p c where ev: "core_effect_evaluate False (next_tick cs) stack_payload (cs\<lparr>effect_state := 2\<rparr>) = (r, p, c)"
    by (metis prod_cases3)
  have "pending c = pending cs"
    using pending_frame(3) [of False "next_tick cs" stack_payload "cs\<lparr>effect_state := 2\<rparr>"] ev
    by (simp add: pending_def)
  then have "pending (snd (core_effect_send_bitmap S rq q nx (c\<lparr>next_tick := n\<rparr>))) = pending cs" for rq q nx n
    unfolding pending_frame(2) by (simp add: pending_def)
  then have "flags_le (snd (core_effect_send_bitmap S rq q nx (c\<lparr>next_tick := n\<rparr>))) cs" for rq q nx n
    by (rule flags_le_pending) simp
  then show ?case using 2 ev by (simp add: core_effect_send_periodic.simps [of S])
next
  case (3 S now cs)
  obtain r p c where ev: "core_effect_evaluate True (tick_of now) stack_payload (cs\<lparr>claim_effect_tick := False\<rparr>) = (r, p, c)"
    by (metis prod_cases3)
  have c: "pending c = pending (cs\<lparr>claim_effect_tick := False\<rparr>)"
    using pending_frame(3) [of True "tick_of now" stack_payload "cs\<lparr>claim_effect_tick := False\<rparr>"] ev by simp
  then have le: "flags_le c cs" "\<not> claim_effect_tick c" by (auto simp: pending_def flags_le_def)
  let ?d = "c\<lparr>next_tick := to_s32 (tick_of now + 32), effect_state := 1, claim_pak_insert := False,
    claim_pak_remove := False\<rparr>"
  have d: "flags_le ?d cs" "\<not> claim_effect_tick ?d" using le by (auto simp: flags_le_def)
  have "flags_le (snd (core_effect_send_bitmap S rq q nx ?d)) cs \<and>
      \<not> claim_effect_tick (snd (core_effect_send_bitmap S rq q nx ?d))" for rq q nx
    using pending_frame(2) [of S rq q nx ?d] d by (auto simp: pending_def flags_le_def)
  moreover have "flags_le (snd (core_effect_keepalive S now c)) cs \<and>
      \<not> claim_effect_tick (snd (core_effect_keepalive S now c))" if "r \<noteq> 0" "effect_state c = 1"
  proof -
    have ih: "flags_le (snd (core_effect_keepalive S now c)) c"
      using 3 ev [symmetric] that by simp
    show ?thesis
      using flags_le_trans [OF ih le(1)] ih le(2) by (simp add: flags_le_def)
  qed
  ultimately show ?case
    using le ev by (simp add: core_effect_tick.simps [of S])
qed

lemma update_pending: "pending (snd (core_effect_send_update S sub cs)) = pending cs"
proof -
  obtain r p c where ev: "core_effect_evaluate False (next_tick cs) stack_payload cs = (r, p, c)"
    by (metis prod_cases3)
  have "pending c = pending cs"
    using pending_frame(3) [of False "next_tick cs" stack_payload cs] ev by simp
  then show ?thesis
    using ev by (simp add: core_effect_send_update_def Let_def pending_frame core_effect_ring_reset_def)
      (simp add: pending_def)
qed

lemma work_flags:
  "pending (snd (core_effect_send_idle S cs)) = pending (cs\<lparr>claim_idle_command := False\<rparr>)"
  "pending (snd (core_effect_on_pak_insert S cs)) = pending (cs\<lparr>claim_pak_insert := False\<rparr>)"
  "pending (snd (core_effect_on_pak_remove S cs)) = pending (cs\<lparr>claim_pak_remove := False\<rparr>)"
  by (simp_all add: core_effect_send_idle_def core_effect_on_pak_insert_def
      core_effect_on_pak_remove_def pending_frame update_pending)

definition pending_count :: "'w core_state \<Rightarrow> nat" where
  "pending_count cs = of_bool (claim_idle_command cs) + of_bool (claim_effect_tick cs)
     + of_bool (claim_pak_insert cs) + of_bool (claim_pak_remove cs)"

lemma deferred_drains:
  "pending_count cs \<le> n \<Longrightarrow> deferred_loop n S now cs = (False, c) \<Longrightarrow>
     pending c = (False, False, False, False)"
proof (induction n arbitrary: cs)
  case 0
  then show ?case by (auto simp: pending_count_def pending_def)
next
  case (Suc n)
  have step: "pending_count (snd res) < pending_count cs \<Longrightarrow>
      (case res of (sent, b) \<Rightarrow> if sent then (True, b) else deferred_loop n S now b) = (False, c) \<Longrightarrow>
      pending c = (False, False, False, False)" for res
    using Suc.IH [of "snd res"] Suc.prems(1) by (auto split: prod.splits if_split_asm)
  have flags: "claim_idle_command cs \<Longrightarrow> pending_count (snd (core_effect_send_idle S cs)) < pending_count cs"
    "claim_pak_insert cs \<Longrightarrow> pending_count (snd (core_effect_on_pak_insert S cs)) < pending_count cs"
    "claim_pak_remove cs \<Longrightarrow> pending_count (snd (core_effect_on_pak_remove S cs)) < pending_count cs"
    using work_flags [of S cs] by (auto simp: pending_def pending_count_def)
  have "claim_effect_tick cs \<Longrightarrow> pending_count (snd (core_effect_tick S now cs)) < pending_count cs"
    using chain_flags(3) [of S now cs] by (auto simp: flags_le_def pending_count_def)
  with flags step Suc.prems(2) show ?case
    by (auto simp: pending_def Let_def split: if_split_asm)
qed

text \<open>C28. The drain of deferred work always finishes: within its 32 turns it either puts a transfer
  in flight or has taken every one of the four flags, and four turns would do. A flag is taken
  whether or not its transfer was accepted, so work the transport refuses here is dropped, the
  motor-off command included.\<close>

theorem deferred_work_drained:
  "(fst (core_effect_run_deferred S now cs)
     \<or> pending (snd (core_effect_run_deferred S now cs)) = (False, False, False, False)) \<and>
   (fst (deferred_loop 4 S now cs)
     \<or> pending (snd (deferred_loop 4 S now cs)) = (False, False, False, False)) \<and>
   \<not> claim_idle_command (snd (core_effect_send_idle S cs))"
proof (intro conjI)
  have four: "pending_count cs \<le> 4" by (simp add: pending_count_def)
  show "fst (core_effect_run_deferred S now cs)
     \<or> pending (snd (core_effect_run_deferred S now cs)) = (False, False, False, False)"
    using deferred_drains [of cs 32 S now] four
    by (cases "deferred_loop 32 S now cs") (auto simp: core_effect_run_deferred_def)
  show "fst (deferred_loop 4 S now cs)
     \<or> pending (snd (deferred_loop 4 S now cs)) = (False, False, False, False)"
    using deferred_drains [of cs 4 S now] four by (cases "deferred_loop 4 S now cs") auto
  show "\<not> claim_idle_command (snd (core_effect_send_idle S cs))"
    using work_flags(1) [of S cs] by (simp add: pending_def)
qed

end
