(* ===== verification/Accessory.thy ===== *)
theory Accessory
  imports Send_Chain
begin

text \<open>
  The accessory probe of \<open>src_drv/core.c\<close>, the controller reset, and \<open>core_vendor_completed\<close>,
  which routes a finished transfer to the chain that issued it. The lemmas show which requests the
  probe makes, that it concludes within nine transfers that succeed, and (in the context of
  \<open>vendor_transport\<close>) that an operation of the core never loses the completion the probe waits for.
\<close>

section \<open>The requests\<close>

definition CORE_PROBE_WRITES :: "(u16 \<times> u16) list" where
  "CORE_PROBE_WRITES = [(0x0038, 0x0015), (0x0039, 0x0012), (0x003A, 0x0023), (0xFF20, 0x0004),
     (0xFD23, 0x0000)]"

text \<open>\<open>cs->vendor_claim == 0 || cs->vendor_claim (cs->vendor_ctx)\<close>, and a call of \<open>cs->vendor\<close>.\<close>

definition seam_claim :: "'w seams \<Rightarrow> 'w core_state \<Rightarrow> bool \<times> 'w core_state" where
  "seam_claim S cs =
     (if vendor_claim cs = 0 then (True, cs)
      else let (ok, w) = call_claim S (vendor_claim cs) (vendor_ctx cs) (world cs)
           in (ok, cs\<lparr>world := w\<rparr>))"

definition seam_vendor :: "'w seams \<Rightarrow> core_vendor_req \<Rightarrow> 'w core_state \<Rightarrow> bool \<times> 'w core_state" where
  "seam_vendor S req cs =
     (let (ok, w) = call_vendor S (vendor cs) (vendor_ctx cs) req (world cs)
      in (ok, cs\<lparr>world := w\<rparr>))"

definition core_controller_reset :: "'w seams \<Rightarrow> 'w core_state \<Rightarrow> bool \<times> 'w core_state" where
  "core_controller_reset S cs =
     (if vendor cs = 0 then (False, cs)
      else
        let (got, cs) = seam_claim S cs
        in if \<not> got then (False, cs)
           else seam_vendor S
             \<lparr>bmRequestType = 0x40, bRequest = 0x72, wValue = 0x0F20, wIndex = 0, wLength = 0\<rparr>
             (cs\<lparr>vendor_owner := 3\<rparr>))"

section \<open>The probe\<close>

definition core_probe_abandon :: "'w core_state \<Rightarrow> 'w core_state" where
  "core_probe_abandon cs = cs\<lparr>accessory_state := 0, probe_step := 9\<rparr>"

text \<open>The request \<open>core_probe_issue\<close> builds for a step; \<open>None\<close> is its early return.\<close>

definition probe_request :: "u8 \<Rightarrow> core_vendor_req option" where
  "probe_request step =
     (if step < 5 then
        Some \<lparr>bmRequestType = 0x40, bRequest = 0x72, wValue = fst (CORE_PROBE_WRITES ! unat step),
              wIndex = snd (CORE_PROBE_WRITES ! unat step), wLength = 0\<rparr>
      else if step = 5 \<or> step = 7 then
        Some \<lparr>bmRequestType = 0xC0, bRequest = 0x21, wValue = 0, wIndex = 0, wLength = 4\<rparr>
      else if step = 6 \<or> step = 8 then
        Some \<lparr>bmRequestType = 0x40, bRequest = 0x74, wValue = (if step = 6 then 0x00C6 else 0x00A6),
              wIndex = 0, wLength = 0\<rparr>
      else None)"

definition core_probe_issue :: "'w seams \<Rightarrow> 'w core_state \<Rightarrow> bool \<times> 'w core_state" where
  "core_probe_issue S cs =
     (case probe_request (probe_step cs) of
        None \<Rightarrow> (False, cs)
      | Some req \<Rightarrow>
          let cs = cs\<lparr>vendor_owner := 1\<rparr>;
              (ok, cs) = (if vendor cs = 0 then (False, cs) else seam_vendor S req cs)
          in if \<not> ok then (False, core_probe_abandon (cs\<lparr>vendor_owner := 0\<rparr>)) else (True, cs))"

definition core_probe_start :: "'w seams \<Rightarrow> 'w core_state \<Rightarrow> bool \<times> 'w core_state" where
  "core_probe_start S cs =
     (if vendor cs = 0 then (False, cs)
      else if accessory_state cs = 1 then (False, cs)
      else
        let (got, cs) = seam_claim S cs
        in if \<not> got then (False, cs)
           else core_probe_issue S (cs\<lparr>accessory_state := 1, probe_step := 0\<rparr>))"

definition core_probe_identified :: "'w core_state \<Rightarrow> bool" where
  "core_probe_identified cs \<longleftrightarrow>
     probe_reply cs ! 0 = 0x03 \<and> probe_reply cs ! 3 = 0x05 \<and> probe_reply cs ! 2 = 0x00"

text \<open>\<open>reply = None\<close> is the null pointer; the copy stops at \<open>len\<close> or after four bytes.\<close>

definition probe_take_reply :: "u8 list option \<Rightarrow> u32 \<Rightarrow> 'w core_state \<Rightarrow> 'w core_state" where
  "probe_take_reply reply len cs =
     (case reply of
        None \<Rightarrow> cs
      | Some bytes \<Rightarrow> cs\<lparr>probe_reply := map (\<lambda>i. if i < unat len then bytes ! i else 0) [0..<4]\<rparr>)"

text \<open>What follows a transfer that succeeded, its reply taken.\<close>

definition probe_advance :: "'w seams \<Rightarrow> 'w core_state \<Rightarrow> 'w core_state" where
  "probe_advance S cs =
     (if probe_step cs < 4 then
       snd (core_probe_issue S (cs\<lparr>probe_step := probe_step cs + 1\<rparr>))
     else if probe_step cs = 4 then
       snd (core_probe_issue S (cs\<lparr>probe_step := 5\<rparr>))
     else if probe_step cs = 5 then
       (if probe_reply cs ! 0 \<noteq> 0x03 then core_probe_abandon cs
        else if core_probe_identified cs then
          cs\<lparr>accessory_state := 2, accessory_status := probe_reply cs ! 1, probe_step := 9\<rparr>
        else snd (core_probe_issue S (cs\<lparr>probe_step := 6\<rparr>)))
     else if probe_step cs = 6 then
       snd (core_probe_issue S (cs\<lparr>probe_step := 7\<rparr>))
     else if probe_step cs = 7 then
       (if core_probe_identified cs then
          cs\<lparr>accessory_state := 3, accessory_status := probe_reply cs ! 1, probe_step := 9\<rparr>
        else
          let cs = cs\<lparr>accessory_state := 4, probe_step := 8\<rparr>;
              cs = (if vendor cs = 0 then cs
                    else snd (seam_vendor S
                      \<lparr>bmRequestType = 0x40, bRequest = 0x74, wValue = 0x00A6, wIndex = 0, wLength = 0\<rparr>
                      (cs\<lparr>vendor_owner := 3\<rparr>)))
          in cs\<lparr>probe_step := 9\<rparr>)
     else cs\<lparr>probe_step := 9\<rparr>)"

definition core_probe_complete ::
    "'w seams \<Rightarrow> bool \<Rightarrow> u8 list option \<Rightarrow> u32 \<Rightarrow> 'w core_state \<Rightarrow> 'w core_state" where
  "core_probe_complete S ok reply len cs =
     (if accessory_state cs \<noteq> 1 then cs
      else if \<not> ok then core_probe_abandon cs
      else probe_advance S (probe_take_reply reply len cs))"

section \<open>Routing a completion\<close>

definition core_vendor_completed ::
    "'w seams \<Rightarrow> bool \<Rightarrow> u8 list option \<Rightarrow> u32 \<Rightarrow> u64 \<Rightarrow> 'w core_state \<Rightarrow> bool \<times> 'w core_state" where
  "core_vendor_completed S ok reply len now cs =
     (let owner = vendor_owner cs;
          cs = cs\<lparr>vendor_owner := 0\<rparr>
      in if owner = 1 then
           let cs = core_probe_complete S ok reply len cs
           in (vendor_owner cs \<noteq> 0, cs)
         else if owner = 2 then
           if \<not> ok then (False, cs) else core_effect_complete S now cs
         else (False, cs))"

section \<open>What the probe writes\<close>

definition probe_only :: "'w core_state \<Rightarrow> 'w core_state \<Rightarrow> bool" where
  "probe_only cs cs' \<longleftrightarrow> cs' = cs\<lparr>accessory_state := accessory_state cs',
     accessory_status := accessory_status cs', probe_step := probe_step cs', probe_reply := probe_reply cs',
     vendor_owner := vendor_owner cs', world := world cs'\<rparr>"

lemma probe_only_refl [simp]: "probe_only cs cs"
  by (simp add: probe_only_def)

lemma probe_only_trans [trans]:
  assumes "probe_only a b" and "probe_only b c" shows "probe_only a c"
proof -
  have "c = b\<lparr>accessory_state := accessory_state c, accessory_status := accessory_status c,
      probe_step := probe_step c, probe_reply := probe_reply c, vendor_owner := vendor_owner c,
      world := world c\<rparr>" (is "_ = ?u b") using assms(2) by (simp only: probe_only_def)
  moreover have "?u b = ?u a"
    by (subst (1) assms(1) [unfolded probe_only_def]) simp
  ultimately show ?thesis by (simp only: probe_only_def)
qed

lemma probe_only_frame:
  assumes "probe_only cs cs'"
  shows "vendor cs' = vendor cs" "vendor_ctx cs' = vendor_ctx cs" "vendor_claim cs' = vendor_claim cs"
    "next_tick cs' = next_tick cs" "sink cs' = sink cs" "sink_ctx cs' = sink_ctx cs"
    "devices_mask cs' = devices_mask cs" "effect_state cs' = effect_state cs"
    "effect_next cs' = effect_next cs" "pending cs' = pending cs"
    "length (probe_reply cs') = length (probe_reply cs) \<Longrightarrow> wf_fields cs' = wf_fields cs"
  by (subst assms [unfolded probe_only_def], simp add: pending_def wf_fields_def)+

lemma seam_vendor_only: "probe_only cs (snd (seam_vendor S req cs))"
  "probe_reply (snd (seam_vendor S req cs)) = probe_reply cs"
  "vendor_owner (snd (seam_vendor S req cs)) = vendor_owner cs"
  "accessory_state (snd (seam_vendor S req cs)) = accessory_state cs"
  "probe_step (snd (seam_vendor S req cs)) = probe_step cs"
  by (simp_all add: seam_vendor_def probe_only_def split: prod.splits)

lemma seam_claim_only: "snd (seam_claim S cs) = cs\<lparr>world := world (snd (seam_claim S cs))\<rparr>"
  by (simp add: seam_claim_def split: prod.splits)

section \<open>The dialogue\<close>

lemma less_5_word: "(k :: u8) < 5 \<longleftrightarrow> k \<in> {0, 1, 2, 3, 4}"
proof -
  have "k < 5 \<longleftrightarrow> uint k < 5" by (simp add: word_less_def)
  moreover have "uint k < 5 \<longleftrightarrow> uint k \<in> {0, 1, 2, 3, 4}" using uint_ge_0 [of k] unfolding insert_iff empty_iff by presburger
  ultimately show ?thesis by (simp add: word_uint_eq_iff)
qed


text \<open>The reading of the two replies, and the transfers that go with it.\<close>

definition reply_identifies :: "u8 list \<Rightarrow> bool" where
  "reply_identifies r \<longleftrightarrow> r ! 0 = 3 \<and> r ! 3 = 5 \<and> r ! 2 = 0"

definition probe_verdict :: "u8 list \<Rightarrow> u8 list \<Rightarrow> u8" where
  "probe_verdict first second =
     (if first ! 0 \<noteq> 3 then 0 else if reply_identifies first then 2
      else if reply_identifies second then 3 else 4)"

definition probe_transfers :: "u8 list \<Rightarrow> u8 list \<Rightarrow> core_vendor_req list" where
  "probe_transfers first second =
     map (\<lambda>(v, i). \<lparr>bmRequestType = 0x40, bRequest = 0x72, wValue = v, wIndex = i, wLength = 0\<rparr>)
       CORE_PROBE_WRITES @
     [\<lparr>bmRequestType = 0xC0, bRequest = 0x21, wValue = 0, wIndex = 0, wLength = 4\<rparr>] @
     (if first ! 0 \<noteq> 3 \<or> reply_identifies first then []
      else [\<lparr>bmRequestType = 0x40, bRequest = 0x74, wValue = 0xC6, wIndex = 0, wLength = 0\<rparr>,
            \<lparr>bmRequestType = 0xC0, bRequest = 0x21, wValue = 0, wIndex = 0, wLength = 4\<rparr>] @
       (if reply_identifies second then []
        else [\<lparr>bmRequestType = 0x40, bRequest = 0x74, wValue = 0xA6, wIndex = 0, wLength = 0\<rparr>]))"

text \<open>The completions of a run of transfers that all succeed, each with its four reply bytes.\<close>

definition probe_play :: "'w seams \<Rightarrow> u64 \<Rightarrow> u8 list list \<Rightarrow> 'w core_state \<Rightarrow> 'w core_state" where
  "probe_play S now rs cs =
     fold (\<lambda>r cs. snd (core_vendor_completed S True (Some r) 4 now cs)) rs cs"

lemma probe_play_simps [simp]:
  "probe_play S now [] cs = cs"
  "probe_play S now (r # rs) cs = probe_play S now rs (snd (core_vendor_completed S True (Some r) 4 now cs))"
  by (simp_all add: probe_play_def)

lemma take_reply_4:
  assumes "length r = 4"
  shows "probe_take_reply (Some r) 4 cs = cs\<lparr>probe_reply := r\<rparr>"
proof -
  have "map (\<lambda>i. if i < 4 then r ! i else 0) [0..<4] = r"
    using assms by (intro nth_equalityI) simp_all
  then show ?thesis by (simp add: probe_take_reply_def)
qed

definition probing :: "u8 \<Rightarrow> 'w core_state \<Rightarrow> bool" where
  "probing k cs \<longleftrightarrow> accessory_state cs = 1 \<and> vendor_owner cs = 1 \<and> probe_step cs = k \<and> vendor cs \<noteq> 0"

lemma idle_completion:
  "vendor_owner cs \<notin> {1, 2} \<Longrightarrow> probe_play S now rs cs = (if rs = [] then cs else cs\<lparr>vendor_owner := 0\<rparr>)"
  by (induction rs arbitrary: cs) (simp_all add: core_vendor_completed_def Let_def)

lemma issue_accepts:
  assumes "\<And>f c req w. call_vendor S f c req w = (True, post req w)"
    and "probe_request (probe_step cs) = Some req" and "vendor cs \<noteq> 0"
  shows "core_probe_issue S cs = (True, cs\<lparr>vendor_owner := 1, world := post req (world cs)\<rparr>)"
  using assms(2,3) by (simp add: core_probe_issue_def seam_vendor_def assms(1) Let_def)

text \<open>One completion of the dialogue: the next request goes out, or the verdict falls.\<close>

lemma play_advances:
  assumes "\<And>f c req w. call_vendor S f c req w = (True, post req w)"
    and "probing k cs" and "length r = 4" and "k < 5 \<or> k = 6"
  shows "probing (k + 1) (snd (core_vendor_completed S True (Some r) 4 now cs))"
    "world (snd (core_vendor_completed S True (Some r) 4 now cs)) =
       post (the (probe_request (k + 1))) (world cs)"
proof -
  have "k \<in> {0, 1, 2, 3, 4, 6}" using assms(4) by (auto simp: less_5_word)
  then obtain req where req: "probe_request (k + 1) = Some req" by (auto simp: probe_request_def)
  have "snd (core_vendor_completed S True (Some r) 4 now cs) =
      snd (core_probe_issue S (cs\<lparr>vendor_owner := 0, probe_reply := r, probe_step := k + 1\<rparr>))"
    using assms \<open>k \<in> _\<close>
    by (auto simp: core_vendor_completed_def core_probe_complete_def probe_advance_def probing_def take_reply_4 Let_def)
  then show "probing (k + 1) (snd (core_vendor_completed S True (Some r) 4 now cs))"
    "world (snd (core_vendor_completed S True (Some r) 4 now cs)) =
       post (the (probe_request (k + 1))) (world cs)"
    using issue_accepts [where S = S and post = post, OF assms(1), of "cs\<lparr>vendor_owner := 0, probe_reply := r, probe_step := k + 1\<rparr>" req]
      req assms(2) by (simp_all add: probing_def)
qed

lemma play_first_read:
  assumes "\<And>f c req w. call_vendor S f c req w = (True, post req w)"
    and "probing 5 cs" and "length r = 4"
  shows "r ! 0 = 3 \<Longrightarrow> \<not> reply_identifies r \<Longrightarrow>
      probing 6 (snd (core_vendor_completed S True (Some r) 4 now cs)) \<and>
      world (snd (core_vendor_completed S True (Some r) 4 now cs)) =
        post (the (probe_request 6)) (world cs)"
    "r ! 0 \<noteq> 3 \<or> reply_identifies r \<Longrightarrow>
      snd (core_vendor_completed S True (Some r) 4 now cs) =
        (if r ! 0 \<noteq> 3 then cs\<lparr>vendor_owner := 0, probe_reply := r, accessory_state := 0, probe_step := 9\<rparr>
         else cs\<lparr>vendor_owner := 0, probe_reply := r, accessory_state := 2, accessory_status := r ! 1,
                 probe_step := 9\<rparr>)"
proof -
  have run: "snd (core_vendor_completed S True (Some r) 4 now cs) =
     (if r ! 0 \<noteq> 3 then cs\<lparr>vendor_owner := 0, probe_reply := r, accessory_state := 0, probe_step := 9\<rparr>
      else if reply_identifies r
      then cs\<lparr>vendor_owner := 0, probe_reply := r, accessory_state := 2, accessory_status := r ! 1, probe_step := 9\<rparr>
      else snd (core_probe_issue S (cs\<lparr>vendor_owner := 0, probe_reply := r, probe_step := 6\<rparr>)))"
    using assms(2,3)
    by (simp add: core_vendor_completed_def core_probe_complete_def probe_advance_def probing_def take_reply_4 Let_def
        core_probe_abandon_def core_probe_identified_def reply_identifies_def)
  obtain req where "probe_request 6 = Some req" by (simp add: probe_request_def)
  then show "r ! 0 = 3 \<Longrightarrow> \<not> reply_identifies r \<Longrightarrow>
      probing 6 (snd (core_vendor_completed S True (Some r) 4 now cs)) \<and>
      world (snd (core_vendor_completed S True (Some r) 4 now cs)) =
        post (the (probe_request 6)) (world cs)"
    using issue_accepts [where S = S and post = post, OF assms(1), of "cs\<lparr>vendor_owner := 0, probe_reply := r, probe_step := 6\<rparr>" req]
      assms(2) unfolding run by (simp add: probing_def)
  show "r ! 0 \<noteq> 3 \<or> reply_identifies r \<Longrightarrow>
      snd (core_vendor_completed S True (Some r) 4 now cs) =
        (if r ! 0 \<noteq> 3 then cs\<lparr>vendor_owner := 0, probe_reply := r, accessory_state := 0, probe_step := 9\<rparr>
         else cs\<lparr>vendor_owner := 0, probe_reply := r, accessory_state := 2, accessory_status := r ! 1,
                 probe_step := 9\<rparr>)"
    unfolding run by auto
qed

lemma play_second_read:
  assumes "\<And>f c req w. call_vendor S f c req w = (True, post req w)"
    and "probing 7 cs" and "length r = 4"
  shows "snd (core_vendor_completed S True (Some r) 4 now cs) =
     (if reply_identifies r
      then cs\<lparr>vendor_owner := 0, probe_reply := r, accessory_state := 3, accessory_status := r ! 1, probe_step := 9\<rparr>
      else cs\<lparr>vendor_owner := 3, probe_reply := r, accessory_state := 4, probe_step := 9,
              world := post (the (probe_request 8)) (world cs)\<rparr>)"
  using assms(2,3)
  by (simp add: core_vendor_completed_def core_probe_complete_def probe_advance_def probing_def take_reply_4 Let_def
      core_probe_identified_def reply_identifies_def seam_vendor_def assms(1) probe_request_def)

lemma list_of_9: "length rs = 9 \<Longrightarrow> \<exists>a b c d e f g h i. rs = [a, b, c, d, e, f, g, h, i]"
  by (auto simp: numeral_eq_Suc length_Suc_conv)

lemma transfers_fold:
  "probe_transfers first second =
     map (\<lambda>k. the (probe_request k))
       ([0, 1, 2, 3, 4, 5] @
        (if first ! 0 \<noteq> 3 \<or> reply_identifies first then []
         else [6, 7] @ (if reply_identifies second then [] else [8])))"
  by (simp add: probe_transfers_def probe_request_def CORE_PROBE_WRITES_def)

lemma play_writes:
  assumes "\<And>f c req w. call_vendor S f c req w = (True, post req w)"
    and start: "probing 0 cs" "world cs = post (the (probe_request 0)) w"
    and l: "length a = 4" "length b = 4" "length c = 4" "length d = 4" "length e = 4"
  shows "probing 5 (probe_play S now [a, b, c, d, e] cs) \<and>
    world (probe_play S now [a, b, c, d, e] cs) =
      fold post (map (\<lambda>k. the (probe_request k)) [0, 1, 2, 3, 4, 5]) w"
proof -
  define next_cs where "next_cs r cs = snd (core_vendor_completed S True (Some r) 4 now cs)"
    for r and cs :: "'a core_state"
  note adv = play_advances [where S = S and post = post, OF assms(1), where now = now, folded next_cs_def]
  let ?w = "\<lambda>ks. fold post (map (\<lambda>k. the (probe_request k)) ks) w"
  let ?s1 = "next_cs a cs"
  have s1: "probing 1 ?s1" "world ?s1 = ?w [0, 1]"
    using adv [OF start(1) l(1)] start(2) by simp_all
  let ?s2 = "next_cs b ?s1"
  have s2: "probing 2 ?s2" "world ?s2 = ?w [0, 1, 2]"
    using adv [OF s1(1) l(2)] s1(2) by simp_all
  let ?s3 = "next_cs c ?s2"
  have s3: "probing 3 ?s3" "world ?s3 = ?w [0, 1, 2, 3]"
    using adv [OF s2(1) l(3)] s2(2) by simp_all
  let ?s4 = "next_cs d ?s3"
  have s4: "probing 4 ?s4" "world ?s4 = ?w [0, 1, 2, 3, 4]"
    using adv [OF s3(1) l(4)] s3(2) by simp_all
  let ?s5 = "next_cs e ?s4"
  have s5: "probing 5 ?s5" "world ?s5 = ?w [0, 1, 2, 3, 4, 5]"
    using adv [OF s4(1) l(5)] s4(2) by simp_all
  show ?thesis using s5 by (simp add: next_cs_def)
qed

text \<open>C25. The whole dialogue of the probe, when every transfer succeeds: it ends within nine
  completions whatever the device answers, with exactly the verdict the two replies deserve, and
  the requests on the wire are the five register writes, the read, and (only if a coherent reply
  named no controller) the reselect, the second read and the final select.\<close>

theorem probe_dialogue:
  assumes "\<And>f c req w. call_vendor S f c req w = (True, post req w)"
    and "\<And>f c w. call_claim S f c w = (True, w)"
    and "vendor cs \<noteq> 0" and "accessory_state cs \<noteq> 1"
    and "length rs = 9" and "\<forall>r\<in>set rs. length r = 4"
  shows "(let cs' = probe_play S now rs (snd (core_probe_start S cs)) in
     accessory_state cs' = probe_verdict (rs ! 5) (rs ! 7) \<and>
     world cs' = fold post (probe_transfers (rs ! 5) (rs ! 7)) (world cs) \<and>
     vendor_owner cs' = 0 \<and> probe_step cs' = 9)"
proof -
  obtain a b c d e f g h i where rs: "rs = [a, b, c, d, e, f, g, h, i]"
    using list_of_9 [OF assms(5)] by blast
  define next_cs where "next_cs r cs = snd (core_vendor_completed S True (Some r) 4 now cs)" for r and cs :: "'a core_state"
  note adv = play_advances [where S = S and post = post, OF assms(1), where now = now, folded next_cs_def]
  note read1 = play_first_read [where S = S and post = post, OF assms(1), where now = now, folded next_cs_def]
  note read2 = play_second_read [where S = S and post = post, OF assms(1), where now = now, folded next_cs_def]
  let ?s0 = "snd (core_probe_start S cs)"
  obtain r0 where "probe_request 0 = Some r0" by (simp add: probe_request_def)
  then have s0: "probing 0 ?s0" "world ?s0 = post (the (probe_request 0)) (world cs)"
    using issue_accepts [where S = S and post = post, OF assms(1), of "cs\<lparr>accessory_state := 1, probe_step := 0\<rparr>" r0] assms(2-4)
    by (simp_all add: core_probe_start_def seam_claim_def probing_def)
  have l: "length a = 4" "length b = 4" "length c = 4" "length d = 4" "length e = 4" "length f = 4"
    "length g = 4" "length h = 4" using assms(6) by (simp_all add: rs)
  let ?w = "\<lambda>ks. fold post (map (\<lambda>k. the (probe_request k)) ks) (world cs)"
  let ?s5 = "probe_play S now [a, b, c, d, e] ?s0"
  have s5: "probing 5 ?s5" "world ?s5 = ?w [0, 1, 2, 3, 4, 5]"
    using play_writes [where S = S and post = post, OF assms(1) s0 l(1-5)] by blast+
  have play: "probe_play S now rs ?s0 = probe_play S now [f, g, h, i] ?s5"
    by (simp add: rs)
  have at: "rs ! 5 = f" "rs ! 7 = h" by (simp_all add: rs)
  show ?thesis
  proof (cases "f ! 0 \<noteq> 3 \<or> reply_identifies f")
    case True
    have "probe_play S now [f, g, h, i] ?s5 = probe_play S now [g, h, i] (next_cs f ?s5)"
      by (simp add: next_cs_def)
    also have "\<dots> = (next_cs f ?s5)\<lparr>vendor_owner := 0\<rparr>"
      using read1(2) [OF s5(1) l(6) True] by (subst idle_completion) auto
    finally have "probe_play S now rs ?s0 = next_cs f ?s5"
      using play read1(2) [OF s5(1) l(6) True] by simp
    then show ?thesis
      using read1(2) [OF s5(1) l(6) True] True s5(2)
      by (auto simp: at transfers_fold probe_verdict_def Let_def)
  next
    case False
    have s6: "probing 6 (next_cs f ?s5)" "world (next_cs f ?s5) = ?w [0, 1, 2, 3, 4, 5, 6]"
      using read1(1) [OF s5(1) l(6)] False s5(2) by auto
    have s7: "probing 7 (next_cs g (next_cs f ?s5))"
      "world (next_cs g (next_cs f ?s5)) = ?w [0, 1, 2, 3, 4, 5, 6, 7]"
      using adv [OF s6(1) l(7)] s6(2) by simp_all
    let ?s7 = "next_cs g (next_cs f ?s5)"
    have "probe_play S now [f, g, h, i] ?s5 = probe_play S now [i] (next_cs h ?s7)"
      by (simp add: next_cs_def)
    also have "\<dots> = (next_cs h ?s7)\<lparr>vendor_owner := 0\<rparr>"
      using read2 [OF s7(1) l(8)] by (subst idle_completion) auto
    finally show ?thesis
      using play read2 [OF s7(1) l(8)] False s7(2)
      by (auto simp: at transfers_fold probe_verdict_def Let_def)
  qed
qed

text \<open>A bus that accepts every transfer and writes it down, and a controller that answers the first
  read.\<close>

definition request_log :: "core_vendor_req list seams" where
  "request_log = \<lparr>call_sink = (\<lambda>_ _ _ _ _ w. w), call_vendor = (\<lambda>_ _ req w. (True, w @ [req])),
     call_claim = (\<lambda>_ _ w. (True, w)), call_vendor_sync = (\<lambda>_ _ _ d _ w. (True, d, w)),
     call_input_hook = (\<lambda>_ _ _ _ cs. cs), call_tick_hook = (\<lambda>_ _ _ cs. cs)\<rparr>"

theorem probe_dialogue_witness:
  "accessory_state (probe_play request_log 0 (replicate 9 [3, 1, 0, 5])
     (snd (core_probe_start request_log ((core_init 1 0 (core_zeroed []))\<lparr>vendor := 5\<rparr>)))) = 2"
  using probe_dialogue [of request_log "\<lambda>req w. w @ [req]"
      "(core_init 1 0 (core_zeroed []))\<lparr>vendor := 5\<rparr>" "replicate 9 [3, 1, 0, 5]" 0]
  by (simp add: request_log_def core_init_def core_zeroed_def probe_verdict_def reply_identifies_def Let_def)

section \<open>The completion is never lost\<close>

text \<open>The state a completion is delivered in: the transport has kept the slot claimed for the
  chain, and the owner recorded is still the one that issued the transfer.\<close>

definition completing :: "('w \<Rightarrow> slot_state) \<Rightarrow> 'w core_state \<Rightarrow> bool" where
  "completing slot cs \<longleftrightarrow> vendor cs \<noteq> 0 \<and> vendor_claim cs \<noteq> 0 \<and> chain_wf cs \<and>
     slot (world cs) = Slot_claimed \<and>
     (accessory_state cs = 1 \<longrightarrow> vendor_owner cs = 1 \<and> probe_step cs \<le> 7)"

definition kept :: "('w \<Rightarrow> slot_state) \<Rightarrow> 'w core_state \<Rightarrow> bool" where
  "kept slot cs \<longleftrightarrow> owner_inv slot cs \<and> chain_wf cs \<and> (accessory_state cs = 1 \<longrightarrow> probe_step cs \<le> 7)"

lemma keptI:
  "owner_inv slot cs \<Longrightarrow> chain_wf cs \<Longrightarrow> (accessory_state cs = 1 \<Longrightarrow> probe_step cs \<le> 7) \<Longrightarrow>
     kept slot cs"
  by (simp add: kept_def)

lemma keptD: "kept slot cs \<Longrightarrow> owner_inv slot cs" "kept slot cs \<Longrightarrow> chain_wf cs"
  "kept slot cs \<Longrightarrow> accessory_state cs = 1 \<Longrightarrow> probe_step cs \<le> 7"
  by (simp_all add: kept_def)

lemma probe_only_wf:
  "probe_only cs cs' \<Longrightarrow> length (probe_reply cs') = length (probe_reply cs) \<Longrightarrow> chain_wf cs \<Longrightarrow> chain_wf cs'"
  using chain_wf_cong [of cs' cs] probe_only_frame(4,11) [of cs cs'] by (auto simp: chain_wf_def)

lemma le_7_word: "(k :: u8) \<le> 7 \<longleftrightarrow> k \<in> {0, 1, 2, 3, 4, 5, 6, 7}"
proof -
  have "k \<le> 7 \<longleftrightarrow> uint k \<le> 7" by (simp add: word_le_def)
  moreover have "uint k \<le> 7 \<longleftrightarrow> uint k \<in> {0, 1, 2, 3, 4, 5, 6, 7}"
    using uint_ge_0 [of k] unfolding insert_iff empty_iff by presburger
  ultimately show ?thesis by (simp add: word_uint_eq_iff)
qed

lemma early_request:
  assumes "step \<le> 7" obtains req where "probe_request step = Some req"
  using assms by (auto simp: le_7_word probe_request_def)

lemma take_reply_only:
  "probe_only cs (probe_take_reply reply len cs)"
  "length (probe_reply cs) = 4 \<Longrightarrow> length (probe_reply (probe_take_reply reply len cs)) = 4"
  "world (probe_take_reply reply len cs) = world cs" "vendor (probe_take_reply reply len cs) = vendor cs"
  "vendor_claim (probe_take_reply reply len cs) = vendor_claim cs"
  "vendor_owner (probe_take_reply reply len cs) = vendor_owner cs"
  by (simp_all add: probe_take_reply_def probe_only_def split: option.split)

lemma chain_wf_reply: "chain_wf cs \<Longrightarrow> length (probe_reply cs) = 4"
  by (auto simp: chain_wf_def core_wf_def arrays_wf_def)

context vendor_transport
begin

lemma seam_vendor_ok:
  assumes "seam_vendor S req cs = (ok, c)" and "slot (world cs) = Slot_claimed"
  shows "slot (world c) = (if ok then Slot_in_flight else Slot_free)"
  using assms send_law by (auto simp: seam_vendor_def split: prod.splits)

lemma seam_claim_ok:
  assumes "seam_claim S cs = (ok, c)" and "vendor_claim cs \<noteq> 0"
  shows "ok = (slot (world cs) = Slot_free)"
    "slot (world c) = (if slot (world cs) = Slot_free then Slot_claimed else slot (world cs))"
  using assms claim_law by (auto simp: seam_claim_def split: prod.splits)

lemma probe_issue_kept:
  assumes "chain_wf cs" and "vendor cs \<noteq> 0" and "vendor_claim cs \<noteq> 0"
    and "slot (world cs) = Slot_claimed" and "probe_step cs \<le> 7"
  shows "kept slot (snd (core_probe_issue S cs))"
    "probe_only cs (snd (core_probe_issue S cs))"
proof -
  obtain req where req: "probe_request (probe_step cs) = Some req" using assms(5) by (rule early_request)
  obtain ok c where run: "seam_vendor S req (cs\<lparr>vendor_owner := 1\<rparr>) = (ok, c)" by fastforce
  have c: "c = cs\<lparr>vendor_owner := 1, world := world c\<rparr>"
    using run by (auto simp: seam_vendor_def split: prod.splits)
  have slot: "slot (world c) = (if ok then Slot_in_flight else Slot_free)"
    using seam_vendor_ok [OF run] assms(4) by simp
  have out: "snd (core_probe_issue S cs) = (if ok then c else core_probe_abandon (c\<lparr>vendor_owner := 0\<rparr>))"
    using run assms(2) req by (auto simp: core_probe_issue_def Let_def)
  show only: "probe_only cs (snd (core_probe_issue S cs))"
    unfolding out by (subst (1 2) c) (simp add: probe_only_def core_probe_abandon_def)
  have "length (probe_reply (snd (core_probe_issue S cs))) = length (probe_reply cs)"
    unfolding out by (subst (1 2) c) (simp add: core_probe_abandon_def)
  then have "chain_wf (snd (core_probe_issue S cs))" by (rule probe_only_wf [OF only _ assms(1)])
  moreover have "owner_inv slot (snd (core_probe_issue S cs))"
    using probe_only_frame(1,3) [OF only] slot assms(2,3) c unfolding out
    by (cases ok) (auto simp: owner_inv_def core_probe_abandon_def dest: arg_cong [where f = vendor_owner])
  moreover have "probe_step (snd (core_probe_issue S cs)) \<le> 7"
    if "accessory_state (snd (core_probe_issue S cs)) = 1"
    using that assms(5) c unfolding out
    by (cases ok) (auto simp: core_probe_abandon_def dest: arg_cong [where f = probe_step])
  ultimately show "kept slot (snd (core_probe_issue S cs))" by (intro keptI)
qed

lemma probe_start_kept:
  assumes "kept slot cs"
  shows "kept slot (snd (core_probe_start S cs))" "probe_only cs (snd (core_probe_start S cs))"
proof -
  obtain ok c where run: "seam_claim S cs = (ok, c)" by fastforce
  obtain w where c: "c = cs\<lparr>world := w\<rparr>" using seam_claim_only [of S cs] run by auto
  have own: "owner_inv slot cs" "chain_wf cs" "accessory_state cs = 1 \<Longrightarrow> probe_step cs \<le> 7"
    using assms keptD by blast+
  have nz: "vendor cs \<noteq> 0" "vendor_claim cs \<noteq> 0" using own by (simp_all add: owner_inv_def)
  note cl = seam_claim_ok [OF run nz(2)]
  have only: "probe_only cs c" by (simp add: c probe_only_def)
  have wf: "chain_wf c" by (rule probe_only_wf [OF only _ own(2)]) (simp add: c)
  have refused: "kept slot c" if "\<not> ok" using cl that own wf by (auto simp: kept_def owner_inv_def c)
  let ?d = "c\<lparr>accessory_state := 1, probe_step := 0\<rparr>"
  have d: "probe_only c ?d" by (simp add: probe_only_def)
  have "chain_wf ?d" by (rule probe_only_wf [OF d _ wf]) simp
  then have "kept slot (snd (core_probe_issue S ?d))" "probe_only ?d (snd (core_probe_issue S ?d))" if ok
    using probe_issue_kept [of ?d] cl that nz by (simp_all add: c)
  note go = this
  show "kept slot (snd (core_probe_start S cs))" "probe_only cs (snd (core_probe_start S cs))"
    using go refused assms probe_only_trans [OF only probe_only_trans [OF d]] only run nz
    by (auto simp: core_probe_start_def)
qed

lemma controller_reset_kept:
  assumes "kept slot cs"
  shows "kept slot (snd (core_controller_reset S cs))" "probe_only cs (snd (core_controller_reset S cs))"
proof -
  obtain ok c where run: "seam_claim S cs = (ok, c)" by fastforce
  obtain w where c: "c = cs\<lparr>world := w\<rparr>" using seam_claim_only [of S cs] run by auto
  have own: "owner_inv slot cs" "chain_wf cs" "accessory_state cs = 1 \<Longrightarrow> probe_step cs \<le> 7"
    using assms keptD by blast+
  have nz: "vendor cs \<noteq> 0" "vendor_claim cs \<noteq> 0" using own by (simp_all add: owner_inv_def)
  note cl = seam_claim_ok [OF run nz(2)]
  let ?req = "\<lparr>bmRequestType = 0x40, bRequest = 0x72, wValue = 0x0F20, wIndex = 0, wLength = 0\<rparr>"
  obtain v where d: "snd (seam_vendor S ?req (c\<lparr>vendor_owner := 3\<rparr>)) = c\<lparr>vendor_owner := 3, world := v\<rparr>"
    by (cases "call_vendor S (vendor c) (vendor_ctx c) ?req (world c)") (simp add: seam_vendor_def)
  let ?e = "snd (core_controller_reset S cs)"
  have e: "?e = (if ok then cs\<lparr>vendor_owner := 3, world := v\<rparr> else cs\<lparr>world := w\<rparr>)"
    using run nz d by (simp add: core_controller_reset_def c)
  show only: "probe_only cs ?e" unfolding e by (simp add: probe_only_def)
  have "chain_wf ?e" by (rule probe_only_wf [OF only _ own(2)]) (simp add: e)
  moreover have "owner_inv slot ?e" using own cl unfolding e by (auto simp: owner_inv_def c)
  moreover have "accessory_state ?e = 1 \<Longrightarrow> probe_step ?e \<le> 7"
    using own(3) unfolding e by (auto split: if_splits)
  ultimately show "kept slot ?e" by (intro keptI)
qed

lemma probe_verdict_kept:
  assumes "chain_wf cs" and "vendor cs \<noteq> 0" and "vendor_claim cs \<noteq> 0"
    and "probe_only cs c" and "length (probe_reply c) = length (probe_reply cs)"
    and "accessory_state c \<noteq> 1" and "vendor_owner c = 0 \<or> vendor_owner c = 3"
  shows "kept slot c"
  using probe_only_wf [OF assms(4,5,1)] probe_only_frame(1,3) [OF assms(4)] assms(2,3,6,7)
  by (auto simp: kept_def owner_inv_def)

lemma probe_step_kept:
  assumes "chain_wf cs" and "vendor cs \<noteq> 0" and "vendor_claim cs \<noteq> 0"
    and "slot (world cs) = Slot_claimed" and "k \<le> 7"
  shows "kept slot (snd (core_probe_issue S (cs\<lparr>probe_step := k\<rparr>)))"
proof -
  have "chain_wf (cs\<lparr>probe_step := k\<rparr>)"
    by (rule probe_only_wf [of cs]) (use assms(1) in \<open>simp_all add: probe_only_def\<close>)
  then show ?thesis using probe_issue_kept(1) [of "cs\<lparr>probe_step := k\<rparr>"] assms(2-5) by simp
qed

text \<open>The probe's completion: whatever arrives, the record is one the probe can go on from.\<close>

lemma probe_complete_kept:
  assumes "chain_wf cs" and "vendor cs \<noteq> 0" and "vendor_claim cs \<noteq> 0"
    and "slot (world cs) = Slot_claimed" and "vendor_owner cs = 0"
    and "accessory_state cs = 1 \<Longrightarrow> probe_step cs \<le> 7"
  shows "kept slot (core_probe_complete S ok reply len cs)"
proof (cases "accessory_state cs = 1 \<and> ok")
  case False
  then show ?thesis
    using assms probe_only_wf [of cs "core_probe_abandon cs"]
    by (auto simp: core_probe_complete_def kept_def owner_inv_def probe_only_def core_probe_abandon_def)
next
  case True
  let ?t = "probe_take_reply reply len cs"
  note t = take_reply_only [where reply = reply and len = len and cs = cs]
  have wf: "chain_wf ?t" by (rule probe_only_wf [OF t(1) _ assms(1)]) (simp add: t(2) chain_wf_reply assms(1))
  have step: "kept slot (snd (core_probe_issue S (?t\<lparr>probe_step := k\<rparr>)))" if "k \<le> 7" for k
    using probe_step_kept [OF wf _ _ _ that] assms t by simp
  have over: "kept slot (?t\<lparr>accessory_state := a, accessory_status := st, probe_step := 9\<rparr>)"
    "kept slot (core_probe_abandon ?t)" "kept slot (?t\<lparr>accessory_state := a,
       vendor_owner := 3, world := w, probe_step := 9\<rparr>)"
    if "a \<noteq> 1" for a st w
    using that assms t wf by (intro probe_verdict_kept [OF wf]; simp add: probe_only_def core_probe_abandon_def)+
  have k: "probe_step ?t = probe_step cs" by (simp add: probe_take_reply_def split: option.split)
  let ?sel = "\<lparr>bmRequestType = 0x40, bRequest = 0x74, wValue = 0x00A6, wIndex = 0, wLength = 0\<rparr>"
  obtain w where last: "snd (seam_vendor S ?sel (?t\<lparr>accessory_state := 4, probe_step := 8, vendor_owner := 3\<rparr>)) =
      ?t\<lparr>accessory_state := 4, probe_step := 8, vendor_owner := 3, world := w\<rparr>"
    by (cases "call_vendor S (vendor ?t) (vendor_ctx ?t) ?sel (world ?t)") (simp add: seam_vendor_def)
  have final: "kept slot ((?t\<lparr>accessory_state := 4, probe_step := 8, vendor_owner := 3, world := w\<rparr>)
      \<lparr>probe_step := 9\<rparr>)"
    using over(3) [of 4 w] by simp
  have "probe_step cs \<in> {0, 1, 2, 3, 4, 5, 6, 7}" using assms(6) True by (simp add: le_7_word)
  then show ?thesis
    using True step [of 1] step [of 2] step [of 3] step [of 4] step [of 5] step [of 6] step [of 7]
      over(1) [of 2] over(1) [of 3] over(2) [of 0] final last assms(2) t(4) k
    unfolding core_probe_complete_def probe_advance_def Let_def by (elim insertE emptyE) simp_all
qed

text \<open>A completion delivered while the slot is held for it keeps the record good, failed or not.\<close>

lemma completed_kept:
  assumes "completing slot cs" and "core_vendor_completed S ok reply len now cs = (taken, c)"
  shows "kept slot c"
proof -
  let ?c = "cs\<lparr>vendor_owner := 0\<rparr>"
  have wf: "chain_wf ?c"
    by (rule probe_only_wf [of cs]) (use assms(1) in \<open>simp_all add: completing_def probe_only_def\<close>)
  have facts: "vendor ?c \<noteq> 0" "vendor_claim ?c \<noteq> 0" "slot (world ?c) = Slot_claimed" "vendor_owner ?c = 0"
    "accessory_state ?c = 1 \<Longrightarrow> probe_step ?c \<le> 7"
    using assms(1) by (simp_all add: completing_def)
  have quiet: "kept slot ?c" "owner_inv slot ?c" if "accessory_state cs \<noteq> 1"
    using facts wf that by (simp_all add: kept_def owner_inv_def)
  have "kept slot (snd (core_effect_complete S now ?c))" if "accessory_state cs \<noteq> 1"
    using complete_sends_ok [OF quiet(2) wf, OF that, of now] that
    by (auto simp: sends_ok_def kept_def chain_only_frame split: prod.splits)
  then show ?thesis
    using assms quiet probe_complete_kept [OF wf facts]
    by (auto simp: core_vendor_completed_def Let_def completing_def split: if_splits)
qed

end

end
