(* ===== verification/Core_Frames.thy ===== *)
theory Core_Frames
  imports Accessory
begin

text \<open>
  Frames that hold whatever the seams do: the effect chain writes only the fields of \<open>chain_only\<close>,
  the probe and the controller reset only those of \<open>probe_only\<close>. The packet path and the vendor slot
  rest on them.
\<close>

section \<open>Relations a chain respects\<close>

text \<open>What one operation of the effect engine may do to the state, as a relation: it is transitive,
  holds of a step that writes only the engine's own fields, of a transfer issued and of a claim. Then
  every operation of the chain respects it. The frame \<open>chain_only\<close> is one such relation; the lock
  balance and the owner of \<open>Vendor_Slot\<close> are others.\<close>

lemma chain_only_touch:
  assumes "chain_only a b"
  shows "chain_only a (b\<lparr>effect_state := es\<rparr>)" "chain_only a (b\<lparr>next_tick := nt\<rparr>)"
    "chain_only a (b\<lparr>keepalive_time := kt\<rparr>)" "chain_only a (b\<lparr>effect_next := en\<rparr>)"
    "chain_only a (b\<lparr>claim_idle_command := ci\<rparr>)" "chain_only a (b\<lparr>claim_effect_tick := ct\<rparr>)"
    "chain_only a (b\<lparr>claim_pak_insert := pi\<rparr>)" "chain_only a (b\<lparr>claim_pak_remove := pr\<rparr>)"
    "chain_only a (b\<lparr>vendor_owner := vo\<rparr>)" "chain_only a (b\<lparr>world := w\<rparr>)"
  by (rule chain_only_trans [OF assms], rule chain_onlyI [of b b], simp_all)+

locale chain_relation =
  fixes S :: "'w seams" and R :: "'w core_state \<Rightarrow> 'w core_state \<Rightarrow> bool"
  assumes R_trans: "R a b \<Longrightarrow> R b c \<Longrightarrow> R a c"
    and R_quiet: "chain_only a b \<Longrightarrow> vendor_owner b = vendor_owner a \<Longrightarrow> world b = world a \<Longrightarrow> R a b"
    and R_issue: "R a (snd (core_effect_issue S rq v i nx a))"
    and R_claim: "call_claim S f x (world a) = (ok, w) \<Longrightarrow> R a (a\<lparr>world := w\<rparr>)"
begin

lemma R_refl: "R a a" by (rule R_quiet) simp_all

lemma R_touch:
  assumes "R a b"
  shows "R a (b\<lparr>effect_state := es\<rparr>)" "R a (b\<lparr>next_tick := nt\<rparr>)"
    "R a (b\<lparr>keepalive_time := kt\<rparr>)" "R a (b\<lparr>effect_next := en\<rparr>)"
    "R a (b\<lparr>claim_idle_command := ci\<rparr>)" "R a (b\<lparr>claim_effect_tick := ct\<rparr>)"
    "R a (b\<lparr>claim_pak_insert := pi\<rparr>)" "R a (b\<lparr>claim_pak_remove := pr\<rparr>)"
  by (rule R_trans [OF assms], rule R_quiet, simp_all add: chain_only_touch)+

lemma R_engine: "R a b \<Longrightarrow> engine_only b c \<Longrightarrow> R a c"
  by (erule R_trans, rule R_quiet) (simp_all add: engine_chain engine_only_frame)

lemma R_evaluate: "R a b \<Longrightarrow> R a (snd (snd (core_effect_evaluate la t p b)))"
  by (rule R_engine [OF _ evaluate_engine])

lemma issue: "R a b \<Longrightarrow> R a (snd (core_effect_issue S rq v i nx b))"
  by (rule R_trans [OF _ R_issue])

lemma bitmap: "R a b \<Longrightarrow> R a (snd (core_effect_send_bitmap S rq p nx b))"
  by (simp add: core_effect_send_bitmap_def issue Let_def)

lemma chain:
  "T = S \<Longrightarrow> R cs (snd (core_effect_keepalive T now cs))"
  "T = S \<Longrightarrow> R cs (snd (core_effect_send_periodic T now cs))"
  "T = S \<Longrightarrow> R cs (snd (core_effect_tick T now cs))"
proof (induction T now cs and T now cs and T now cs
    rule: core_effect_keepalive_core_effect_send_periodic_core_effect_tick.induct)
  case (1 T now cs)
  then show ?case
    using issue [OF R_touch(3) [OF R_refl [of cs], where kt = now]]
    by (simp add: core_effect_keepalive.simps [of S])
next
  case (2 T now cs)
  obtain r p c where ev: "core_effect_evaluate False (next_tick cs) stack_payload (cs\<lparr>effect_state := 2\<rparr>) = (r, p, c)"
    by (metis prod_cases3)
  have "R cs c"
    using R_evaluate [OF R_touch(1) [OF R_refl [of cs], where es = 2], where la = False
        and t = "next_tick cs" and p = stack_payload] ev by simp
  then have "R cs (c\<lparr>next_tick := n\<rparr>)" for n by (rule R_touch(2))
  then have "R cs (snd (core_effect_send_bitmap S rq q nx (c\<lparr>next_tick := n\<rparr>)))" for rq q nx n
    by (rule bitmap)
  then show ?case using 2 ev by (simp add: core_effect_send_periodic.simps [of S])
next
  case (3 T now cs)
  obtain r p c where ev: "core_effect_evaluate True (tick_of now) stack_payload (cs\<lparr>claim_effect_tick := False\<rparr>) = (r, p, c)"
    by (metis prod_cases3)
  have c: "R cs c"
    using R_evaluate [OF R_touch(6) [OF R_refl [of cs], where ct = False], where la = True
        and t = "tick_of now" and p = stack_payload] ev by simp
  have "R cs (c\<lparr>next_tick := n, effect_state := 1, claim_pak_insert := False, claim_pak_remove := False\<rparr>)" for n
    by (intro R_touch c)
  then have "R cs (snd (core_effect_send_bitmap S rq q nx
      (c\<lparr>next_tick := n, effect_state := 1, claim_pak_insert := False, claim_pak_remove := False\<rparr>)))" for rq q nx n
    by (rule bitmap)
  moreover have "R cs (snd (core_effect_keepalive S now c))" if "r \<noteq> 0" "effect_state c = 1"
    using R_trans [OF c] 3 ev [symmetric] that by simp
  ultimately show ?case using c ev 3(2) by (simp add: core_effect_tick.simps [of S])
qed

lemma tick: "R a b \<Longrightarrow> R a (snd (core_effect_tick S now b))"
  by (rule R_trans [OF _ chain(3) [OF refl]])

lemma update: "R a b \<Longrightarrow> R a (snd (core_effect_send_update S sub b))"
proof -
  assume a: "R a b"
  obtain r p c where ev: "core_effect_evaluate False (next_tick b) stack_payload b = (r, p, c)"
    by (metis prod_cases3)
  have "R a c" using R_evaluate [OF a, of False "next_tick b" stack_payload] ev by simp
  then have n: "R a (c\<lparr>next_tick := n\<rparr>)" for n by (rule R_touch(2))
  have "R a (core_effect_ring_reset (c\<lparr>next_tick := n\<rparr>))" for n
    by (rule R_engine [OF n [of n]]) (simp add: core_effect_ring_reset_def)
  with n show ?thesis
    using ev by (simp add: core_effect_send_update_def Let_def issue bitmap)
qed

lemma claim:
  "(\<And>b. R cs b \<Longrightarrow> R cs (f b)) \<Longrightarrow> R cs (snd (core_effect_claim S f cs))"
  using R_claim [of "vendor_claim cs" "vendor_ctx cs" cs]
  by (auto simp: core_effect_claim_def Let_def R_refl split: prod.split)

lemma work:
  "R cs (snd (core_effect_send_idle S cs))" "R cs (snd (core_effect_on_pak_insert S cs))"
  "R cs (snd (core_effect_on_pak_remove S cs))"
  by (simp_all add: core_effect_send_idle_def core_effect_on_pak_insert_def core_effect_on_pak_remove_def
      issue update R_touch R_refl)

lemma deferred: "R cs (snd (deferred_loop n S now cs))"
proof (induction n arbitrary: cs)
  case (Suc n)
  have "R cs (snd (case r of (sent, c) \<Rightarrow> if sent then (True, c) else deferred_loop n S now c))"
    if "R cs (snd r)" for r
    using that R_trans [OF _ Suc.IH] by (cases r) simp
  then show ?case using work [of cs] tick [OF R_refl [of cs], of now] by (simp add: Let_def R_refl)
qed (simp add: R_refl)

lemma run: "R cs (snd (core_effect_run S now cs))"
proof -
  obtain ok c where cl: "core_effect_claim S (claim_effect_tick_update (\<lambda>_. True)) cs = (ok, c)" by fastforce
  have "R cs (snd (core_effect_claim S (claim_effect_tick_update (\<lambda>_. True)) cs))"
    by (rule claim) (erule R_touch)
  then have c: "R cs c" using cl by simp
  obtain t d where tk: "core_effect_tick S now c = (t, d)" by fastforce
  have d: "R cs d" using tick [OF c, of now] tk by simp
  then show ?thesis
    using c R_trans [OF d deferred]
    by (simp add: core_effect_run_def core_effect_run_deferred_def cl tk)
qed

lemma kick: "R cs (snd (core_effect_kick S now cs))"
  unfolding core_effect_kick_def
  by (rule R_trans [OF R_engine [OF R_refl] run]) (rule engine_onlyI, simp)

lemma pak_change: "R cs (core_effect_on_pak_change S present cs)"
proof -
  obtain ok1 c1 where ins: "core_effect_claim S (claim_pak_insert_update (\<lambda>_. True)) cs = (ok1, c1)"
    by fastforce
  obtain ok2 c2 where rem: "core_effect_claim S (claim_pak_remove_update (\<lambda>_. True)) cs = (ok2, c2)"
    by fastforce
  have "R cs (snd (core_effect_claim S (claim_pak_insert_update (\<lambda>_. True)) cs))"
    "R cs (snd (core_effect_claim S (claim_pak_remove_update (\<lambda>_. True)) cs))"
    by (rule claim, erule R_touch)+
  then have "R cs c1" "R cs c2" using ins rem by simp_all
  then have "R cs (snd (core_effect_on_pak_insert S c1))"
    "R cs (snd (core_effect_on_pak_remove S c2))" "R cs c1" "R cs c2"
    using R_trans [OF _ work(2)] R_trans [OF _ work(3)] by blast+
  then show ?thesis by (simp add: core_effect_on_pak_change_def ins rem)
qed

lemma complete: "R cs (snd (core_effect_complete S now cs))"
proof -
  have "R cs (snd (core_effect_keepalive S now (cs\<lparr>effect_next := 0\<rparr>)))"
    "R cs (snd (core_effect_send_periodic S now (cs\<lparr>effect_next := 0\<rparr>)))"
    by (rule R_trans [OF R_touch(4) [OF R_refl] chain(1) [OF refl]],
        rule R_trans [OF R_touch(4) [OF R_refl] chain(2) [OF refl]])
  then show ?thesis
    by (auto simp: core_effect_complete_def core_effect_update_complete_def Let_def R_touch R_refl)
qed

end

text \<open>The chain touches only its own fields, whatever the transport does.\<close>

interpretation chain_frame: chain_relation S chain_only for S
proof
  show "chain_only a b \<Longrightarrow> chain_only b c \<Longrightarrow> chain_only a c" for a b c :: "'a core_state"
    by (rule chain_only_trans)
  show "chain_only a (snd (core_effect_issue S rq v i nx a))" for a :: "'a core_state" and rq v i nx
    by (auto simp: core_effect_issue_def Let_def chain_only_touch split: prod.split)
qed (simp_all add: chain_only_touch)

section \<open>What the probe leaves alone\<close>

lemma probe_only_touch:
  assumes "probe_only a b"
  shows "probe_only a (b\<lparr>accessory_state := x\<rparr>)" "probe_only a (b\<lparr>accessory_status := x\<rparr>)"
    "probe_only a (b\<lparr>probe_step := x\<rparr>)" "probe_only a (b\<lparr>probe_reply := r\<rparr>)"
    "probe_only a (b\<lparr>vendor_owner := x\<rparr>)" "probe_only a (b\<lparr>world := w\<rparr>)"
  by (rule probe_only_trans [OF assms], simp add: probe_only_def)+

lemma seams_only:
  assumes "probe_only a b"
  shows "probe_only a (snd (seam_vendor S req b))" "probe_only a (snd (seam_claim S b))"
proof -
  show "probe_only a (snd (seam_vendor S req b))"
    by (rule probe_only_trans [OF assms seam_vendor_only(1)])
  have "probe_only b (snd (seam_claim S b))" by (subst seam_claim_only) (simp add: probe_only_def)
  then show "probe_only a (snd (seam_claim S b))" by (rule probe_only_trans [OF assms])
qed

lemma probe_issue_only:
  assumes "probe_only a b"
  shows "probe_only a (snd (core_probe_issue S b))"
proof (cases "probe_request (probe_step b)")
  case (Some req)
  obtain ok c where send: "(if vendor (b\<lparr>vendor_owner := 1\<rparr>) = 0 then (False, b\<lparr>vendor_owner := 1\<rparr>)
      else seam_vendor S req (b\<lparr>vendor_owner := 1\<rparr>)) = (ok, c)" by fastforce
  have "probe_only a (b\<lparr>vendor_owner := 1\<rparr>)" by (rule probe_only_touch [OF assms])
  then have c: "probe_only a c" using send seams_only(1) by (metis snd_conv)
  then have "probe_only a (core_probe_abandon (c\<lparr>vendor_owner := 0\<rparr>))"
    unfolding core_probe_abandon_def by (intro probe_only_touch)
  with c show ?thesis using Some send by (simp add: core_probe_issue_def)
qed (simp add: core_probe_issue_def assms)

lemma start_only: "probe_only cs (snd (core_probe_start S cs))"
proof -
  obtain ok c where claim: "seam_claim S cs = (ok, c)" by fastforce
  have c: "probe_only cs c" using seams_only(2) [OF probe_only_refl [of cs], of S] claim by simp
  have "probe_only cs (snd (core_probe_issue S (c\<lparr>accessory_state := 1, probe_step := 0\<rparr>)))"
    by (intro probe_issue_only probe_only_touch c)
  with c show ?thesis by (simp add: core_probe_start_def claim)
qed

lemma reset_only: "probe_only cs (snd (core_controller_reset S cs))"
proof -
  obtain ok c where claim: "seam_claim S cs = (ok, c)" by fastforce
  have c: "probe_only cs c" using seams_only(2) [OF probe_only_refl [of cs], of S] claim by simp
  have "probe_only cs (snd (seam_vendor S req (c\<lparr>vendor_owner := 3\<rparr>)))" for req
    by (intro seams_only probe_only_touch c)
  with c show ?thesis by (simp add: core_controller_reset_def claim)
qed

lemma probe_advance_only:
  assumes "probe_only a b"
  shows "probe_only a (probe_advance S b)"
proof -
  have issue: "probe_only a (snd (core_probe_issue S (b\<lparr>probe_step := k\<rparr>)))" for k
    by (intro probe_issue_only probe_only_touch assms)
  have sel: "probe_only a ((snd (seam_vendor S req (b\<lparr>accessory_state := 4, probe_step := 8, vendor_owner := 3\<rparr>)))
      \<lparr>probe_step := 9\<rparr>)" for req
    by (intro probe_only_touch seams_only assms)
  have quiet: "probe_only a (b\<lparr>accessory_state := x, accessory_status := y, probe_step := 9\<rparr>)"
    "probe_only a (b\<lparr>accessory_state := x, probe_step := 9\<rparr>)" "probe_only a (b\<lparr>probe_step := 9\<rparr>)"
    "probe_only a (core_probe_abandon b)" for x y
    unfolding core_probe_abandon_def by (intro probe_only_touch assms)+
  show ?thesis
    unfolding probe_advance_def Let_def using issue sel quiet by simp
qed

lemma probe_complete_only: "probe_only cs (core_probe_complete S ok reply len cs)"
  using probe_advance_only [OF take_reply_only(1)] probe_only_touch [OF probe_only_touch(1) [OF probe_only_refl]]
  by (auto simp: core_probe_complete_def core_probe_abandon_def)

lemma probe_only_more:
  assumes "probe_only cs cs'"
  shows "stick_x cs' = stick_x cs" "stick_y cs' = stick_y cs" "buttons cs' = buttons cs"
    "reports_emitted cs' = reports_emitted cs" "raw cs' = raw cs" "input_hook cs' = input_hook cs"
    "tick_hook cs' = tick_hook cs" "now_100ns cs' = now_100ns cs"
  by (subst assms [unfolded probe_only_def], simp)+

section \<open>Relations on the world\<close>

text \<open>A relation between what is outside the core before and after, which every call of the transport
  respects: then the chain, the probe and the routing of a completion respect it.\<close>

locale world_relation =
  fixes S :: "'w seams" and Q :: "'w \<Rightarrow> 'w \<Rightarrow> bool"
  assumes Q_refl: "Q w w" and Q_trans: "Q u v \<Longrightarrow> Q v w \<Longrightarrow> Q u w"
    and Q_claim: "call_claim S f x u = (ok, v) \<Longrightarrow> Q u v"
    and Q_vendor: "call_vendor S f x req u = (ok, v) \<Longrightarrow> Q u v"

sublocale world_relation \<subseteq> lifted: chain_relation S "\<lambda>a b. Q (world a) (world b)"
proof
  show "Q (world a) (world c)" if "Q (world a) (world b)" "Q (world b) (world c)" for a b c :: "'w core_state"
    using Q_trans that .
  show "Q (world a) (world (snd (core_effect_issue S rq v i nx a)))" for a rq v i nx
    using Q_vendor Q_refl by (auto simp: core_effect_issue_def Let_def split: prod.split)
qed (auto intro: Q_refl Q_claim)

context world_relation
begin

lemma Q_calls:
  assumes "Q u (world b)"
  shows "Q u (world (snd (seam_vendor S req b)))" "Q u (world (snd (seam_claim S b)))"
proof -
  have "Q (world b) (world (snd (seam_vendor S req b)))" "Q (world b) (world (snd (seam_claim S b)))"
    using Q_vendor Q_claim Q_refl by (auto simp: seam_vendor_def seam_claim_def split: prod.split)
  then show "Q u (world (snd (seam_vendor S req b)))" "Q u (world (snd (seam_claim S b)))"
    using Q_trans [OF assms] by blast+
qed

lemma Q_probe_issue:
  assumes "Q u (world b)" shows "Q u (world (snd (core_probe_issue S b)))"
proof (cases "probe_request (probe_step b)")
  case (Some req)
  obtain ok c where send: "(if vendor (b\<lparr>vendor_owner := 1\<rparr>) = 0 then (False, b\<lparr>vendor_owner := 1\<rparr>)
      else seam_vendor S req (b\<lparr>vendor_owner := 1\<rparr>)) = (ok, c)" by fastforce
  have "Q u (world (b\<lparr>vendor_owner := 1\<rparr>))" using assms by simp
  then have "Q u (world c)" using send Q_calls(1) by (metis snd_conv)
  then show ?thesis using Some send by (simp add: core_probe_issue_def core_probe_abandon_def)
qed (simp add: core_probe_issue_def assms)

lemma Q_probe_start: "Q (world cs) (world (snd (core_probe_start S cs)))"
proof -
  obtain ok c where claim: "seam_claim S cs = (ok, c)" by fastforce
  have c: "Q (world cs) (world c)" using Q_calls(2) [OF Q_refl, of cs] claim by simp
  have "Q (world cs) (world (snd (core_probe_issue S (c\<lparr>accessory_state := 1, probe_step := 0\<rparr>))))"
    by (rule Q_probe_issue) (simp add: c)
  with c show ?thesis by (simp add: core_probe_start_def claim Q_refl)
qed

lemma Q_reset: "Q (world cs) (world (snd (core_controller_reset S cs)))"
proof -
  obtain ok c where claim: "seam_claim S cs = (ok, c)" by fastforce
  have c: "Q (world cs) (world c)" using Q_calls(2) [OF Q_refl, of cs] claim by simp
  have "Q (world cs) (world (snd (seam_vendor S req (c\<lparr>vendor_owner := 3\<rparr>))))" for req
    by (rule Q_calls) (simp add: c)
  with c show ?thesis by (simp add: core_controller_reset_def claim Q_refl)
qed

lemma Q_advance: "Q (world b) (world (probe_advance S b))"
proof -
  have issue: "Q (world b) (world (snd (core_probe_issue S (b\<lparr>probe_step := k\<rparr>))))" for k
    by (rule Q_probe_issue) (simp add: Q_refl)
  have "Q (world b) (world ((snd (seam_vendor S req (b\<lparr>accessory_state := 4, probe_step := 8, vendor_owner := 3\<rparr>)))
      \<lparr>probe_step := 9\<rparr>))" for req
    using Q_calls(1) [of "world b" "b\<lparr>accessory_state := 4, probe_step := 8, vendor_owner := 3\<rparr>"]
    by (simp add: Q_refl)
  then show ?thesis
    unfolding probe_advance_def Let_def core_probe_abandon_def using issue by (simp add: Q_refl)
qed

lemma Q_completed: "Q (world cs) (world (snd (core_vendor_completed S ok reply len now cs)))"
proof -
  have "Q (world c) (world (core_probe_complete S ok reply len c))" for c :: "'w core_state"
    using Q_advance [of "probe_take_reply reply len c"] take_reply_only(3) [of reply len c]
    by (simp add: core_probe_complete_def core_probe_abandon_def Q_refl)
  from this [of "cs\<lparr>vendor_owner := 0\<rparr>"] show ?thesis
    using lifted.complete [of "cs\<lparr>vendor_owner := 0\<rparr>" now]
    by (simp add: core_vendor_completed_def Let_def Q_refl)
qed

end

end
