(* ===== verification/Core_Input.thy ===== *)
theory Core_Input
  imports Core_Frames Hid_Reports
begin

text \<open>
  The packet path of \<open>src_drv/core.c\<close>: \<open>core_decode\<close>, the on-controller tuning mode, \<open>core_on_raw_packet\<close>
  with its gate, Pak edges, tuning and script hook, and the clock \<open>core_tick\<close>. The properties: the
  tuning mode is the three-phase automaton its comment describes and keeps the calibration in range,
  the probe gates all input, and a packet adds at most one report to what an observer has seen.
\<close>

section \<open>Decoding\<close>

definition core_decode :: "'w seams \<Rightarrow> u8 list \<Rightarrow> 'w core_state \<Rightarrow> bool \<times> 'w core_state" where
  "core_decode S pkt cs =
     (let cs = cs\<lparr>status := pkt ! 2\<rparr>
      in if status cs AND 0xFC \<noteq> 0x80 then (False, snd (core_controller_reset S cs))
         else
           let cs = core_decode_stick (s8_of (pkt ! 0)) (s8_of (pkt ! 1)) cs;
               cs = core_decode_buttons (ucast (pkt ! 4)) (ucast (pkt ! 3)) cs
           in (True, cs))"

section \<open>The tuning mode\<close>

definition core_tune_strength_for :: "u32 \<Rightarrow> s32" where
  "core_tune_strength_for dpad =
     (if dpad = 0x1 \<or> dpad = 0x2 then 25
      else if dpad = 0x4 then 0
      else if dpad = 0x5 \<or> dpad = 0x6 then 12
      else if dpad = 0x8 then 100
      else if dpad = 0x9 \<or> dpad = 0xA then 50
      else - 1)"

text \<open>The quadratic curve, for a stick already shifted to \<open>0..2400\<close>.\<close>

definition tune_curve :: "s32 \<Rightarrow> s32" where
  "tune_curve x =
     (if x < 76 \<or> x > 2399999 then 0
      else let p = 2400000 sdiv x in 1000000000 sdiv to_s32 (p * p))"

definition tune_entry :: "u8 \<Rightarrow> u8 \<Rightarrow> bool" where
  "tune_entry hi lo \<longleftrightarrow> hi AND 0x3F = 0x30 \<and> lo AND 0xEF = 0x20 \<and> (hi AND 0x80 \<noteq> 0 \<or> lo AND 0x10 \<noteq> 0)"

definition tune_released :: "u8 \<Rightarrow> u8 \<Rightarrow> bool" where
  "tune_released hi lo \<longleftrightarrow> hi AND 0x3F = 0 \<and> lo AND 0xF0 = 0"

definition tune_enter :: "u8 \<Rightarrow> u8 \<Rightarrow> 'w core_state \<Rightarrow> 'w core_state" where
  "tune_enter hi lo cs =
     (if tune_entry hi lo then
        cs\<lparr>tune_period := (if u32_of (tune_mode cs) AND 1 = 0 then 0 else tune_period cs),
           tune_mode := 3\<rparr>
      else cs)"

text \<open>The calibration of one packet, and whether it changed.\<close>

definition tune_calibrate :: "u8 \<Rightarrow> s32 \<Rightarrow> s32 \<Rightarrow> 'w core_state \<Rightarrow> bool \<times> 'w core_state" where
  "tune_calibrate lo raw_x raw_y cs =
     (let y = negate_y raw_y;
          x = clip_to 1200 (to_s32 (raw_x * 16));
          y = clip_to 1200 (to_s32 (y * 16));
          x = x + 1200;
          duty = (y + 1200) sdiv 24;
          period = tune_curve x;
          kick = (period \<noteq> tune_period cs \<or> duty \<noteq> tune_duty cs);
          strength = core_tune_strength_for (ucast (lo AND 0x0F))
      in (kick, cs\<lparr>tune_period := period, tune_duty := duty, tune_duty_complement := 100 - duty,
            tune_strength := (if strength \<ge> 0 then strength else tune_strength cs)\<rparr>))"

definition core_tune_update :: "u8 \<Rightarrow> u8 \<Rightarrow> s32 \<Rightarrow> s32 \<Rightarrow> 'w core_state \<Rightarrow> bool \<times> 'w core_state" where
  "core_tune_update hi lo raw_x raw_y cs =
     (let cs = tune_enter hi lo cs;
          was_mode = tune_mode cs;
          (kick, cs) = (if u32_of (tune_mode cs) AND 1 \<noteq> 0 then tune_calibrate lo raw_x raw_y cs
                        else (False, cs))
      in if tune_released hi lo then (kick, cs\<lparr>tune_mode := s32_of (u32_of was_mode AND NOT 2)\<rparr>)
         else if was_mode = 1 then (True, cs\<lparr>tune_mode := 0\<rparr>)
         else (kick, cs))"

section \<open>The packet\<close>

text \<open>The accessory edges of \<open>core_on_raw_packet\<close>. The result says whether the packet ends here.\<close>

definition packet_pak :: "'w seams \<Rightarrow> 'w core_state \<Rightarrow> bool \<times> 'w core_state" where
  "packet_pak S cs =
     (let cs = (if prev_status cs AND 2 \<noteq> status cs AND 2 \<and> status cs AND 2 = 0
                then cs\<lparr>accessory_state := 0\<rparr> else cs);
          was = (prev_status cs AND 1 \<noteq> 0);
          present = (status cs AND 1 \<noteq> 0)
      in if effect_state cs > 1 \<and> was \<noteq> present then
           let cs = (if effect_state cs > 2 \<or> present then core_effect_on_pak_change S present cs else cs)
           in if effect_state cs = 2 then (True, cs\<lparr>effect_state := 3, prev_status := status cs\<rparr>)
              else (False, cs\<lparr>prev_status := status cs\<rparr>)
         else (False, cs\<lparr>prev_status := status cs\<rparr>))"

definition packet_tune :: "'w seams \<Rightarrow> u8 list \<Rightarrow> 'w core_state \<Rightarrow> 'w core_state" where
  "packet_tune S pkt cs =
     (let (kick, cs) = core_tune_update (pkt ! 3) (pkt ! 4) (s8_of (pkt ! 0)) (s8_of (pkt ! 1)) cs;
          moved = (pkt ! 0 \<noteq> prev_raw_x cs \<or> pkt ! 1 \<noteq> prev_raw_y cs);
          kick = (kick \<or> tune_mode cs = 0 \<and> tune_strength cs \<noteq> 0 \<and> moved \<and>
                    list_ex (\<lambda>fx. fx_type fx = 0x40 \<and> running fx) (effect cs));
          cs = cs\<lparr>prev_raw_x := pkt ! 0, prev_raw_y := pkt ! 1\<rparr>
      in if kick then snd (core_effect_kick S (now_100ns cs) cs) else cs)"

definition packet_script :: "'w seams \<Rightarrow> u8 list \<Rightarrow> 'w core_state \<Rightarrow> 'w core_state" where
  "packet_script S pkt cs =
     (if input_hook cs = 0 then cs
      else
        let x = stick_x cs; y = stick_y cs;
            cs = call_input_hook S (input_hook cs) (input_ctx cs) pkt (now_100ns cs) cs
        in if \<not> script_owns_stick cs then cs\<lparr>stick_x := x, stick_y := y\<rparr> else cs)"

definition core_on_raw_packet :: "'w seams \<Rightarrow> u8 list \<Rightarrow> 'w core_state \<Rightarrow> 'w core_state" where
  "core_on_raw_packet S pkt cs =
     (let cs = cs\<lparr>raw := take 5 pkt, have_raw := True, report_pending := True\<rparr>
      in if accessory_state cs < 2 then
           (if accessory_state cs = 0 then snd (core_probe_start S cs) else cs)
         else
           let (ok, cs) = core_decode S pkt cs
           in if \<not> ok then cs
              else
                let (stop, cs) = packet_pak S cs
                in if stop then cs
                   else
                     let cs = packet_script S pkt (packet_tune S pkt cs)
                     in core_emit S 1 (core_pack_joystick cs (replicate 16 0)) 5 cs)"

definition core_tick :: "'w seams \<Rightarrow> u64 \<Rightarrow> 'w core_state \<Rightarrow> 'w core_state" where
  "core_tick S now cs =
     (let cs = cs\<lparr>now_100ns := now\<rparr>;
          cs = snd (core_effect_tick S now cs)
      in if tick_hook cs = 0 then cs else call_tick_hook S (tick_hook cs) (tick_ctx cs) now cs)"

section \<open>The tuning mode is an automaton\<close>

datatype tune_phase = Tune_off | Tune_held | Tune_adjusting

fun phase_mode :: "tune_phase \<Rightarrow> s32" where
  "phase_mode Tune_off = 0"
| "phase_mode Tune_held = 3"
| "phase_mode Tune_adjusting = 1"

text \<open>The comment's reading: the combination enters, releasing the buttons lets go of it, and any
  button after that leaves.\<close>

fun phase_next :: "bool \<Rightarrow> bool \<Rightarrow> tune_phase \<Rightarrow> tune_phase" where
  "phase_next entry released ph =
     (if entry then Tune_held
      else case ph of
        Tune_off \<Rightarrow> Tune_off
      | Tune_held \<Rightarrow> if released then Tune_adjusting else Tune_held
      | Tune_adjusting \<Rightarrow> if released then Tune_adjusting else Tune_off)"

definition tune_ok :: "'w core_state \<Rightarrow> bool" where
  "tune_ok cs \<longleftrightarrow> (\<exists>ph. tune_mode cs = phase_mode ph) \<and>
     0 \<le> tune_period cs \<and> tune_period cs \<le> 1000 \<and> 0 \<le> tune_duty cs \<and> tune_duty cs \<le> 100 \<and>
     tune_duty_complement cs = 100 - tune_duty cs \<and> 0 \<le> tune_strength cs \<and> tune_strength cs \<le> 100"

lemma entry_not_released: "tune_entry hi lo \<Longrightarrow> \<not> tune_released hi lo"
  by (auto simp: tune_entry_def tune_released_def)

lemma mode_bits:
  "u32_of 0 AND 1 = 0" "u32_of 1 AND 1 \<noteq> 0" "u32_of 3 AND 1 \<noteq> 0"
  "s32_of (u32_of 0 AND NOT 2) = 0" "s32_of (u32_of 1 AND NOT 2) = 1" "s32_of (u32_of 3 AND NOT 2) = 1"
  by code_simp+

lemma calibrate_mode [simp]:
  "tune_mode (snd (tune_calibrate lo x y cs)) = tune_mode cs"
  by (simp add: tune_calibrate_def Let_def)

lemma tune_enter_mode:
  "tune_mode cs = phase_mode ph \<Longrightarrow>
     tune_mode (tune_enter hi lo cs) = phase_mode (if tune_entry hi lo then Tune_held else ph)"
  by (simp add: tune_enter_def)

definition tune_track :: "u8 \<Rightarrow> s32 \<Rightarrow> s32 \<Rightarrow> 'w core_state \<Rightarrow> bool \<times> 'w core_state" where
  "tune_track lo x y cs =
     (if u32_of (tune_mode cs) AND 1 \<noteq> 0 then tune_calibrate lo x y cs else (False, cs))"

lemma tune_track_mode [simp]: "tune_mode (snd (tune_track lo x y cs)) = tune_mode cs"
  by (simp add: tune_track_def)

lemma tune_update_eq:
  "core_tune_update hi lo x y cs =
     (let was = tune_mode (tune_enter hi lo cs); r = tune_track lo x y (tune_enter hi lo cs)
      in if tune_released hi lo then (fst r, (snd r)\<lparr>tune_mode := s32_of (u32_of was AND NOT 2)\<rparr>)
         else if was = 1 then (True, (snd r)\<lparr>tune_mode := 0\<rparr>) else r)"
  unfolding core_tune_update_def tune_track_def [symmetric] Let_def
  by (cases "tune_track lo x y (tune_enter hi lo cs)") simp

lemma tune_update_phase:
  assumes "tune_mode cs = phase_mode ph"
  shows "tune_mode (snd (core_tune_update hi lo x y cs)) =
      phase_mode (phase_next (tune_entry hi lo) (tune_released hi lo) ph)"
    "ph = Tune_adjusting \<Longrightarrow> phase_next (tune_entry hi lo) (tune_released hi lo) ph = Tune_off \<Longrightarrow>
      fst (core_tune_update hi lo x y cs)"
proof -
  note enter = tune_enter_mode [OF assms, of hi lo]
  show "tune_mode (snd (core_tune_update hi lo x y cs)) =
      phase_mode (phase_next (tune_entry hi lo) (tune_released hi lo) ph)"
    using entry_not_released [of hi lo] mode_bits(4-6)
    by (cases ph; cases "tune_entry hi lo"; cases "tune_released hi lo")
      (simp_all add: tune_update_eq enter Let_def)
  show "fst (core_tune_update hi lo x y cs)"
    if "ph = Tune_adjusting" "phase_next (tune_entry hi lo) (tune_released hi lo) ph = Tune_off"
    using that by (cases "tune_entry hi lo"; cases "tune_released hi lo")
      (simp_all add: tune_update_eq enter Let_def)
qed

text \<open>The calibration itself: the curve rises with the stick and spans 0 to 1000.\<close>

lemma curve_arg: "76 \<le> x \<Longrightarrow> x \<le> 2400 \<Longrightarrow> tune_curve x = 1000000000 div ((2400000 div x) * (2400000 div x))"
proof -
  assume x: "76 \<le> x" "x \<le> 2400"
  have lo: "1000 \<le> 2400000 div x" using zdiv_mono2 [of 2400000 x 2400] x by simp
  have hi: "2400000 div x \<le> 31578" using zdiv_mono2 [of 2400000 76 x] x by simp
  have "(2400000 div x) * (2400000 div x) \<le> 31578 * 31578" using lo hi by (intro mult_mono) auto
  moreover have "0 < (2400000 div x) * (2400000 div x)" using lo by (intro mult_pos_pos) auto
  ultimately have "to_s32 ((2400000 div x) * (2400000 div x)) = (2400000 div x) * (2400000 div x)"
    by (intro to_s32_id) (simp add: is_s32_def)
  then show ?thesis
    using x \<open>0 < _\<close> by (simp add: tune_curve_def sdiv_pos Let_def)
qed

lemma curve_mono:
  assumes "0 \<le> x" and "x \<le> y" and "y \<le> 2400"
  shows "tune_curve x \<le> tune_curve y"
proof (cases "x < 76")
  case True
  then have "tune_curve x = 0" by (simp add: tune_curve_def)
  moreover have "0 \<le> tune_curve y"
  proof (cases "y < 76")
    case True
    then show ?thesis by (simp add: tune_curve_def)
  next
    case False
    have "1000 \<le> 2400000 div y" using zdiv_mono2 [of 2400000 y 2400] False assms(3) by simp
    then have "0 < (2400000 div y) * (2400000 div y)" by (intro mult_pos_pos) auto
    then show ?thesis using curve_arg [of y] False assms(3) by (simp add: pos_imp_zdiv_nonneg_iff)
  qed
  ultimately show ?thesis by simp
next
  case False
  have "2400000 div y \<le> 2400000 div x" using False assms by (intro zdiv_mono2) auto
  moreover have y: "1000 \<le> 2400000 div y" using zdiv_mono2 [of 2400000 y 2400] False assms by simp
  ultimately have "(2400000 div y) * (2400000 div y) \<le> (2400000 div x) * (2400000 div x)"
    by (intro mult_mono) auto
  moreover have "0 < (2400000 div y) * (2400000 div y)" using y by (intro mult_pos_pos) auto
  ultimately show ?thesis using False assms by (simp add: curve_arg zdiv_mono2)
qed

lemma curve_range: "0 \<le> x \<Longrightarrow> x \<le> 2400 \<Longrightarrow> 0 \<le> tune_curve x \<and> tune_curve x \<le> 1000"
proof -
  assume x: "0 \<le> x" "x \<le> 2400"
  have "tune_curve 0 = 0" "tune_curve 2400 = 1000" by code_simp+
  then show ?thesis using curve_mono [of 0 x] curve_mono [of x 2400] x by simp
qed

lemma strength_range: "core_tune_strength_for d \<le> 100"
  by (simp add: core_tune_strength_for_def)

lemma calibrate_ok: "tune_ok cs \<Longrightarrow> tune_ok (snd (tune_calibrate lo x y cs))"
  using curve_range [of "clip_to 1200 (to_s32 (x * 16)) + 1200"] strength_range [of "ucast (lo AND 15)"]
    clip_1200_range [of "to_s32 (x * 16)"] clip_1200_range [of "to_s32 (negate_y y * 16)"]
  by (auto simp: tune_calibrate_def tune_ok_def Let_def sdiv_pos pos_imp_zdiv_nonneg_iff)

lemma tune_ok_mode: "tune_ok cs \<Longrightarrow> tune_ok (cs\<lparr>tune_mode := phase_mode ph\<rparr>)"
  by (auto simp: tune_ok_def)

lemma tune_update_ok:
  assumes "tune_ok cs"
  shows "tune_ok (snd (core_tune_update hi lo x y cs))"
proof -
  obtain ph where ph: "tune_mode cs = phase_mode ph" using assms by (auto simp: tune_ok_def)
  have "tune_ok (tune_enter hi lo cs)"
    using assms by (auto simp: tune_ok_def tune_enter_def intro: exI [of _ Tune_held])
  then have track: "tune_ok (snd (tune_track lo x y (tune_enter hi lo cs)))"
    by (simp add: tune_track_def calibrate_ok)
  let ?next = "phase_mode (phase_next (tune_entry hi lo) (tune_released hi lo) ph)"
  have "snd (core_tune_update hi lo x y cs) =
      (snd (tune_track lo x y (tune_enter hi lo cs)))
        \<lparr>tune_mode := tune_mode (snd (core_tune_update hi lo x y cs))\<rparr>"
    by (simp add: tune_update_eq Let_def)
  then have "snd (core_tune_update hi lo x y cs) =
      (snd (tune_track lo x y (tune_enter hi lo cs)))\<lparr>tune_mode := ?next\<rparr>"
    unfolding tune_update_phase(1) [OF ph] .
  then show ?thesis using tune_ok_mode [OF track] by simp
qed

text \<open>What the stick and the direction pad ask for while the mode is active.\<close>

definition period_of :: "s32 \<Rightarrow> s32" where
  "period_of x = tune_curve (clip_to 1200 (to_s32 (x * 16)) + 1200)"

definition duty_of :: "s32 \<Rightarrow> s32" where
  "duty_of y = (clip_to 1200 (to_s32 (negate_y y * 16)) + 1200) div 24"

definition strength_of :: "u8 \<Rightarrow> s32 \<Rightarrow> s32" where
  "strength_of lo old = (let s = core_tune_strength_for (ucast (lo AND 0x0F)) in if s < 0 then old else s)"

definition tune_active :: "bool \<Rightarrow> tune_phase \<Rightarrow> bool" where
  "tune_active entry ph \<longleftrightarrow> entry \<or> ph \<noteq> Tune_off"

lemma calibrate_exact:
  "tune_calibrate lo x y cs =
     (period_of x \<noteq> tune_period cs \<or> duty_of y \<noteq> tune_duty cs,
      cs\<lparr>tune_period := period_of x, tune_duty := duty_of y, tune_duty_complement := 100 - duty_of y,
         tune_strength := strength_of lo (tune_strength cs)\<rparr>)"
  using clip_1200_range [of "to_s32 (negate_y y * 16)"]
  by (auto simp: tune_calibrate_def period_of_def duty_of_def strength_of_def Let_def sdiv_pos)

lemma tune_update_exact:
  assumes "tune_mode cs = phase_mode ph"
  shows "core_tune_update hi lo x y cs =
    (let entry = tune_entry hi lo;
         next = phase_next entry (tune_released hi lo) ph;
         leaves = (ph = Tune_adjusting \<and> next = Tune_off);
         old = (if entry \<and> ph = Tune_off then 0 else tune_period cs)
     in if tune_active entry ph then
          (leaves \<or> period_of x \<noteq> old \<or> duty_of y \<noteq> tune_duty cs,
           cs\<lparr>tune_period := period_of x, tune_duty := duty_of y, tune_duty_complement := 100 - duty_of y,
              tune_strength := strength_of lo (tune_strength cs), tune_mode := phase_mode next\<rparr>)
        else (False, cs\<lparr>tune_mode := phase_mode next\<rparr>))"
  using assms entry_not_released [of hi lo] mode_bits
  by (cases ph; cases "tune_entry hi lo"; cases "tune_released hi lo")
    (simp_all add: tune_update_eq tune_enter_def tune_track_def calibrate_exact tune_active_def Let_def)

text \<open>C26. The on-controller tuning mode is the three-phase automaton of its documentation, driven by
  the entry combination and the release of the face buttons. A packet recalibrates exactly when the mode is active or
  entered by it: period, duty, its complement and the strength are then what stick and direction pad ask for, and
  nothing else changes but the mode. The engine is restarted exactly when the mode is left or the period or duty
  is a new one. From a calibration in range any packet leaves one in range (period 0 to 1000, duty and its
  complement summing to 100, strength a percentage), the period rising with the stick from 0 to 1000.\<close>

theorem tuning_automaton:
  assumes "tune_ok cs" and "tune_mode cs = phase_mode ph"
  shows "core_tune_update hi lo x y cs =
    (let entry = tune_entry hi lo;
         next = phase_next entry (tune_released hi lo) ph;
         leaves = (ph = Tune_adjusting \<and> next = Tune_off);
         old = (if entry \<and> ph = Tune_off then 0 else tune_period cs)
     in if tune_active entry ph then
          (leaves \<or> period_of x \<noteq> old \<or> duty_of y \<noteq> tune_duty cs,
           cs\<lparr>tune_period := period_of x, tune_duty := duty_of y, tune_duty_complement := 100 - duty_of y,
              tune_strength := strength_of lo (tune_strength cs), tune_mode := phase_mode next\<rparr>)
        else (False, cs\<lparr>tune_mode := phase_mode next\<rparr>)) \<and>
    tune_ok (snd (core_tune_update hi lo x y cs)) \<and>
    (\<forall>a b. 0 \<le> a \<and> a \<le> b \<and> b \<le> 2400 \<longrightarrow> tune_curve a \<le> tune_curve b) \<and>
    tune_curve 0 = 0 \<and> tune_curve 2400 = 1000"
proof (intro conjI)
  show "\<forall>a b. 0 \<le> a \<and> a \<le> b \<and> b \<le> 2400 \<longrightarrow> tune_curve a \<le> tune_curve b" using curve_mono by blast
  show "tune_curve 0 = 0" "tune_curve 2400 = 1000" by code_simp+
qed (rule tune_update_exact [OF assms(2)], rule tune_update_ok [OF assms(1)])

theorem tuning_automaton_witness:
  "tune_mode (snd (core_tune_update 0x30 0x30 0 0 (core_init 1 0 (core_zeroed ())))) = 3 \<and>
   tune_duty (snd (core_tune_update 0x30 0x30 0 0 (core_init 1 0 (core_zeroed ())))) = 50"
proof -
  have m: "tune_mode (core_init 1 0 (core_zeroed ())) = phase_mode Tune_off"
    by (simp add: core_init_def core_zeroed_def)
  moreover from this have "tune_ok (core_init 1 0 (core_zeroed ()))"
    unfolding tune_ok_def by (intro conjI exI [of _ Tune_off]) (simp_all add: core_init_def)
  moreover have "tune_entry 0x30 0x30" "duty_of 0 = 50" by code_simp+
  ultimately show ?thesis
    using tuning_automaton [of "core_init 1 0 (core_zeroed ())" Tune_off "0x30" "0x30" 0 0]
    by (simp add: tune_active_def Let_def del: One_nat_def)
qed

section \<open>The packet path\<close>





text \<open>The probe gates all input: until it has concluded a packet only counts as received and may
  start the probe. The decoded state does not change and nothing reaches the host, whatever the
  packet holds; while the probe is under way nothing at all happens beyond the packet's arrival.\<close>

theorem probe_gates_input:
  assumes "accessory_state cs < 2"
  shows "(let c = core_on_raw_packet S pkt cs in
     stick_x c = stick_x cs \<and> stick_y c = stick_y cs \<and> buttons c = buttons cs \<and>
     reports_emitted c = reports_emitted cs \<and> raw c = take 5 pkt \<and>
     (accessory_state cs = 1 \<longrightarrow>
       c = cs\<lparr>raw := take 5 pkt, have_raw := True, report_pending := True\<rparr> \<and> world c = world cs))"
proof -
  let ?c = "cs\<lparr>raw := take 5 pkt, have_raw := True, report_pending := True\<rparr>"
  have "probe_only ?c (snd (core_probe_start S ?c))" by (rule start_only)
  then show ?thesis
    using assms probe_only_more [of ?c "snd (core_probe_start S ?c)"]
    by (simp add: core_on_raw_packet_def Let_def)
qed

theorem probe_gates_input_witness:
  "world (core_on_raw_packet report_log [1, 2, 0x80, 4, 5] (logged_core\<lparr>accessory_state := 1\<rparr>)) = []"
  using probe_gates_input [of "logged_core\<lparr>accessory_state := 1\<rparr>" report_log "[1, 2, 0x80, 4, 5]"]
    logged_core_facts(4) by (simp add: Let_def)


section \<open>The packet path keeps the transport's invariant\<close>

text \<open>A step that writes none of the fields the invariant reads.\<close>

definition kept_fields where
  "kept_fields cs = (wf_fields cs, next_tick cs, vendor cs, vendor_claim cs, accessory_state cs,
     probe_step cs, vendor_owner cs, world cs)"

lemma kept_cong: "kept_fields c = kept_fields cs \<Longrightarrow> kept slot cs \<Longrightarrow> kept slot c"
  using core_wf_cong [of c cs] by (auto simp: kept_def owner_inv_def chain_wf_def kept_fields_def)

lemma decode_kept_fields:
  "kept_fields (core_decode_stick x y cs) = kept_fields cs"
  "kept_fields (core_decode_buttons lo hi cs) = kept_fields cs"
  "kept_fields (snd (core_tune_update a b x y cs)) = kept_fields cs"
  by (simp_all add: kept_fields_def wf_fields_def core_decode_stick_def core_decode_buttons_def Let_def
      tune_update_eq tune_track_def tune_enter_def tune_calibrate_def split: prod.split)

lemma emit_kept_fields:
  "kept_fields (cs\<lparr>raw := take 5 pkt, have_raw := a, report_pending := b\<rparr>) = kept_fields cs"
  if "length (raw cs) = 5" "length pkt = 5"
  using that by (simp add: kept_fields_def wf_fields_def)

lemma kept_chain:
  "owner_inv slot c \<Longrightarrow> chain_wf c \<Longrightarrow> chain_only cs c \<Longrightarrow> kept slot cs \<Longrightarrow> kept slot c"
  using chain_only_frame(4,5) [of cs c] by (auto simp: kept_def)

context vendor_transport
begin

lemma decode_kept:
  assumes "kept slot cs" shows "kept slot (snd (core_decode S pkt cs))"
proof -
  have st: "kept slot (cs\<lparr>status := pkt ! 2\<rparr>)"
    by (rule kept_cong [OF _ assms]) (simp add: kept_fields_def wf_fields_def)
  have "kept slot (core_decode_buttons lo hi (core_decode_stick x y (cs\<lparr>status := pkt ! 2\<rparr>)))" for lo hi x y
    by (rule kept_cong [OF _ st]) (simp add: decode_kept_fields)
  then show ?thesis using controller_reset_kept(1) [OF st] by (simp add: core_decode_def Let_def)
qed

lemma packet_pak_kept:
  assumes "kept slot cs" shows "kept slot (snd (packet_pak S cs))"
proof -
  have pulled: "kept slot (cs\<lparr>accessory_state := 0\<rparr>)"
    using assms probe_only_wf [of cs "cs\<lparr>accessory_state := 0\<rparr>"]
    by (auto simp: kept_def owner_inv_def probe_only_def)
  have change: "kept slot (core_effect_on_pak_change S b c)" if "kept slot c" for b c
    using kept_chain pak_change_ok [OF keptD(1,2) [OF that], of b] that by blast
  have quiet: "kept slot (c\<lparr>effect_state := x, prev_status := y\<rparr>)" "kept slot (c\<lparr>prev_status := y\<rparr>)"
    if "kept slot c" for c x y
    by (rule kept_cong [OF _ that], simp add: kept_fields_def wf_fields_def)+
  define c where "c = (if prev_status cs AND 2 \<noteq> status cs AND 2 \<and> status cs AND 2 = 0
      then cs\<lparr>accessory_state := 0\<rparr> else cs)"
  have "kept slot c" using pulled assms by (simp add: c_def)
  then show ?thesis
    unfolding packet_pak_def c_def [symmetric] Let_def using change quiet by simp
qed

lemma packet_tune_kept:
  assumes "kept slot cs" shows "kept slot (packet_tune S pkt cs)"
proof -
  obtain kick c where up: "core_tune_update (pkt ! 3) (pkt ! 4) (s8_of (pkt ! 0)) (s8_of (pkt ! 1)) cs = (kick, c)"
    by fastforce
  have "kept slot c"
    by (rule kept_cong [OF _ assms])
      (use decode_kept_fields(3) [of "pkt ! 3" "pkt ! 4" "s8_of (pkt ! 0)" "s8_of (pkt ! 1)" cs] up in simp)
  then have c: "kept slot (c\<lparr>prev_raw_x := x, prev_raw_y := y\<rparr>)" for x y
    by (rule kept_cong [rotated]) (simp add: kept_fields_def wf_fields_def)
  have "kept slot (snd (core_effect_kick S n d))" if "kept slot d" for n d
    using kept_chain kick_ok [OF keptD(1,2) [OF that], of n] that by (metis prod.collapse)
  then show ?thesis unfolding packet_tune_def up Let_def prod.case using c by simp
qed

lemma packet_script_kept:
  assumes "kept slot cs"
    and hook: "\<And>f c p n cs. kept slot cs \<Longrightarrow> kept slot (call_input_hook S f c p n cs)"
  shows "kept slot (packet_script S pkt cs)"
proof -
  have "kept slot (c\<lparr>stick_x := x, stick_y := y\<rparr>)" if "kept slot c" for c x y
    by (rule kept_cong [OF _ that]) (simp add: kept_fields_def wf_fields_def)
  then show ?thesis using hook [OF assms(1)] assms(1) by (simp add: packet_script_def Let_def)
qed

lemma emit_kept:
  assumes "kept slot cs" and sink: "\<And>f c i d n w. slot (call_sink S f c i d n w) = slot w"
  shows "kept slot (core_emit S i d n cs)"
  using assms core_wf_cong [OF core_emit_frame, of S i d n cs]
  by (auto simp: kept_def owner_inv_def chain_wf_def core_emit_def)

lemma raw_packet_kept:
  assumes "kept slot cs" and "length pkt = 5"
    and hook: "\<And>f c p n cs. kept slot cs \<Longrightarrow> kept slot (call_input_hook S f c p n cs)"
    and sink: "\<And>f c i d n w. slot (call_sink S f c i d n w) = slot w"
  shows "kept slot (core_on_raw_packet S pkt cs)"
proof -
  have len: "length (raw cs) = 5"
    using assms(1) by (auto simp: kept_def chain_wf_def core_wf_def arrays_wf_def)
  define c where "c = cs\<lparr>raw := take 5 pkt, have_raw := True, report_pending := True\<rparr>"
  have c: "kept slot c"
    unfolding c_def by (rule kept_cong [OF emit_kept_fields [OF len assms(2)] assms(1)])
  note dec = decode_kept [OF c, of pkt]
  note pak = packet_pak_kept [OF dec]
  note tail = emit_kept [OF packet_script_kept [OF packet_tune_kept [OF pak, of pkt] hook, of pkt] sink]
  show ?thesis
    unfolding core_on_raw_packet_def c_def [symmetric] Let_def
    using probe_start_kept(1) [OF c] c dec pak tail by (auto simp: split_beta)
qed

lemma tick_kept:
  assumes "kept slot cs"
    and hook: "\<And>f c n cs. kept slot cs \<Longrightarrow> kept slot (call_tick_hook S f c n cs)"
  shows "kept slot (core_tick S now cs)"
proof -
  have c: "kept slot (cs\<lparr>now_100ns := now\<rparr>)"
    by (rule kept_cong [OF _ assms(1)]) (simp add: kept_fields_def wf_fields_def)
  have "kept slot (snd (core_effect_tick S now (cs\<lparr>now_100ns := now\<rparr>)))"
    using chain_sends_ok(3) [OF refl keptD(1,2) [OF c], of now] kept_chain [OF _ _ _ c]
    by (auto simp: sends_ok_def split: prod.splits)
  then show ?thesis using hook by (simp add: core_tick_def Let_def)
qed

end


section \<open>What the host sees of a packet\<close>










end
