(* ===== verification/Shell_State.thy ===== *)
theory Shell_State
  imports Core_Input
begin

text \<open>
  The part of the driver shell (\<open>src_drv/wdm.c\<close>, \<open>src_drv/wdm.h\<close>) the core runs on: the status codes,
  the remove lock, and the record of one device extension with its vendor slot, its report queue and
  its parked reads. An operation takes the extension and returns it; the I/O manager and the bus are
  what the record logs (requests completed, transfers submitted).
\<close>

section \<open>Status codes\<close>

type_synonym ntstatus = u32

definition NT_SUCCESS :: "ntstatus \<Rightarrow> bool" where
  "NT_SUCCESS s \<longleftrightarrow> 0 \<le> s32_of s"

definition STATUS_SUCCESS :: ntstatus where "STATUS_SUCCESS = 0"
definition STATUS_PENDING :: ntstatus where "STATUS_PENDING = 0x103"
definition STATUS_DEVICE_BUSY :: ntstatus where "STATUS_DEVICE_BUSY = 0x80000011"
definition STATUS_INVALID_PARAMETER :: ntstatus where "STATUS_INVALID_PARAMETER = 0xC000000D"
definition STATUS_DELETE_PENDING :: ntstatus where "STATUS_DELETE_PENDING = 0xC0000056"
definition STATUS_CANCELLED :: ntstatus where "STATUS_CANCELLED = 0xC0000120"
definition STATUS_INSUFFICIENT_RESOURCES :: ntstatus where "STATUS_INSUFFICIENT_RESOURCES = 0xC000009A"

lemma nt_success_codes [simp]:
  "NT_SUCCESS STATUS_SUCCESS" "NT_SUCCESS STATUS_PENDING" "\<not> NT_SUCCESS STATUS_DEVICE_BUSY"
  "\<not> NT_SUCCESS STATUS_INVALID_PARAMETER" "\<not> NT_SUCCESS STATUS_DELETE_PENDING"
  "\<not> NT_SUCCESS STATUS_CANCELLED" "\<not> NT_SUCCESS STATUS_INSUFFICIENT_RESOURCES"
  by code_simp+

section \<open>The remove lock\<close>

record remove_lock =
  IoCount :: s32
  Removed :: bool
  RemoveEvent :: bool

definition AdaptoidLockInit :: remove_lock where
  "AdaptoidLockInit = \<lparr>IoCount = 1, Removed = False, RemoveEvent = False\<rparr>"

definition lock_drop :: "remove_lock \<Rightarrow> remove_lock" where
  "lock_drop l =
     (let l = l\<lparr>IoCount := to_s32 (IoCount l - 1)\<rparr>
      in if IoCount l = 0 then l\<lparr>RemoveEvent := True\<rparr> else l)"

definition AdaptoidLockAcquire :: "remove_lock \<Rightarrow> ntstatus \<times> remove_lock" where
  "AdaptoidLockAcquire l =
     (let l = l\<lparr>IoCount := to_s32 (IoCount l + 1)\<rparr>
      in if Removed l then (STATUS_DELETE_PENDING, lock_drop l) else (STATUS_SUCCESS, l))"

definition AdaptoidLockRelease :: "remove_lock \<Rightarrow> remove_lock" where
  "AdaptoidLockRelease l = lock_drop l"

text \<open>The result says whether the wait on the event returns.\<close>

definition AdaptoidLockReleaseAndWait :: "remove_lock \<Rightarrow> bool \<times> remove_lock" where
  "AdaptoidLockReleaseAndWait l =
     (let l = AdaptoidLockRelease (AdaptoidLockRelease (l\<lparr>Removed := True\<rparr>))
      in (RemoveEvent l, l))"

section \<open>The device extension\<close>

text \<open>\<open>ADAPTOID_SLOT_FREE\<close>, \<open>ADAPTOID_SLOT_CLAIMED\<close>, \<open>ADAPTOID_SLOT_IN_FLIGHT\<close>.\<close>

datatype vendor_state = SLOT_FREE | SLOT_CLAIMED | SLOT_IN_FLIGHT

datatype vendor_callback = Cb_null | Cb_core | Cb_enable_second

text \<open>The setup packet: request type, request, value, index.\<close>

type_synonym vendor_setup = "u8 \<times> u8 \<times> u16 \<times> u16"

record vendor_slot =
  State :: vendor_state
  PendingIrp :: ptr
  Callback :: vendor_callback
  Done :: bool
  LastStatus :: ntstatus
  LastInformation :: u32
  SubmitTime :: u64

record poll_slot =
  CancelLatch :: bool
  PollIrp :: ptr
  PollUrb :: ptr
  PollBuffer :: "u8 list"
  PollActive :: bool

record report_node =
  Length :: u8
  Data :: "u8 list"

text \<open>\<open>armed\<close> says whether a request's cancel routine is set, \<open>room\<close> its output buffer (\<open>None\<close> for no
  buffer); \<open>completed_irps\<close>, \<open>delivered\<close> (what was copied to a caller's buffer), \<open>freed_polls\<close> and
  \<open>submitted\<close> are what the I/O manager and the bus have been handed.\<close>

record shell =
  Vendor :: vendor_slot
  RemoveLockA :: remove_lock
  RemoveLockB :: remove_lock
  CoreVendorReply :: "u8 list"
  ReportQueue :: "report_node list"
  ReportHead :: s32
  ReportCount :: s32
  ReportsDropped :: u32
  PendingReads :: "ptr list"
  PendingReadCount :: s32
  armed :: "ptr \<Rightarrow> bool"
  cancel_asked :: "ptr \<Rightarrow> bool"
  room :: "ptr \<Rightarrow> u32 option"
  completed_irps :: "(ptr \<times> ntstatus \<times> u32) list"
  delivered :: "(ptr \<times> u8 list) list"
  submitted :: "(vendor_setup \<times> u32) list"
  interrupt_time :: u64
  PollSlots :: "poll_slot list"
  PollStopMask :: u32
  PollRestartPending :: bool
  freed_polls :: "(ptr \<times> ptr) list"
  UsbAddress :: u16

definition AdaptoidCompleteIrp :: "ptr \<Rightarrow> ntstatus \<Rightarrow> u32 \<Rightarrow> shell \<Rightarrow> shell" where
  "AdaptoidCompleteIrp irp st info dx = dx\<lparr>completed_irps := completed_irps dx @ [(irp, st, info)]\<rparr>"

definition AdaptoidClaimIrp :: "ptr \<Rightarrow> shell \<Rightarrow> bool \<times> shell" where
  "AdaptoidClaimIrp irp dx = (armed dx irp, dx\<lparr>armed := (armed dx)(irp := False)\<rparr>)"

definition release_B :: "shell \<Rightarrow> shell" where
  "release_B dx = dx\<lparr>RemoveLockB := AdaptoidLockRelease (RemoveLockB dx)\<rparr>"

definition acquire_B :: "shell \<Rightarrow> ntstatus \<times> shell" where
  "acquire_B dx = (let (st, l) = AdaptoidLockAcquire (RemoveLockB dx) in (st, dx\<lparr>RemoveLockB := l\<rparr>))"

definition release_A :: "shell \<Rightarrow> shell" where
  "release_A dx = dx\<lparr>RemoveLockA := AdaptoidLockRelease (RemoveLockA dx)\<rparr>"

definition acquire_A :: "shell \<Rightarrow> ntstatus \<times> shell" where
  "acquire_A dx = (let (st, l) = AdaptoidLockAcquire (RemoveLockA dx) in (st, dx\<lparr>RemoveLockA := l\<rparr>))"

definition zero_node :: report_node where
  "zero_node = \<lparr>Length = 0, Data = replicate 16 0\<rparr>"

definition zero_poll :: poll_slot where
  "zero_poll = \<lparr>CancelLatch = False, PollIrp = 0, PollUrb = 0, PollBuffer = replicate 5 0, PollActive = False\<rparr>"

text \<open>\<open>AdaptoidDevExtInit\<close> on an extension the I/O manager has zeroed.\<close>

definition zeroed_ext :: shell where
  "zeroed_ext = \<lparr>Vendor = \<lparr>State = SLOT_FREE, PendingIrp = 0, Callback = Cb_null, Done = False,
       LastStatus = 0, LastInformation = 0, SubmitTime = 0\<rparr>,
     RemoveLockA = \<lparr>IoCount = 0, Removed = False, RemoveEvent = False\<rparr>,
     RemoveLockB = \<lparr>IoCount = 0, Removed = False, RemoveEvent = False\<rparr>,
     CoreVendorReply = replicate 64 0, ReportQueue = replicate 100 zero_node, ReportHead = 0,
     ReportCount = 0, ReportsDropped = 0, PendingReads = [], PendingReadCount = 0,
     armed = (\<lambda>_. False), cancel_asked = (\<lambda>_. False), room = (\<lambda>_. None), completed_irps = [], delivered = [],
     submitted = [], interrupt_time = 0, PollSlots = replicate 2 zero_poll, PollStopMask = 0,
     PollRestartPending = False, freed_polls = [], UsbAddress = 0\<rparr>"

definition AdaptoidDevExtInit :: "shell \<Rightarrow> shell" where
  "AdaptoidDevExtInit dx =
     dx\<lparr>RemoveLockA := AdaptoidLockInit, RemoveLockB := AdaptoidLockInit,
        Vendor := (Vendor dx)\<lparr>State := SLOT_FREE\<rparr>,
        PollSlots := map (\<lambda>p. p\<lparr>CancelLatch := False, PollIrp := 0, PollUrb := 0, PollActive := False\<rparr>)
          (PollSlots dx),
        PollStopMask := 4, PollRestartPending := False, ReportHead := 0, ReportCount := 0,
        ReportsDropped := 0, PendingReads := [], PendingReadCount := 0\<rparr>"

section \<open>The remove lock counts\<close>

text \<open>A count small enough not to wrap; the driver holds a handful of references.\<close>

definition lock_ok :: "remove_lock \<Rightarrow> bool" where
  "lock_ok l \<longleftrightarrow> 0 \<le> IoCount l \<and> IoCount l < 2147483647"

lemma lock_count:
  assumes "lock_ok l"
  shows "IoCount (AdaptoidLockRelease l) = IoCount l - 1"
    "Removed (AdaptoidLockRelease l) = Removed l"
    "IoCount (snd (AdaptoidLockAcquire l)) = (if Removed l then IoCount l else IoCount l + 1)"
    "Removed (snd (AdaptoidLockAcquire l)) = Removed l"
    "NT_SUCCESS (fst (AdaptoidLockAcquire l)) \<longleftrightarrow> \<not> Removed l"
proof -
  have "to_s32 (IoCount l - 1) = IoCount l - 1" "to_s32 (IoCount l + 1) = IoCount l + 1"
    using assms by (auto simp: lock_ok_def intro!: to_s32_id) (simp_all add: is_s32_def)
  moreover have "to_s32 (IoCount l) = IoCount l"
    using assms by (auto simp: lock_ok_def is_s32_def intro!: to_s32_id)
  ultimately show "IoCount (AdaptoidLockRelease l) = IoCount l - 1"
    "Removed (AdaptoidLockRelease l) = Removed l"
    "IoCount (snd (AdaptoidLockAcquire l)) = (if Removed l then IoCount l else IoCount l + 1)"
    "Removed (snd (AdaptoidLockAcquire l)) = Removed l"
    "NT_SUCCESS (fst (AdaptoidLockAcquire l)) \<longleftrightarrow> \<not> Removed l"
    by (simp_all add: AdaptoidLockRelease_def AdaptoidLockAcquire_def lock_drop_def Let_def)
qed

end
