(* ===== verification/Report_Queue.thy ===== *)
theory Report_Queue
  imports Shell_State
begin

text \<open>
  The report queue and the parked reads of \<open>src_drv/wdm.c\<close>. The handlers are composed of the pieces
  they run under the spin lock, so that the same pieces are the steps of \<open>read_step\<close>, in which the
  cancellation of a request interleaves with everything else. The theorems: every parked read is
  completed exactly once and its remove-lock reference dropped with it, whatever the interleaving;
  run one at a time the handlers are a first-in first-out queue; interleaved they are not.
\<close>

section \<open>The pieces\<close>

text \<open>Unlink the oldest parked read.\<close>

definition unlink_head :: "shell \<Rightarrow> ptr option \<times> shell" where
  "unlink_head dx =
     (case PendingReads dx of
        [] \<Rightarrow> (None, dx)
      | irp # rest \<Rightarrow>
          (Some irp, dx\<lparr>PendingReads := rest, PendingReadCount := to_s32 (PendingReadCount dx - 1)\<rparr>))"

definition AdaptoidUnlinkRead :: "ptr \<Rightarrow> shell \<Rightarrow> bool \<times> shell" where
  "AdaptoidUnlinkRead irp dx =
     (if irp \<in> set (PendingReads dx) then
        (True, dx\<lparr>PendingReads := remove1 irp (PendingReads dx),
                 PendingReadCount := to_s32 (PendingReadCount dx - 1)\<rparr>)
      else (False, dx))"

text \<open>The locked section of \<open>AdaptoidQueueRead\<close>; the result is \<open>cancelled\<close>.\<close>

definition park_locked :: "ptr \<Rightarrow> shell \<Rightarrow> bool \<times> shell" where
  "park_locked irp dx =
     (let dx = dx\<lparr>PendingReads := PendingReads dx @ [irp],
                  PendingReadCount := to_s32 (PendingReadCount dx + 1),
                  armed := (armed dx)(irp := True)\<rparr>
      in if cancel_asked dx irp then
           let (ours, dx) = AdaptoidClaimIrp irp dx
           in if ours then AdaptoidUnlinkRead irp dx else (False, dx)
         else (False, dx))"

definition finish_cancelled :: "ptr \<Rightarrow> shell \<Rightarrow> shell" where
  "finish_cancelled irp dx = release_B (AdaptoidCompleteIrp irp STATUS_CANCELLED 0 dx)"

section \<open>The handlers\<close>

function AdaptoidDequeueRead :: "shell \<Rightarrow> ptr option \<times> shell" where
  "AdaptoidDequeueRead dx =
     (case unlink_head dx of
        (None, dx) \<Rightarrow> (None, dx)
      | (Some irp, dx) \<Rightarrow>
          let (ours, dx) = AdaptoidClaimIrp irp dx
          in if ours then (Some irp, dx) else AdaptoidDequeueRead dx)"
  by pat_completeness auto

termination
  by (relation "measure (\<lambda>dx. length (PendingReads dx))")
    (auto simp: unlink_head_def AdaptoidClaimIrp_def split: list.splits)

declare AdaptoidDequeueRead.simps [simp del]

definition AdaptoidCancelReadIrp :: "ptr \<Rightarrow> shell \<Rightarrow> shell" where
  "AdaptoidCancelReadIrp irp dx = finish_cancelled irp (snd (AdaptoidUnlinkRead irp dx))"

text \<open>\<open>IoCancelIrp\<close>: the I/O manager marks the request, and calls the cancel routine if it took it.\<close>

definition io_cancel :: "ptr \<Rightarrow> shell \<Rightarrow> bool \<times> shell" where
  "io_cancel irp dx = AdaptoidClaimIrp irp (dx\<lparr>cancel_asked := (cancel_asked dx)(irp := True)\<rparr>)"

definition AdaptoidQueueRead :: "ptr \<Rightarrow> shell \<Rightarrow> shell" where
  "AdaptoidQueueRead irp dx =
     (let (cancelled, dx) = park_locked irp dx
      in if cancelled then finish_cancelled irp dx else dx)"

text \<open>\<open>AdaptoidCompleteRead\<close>: the copy clamped to the caller's buffer.\<close>

definition AdaptoidCompleteRead :: "ptr \<Rightarrow> u8 list \<Rightarrow> u8 \<Rightarrow> shell \<Rightarrow> shell" where
  "AdaptoidCompleteRead irp bytes len dx =
     (case room dx irp of
        None \<Rightarrow> AdaptoidCompleteIrp irp STATUS_SUCCESS 0 dx
      | Some space \<Rightarrow>
          let n = (if ucast len > space then space else ucast len)
          in AdaptoidCompleteIrp irp STATUS_SUCCESS n
               (dx\<lparr>delivered := delivered dx @ [(irp, take (unat n) bytes)]\<rparr>))"

text \<open>The locked section of \<open>AdaptoidReadReport\<close>.\<close>

definition take_report :: "shell \<Rightarrow> report_node option \<times> shell" where
  "take_report dx =
     (if ReportCount dx > 0 then
        (Some (ReportQueue dx ! nat (ReportHead dx)),
         dx\<lparr>ReportHead := to_s32 (ReportHead dx + 1) smod 100, ReportCount := to_s32 (ReportCount dx - 1)\<rparr>)
      else (None, dx))"

text \<open>The lock is dropped after that section; \<open>mid\<close> is what other processors do then.\<close>

definition AdaptoidReadReport_between :: "(shell \<Rightarrow> shell) \<Rightarrow> ptr \<Rightarrow> shell \<Rightarrow> ntstatus \<times> shell" where
  "AdaptoidReadReport_between mid irp dx =
     (let (have_node, dx) = take_report dx; dx = mid dx
      in case have_node of
           Some node \<Rightarrow> (STATUS_SUCCESS, AdaptoidCompleteRead irp (Data node) (Length node) dx)
         | None \<Rightarrow>
             let (st, dx) = acquire_B dx
             in if \<not> NT_SUCCESS st then
                  (STATUS_DELETE_PENDING, AdaptoidCompleteIrp irp STATUS_DELETE_PENDING 0 dx)
                else (STATUS_PENDING, AdaptoidQueueRead irp dx))"

definition AdaptoidReadReport :: "ptr \<Rightarrow> shell \<Rightarrow> ntstatus \<times> shell" where
  "AdaptoidReadReport = AdaptoidReadReport_between (\<lambda>dx. dx)"

lemma AdaptoidReadReport_eq:
  "AdaptoidReadReport irp dx =
     (case take_report dx of
        (Some node, dx) \<Rightarrow> (STATUS_SUCCESS, AdaptoidCompleteRead irp (Data node) (Length node) dx)
      | (None, dx) \<Rightarrow>
          let (st, dx) = acquire_B dx
          in if \<not> NT_SUCCESS st then
               (STATUS_DELETE_PENDING, AdaptoidCompleteIrp irp STATUS_DELETE_PENDING 0 dx)
             else (STATUS_PENDING, AdaptoidQueueRead irp dx))"
  by (simp add: AdaptoidReadReport_def AdaptoidReadReport_between_def Let_def split: prod.split option.split)

text \<open>The locked section at the end of \<open>AdaptoidReportSink\<close>. A payload byte the core did not pass
  leaves the queue's old byte in place.\<close>

definition enqueue_report :: "u8 \<Rightarrow> u8 list \<Rightarrow> u32 \<Rightarrow> shell \<Rightarrow> shell" where
  "enqueue_report report_id data len dx =
     (if ReportCount dx \<ge> 100 then dx\<lparr>ReportsDropped := ReportsDropped dx + 1\<rparr>
      else
        let slot = nat (to_s32 (ReportHead dx + ReportCount dx) smod 100);
            payload = report_id # take (unat len) data;
            node = \<lparr>Length = ucast (len + 1),
                    Data = payload @ drop (length payload) (Data (ReportQueue dx ! slot))\<rparr>
        in dx\<lparr>ReportQueue := (ReportQueue dx)[slot := node], ReportCount := to_s32 (ReportCount dx + 1)\<rparr>)"

definition AdaptoidReportSink :: "u8 \<Rightarrow> u8 list \<Rightarrow> u32 \<Rightarrow> shell \<Rightarrow> shell" where
  "AdaptoidReportSink report_id data len dx =
     (if len + 1 > 16 then dx
      else
        case AdaptoidDequeueRead dx of
          (Some irp, dx) \<Rightarrow>
            release_B (AdaptoidCompleteRead irp (report_id # take (unat len) data) (ucast (len + 1)) dx)
        | (None, dx) \<Rightarrow> enqueue_report report_id data len dx)"

function AdaptoidCancelPendingReads :: "shell \<Rightarrow> shell" where
  "AdaptoidCancelPendingReads dx =
     (case AdaptoidDequeueRead dx of
        (None, dx) \<Rightarrow> dx
      | (Some irp, dx) \<Rightarrow> AdaptoidCancelPendingReads (finish_cancelled irp dx))"
  by pat_completeness auto

lemma dequeue_shrinks:
  "(Some irp, dx') = AdaptoidDequeueRead dx \<Longrightarrow> length (PendingReads dx') < length (PendingReads dx)"
proof (induction dx rule: AdaptoidDequeueRead.induct)
  case (1 dx)
  show ?case
  proof (cases "PendingReads dx")
    case Nil
    with "1.prems" show ?thesis by (simp add: AdaptoidDequeueRead.simps [of dx] unlink_head_def)
  next
    case (Cons i rest)
    let ?c = "dx\<lparr>PendingReads := rest, PendingReadCount := to_s32 (PendingReadCount dx - 1)\<rparr>"
    have head: "unlink_head dx = (Some i, ?c)" by (simp add: unlink_head_def Cons)
    obtain ours d where claim: "AdaptoidClaimIrp i ?c = (ours, d)" by fastforce
    have d: "PendingReads d = rest" using claim by (auto simp: AdaptoidClaimIrp_def)
    have step: "AdaptoidDequeueRead dx = (if ours then (Some i, d) else AdaptoidDequeueRead d)"
      using head claim by (simp add: AdaptoidDequeueRead.simps [of dx])
    show ?thesis
    proof (cases ours)
      case True
      with step "1.prems" d Cons show ?thesis by simp
    next
      case False
      have "length (PendingReads dx') < length (PendingReads d)"
        using "1.IH" [OF head [symmetric] _ refl claim [symmetric] False] "1.prems" step False by simp
      with d Cons show ?thesis by simp
    qed
  qed
qed

termination AdaptoidCancelPendingReads
  by (relation "measure (\<lambda>dx. length (PendingReads dx))")
    (auto simp: finish_cancelled_def release_B_def AdaptoidCompleteIrp_def dest: dequeue_shrinks)

declare AdaptoidCancelPendingReads.simps [simp del]

section \<open>The ring is a queue\<close>

definition node_bytes :: "report_node \<Rightarrow> u8 list" where
  "node_bytes n = take (unat (Length n)) (Data n)"

definition report_queue :: "shell \<Rightarrow> u8 list list" where
  "report_queue dx =
     map (\<lambda>i. node_bytes (ReportQueue dx ! ((nat (ReportHead dx) + i) mod 100))) [0..<nat (ReportCount dx)]"

definition rq_wf :: "shell \<Rightarrow> bool" where
  "rq_wf dx \<longleftrightarrow> length (ReportQueue dx) = 100 \<and> 0 \<le> ReportHead dx \<and> ReportHead dx < 100 \<and>
     0 \<le> ReportCount dx \<and> ReportCount dx \<le> 100 \<and> (\<forall>n\<in>set (ReportQueue dx). length (Data n) = 16 \<and> unat (Length n) \<le> 16)"

lemma length_report_queue [simp]: "length (report_queue dx) = nat (ReportCount dx)"
  by (simp add: report_queue_def)

lemma report_queue_cong:
  "ReportQueue d = ReportQueue dx \<Longrightarrow> ReportHead d = ReportHead dx \<Longrightarrow> ReportCount d = ReportCount dx \<Longrightarrow>
     report_queue d = report_queue dx \<and> rq_wf d = rq_wf dx"
  by (simp add: report_queue_def rq_wf_def)

lemma ring_slot:
  "rq_wf dx \<Longrightarrow> nat (to_s32 (ReportHead dx + ReportCount dx) smod 100) =
     (nat (ReportHead dx) + nat (ReportCount dx)) mod 100"
proof -
  assume "rq_wf dx"
  then have b: "0 \<le> ReportHead dx" "ReportHead dx < 100" "0 \<le> ReportCount dx" "ReportCount dx \<le> 100"
    by (simp_all add: rq_wf_def)
  then have "to_s32 (ReportHead dx + ReportCount dx) = ReportHead dx + ReportCount dx"
    by (intro to_s32_id) (simp add: is_s32_def)
  with b show ?thesis by (simp add: smod_pos nat_mod_distrib nat_add_distrib)
qed

lemma report_length: "unat (len :: u32) \<le> 15 \<Longrightarrow> unat (ucast (len + 1) :: u8) = unat len + 1"
proof -
  assume len: "unat len \<le> 15"
  then have "unat (len + 1) = unat len + 1" by (simp add: unat_word_ariths(1))
  then show ?thesis using len by (simp add: unsigned_ucast_eq unsigned_take_bit_eq take_bit_nat_eq_self)
qed

lemma enqueue_queue:
  assumes wf: "rq_wf dx" and len: "unat len \<le> 15" "unat len \<le> length data"
  shows "report_queue (enqueue_report i data len dx) =
      (if length (report_queue dx) < 100 then report_queue dx @ [i # take (unat len) data] else report_queue dx)"
    "rq_wf (enqueue_report i data len dx)"
proof -
  let ?h = "nat (ReportHead dx)" and ?c = "nat (ReportCount dx)"
  let ?slot = "(?h + ?c) mod 100"
  let ?payload = "i # take (unat len) data"
  let ?node = "\<lparr>Length = ucast (len + 1), Data = ?payload @ drop (length ?payload) (Data (ReportQueue dx ! ?slot))\<rparr>"
  have b: "0 \<le> ReportHead dx" "ReportHead dx < 100" "0 \<le> ReportCount dx" "ReportCount dx \<le> 100"
    "length (ReportQueue dx) = 100" using wf by (simp_all add: rq_wf_def)
  show "rq_wf (enqueue_report i data len dx)"
  proof (cases "ReportCount dx \<ge> 100")
    case True with wf show ?thesis by (simp add: enqueue_report_def rq_wf_def)
  next
    case False
    have "length (Data (ReportQueue dx ! ?slot)) = 16" using wf b by (simp add: rq_wf_def)
    then have "length (Data ?node) = 16" "unat (Length ?node) \<le> 16"
      using len report_length [OF len(1)] by simp_all
    moreover have "to_s32 (ReportCount dx + 1) = ReportCount dx + 1"
      using b False by (intro to_s32_id) (simp add: is_s32_def)
    ultimately show ?thesis
      using wf False ring_slot [OF wf]
      by (auto simp: enqueue_report_def rq_wf_def Let_def dest: set_update_subset_insert [THEN subsetD])
  qed
  show "report_queue (enqueue_report i data len dx) =
      (if length (report_queue dx) < 100 then report_queue dx @ [i # take (unat len) data] else report_queue dx)"
  proof (cases "ReportCount dx \<ge> 100")
    case True
    then have "\<not> nat (ReportCount dx) < 100" by simp
    with True show ?thesis
      using report_queue_cong [of "enqueue_report i data len dx" dx] by (simp add: enqueue_report_def)
  next
    case False
    then have c: "?c < 100" "nat (ReportCount dx + 1) = Suc ?c" using b by simp_all
    have cnt: "to_s32 (ReportCount dx + 1) = ReportCount dx + 1"
      using b False by (intro to_s32_id) (simp add: is_s32_def)
    have out: "enqueue_report i data len dx =
        dx\<lparr>ReportQueue := (ReportQueue dx)[?slot := ?node], ReportCount := ReportCount dx + 1\<rparr>"
      using False ring_slot [OF wf] cnt by (simp add: enqueue_report_def Let_def)
    have other: "(?h + k) mod 100 \<noteq> ?slot" if "k < ?c" for k
    proof
      assume eq: "(?h + k) mod 100 = ?slot"
      have "(?h + ?c) mod 100 = (?h + k) mod 100" using eq by simp
      then have "(?h + k) mod 100 = (?h + k + (?c - k)) mod 100" using that by simp
      then have "(?c - k) mod 100 = 0" by (metis add_diff_cancel_left' mod_eq_dvd_iff_nat le_add1 mod_eq_0_iff_dvd)
      then show False using that c by simp
    qed
    have "node_bytes ?node = ?payload" using len report_length [OF len(1)] by (simp add: node_bytes_def)
    then show ?thesis
      using c b other other [THEN not_sym] unfolding report_queue_def out by (auto simp: nth_list_update)
  qed
qed

lemma take_report_queue:
  assumes wf: "rq_wf dx"
  shows "report_queue dx = [] \<Longrightarrow> take_report dx = (None, dx)"
    "report_queue dx = r # rs \<Longrightarrow> \<exists>n d. take_report dx = (Some n, d) \<and> node_bytes n = r \<and>
       report_queue d = rs \<and> rq_wf d \<and> d = dx\<lparr>ReportHead := ReportHead d, ReportCount := ReportCount d\<rparr>"
proof -
  have b: "0 \<le> ReportHead dx" "ReportHead dx < 100" "0 \<le> ReportCount dx" "ReportCount dx \<le> 100"
    using wf by (simp_all add: rq_wf_def)
  show "take_report dx = (None, dx)" if "report_queue dx = []"
    using that by (simp add: report_queue_def take_report_def)
  assume q: "report_queue dx = r # rs"
  then have "nat (ReportCount dx) = Suc (length rs)" by (metis length_Cons length_report_queue)
  then have c: "ReportCount dx > 0" "nat (ReportCount dx - 1) = length rs" by simp_all
  have t: "to_s32 (ReportHead dx + 1) = ReportHead dx + 1" "to_s32 (ReportCount dx - 1) = ReportCount dx - 1"
    using b by (auto intro!: to_s32_id simp: is_s32_def)
  let ?d = "dx\<lparr>ReportHead := (ReportHead dx + 1) mod 100, ReportCount := ReportCount dx - 1\<rparr>"
  have out: "take_report dx = (Some (ReportQueue dx ! nat (ReportHead dx)), ?d)"
    using c b t by (simp add: take_report_def smod_pos)
  have head: "nat ((ReportHead dx + 1) mod 100) = (nat (ReportHead dx) + 1) mod 100"
    using b by (simp add: nat_mod_distrib nat_add_distrib)
  have "[0..<nat (ReportCount dx)] = 0 # map Suc [0..<length rs]"
    using \<open>nat (ReportCount dx) = _\<close> by (simp add: upt_conv_Cons map_Suc_upt del: upt_Suc)
  then have split: "r # rs = node_bytes (ReportQueue dx ! nat (ReportHead dx)) #
      map (\<lambda>i. node_bytes (ReportQueue dx ! ((nat (ReportHead dx) + Suc i) mod 100))) [0..<length rs]"
    using q b unfolding report_queue_def by (simp add: comp_def)
  have "report_queue ?d = rs"
    using split c(2) head by (simp add: report_queue_def mod_add_left_eq)
  moreover have "rq_wf ?d" using wf b c by (simp add: rq_wf_def)
  ultimately show "\<exists>n d. take_report dx = (Some n, d) \<and> node_bytes n = r \<and>
       report_queue d = rs \<and> rq_wf d \<and> d = dx\<lparr>ReportHead := ReportHead d, ReportCount := ReportCount d\<rparr>"
    using out split by auto
qed

section \<open>Handlers one at a time\<close>

datatype read_event = Emit u8 "u8 list" | Read ptr | Cancel ptr

fun handle_read :: "read_event \<Rightarrow> shell \<Rightarrow> shell" where
  "handle_read (Emit i d) dx = AdaptoidReportSink i d (of_nat (length d)) dx"
| "handle_read (Read irp) dx = snd (AdaptoidReadReport irp dx)"
| "handle_read (Cancel irp) dx =
     (let (took, dx) = io_cancel irp dx in if took then AdaptoidCancelReadIrp irp dx else dx)"

fun emits :: "read_event list \<Rightarrow> u8 list list" where
  "emits [] = []"
| "emits (Emit i d # evs) = (i # d) # emits evs"
| "emits (_ # evs) = emits evs"

fun reads :: "read_event list \<Rightarrow> ptr list" where
  "reads [] = []"
| "reads (Read irp # evs) = irp # reads evs"
| "reads (_ # evs) = reads evs"

text \<open>What the handlers promise, over lists: reports wait in \<open>rh_queue\<close>, requests in \<open>rh_waiting\<close>. A report goes to the
  request that has waited longest, else to the end of the queue, else, with a hundred queued, nowhere; a request gets
  the oldest report, else it waits, unless the device is being removed or the request was cancelled before it came.\<close>

record read_host =
  rh_queue :: "u8 list list"
  rh_waiting :: "ptr list"
  rh_got :: "(ptr \<times> u8 list) list"
  rh_asked :: "ptr \<Rightarrow> bool"

definition copied :: "(ptr \<Rightarrow> u32 option) \<Rightarrow> ptr \<Rightarrow> u8 list \<Rightarrow> (ptr \<times> u8 list) list" where
  "copied rm irp x = (case rm irp of None \<Rightarrow> [] | Some n \<Rightarrow> [(irp, take (unat n) x)])"

fun read_spec :: "(ptr \<Rightarrow> u32 option) \<Rightarrow> bool \<Rightarrow> read_event \<Rightarrow> read_host \<Rightarrow> read_host" where
  "read_spec rm removed (Emit i d) h =
     (case rh_waiting h of
        irp # rest \<Rightarrow> h\<lparr>rh_waiting := rest, rh_got := rh_got h @ copied rm irp (i # d)\<rparr>
      | [] \<Rightarrow> if length (rh_queue h) < 100 then h\<lparr>rh_queue := rh_queue h @ [i # d]\<rparr> else h)"
| "read_spec rm removed (Read irp) h =
     (case rh_queue h of
        x # xs \<Rightarrow> h\<lparr>rh_queue := xs, rh_got := rh_got h @ copied rm irp x\<rparr>
      | [] \<Rightarrow> if removed \<or> rh_asked h irp then h else h\<lparr>rh_waiting := rh_waiting h @ [irp]\<rparr>)"
| "read_spec rm removed (Cancel irp) h =
     h\<lparr>rh_waiting := remove1 irp (rh_waiting h), rh_asked := (rh_asked h)(irp := True)\<rparr>"

definition read_abs :: "shell \<Rightarrow> read_host" where
  "read_abs dx = \<lparr>rh_queue = report_queue dx, rh_waiting = PendingReads dx, rh_got = delivered dx, rh_asked = cancel_asked dx\<rparr>"

text \<open>The ring is sound, and the requests that can still be cancelled are those that wait.\<close>

definition seq_ok :: "shell \<Rightarrow> bool" where
  "seq_ok dx \<longleftrightarrow> rq_wf dx \<and> distinct (PendingReads dx) \<and> (\<forall>irp. armed dx irp \<longleftrightarrow> irp \<in> set (PendingReads dx))"

definition read_env :: "shell \<Rightarrow> (ptr \<Rightarrow> u32 option) \<times> bool" where
  "read_env dx = (room dx, Removed (RemoveLockB dx))"

lemma seq_okD:
  assumes "seq_ok dx"
  shows "rq_wf dx" "distinct (PendingReads dx)" "armed dx irp \<longleftrightarrow> irp \<in> set (PendingReads dx)"
  using assms by (auto simp: seq_ok_def)

lemma complete_read_bytes:
  assumes "unat len \<le> 16"
  shows "\<exists>st n. AdaptoidCompleteRead irp bytes len dx =
    dx\<lparr>delivered := delivered dx @ copied (room dx) irp (take (unat len) bytes),
       completed_irps := completed_irps dx @ [(irp, st, n)]\<rparr>"
proof (cases "room dx irp")
  case None
  then show ?thesis by (auto simp: AdaptoidCompleteRead_def AdaptoidCompleteIrp_def copied_def)
next
  case (Some space)
  have u: "unat (ucast len :: u32) = unat len"
    using assms by (simp add: unsigned_ucast_eq unsigned_take_bit_eq take_bit_nat_eq_self)
  then have "unat (if ucast len > space then space else ucast len) = min (unat space) (unat len)"
    by (auto simp: word_less_nat_alt min_def)
  then show ?thesis
    using Some by (auto simp: AdaptoidCompleteRead_def AdaptoidCompleteIrp_def copied_def Let_def min.commute)
qed

lemma dequeue_first:
  "PendingReads dx = [] \<Longrightarrow> AdaptoidDequeueRead dx = (None, dx)"
  "PendingReads dx = irp # rest \<Longrightarrow> armed dx irp \<Longrightarrow> AdaptoidDequeueRead dx =
     (Some irp, dx\<lparr>PendingReads := rest, PendingReadCount := to_s32 (PendingReadCount dx - 1),
        armed := (armed dx)(irp := False)\<rparr>)"
  by (simp_all add: AdaptoidDequeueRead.simps [of dx] unlink_head_def AdaptoidClaimIrp_def)

lemma queue_fields [simp]:
  "report_queue (dx\<lparr>PendingReads := x0\<rparr>) = report_queue dx" "rq_wf (dx\<lparr>PendingReads := x0\<rparr>) = rq_wf dx"
  "report_queue (dx\<lparr>PendingReadCount := x1\<rparr>) = report_queue dx" "rq_wf (dx\<lparr>PendingReadCount := x1\<rparr>) = rq_wf dx"
  "report_queue (dx\<lparr>armed := x2\<rparr>) = report_queue dx" "rq_wf (dx\<lparr>armed := x2\<rparr>) = rq_wf dx"
  "report_queue (dx\<lparr>cancel_asked := x3\<rparr>) = report_queue dx" "rq_wf (dx\<lparr>cancel_asked := x3\<rparr>) = rq_wf dx"
  "report_queue (dx\<lparr>delivered := x4\<rparr>) = report_queue dx" "rq_wf (dx\<lparr>delivered := x4\<rparr>) = rq_wf dx"
  "report_queue (dx\<lparr>completed_irps := x5\<rparr>) = report_queue dx" "rq_wf (dx\<lparr>completed_irps := x5\<rparr>) = rq_wf dx"
  "report_queue (dx\<lparr>RemoveLockB := x6\<rparr>) = report_queue dx" "rq_wf (dx\<lparr>RemoveLockB := x6\<rparr>) = rq_wf dx"
  by (simp_all add: report_queue_def rq_wf_def)

lemma lock_removed:
  "Removed (AdaptoidLockRelease l) = Removed l" "Removed (snd (AdaptoidLockAcquire l)) = Removed l"
  "NT_SUCCESS (fst (AdaptoidLockAcquire l)) \<longleftrightarrow> \<not> Removed l"
proof -
  have "NT_SUCCESS STATUS_SUCCESS" "\<not> NT_SUCCESS STATUS_DELETE_PENDING" by code_simp+
  then show "Removed (AdaptoidLockRelease l) = Removed l" "Removed (snd (AdaptoidLockAcquire l)) = Removed l"
    "NT_SUCCESS (fst (AdaptoidLockAcquire l)) \<longleftrightarrow> \<not> Removed l"
    by (simp_all add: AdaptoidLockRelease_def AdaptoidLockAcquire_def lock_drop_def Let_def)
qed

text \<open>Each handler does what the specification says, and keeps the invariant and the surroundings.\<close>

definition does :: "read_event \<Rightarrow> shell \<Rightarrow> bool" where
  "does ev dx \<longleftrightarrow> seq_ok (handle_read ev dx) \<and> read_env (handle_read ev dx) = read_env dx \<and>
     read_abs (handle_read ev dx) = read_spec (room dx) (Removed (RemoveLockB dx)) ev (read_abs dx)"

lemma emit_does:
  assumes ok: "seq_ok dx" and len: "length d \<le> 15"
  shows "does (Emit i d) dx"
proof -
  let ?len = "of_nat (length d) :: u32"
  have u: "unat ?len = length d" using len by (simp add: unat_of_nat take_bit_nat_eq_self)
  have gate: "\<not> ?len + 1 > 16"
    using len u by (simp add: word_less_nat_alt unat_word_ariths(1))
  have l8: "unat (ucast (?len + 1) :: u8) = length d + 1" using report_length [of ?len] len u by simp
  show ?thesis
  proof (cases "PendingReads dx")
    case Nil
    have out: "handle_read (Emit i d) dx = enqueue_report i d ?len dx"
      using gate by (simp add: AdaptoidReportSink_def dequeue_first(1) [OF Nil])
    have frame: "PendingReads (enqueue_report i d ?len dx) = PendingReads dx" "armed (enqueue_report i d ?len dx) = armed dx"
      "room (enqueue_report i d ?len dx) = room dx" "delivered (enqueue_report i d ?len dx) = delivered dx"
      "cancel_asked (enqueue_report i d ?len dx) = cancel_asked dx" "RemoveLockB (enqueue_report i d ?len dx) = RemoveLockB dx"
      by (simp_all add: enqueue_report_def Let_def)
    show ?thesis
      unfolding does_def out using enqueue_queue [OF seq_okD(1) [OF ok], of ?len d i] frame u len ok Nil
      by (simp add: seq_ok_def read_abs_def read_env_def)
  next
    case (Cons irp rest)
    have arm: "armed dx irp" using seq_okD(3) [OF ok] Cons by simp
    let ?d = "dx\<lparr>PendingReads := rest, PendingReadCount := to_s32 (PendingReadCount dx - 1),
        armed := (armed dx)(irp := False)\<rparr>"
    obtain st n where c: "AdaptoidCompleteRead irp (i # d) (ucast (?len + 1)) ?d =
        ?d\<lparr>delivered := delivered ?d @ copied (room ?d) irp (take (unat (ucast (?len + 1) :: u8)) (i # d)),
           completed_irps := completed_irps ?d @ [(irp, st, n)]\<rparr>"
      using complete_read_bytes [of "ucast (?len + 1)" irp "i # d" ?d] l8 len by auto
    have "take (unat ?len) d = d" using u by simp
    then have out: "handle_read (Emit i d) dx = release_B (?d\<lparr>delivered := delivered dx @ copied (room dx) irp (i # d),
        completed_irps := completed_irps dx @ [(irp, st, n)]\<rparr>)"
      using gate c l8 by (simp add: AdaptoidReportSink_def dequeue_first(2) [OF Cons arm])
    show ?thesis
      unfolding does_def out using ok Cons
      by (auto simp: seq_ok_def read_abs_def read_env_def release_B_def lock_removed)
  qed
qed

lemma read_does:
  assumes ok: "seq_ok dx" and fresh: "irp \<notin> set (PendingReads dx)"
  shows "does (Read irp) dx"
proof (cases "report_queue dx")
  case (Cons r rs)
  obtain n d where t: "take_report dx = (Some n, d)" "node_bytes n = r" "report_queue d = rs" "rq_wf d"
    "d = dx\<lparr>ReportHead := ReportHead d, ReportCount := ReportCount d\<rparr>"
    using take_report_queue(2) [OF seq_okD(1) [OF ok] Cons] by blast
  have same: "PendingReads d = PendingReads dx" "armed d = armed dx" "room d = room dx" "delivered d = delivered dx"
    "cancel_asked d = cancel_asked dx" "RemoveLockB d = RemoveLockB dx"
    by (subst t(5), simp)+
  have "n \<in> set (ReportQueue dx)"
    using t(1) seq_okD(1) [OF ok] by (auto simp: take_report_def rq_wf_def split: if_splits)
  then have "unat (Length n) \<le> 16" using seq_okD(1) [OF ok] by (simp add: rq_wf_def)
  from complete_read_bytes [OF this, of irp "Data n" d] obtain st k where
    out: "handle_read (Read irp) dx = d\<lparr>delivered := delivered d @ copied (room d) irp r,
      completed_irps := completed_irps d @ [(irp, st, k)]\<rparr>"
    using t(1,2) by (auto simp: AdaptoidReadReport_eq node_bytes_def)
  show ?thesis
    unfolding does_def out using ok Cons t(3,4) same by (simp add: seq_ok_def read_abs_def read_env_def)
next
  case Nil
  have t: "take_report dx = (None, dx)" by (rule take_report_queue(1) [OF seq_okD(1) [OF ok] Nil])
  obtain st l where lock: "AdaptoidLockAcquire (RemoveLockB dx) = (st, l)" by fastforce
  then have l: "Removed l = Removed (RemoveLockB dx)" "NT_SUCCESS st \<longleftrightarrow> \<not> Removed (RemoveLockB dx)"
    using lock_removed(2,3) [of "RemoveLockB dx"] by simp_all
  show ?thesis
  proof (cases "Removed (RemoveLockB dx)")
    case True
    then have out: "handle_read (Read irp) dx =
        AdaptoidCompleteIrp irp STATUS_DELETE_PENDING 0 (dx\<lparr>RemoveLockB := l\<rparr>)"
      using l by (simp add: AdaptoidReadReport_eq t acquire_B_def lock)
    show ?thesis
      unfolding does_def out using ok Nil True l
      by (auto simp: AdaptoidCompleteIrp_def seq_ok_def read_abs_def read_env_def)
  next
    case False
    then have out: "handle_read (Read irp) dx = AdaptoidQueueRead irp (dx\<lparr>RemoveLockB := l\<rparr>)"
      using l by (simp add: AdaptoidReadReport_eq t acquire_B_def lock)
    show ?thesis
      unfolding does_def out using ok fresh Nil False l
      by (auto simp: AdaptoidQueueRead_def park_locked_def AdaptoidClaimIrp_def AdaptoidUnlinkRead_def
          finish_cancelled_def release_B_def AdaptoidCompleteIrp_def seq_ok_def read_abs_def read_env_def Let_def
          remove1_append lock_removed)
  qed
qed

lemma cancel_does: "seq_ok dx \<Longrightarrow> does (Cancel irp) dx"
  by (auto simp: does_def io_cancel_def AdaptoidClaimIrp_def AdaptoidCancelReadIrp_def AdaptoidUnlinkRead_def
      finish_cancelled_def release_B_def AdaptoidCompleteIrp_def seq_ok_def read_abs_def read_env_def Let_def lock_removed
      remove1_idem)

text \<open>At most the request that comes joins those that wait.\<close>

lemma spec_waiting: "set (rh_waiting (read_spec rm removed ev h)) \<subseteq> set (rh_waiting h) \<union> set (reads [ev])"
  by (cases ev) (auto split: list.splits dest: set_remove1_subset [THEN subsetD])

lemma run_does:
  assumes "seq_ok dx" and "\<forall>i d. Emit i d \<in> set evs \<longrightarrow> length d \<le> 15"
    and "distinct (reads evs)" and "set (reads evs) \<inter> set (PendingReads dx) = {}"
  shows "seq_ok (fold handle_read evs dx) \<and> read_env (fold handle_read evs dx) = read_env dx \<and>
    read_abs (fold handle_read evs dx) = fold (read_spec (room dx) (Removed (RemoveLockB dx))) evs (read_abs dx)"
  using assms
proof (induction evs arbitrary: dx)
  case (Cons ev evs)
  have d: "does ev dx" using Cons.prems by (cases ev) (auto intro: emit_does read_does cancel_does)
  let ?d = "handle_read ev dx"
  have w: "set (PendingReads ?d) \<subseteq> set (PendingReads dx) \<union> set (reads [ev])"
    using spec_waiting [of "room dx" "Removed (RemoveLockB dx)" ev "read_abs dx"] d by (simp add: does_def read_abs_def) (metis read_host.select_convs(2))
  have "distinct (reads evs)" "set (reads evs) \<inter> set (reads [ev]) = {}" "set (reads evs) \<inter> set (PendingReads dx) = {}"
    using Cons.prems(3,4) by (cases ev; auto)+
  then have "seq_ok (fold handle_read evs ?d) \<and> read_env (fold handle_read evs ?d) = read_env ?d \<and>
      read_abs (fold handle_read evs ?d) = fold (read_spec (room ?d) (Removed (RemoveLockB ?d))) evs (read_abs ?d)"
    using Cons.prems(2) d w by (intro Cons.IH) (auto simp: does_def)
  then show ?case using d by (simp add: does_def read_env_def)
qed simp

text \<open>The specification is first in, first out as long as the buffers take a whole report and nobody waits beside a queue.
  What is left out is what came to a full queue.\<close>

lemma spec_order:
  assumes "\<And>irp. \<exists>n. rm irp = Some n \<and> 16 \<le> n" and "\<forall>i d. Emit i d \<in> set evs \<longrightarrow> length d \<le> 15"
    and "\<forall>x\<in>set (rh_queue h). length x \<le> 16" and "rh_queue h = [] \<or> rh_waiting h = []"
  shows "\<exists>kept. kept \<in> set (subseqs (emits evs)) \<and>
    map snd (rh_got (fold (read_spec rm removed) evs h)) @ rh_queue (fold (read_spec rm removed) evs h) =
      map snd (rh_got h) @ rh_queue h @ kept \<and>
    (length (rh_queue h) + length (emits evs) \<le> 100 \<longrightarrow> kept = emits evs)"
  using assms(2-)
proof (induction evs arbitrary: h)
  case (Cons ev evs)
  let ?h = "read_spec rm removed ev h"
  have cp: "map snd (copied rm irp x) = [x]" if "length x \<le> 16" for irp x
  proof -
    obtain n where n: "rm irp = Some n" "16 \<le> n" using assms(1) by blast
    then have "16 \<le> unat n" by (simp add: word_le_nat_alt)
    then show ?thesis using n that by (simp add: copied_def)
  qed
  have ok: "\<forall>x\<in>set (rh_queue ?h). length x \<le> 16" "rh_queue ?h = [] \<or> rh_waiting ?h = []"
    using Cons.prems by (cases ev; auto split: list.splits)+
  from Cons.IH [OF _ ok] Cons.prems(1) obtain kept where k: "kept \<in> set (subseqs (emits evs))"
    "map snd (rh_got (fold (read_spec rm removed) evs ?h)) @ rh_queue (fold (read_spec rm removed) evs ?h) =
      map snd (rh_got ?h) @ rh_queue ?h @ kept"
    "length (rh_queue ?h) + length (emits evs) \<le> 100 \<longrightarrow> kept = emits evs" by auto
  show ?case
  proof (cases ev)
    case (Emit i d)
    have d: "length (i # d) \<le> 16" using Cons.prems(1) Emit by auto
    show ?thesis
    proof (cases "rh_waiting h = [] \<and> \<not> length (rh_queue h) < 100")
      case True
      then show ?thesis using k Emit by (intro exI [of _ kept]) (auto simp: Let_def)
    next
      case False
      have "map snd (rh_got ?h) @ rh_queue ?h = map snd (rh_got h) @ rh_queue h @ [i # d]" "length (rh_queue ?h) \<le> length (rh_queue h) + 1"
        using False Emit Cons.prems(3) cp [OF d] by (auto split: list.splits)
      then show ?thesis using k Emit by (intro exI [of _ "(i # d) # kept"]) (auto simp: Let_def)
    qed
  next
    case (Read irp)
    have "map snd (rh_got ?h) @ rh_queue ?h = map snd (rh_got h) @ rh_queue h" "length (rh_queue ?h) \<le> length (rh_queue h)"
      using Read cp Cons.prems(2) by (auto split: list.splits)
    then show ?thesis using k Read by (intro exI [of _ kept]) auto
  next
    case (Cancel irp)
    then show ?thesis using k by (intro exI [of _ kept]) auto
  qed
qed simp

text \<open>C7. Run one at a time, on reports of at most 15 bytes and requests each used once, the handlers are the queue of the
  specification: what is queued, who waits, what was copied to whom. When every buffer takes a whole report, and
  nobody waits while reports are queued, what has been copied to the readers, followed by what is still queued, is
  what was emitted, in that order, less what met a full queue; nothing is lost while no more than 100 reports are
  emitted on top of those queued.\<close>

theorem reports_in_order:
  assumes "seq_ok dx" and "\<forall>i d. Emit i d \<in> set evs \<longrightarrow> length d \<le> 15"
    and "distinct (reads evs)" and "set (reads evs) \<inter> set (PendingReads dx) = {}"
  shows "read_abs (fold handle_read evs dx) = fold (read_spec (room dx) (Removed (RemoveLockB dx))) evs (read_abs dx) \<and>
    ((\<forall>irp. \<exists>n. room dx irp = Some n \<and> 16 \<le> n) \<and> (report_queue dx = [] \<or> PendingReads dx = []) \<longrightarrow>
      (\<exists>kept. kept \<in> set (subseqs (emits evs)) \<and>
        map snd (delivered (fold handle_read evs dx)) @ report_queue (fold handle_read evs dx) =
          map snd (delivered dx) @ report_queue dx @ kept \<and>
        (length (report_queue dx) + length (emits evs) \<le> 100 \<longrightarrow> kept = emits evs)))"
proof -
  have short: "\<forall>x\<in>set (rh_queue (read_abs dx)). length x \<le> 16"
  proof -
    have "length (node_bytes (ReportQueue dx ! (k mod 100))) \<le> 16" for k
      using seq_okD(1) [OF assms(1)] by (auto simp: rq_wf_def node_bytes_def)
    then show ?thesis by (auto simp: read_abs_def report_queue_def)
  qed
  have run: "read_abs (fold handle_read evs dx) = fold (read_spec (room dx) (Removed (RemoveLockB dx))) evs (read_abs dx)"
    using run_does [OF assms] by simp
  have fields: "rh_queue (read_abs d) = report_queue d" "rh_got (read_abs d) = delivered d" "rh_waiting (read_abs d) = PendingReads d" for d
    by (simp_all add: read_abs_def)
  show ?thesis
    using spec_order [of "room dx" evs "read_abs dx" "Removed (RemoveLockB dx)"] assms(2) short
    unfolding run [symmetric] fields by simp
qed

text \<open>An extension just initialised, every read with a 16-byte buffer.\<close>

definition ready_ext :: shell where
  "ready_ext = (AdaptoidDevExtInit zeroed_ext)\<lparr>room := (\<lambda>_. Some 16)\<rparr>"

lemma ready_ext_ok: "seq_ok ready_ext" "report_queue ready_ext = []" "delivered ready_ext = []"
  "PendingReads ready_ext = []" "room ready_ext = (\<lambda>_. Some 16)" "\<not> Removed (RemoveLockB ready_ext)"
  "\<not> cancel_asked ready_ext irp"
  by (simp_all add: AdaptoidLockInit_def ready_ext_def AdaptoidDevExtInit_def zeroed_ext_def seq_ok_def rq_wf_def report_queue_def
      zero_node_def)

theorem reports_in_order_witness:
  "map snd (delivered (fold handle_read [Emit 1 [7], Read 5, Read 6, Cancel 6, Emit 1 [8]] ready_ext)) @
   report_queue (fold handle_read [Emit 1 [7], Read 5, Read 6, Cancel 6, Emit 1 [8]] ready_ext) =
   [[1, 7], [1, 8]]"
proof -
  define evs where "evs = [Emit 1 [7], Read 5, Read 6, Cancel 6, Emit 1 [8]]"
  have e: "\<forall>i d. Emit i d \<in> set evs \<longrightarrow> length d \<le> 15" "distinct (reads evs)" "emits evs = [[1, 7], [1, 8]]"
    by (auto simp: evs_def)
  have r: "(\<forall>irp. \<exists>n. room ready_ext irp = Some n \<and> 16 \<le> n) \<and> (report_queue ready_ext = [] \<or> PendingReads ready_ext = [])"
    by (simp add: ready_ext_ok)
  obtain kept where "map snd (delivered (fold handle_read evs ready_ext)) @ report_queue (fold handle_read evs ready_ext) =
      map snd (delivered ready_ext) @ report_queue ready_ext @ kept"
    "length (report_queue ready_ext) + length (emits evs) \<le> 100 \<longrightarrow> kept = emits evs"
    using reports_in_order [OF ready_ext_ok(1) e(1,2)] r ready_ext_ok(4) by (metis inf_bot_right list.set(1))
  then show ?thesis unfolding evs_def [symmetric] by (simp add: ready_ext_ok(2,3) e(3))
qed

text \<open>C40. Interleaved, they are not: \<open>AdaptoidReadReport\<close> drops the spin lock between finding the
  ring empty and parking the request. On any device that nobody has read from, whatever the reports: a report that
  is emitted there stays in the ring although a request waits, the next report goes to that request, and the next
  request gets the older one.\<close>

theorem read_race_reorders:
  assumes "seq_ok dx" and "report_queue dx = []" and "PendingReads dx = []" and "\<not> Removed (RemoveLockB dx)"
    and "\<not> cancel_asked dx r" and "length a \<le> 15" and "length b \<le> 15" and "r' \<noteq> r"
  shows "delivered (handle_read (Read r') (handle_read (Emit j b)
      (snd (AdaptoidReadReport_between (handle_read (Emit i a)) r dx)))) =
    delivered dx @ copied (room dx) r (j # b) @ copied (room dx) r' (i # a)"
proof -
  let ?m = "handle_read (Emit i a) dx"
  have m: "does (Emit i a) dx" by (rule emit_does [OF assms(1,6)])
  then have q: "report_queue ?m = [i # a]" "PendingReads ?m = []" "delivered ?m = delivered dx" "cancel_asked ?m = cancel_asked dx"
    "room ?m = room dx" "\<not> Removed (RemoveLockB ?m)" "seq_ok ?m"
    using assms(2-4) by (auto simp: does_def read_abs_def read_env_def)
  obtain st l where lock: "AdaptoidLockAcquire (RemoveLockB ?m) = (st, l)" by fastforce
  then have l: "\<not> Removed l" "NT_SUCCESS st" using lock_removed(2,3) [of "RemoveLockB ?m"] q(6) by simp_all
  define p where "p = snd (AdaptoidReadReport_between (handle_read (Emit i a)) r dx)"
  define e where "e = handle_read (Emit j b) p"
  have p: "p = AdaptoidQueueRead r (?m\<lparr>RemoveLockB := l\<rparr>)"
    using take_report_queue(1) [OF seq_okD(1) [OF assms(1)] assms(2)] lock l
    by (simp add: p_def AdaptoidReadReport_between_def acquire_B_def)
  have after: "seq_ok p" "read_abs p = read_abs ?m\<lparr>rh_waiting := [r]\<rparr>" "room p = room dx" "\<not> Removed (RemoveLockB p)"
    unfolding p using q l assms(5)
    by (auto simp: AdaptoidQueueRead_def park_locked_def seq_ok_def read_abs_def Let_def)
  then have "does (Emit j b) p" by (intro emit_does assms)
  then have f: "seq_ok e" "room e = room dx" "\<not> Removed (RemoveLockB e)"
    "read_abs e = read_abs ?m\<lparr>rh_waiting := [], rh_got := delivered dx @ copied (room dx) r (j # b)\<rparr>"
    using after q unfolding does_def e_def [symmetric] by (auto simp: read_env_def read_abs_def)
  have "PendingReads e = []" using arg_cong [OF f(4), of rh_waiting] by (simp add: read_abs_def)
  then have "does (Read r') e" using f(1) by (intro read_does) simp_all
  then have "read_abs (handle_read (Read r') e) = read_spec (room dx) False (Read r') (read_abs e)"
    using f(2,3) unfolding does_def by simp
  then have "rh_got (read_abs (handle_read (Read r') e)) = delivered dx @ copied (room dx) r (j # b) @ copied (room dx) r' (i # a)"
    unfolding f(4) using q(1) by (simp add: read_abs_def)
  then show ?thesis unfolding e_def p_def by (simp only: read_abs_def read_host.select_convs)
qed

theorem read_race_reorders_witness:
  "delivered (handle_read (Read 6) (handle_read (Emit 1 [8])
     (snd (AdaptoidReadReport_between (handle_read (Emit 1 [7])) 5 ready_ext)))) = [(5, [1, 8]), (6, [1, 7])]"
proof -
  have "copied (\<lambda>_. Some 16) 5 [1, 8] = [(5, [1, 8])]" "copied (\<lambda>_. Some 16) 6 [1, 7] = [(6, [1, 7])]" by (simp_all add: copied_def)
  then show ?thesis
    by (subst read_race_reorders [OF ready_ext_ok(1,2,4,6,7)]) (simp_all add: ready_ext_ok(3,5))
qed

section \<open>Every interleaving completes a read exactly once\<close>

text \<open>The extension together with the requests somebody holds between two locked sections: unlinked
  but not claimed yet (\<open>in_hand\<close>), claimed for delivery (\<open>owned\<close>), taken by the cancel routine
  (\<open>cancelling\<close>); \<open>parked\<close> are all the reads that were ever parked.\<close>

record read_sys =
  dev :: shell
  in_hand :: "ptr list"
  owned :: "ptr list"
  cancelling :: "ptr list"
  parked :: "ptr list"

inductive read_step :: "read_sys \<Rightarrow> read_sys \<Rightarrow> bool" where
  step_park: "irp \<notin> set (parked s) \<Longrightarrow> acquire_B (dev s) = (st, d) \<Longrightarrow> NT_SUCCESS st \<Longrightarrow>
     park_locked irp d = (cancelled, d') \<Longrightarrow>
     read_step s (s\<lparr>dev := d', parked := irp # parked s,
       cancelling := (if cancelled then irp # cancelling s else cancelling s)\<rparr>)"
| step_unlink: "unlink_head (dev s) = (Some irp, d) \<Longrightarrow>
     read_step s (s\<lparr>dev := d, in_hand := irp # in_hand s\<rparr>)"
| step_claim: "irp \<in> set (in_hand s) \<Longrightarrow> AdaptoidClaimIrp irp (dev s) = (ours, d) \<Longrightarrow>
     read_step s (s\<lparr>dev := d, in_hand := remove1 irp (in_hand s),
       owned := (if ours then irp # owned s else owned s)\<rparr>)"
| step_deliver: "irp \<in> set (owned s) \<Longrightarrow>
     read_step s (s\<lparr>dev := release_B (AdaptoidCompleteRead irp bytes len (dev s)), owned := remove1 irp (owned s)\<rparr>)"
| step_fail: "irp \<in> set (owned s) \<Longrightarrow>
     read_step s (s\<lparr>dev := finish_cancelled irp (dev s), owned := remove1 irp (owned s)\<rparr>)"
| step_cancel: "io_cancel irp (dev s) = (took, d) \<Longrightarrow>
     read_step s (s\<lparr>dev := d, cancelling := (if took then irp # cancelling s else cancelling s)\<rparr>)"
| step_cancelled: "irp \<in> set (cancelling s) \<Longrightarrow>
     read_step s (s\<lparr>dev := AdaptoidCancelReadIrp irp (dev s), cancelling := remove1 irp (cancelling s)\<rparr>)"
| step_report: "read_step s (s\<lparr>dev := enqueue_report i bytes len (dev s)\<rparr>)"
| step_take: "take_report (dev s) = (r, d) \<Longrightarrow> read_step s (s\<lparr>dev := d\<rparr>)"

definition times_completed :: "ptr \<Rightarrow> shell \<Rightarrow> nat" where
  "times_completed irp d = length (filter (\<lambda>c. fst c = irp) (completed_irps d))"

text \<open>How many parties may complete a request, plus how often it has been completed.\<close>

definition claims_on :: "ptr \<Rightarrow> read_sys \<Rightarrow> nat" where
  "claims_on irp s = times_completed irp (dev s) + count_list (owned s) irp +
     count_list (cancelling s) irp + of_bool (armed (dev s) irp)"

definition read_inv :: "s32 \<Rightarrow> read_sys \<Rightarrow> bool" where
  "read_inv base s \<longleftrightarrow> (\<forall>irp. claims_on irp s = of_bool (irp \<in> set (parked s))) \<and>
     (\<forall>irp. armed (dev s) irp \<longrightarrow> irp \<in> set (PendingReads (dev s)) \<union> set (in_hand s)) \<and>
     IoCount (RemoveLockB (dev s)) =
       to_s32 (base + int (length (parked s)) - int (length (completed_irps (dev s))))"

lemma count_list_remove1:
  "count_list (remove1 x xs) y = (if x = y \<and> x \<in> set xs then count_list xs y - 1 else count_list xs y)"
  by (induction xs) (auto simp: count_list_0_iff)

lemma count_list_in: "x \<in> set xs \<Longrightarrow> 0 < count_list xs x"
  by (induction xs) auto

text \<open>The few effects a step has on what the invariant reads.\<close>

lemma park_locked_effect:
  assumes "park_locked irp d = (cancelled, d')"
  shows "armed d' = (armed d)(irp := \<not> cancelled)" "completed_irps d' = completed_irps d"
    "RemoveLockB d' = RemoveLockB d" "set (PendingReads d') \<supseteq> set (PendingReads d) - {irp}"
    "\<not> cancelled \<Longrightarrow> irp \<in> set (PendingReads d')"
  using assms by (auto simp: park_locked_def AdaptoidClaimIrp_def AdaptoidUnlinkRead_def Let_def
      remove1_append split: if_splits)

lemma acquire_B_effect:
  assumes "acquire_B d = (st, d')" and "NT_SUCCESS st"
  shows "armed d' = armed d" "completed_irps d' = completed_irps d" "PendingReads d' = PendingReads d"
    "IoCount (RemoveLockB d') = to_s32 (IoCount (RemoveLockB d) + 1)"
  using assms by (auto simp: acquire_B_def AdaptoidLockAcquire_def Let_def split: if_splits)

lemma complete_effect:
  "armed (AdaptoidCompleteRead irp b n d) = armed d" "RemoveLockB (AdaptoidCompleteRead irp b n d) = RemoveLockB d"
  "PendingReads (AdaptoidCompleteRead irp b n d) = PendingReads d"
  "\<exists>st k. completed_irps (AdaptoidCompleteRead irp b n d) = completed_irps d @ [(irp, st, k)]"
  by (simp_all add: AdaptoidCompleteRead_def AdaptoidCompleteIrp_def Let_def split: option.split)

lemma release_B_effect:
  "armed (release_B d) = armed d" "completed_irps (release_B d) = completed_irps d"
  "PendingReads (release_B d) = PendingReads d"
  "IoCount (RemoveLockB (release_B d)) = to_s32 (IoCount (RemoveLockB d) - 1)"
  by (simp_all add: release_B_def AdaptoidLockRelease_def lock_drop_def Let_def)

lemma to_s32_step: "to_s32 (to_s32 x + 1) = to_s32 (x + 1)" "to_s32 (to_s32 x - 1) = to_s32 (x - 1)"
  using to_s32_add [of x 1] to_s32_diff [of x 1] by (simp_all add: to_s32_id is_s32_def)

text \<open>A holder completes its request: one claim becomes one completion, one reference goes.\<close>

lemma finish_inv:
  assumes inv: "read_inv base s" and d: "armed d' = armed (dev s)"
    and comp: "completed_irps d' = completed_irps (dev s) @ [(irp, st, k)]"
    and pend: "\<And>r. armed (dev s) r \<Longrightarrow> r \<in> set (PendingReads (dev s)) \<Longrightarrow> r \<in> set (PendingReads d')"
    and lock: "IoCount (RemoveLockB d') = to_s32 (IoCount (RemoveLockB (dev s)) - 1)"
    and who: "irp \<in> set (owned s) \<and> t = s\<lparr>dev := d', owned := remove1 irp (owned s)\<rparr> \<or>
      irp \<in> set (cancelling s) \<and> t = s\<lparr>dev := d', cancelling := remove1 irp (cancelling s)\<rparr>"
  shows "read_inv base t"
proof -
  have times: "times_completed r d' = times_completed r (dev s) + of_bool (r = irp)" for r
    by (simp add: times_completed_def comp)
  have "claims_on r t = claims_on r s" for r
    using who count_list_in [of irp "owned s"] count_list_in [of irp "cancelling s"]
    by (auto simp: claims_on_def times d count_list_remove1)
  moreover have "IoCount (RemoveLockB (dev t)) =
      to_s32 (base + int (length (parked s)) - int (length (completed_irps (dev t))))"
    using inv who lock to_s32_step(2) [of "base + int (length (parked s)) - int (length (completed_irps (dev s)))"]
    by (auto simp: read_inv_def comp algebra_simps)
  moreover have "parked t = parked s" "in_hand t = in_hand s" "dev t = d'" using who by auto
  ultimately show ?thesis using inv pend d by (auto simp: read_inv_def)
qed

text \<open>A step that takes the armed routine moves the claim from the request to its new holder.\<close>

lemma disarm_inv:
  assumes inv: "read_inv base s" and ours: "armed (dev s) irp"
    and t: "t = s\<lparr>dev := (dev s)\<lparr>cancel_asked := f, armed := (armed (dev s))(irp := False)\<rparr>,
              in_hand := hand, owned := irp # owned s\<rparr> \<or>
            t = s\<lparr>dev := (dev s)\<lparr>cancel_asked := f, armed := (armed (dev s))(irp := False)\<rparr>,
              in_hand := hand, cancelling := irp # cancelling s\<rparr>"
    and hand: "\<And>r. r \<noteq> irp \<Longrightarrow> r \<in> set (in_hand s) \<Longrightarrow> r \<in> set hand"
  shows "read_inv base t"
proof -
  have "claims_on r t = claims_on r s" for r
    using t ours by (cases "r = irp"; elim disjE; simp add: claims_on_def times_completed_def)
  moreover have "parked t = parked s" "in_hand t = hand" "armed (dev t) = (armed (dev s))(irp := False)"
    "PendingReads (dev t) = PendingReads (dev s)" "RemoveLockB (dev t) = RemoveLockB (dev s)"
    "completed_irps (dev t) = completed_irps (dev s)"
    using t by auto
  ultimately show ?thesis using inv hand by (auto simp: read_inv_def split: if_splits)
qed

lemma read_inv_step:
  assumes "read_step s t" and "read_inv base s"
  shows "read_inv base t"
  using assms
proof (cases rule: read_step.cases)
  case (step_park irp st d cancelled d')
  note a = acquire_B_effect [OF step_park(3,4)] and p = park_locked_effect [OF step_park(5)]
  have zero: "claims_on irp s = 0" using assms(2) step_park(2) by (simp add: read_inv_def)
  then have "\<not> armed (dev s) irp" by (simp add: claims_on_def split: if_splits)
  then have "claims_on r t = of_bool (r \<in> set (parked t))" for r
    using assms(2) step_park(1,2) p a zero
    by (cases "r = irp") (auto simp: claims_on_def times_completed_def read_inv_def)
  moreover have "IoCount (RemoveLockB (dev t)) =
      to_s32 (base + int (length (parked t)) - int (length (completed_irps (dev t))))"
    using assms(2) step_park(1) p(2,3) a(2,4)
      to_s32_step(1) [of "base + int (length (parked s)) - int (length (completed_irps (dev s)))"]
    by (simp add: read_inv_def algebra_simps)
  ultimately show ?thesis
    using assms(2) step_park(1) p a by (auto simp: read_inv_def split: if_splits)
next
  case (step_unlink irp d)
  then have "armed d = armed (dev s)" "completed_irps d = completed_irps (dev s)"
    "RemoveLockB d = RemoveLockB (dev s)" "set (PendingReads (dev s)) = insert irp (set (PendingReads d))"
    by (auto simp: unlink_head_def split: list.splits)
  then show ?thesis
    using assms(2) step_unlink(1) by (auto simp: read_inv_def claims_on_def times_completed_def)
next
  case (step_claim irp ours d)
  show ?thesis
  proof (cases ours)
    case True
    then have "armed (dev s) irp" "d = (dev s)\<lparr>armed := (armed (dev s))(irp := False)\<rparr>"
      using step_claim(3) by (auto simp: AdaptoidClaimIrp_def)
    then show ?thesis
      using disarm_inv [OF assms(2), where irp = irp and t = t and f = "cancel_asked (dev s)" and
          hand = "remove1 irp (in_hand s)"] step_claim(1) True
      by simp
  next
    case False
    then have "\<not> armed (dev s) irp" "d = dev s"
      using step_claim(3) by (auto simp: AdaptoidClaimIrp_def fun_upd_idem)
    then have "claims_on r t = claims_on r s" for r using step_claim(1) False by (simp add: claims_on_def)
    then show ?thesis
      using assms(2) step_claim(1) False \<open>\<not> armed (dev s) irp\<close> \<open>d = dev s\<close>
      by (auto simp: read_inv_def) (metis UnE in_set_remove1)
  qed
next
  case (step_deliver irp bytes len)
  let ?c = "AdaptoidCompleteRead irp bytes len (dev s)"
  obtain st k where "completed_irps ?c = completed_irps (dev s) @ [(irp, st, k)]" using complete_effect(4) by blast
  then show ?thesis
    using finish_inv [OF assms(2), of "release_B ?c" irp st k t] step_deliver
    by (simp add: release_B_effect complete_effect)
next
  case (step_fail irp)
  then show ?thesis
    using finish_inv [OF assms(2), of "finish_cancelled irp (dev s)" irp STATUS_CANCELLED 0 t]
    by (simp add: finish_cancelled_def release_B_effect AdaptoidCompleteIrp_def)
next
  case (step_cancel irp took d)
  show ?thesis
  proof (cases took)
    case True
    then have "armed (dev s) irp"
      "d = (dev s)\<lparr>cancel_asked := (cancel_asked (dev s))(irp := True), armed := (armed (dev s))(irp := False)\<rparr>"
      using step_cancel(2) by (auto simp: io_cancel_def AdaptoidClaimIrp_def)
    then show ?thesis
      using disarm_inv [OF assms(2), where irp = irp and t = t and f = "(cancel_asked (dev s))(irp := True)" and
          hand = "in_hand s"] step_cancel(1) True
      by simp
  next
    case False
    then have "armed d = armed (dev s)" "completed_irps d = completed_irps (dev s)"
      "RemoveLockB d = RemoveLockB (dev s)" "PendingReads d = PendingReads (dev s)"
      using step_cancel(2) by (auto simp: io_cancel_def AdaptoidClaimIrp_def fun_upd_idem)
    then show ?thesis
      using assms(2) step_cancel(1) False by (auto simp: read_inv_def claims_on_def times_completed_def)
  qed
next
  case (step_cancelled irp)
  have "\<not> armed (dev s) irp"
  proof -
    have "claims_on irp s \<le> 1" using assms(2) by (simp add: read_inv_def)
    then show ?thesis using count_list_in [OF step_cancelled(2)] by (auto simp: claims_on_def split: if_splits)
  qed
  then have "r \<in> set (PendingReads (AdaptoidCancelReadIrp irp (dev s)))"
    if "armed (dev s) r" "r \<in> set (PendingReads (dev s))" for r
    using that \<open>\<not> armed (dev s) irp\<close> in_set_remove1 [of r irp "PendingReads (dev s)"]
    by (cases "r = irp") (auto simp: AdaptoidCancelReadIrp_def finish_cancelled_def release_B_effect AdaptoidUnlinkRead_def
        AdaptoidCompleteIrp_def)
  moreover have "armed (AdaptoidCancelReadIrp irp (dev s)) = armed (dev s)"
    "completed_irps (AdaptoidCancelReadIrp irp (dev s)) = completed_irps (dev s) @ [(irp, STATUS_CANCELLED, 0)]"
    "IoCount (RemoveLockB (AdaptoidCancelReadIrp irp (dev s))) = to_s32 (IoCount (RemoveLockB (dev s)) - 1)"
    by (simp_all add: AdaptoidCancelReadIrp_def finish_cancelled_def release_B_effect AdaptoidUnlinkRead_def
        AdaptoidCompleteIrp_def)
  ultimately show ?thesis
    using finish_inv [OF assms(2), of "AdaptoidCancelReadIrp irp (dev s)" irp STATUS_CANCELLED 0 t] step_cancelled
    by simp
next
  case (step_report i bytes len)
  have "armed (enqueue_report i bytes len d) = armed d" "completed_irps (enqueue_report i bytes len d) = completed_irps d"
    "RemoveLockB (enqueue_report i bytes len d) = RemoveLockB d" "PendingReads (enqueue_report i bytes len d) = PendingReads d" for d
    by (simp_all add: enqueue_report_def Let_def)
  then show ?thesis
    using assms(2) step_report by (simp add: read_inv_def claims_on_def times_completed_def)
next
  case (step_take r d)
  then have "armed d = armed (dev s)" "completed_irps d = completed_irps (dev s)"
    "RemoveLockB d = RemoveLockB (dev s)" "PendingReads d = PendingReads (dev s)"
    by (auto simp: take_report_def split: if_splits)
  then show ?thesis using assms(2) step_take(1) by (simp add: read_inv_def claims_on_def times_completed_def)
qed

definition read_start :: "shell \<Rightarrow> read_sys" where
  "read_start dx = \<lparr>dev = dx, in_hand = [], owned = [], cancelling = [], parked = []\<rparr>"

lemma read_inv_reachable:
  "read_step\<^sup>*\<^sup>* (read_start dx) s \<Longrightarrow> (\<And>irp. \<not> armed dx irp) \<Longrightarrow> completed_irps dx = [] \<Longrightarrow>
     is_s32 (IoCount (RemoveLockB dx)) \<Longrightarrow> read_inv (IoCount (RemoveLockB dx)) s"
proof (induction rule: rtranclp_induct)
  case base
  then show ?case by (simp add: read_inv_def read_start_def claims_on_def times_completed_def to_s32_id)
next
  case (step s t)
  then show ?case using read_inv_step by blast
qed

text \<open>C3. Cancellation safety, for every interleaving of the locked sections of the read path with
  the I/O manager's cancellations, deliveries and the queue: no parked read is ever completed twice;
  one not completed yet has exactly one party that will complete it, and is reachable (linked or in a
  dequeuer's hand) while its cancel routine is armed; and the remove lock carries one reference per
  parked read not yet completed, so a removal waits for exactly those.\<close>

theorem read_completed_once:
  assumes "read_step\<^sup>*\<^sup>* (read_start dx) s" and "\<forall>irp. \<not> armed dx irp" and "completed_irps dx = []"
    and "is_s32 (IoCount (RemoveLockB dx))"
  shows "(\<forall>irp\<in>set (parked s). times_completed irp (dev s) \<le> 1 \<and>
      (times_completed irp (dev s) = 0 \<longrightarrow>
        count_list (owned s) irp + count_list (cancelling s) irp + of_bool (armed (dev s) irp) = 1 \<and>
        (armed (dev s) irp \<longrightarrow> irp \<in> set (PendingReads (dev s)) \<union> set (in_hand s)))) \<and>
    IoCount (RemoveLockB (dev s)) =
      to_s32 (IoCount (RemoveLockB dx) + int (length (parked s)) - int (length (completed_irps (dev s))))"
proof -
  have inv: "read_inv (IoCount (RemoveLockB dx)) s" using read_inv_reachable assms by blast
  have one: "times_completed irp (dev s) + count_list (owned s) irp + count_list (cancelling s) irp +
      of_bool (armed (dev s) irp) = 1" if "irp \<in> set (parked s)" for irp
    using inv that by (simp add: read_inv_def claims_on_def)
  show ?thesis
  proof (intro conjI ballI impI)
    fix irp assume p: "irp \<in> set (parked s)"
    show "times_completed irp (dev s) \<le> 1" using one [OF p] by linarith
    show "count_list (owned s) irp + count_list (cancelling s) irp + of_bool (armed (dev s) irp) = 1"
      if "times_completed irp (dev s) = 0" using one [OF p] that by linarith
    show "irp \<in> set (PendingReads (dev s)) \<union> set (in_hand s)" if "armed (dev s) irp"
      using inv that by (simp add: read_inv_def)
  qed (use inv in \<open>simp add: read_inv_def\<close>)
qed

text \<open>A cancel that lands between the unlink and the claim: the dequeuer loses, the cancel routine
  finds the entry gone and completes the request all the same.\<close>

lemma cancel_in_the_window:
  "\<exists>s. read_step\<^sup>*\<^sup>* (read_start ready_ext) s \<and> parked s = [5] \<and> PendingReads (dev s) = [] \<and>
     cancelling s = [5] \<and> in_hand s = []"
proof -
  let ?s0 = "read_start ready_ext"
  obtain st d1 where 1: "acquire_B ready_ext = (st, d1)" "NT_SUCCESS st" "PendingReads d1 = []" "\<not> cancel_asked d1 5"
    by (simp add: acquire_B_def AdaptoidLockAcquire_def ready_ext_def AdaptoidDevExtInit_def zeroed_ext_def
        AdaptoidLockInit_def Let_def)
  obtain d2 where 2: "park_locked 5 d1 = (False, d2)" "PendingReads d2 = [5]" "armed d2 5"
    using 1(3,4) by (simp add: park_locked_def Let_def)
  obtain d3 where 3: "unlink_head d2 = (Some 5, d3)" "PendingReads d3 = []" "armed d3 5"
    using 2 by (simp add: unlink_head_def)
  obtain d4 where 4: "io_cancel 5 d3 = (True, d4)" "PendingReads d4 = []" "\<not> armed d4 5"
    using 3 by (simp add: io_cancel_def AdaptoidClaimIrp_def)
  obtain d5 where 5: "AdaptoidClaimIrp 5 d4 = (False, d5)" "PendingReads d5 = []"
    using 4 by (simp add: AdaptoidClaimIrp_def)
  have "read_step ?s0 (?s0\<lparr>dev := d2, parked := [5]\<rparr>)"
    using step_park [of 5 ?s0 st d1 False d2] 1 2 by (simp add: read_start_def)
  moreover have "read_step (?s0\<lparr>dev := d2, parked := [5]\<rparr>) (?s0\<lparr>dev := d3, in_hand := [5], parked := [5]\<rparr>)"
    using step_unlink [of "?s0\<lparr>dev := d2, parked := [5]\<rparr>" 5 d3] 3 by (simp add: read_start_def)
  moreover have "read_step (?s0\<lparr>dev := d3, in_hand := [5], parked := [5]\<rparr>)
      (?s0\<lparr>dev := d4, in_hand := [5], cancelling := [5], parked := [5]\<rparr>)"
    using step_cancel [of 5 "?s0\<lparr>dev := d3, in_hand := [5], parked := [5]\<rparr>" True d4] 4 by (simp add: read_start_def)
  moreover have "read_step (?s0\<lparr>dev := d4, in_hand := [5], cancelling := [5], parked := [5]\<rparr>)
      (?s0\<lparr>dev := d5, in_hand := [], cancelling := [5], parked := [5]\<rparr>)"
    using step_claim [of 5 "?s0\<lparr>dev := d4, in_hand := [5], cancelling := [5], parked := [5]\<rparr>" False d5] 5
    by (simp add: read_start_def)
  ultimately have "read_step\<^sup>*\<^sup>* ?s0 (?s0\<lparr>dev := d5, in_hand := [], cancelling := [5], parked := [5]\<rparr>)"
    by (meson rtranclp.rtrancl_refl rtranclp.rtrancl_into_rtrancl)
  then show ?thesis using 5(2) by (intro exI [of _ "?s0\<lparr>dev := d5, in_hand := [], cancelling := [5], parked := [5]\<rparr>"]) simp
qed

theorem read_completed_once_witness:
  "\<exists>s::read_sys. parked s = [5] \<and> cancelling s = [5] \<and> times_completed 5 (dev s) \<le> 1 \<and>
     IoCount (RemoveLockB (dev s)) = to_s32 (1 + 1 - int (length (completed_irps (dev s))))"
proof -
  obtain s where s: "read_step\<^sup>*\<^sup>* (read_start ready_ext) s" "parked s = [5]" "cancelling s = [5]"
    using cancel_in_the_window by blast
  have "\<forall>irp. \<not> armed ready_ext irp" "completed_irps ready_ext = []" "IoCount (RemoveLockB ready_ext) = 1"
    by (simp_all add: ready_ext_def AdaptoidDevExtInit_def zeroed_ext_def AdaptoidLockInit_def)
  then have "times_completed 5 (dev s) \<le> 1 \<and>
      IoCount (RemoveLockB (dev s)) = to_s32 (1 + 1 - int (length (completed_irps (dev s))))"
    using read_completed_once [OF s(1)] s(2,3) by (simp add: is_s32_def)
  then show ?thesis using s(2,3) by blast
qed

end
