(* ===== verification/Vendor_Slot.thy ===== *)
theory Vendor_Slot
  imports Report_Queue
begin

text \<open>
  The vendor transport of \<open>src_drv/wdm.c\<close>: the single slot through which every control transfer of
  the device goes (\<open>AdaptoidVendorTryClaim\<close>, \<open>AdaptoidVendorSend\<close>, \<open>AdaptoidVendorComplete\<close>), the
  functions the core calls it through, and its other clients (the enable toggle, the synchronous
  transfers). A device is a core whose world is the device extension. The bus is a parameter: what
  the pool and \<open>IoCallDriver\<close> answer, and, for a synchronous transfer, how the device answers it.
  A submitted transfer completes later, in an event of its own (\<open>AdaptoidVendorComplete\<close>).
  The theory interprets the interface \<open>vendor_transport\<close> of the effect engine on these functions.
\<close>

section \<open>The slot\<close>

definition AdaptoidVendorTryClaim :: "shell \<Rightarrow> bool \<times> shell" where
  "AdaptoidVendorTryClaim dx =
     (if State (Vendor dx) = SLOT_FREE
      then (True, dx\<lparr>Vendor := (Vendor dx)\<lparr>State := SLOT_CLAIMED, PendingIrp := 0\<rparr>\<rparr>)
      else (False, dx))"

definition AdaptoidVendorClaimForIrp :: "ptr \<Rightarrow> shell \<Rightarrow> bool \<times> shell" where
  "AdaptoidVendorClaimForIrp irp dx =
     (if State (Vendor dx) = SLOT_FREE
      then (True, dx\<lparr>Vendor := (Vendor dx)\<lparr>State := SLOT_CLAIMED, PendingIrp := irp\<rparr>\<rparr>)
      else (False, dx))"

text \<open>The locked section that frees a claimed slot and takes the request waiting on it.\<close>

definition vendor_release :: "shell \<Rightarrow> ptr \<times> shell" where
  "vendor_release dx =
     (if State (Vendor dx) = SLOT_CLAIMED
      then (PendingIrp (Vendor dx), dx\<lparr>Vendor := (Vendor dx)\<lparr>State := SLOT_FREE, PendingIrp := 0\<rparr>\<rparr>)
      else (0, dx))"

definition VendorFail :: "ntstatus \<Rightarrow> shell \<Rightarrow> shell" where
  "VendorFail st dx =
     (let (pending, dx) = vendor_release dx
      in if pending \<noteq> 0 then AdaptoidCompleteIrp pending st 0 dx else dx)"

text \<open>The bus: whether the two allocations succeed, and what \<open>IoCallDriver\<close> returns.\<close>

record bus =
  urb_pool :: "shell \<Rightarrow> bool"
  irp_pool :: "shell \<Rightarrow> bool"
  call_driver :: "vendor_setup \<Rightarrow> u32 \<Rightarrow> shell \<Rightarrow> ntstatus"

definition AdaptoidVendorSubmitUrb :: "bus \<Rightarrow> vendor_setup \<Rightarrow> u32 \<Rightarrow> shell \<Rightarrow> ntstatus \<times> shell" where
  "AdaptoidVendorSubmitUrb B setup len dx =
     (if \<not> urb_pool B dx then (STATUS_INSUFFICIENT_RESOURCES, dx)
      else if \<not> irp_pool B dx then (STATUS_INSUFFICIENT_RESOURCES, dx)
      else (call_driver B setup len dx, dx\<lparr>submitted := submitted dx @ [(setup, len)]\<rparr>))"

text \<open>What \<open>AdaptoidVendorSend\<close> puts back when the submission answers a failure.\<close>

definition vendor_unsend :: "ntstatus \<Rightarrow> shell \<Rightarrow> shell" where
  "vendor_unsend st dx =
     (let dx = (if State (Vendor dx) = SLOT_IN_FLIGHT
                then dx\<lparr>Vendor := (Vendor dx)\<lparr>State := SLOT_CLAIMED, Callback := Cb_null\<rparr>\<rparr> else dx)
      in release_B (VendorFail st dx))"

definition AdaptoidVendorSend ::
    "bus \<Rightarrow> vendor_setup \<Rightarrow> u32 \<Rightarrow> vendor_callback \<Rightarrow> shell \<Rightarrow> ntstatus \<times> shell" where
  "AdaptoidVendorSend B setup len cb dx =
     (let (st, dx) = acquire_B dx
      in if \<not> NT_SUCCESS st then (st, VendorFail st dx)
         else if fst setup \<noteq> 0x40 \<and> fst setup \<noteq> 0xC0
         then (STATUS_INVALID_PARAMETER, release_B (VendorFail STATUS_INVALID_PARAMETER dx))
         else if State (Vendor dx) \<noteq> SLOT_CLAIMED then (STATUS_DEVICE_BUSY, release_B dx)
         else
           let dx = dx\<lparr>Vendor := (Vendor dx)\<lparr>State := SLOT_IN_FLIGHT, Callback := cb,
                         SubmitTime := interrupt_time dx\<rparr>\<rparr>;
               (st, dx) = AdaptoidVendorSubmitUrb B setup len dx
           in if NT_SUCCESS st then (st, dx) else (st, vendor_unsend st dx))"

section \<open>What the core calls\<close>

definition AdaptoidCoreVendor :: "bus \<Rightarrow> core_vendor_req \<Rightarrow> shell \<Rightarrow> bool \<times> shell" where
  "AdaptoidCoreVendor B req dx =
     (let len = (if ucast (wLength req) > (64 :: u32) then 64 else ucast (wLength req));
          (st, dx) = AdaptoidVendorSend B
            (bmRequestType req, bRequest req, wValue req, wIndex req) len Cb_core dx
      in (NT_SUCCESS st, dx))"

definition AdaptoidCoreVendorClaim :: "shell \<Rightarrow> bool \<times> shell" where
  "AdaptoidCoreVendorClaim dx = AdaptoidVendorTryClaim dx"

text \<open>The script engine's two hooks, and its part of a device, are a parameter here.\<close>

record hooks =
  script_input :: "u8 list \<Rightarrow> u64 \<Rightarrow> shell core_state \<Rightarrow> shell core_state"
  script_tick :: "u64 \<Rightarrow> shell core_state \<Rightarrow> shell core_state"

definition device_seams :: "bus \<Rightarrow> hooks \<Rightarrow> shell seams" where
  "device_seams B H = \<lparr>call_sink = (\<lambda>_ _ i d n dx. AdaptoidReportSink i d n dx),
     call_vendor = (\<lambda>_ _ req dx. AdaptoidCoreVendor B req dx),
     call_claim = (\<lambda>_ _ dx. AdaptoidCoreVendorClaim dx),
     call_vendor_sync = (\<lambda>_ _ _ d _ cs. (False, d, cs)),
     call_input_hook = (\<lambda>_ _ pkt now cs. script_input H pkt now cs),
     call_tick_hook = (\<lambda>_ _ now cs. script_tick H now cs)\<rparr>"

section \<open>The completion\<close>

definition EnableSecondStage :: "bus \<Rightarrow> shell \<Rightarrow> bool \<times> shell" where
  "EnableSecondStage B dx = (True, snd (AdaptoidVendorSend B (0x40, 0x32, 0x0002, 0xFE80) 0 Cb_null dx))"

definition AdaptoidCoreVendorComplete :: "shell seams \<Rightarrow> shell core_state \<Rightarrow> bool \<times> shell core_state" where
  "AdaptoidCoreVendorComplete S cs =
     core_vendor_completed S (NT_SUCCESS (LastStatus (Vendor (world cs)))) (Some (CoreVendorReply (world cs)))
       (LastInformation (Vendor (world cs))) (interrupt_time (world cs)) cs"

fun run_callback :: "bus \<Rightarrow> shell seams \<Rightarrow> vendor_callback \<Rightarrow> shell core_state \<Rightarrow> bool \<times> shell core_state" where
  "run_callback B S Cb_null cs = (False, cs)"
| "run_callback B S Cb_core cs = AdaptoidCoreVendorComplete S cs"
| "run_callback B S Cb_enable_second cs =
     (let (taken, dx) = EnableSecondStage B (world cs) in (taken, cs\<lparr>world := dx\<rparr>))"

definition vendor_finish :: "shell \<Rightarrow> shell" where
  "vendor_finish dx =
     (let (pending, dx) = vendor_release dx
      in if pending \<noteq> 0
         then AdaptoidCompleteIrp pending (LastStatus (Vendor dx)) (LastInformation (Vendor dx)) dx else dx)"

text \<open>The pieces of the completion: what it records under the lock, the callback and the deferred
  work, and the references it drops.\<close>

definition vendor_arrive :: "ntstatus \<Rightarrow> u32 \<Rightarrow> shell \<Rightarrow> shell" where
  "vendor_arrive st info dx =
     dx\<lparr>Vendor := (Vendor dx)\<lparr>State := SLOT_CLAIMED, Callback := Cb_null, LastStatus := st,
          LastInformation := (if NT_SUCCESS st then info else 0)\<rparr>\<rparr>"

definition vendor_chain :: "bus \<Rightarrow> shell seams \<Rightarrow> vendor_callback \<Rightarrow> shell core_state \<Rightarrow> bool \<times> shell core_state" where
  "vendor_chain B S cb cs =
     (let (taken, cs) = run_callback B S cb cs
      in if taken then (True, cs) else core_effect_run_deferred S (SubmitTime (Vendor (world cs))) cs)"

definition vendor_depart :: "bool \<Rightarrow> shell \<Rightarrow> shell" where
  "vendor_depart held dx = release_B (if held then release_A dx else dx)"

definition AdaptoidVendorComplete ::
    "bus \<Rightarrow> shell seams \<Rightarrow> ntstatus \<Rightarrow> u32 \<Rightarrow> shell core_state \<Rightarrow> shell core_state" where
  "AdaptoidVendorComplete B S st info cs =
     (let (a, dx) = acquire_A (world cs);
          held = NT_SUCCESS a
      in if State (Vendor dx) \<noteq> SLOT_IN_FLIGHT then cs\<lparr>world := vendor_depart held dx\<rparr>
         else
           let cb = (if held \<and> NT_SUCCESS st then Callback (Vendor dx) else Cb_null);
               (taken, cs) = vendor_chain B S cb (cs\<lparr>world := vendor_arrive st info dx\<rparr>);
               dx = (if taken then world cs else vendor_finish (world cs));
               dx = dx\<lparr>Vendor := (Vendor dx)\<lparr>Done := True\<rparr>\<rparr>
           in cs\<lparr>world := vendor_depart held dx\<rparr>)"

section \<open>The other clients\<close>

definition AdaptoidSendIdleCommand :: "shell seams \<Rightarrow> shell core_state \<Rightarrow> shell core_state" where
  "AdaptoidSendIdleCommand S cs = snd (core_effect_send_idle S cs)"

definition AdaptoidSetDeviceEnable :: "bus \<Rightarrow> shell seams \<Rightarrow> bool \<Rightarrow> shell core_state \<Rightarrow> ntstatus \<times> shell core_state" where
  "AdaptoidSetDeviceEnable B S on cs =
     (let (got, dx) = AdaptoidVendorTryClaim (world cs); cs = cs\<lparr>world := dx\<rparr>
      in if \<not> got then (STATUS_DEVICE_BUSY, if \<not> on then cs\<lparr>claim_idle_command := True\<rparr> else cs)
         else if \<not> on then (STATUS_SUCCESS, AdaptoidSendIdleCommand S cs)
         else
           let now = interrupt_time dx
           in if keepalive_time cs \<le> now \<and> now \<le> keepalive_time cs + 30000000
              then (STATUS_SUCCESS, cs\<lparr>world := snd (AdaptoidVendorSend B (0x40, 0x32, 0x0002, 0xFE80) 0 Cb_null dx)\<rparr>)
              else (STATUS_SUCCESS, cs\<lparr>keepalive_time := now,
                      world := snd (AdaptoidVendorSend B (0x40, 0x72, 0x0022, 0x0094) 0 Cb_enable_second dx)\<rparr>))"

text \<open>The synchronous transfers. \<open>ans\<close> says how the device answers: the status and length of the
  completion, and the data stage. The wait for the \<open>Done\<close> event ends with the completion of the transfer
  in flight, the caller's own if it was \<open>sent\<close>; with the event not set and none in flight it does not
  end, and the result is \<open>None\<close>.\<close>

type_synonym answer = "vendor_setup \<Rightarrow> u8 list \<Rightarrow> u32 \<Rightarrow> ntstatus \<times> u32 \<times> u8 list"

definition vendor_wait ::
    "bus \<Rightarrow> shell seams \<Rightarrow> answer \<Rightarrow> vendor_setup \<Rightarrow> bool \<Rightarrow> u8 list \<Rightarrow> u32 \<Rightarrow> shell core_state \<Rightarrow>
       (u8 list \<times> shell core_state) option" where
  "vendor_wait B S ans setup sent data len cs =
     (if Done (Vendor (world cs)) then Some (data, cs)
      else if State (Vendor (world cs)) = SLOT_IN_FLIGHT
      then let (st, info, reply) = ans setup data len
           in Some (if sent then reply else data, AdaptoidVendorComplete B S st info cs)
      else None)"

definition clear_done :: "shell \<Rightarrow> shell" where
  "clear_done dx = dx\<lparr>Vendor := (Vendor dx)\<lparr>Done := False\<rparr>\<rparr>"

definition AdaptoidCoreVendorSync ::
    "bus \<Rightarrow> shell seams \<Rightarrow> answer \<Rightarrow> core_vendor_req \<Rightarrow> u8 list \<Rightarrow> u32 \<Rightarrow> shell core_state \<Rightarrow>
       (bool \<times> u8 list \<times> shell core_state) option" where
  "AdaptoidCoreVendorSync B S ans req data len cs =
     (let (got, dx) = AdaptoidVendorTryClaim (world cs)
      in if \<not> got then Some (False, data, cs\<lparr>world := dx\<rparr>)
         else
           let setup = (bmRequestType req, bRequest req, wValue req, wIndex req);
               (st, dx) = AdaptoidVendorSend B setup len Cb_null (clear_done dx);
               cs = cs\<lparr>world := dx\<rparr>
           in if \<not> NT_SUCCESS st then Some (False, data, cs)
              else (case vendor_wait B S ans setup True data len cs of
                      None \<Rightarrow> None
                    | Some (data, cs) \<Rightarrow> Some (NT_SUCCESS (LastStatus (Vendor (world cs))), data, cs)))"

text \<open>The seam of the device: a call from the core, whose wait the transport ends.\<close>

definition device_sync_seams :: "bus \<Rightarrow> hooks \<Rightarrow> answer \<Rightarrow> shell seams" where
  "device_sync_seams B H ans = (device_seams B H)
     \<lparr>call_vendor_sync := (\<lambda>_ _ req data len cs.
        case AdaptoidCoreVendorSync B (device_seams B H) ans req data len cs of
          None \<Rightarrow> (False, data, cs) | Some r \<Rightarrow> r)\<rparr>"

definition setup_of :: "u8 list \<Rightarrow> vendor_setup" where
  "setup_of s = (s ! 0, s ! 1, ucast (s ! 2) OR push_bit 8 (ucast (s ! 3)),
     ucast (s ! 4) OR push_bit 8 (ucast (s ! 5)))"

definition AdaptoidIoctlVendor ::
    "bus \<Rightarrow> shell seams \<Rightarrow> answer \<Rightarrow> u8 list \<Rightarrow> u8 list \<Rightarrow> u32 \<Rightarrow> shell core_state \<Rightarrow>
       (u32 \<times> u8 list \<times> shell core_state) option" where
  "AdaptoidIoctlVendor B S ans setup data data_len cs =
     (let (t, r, v, i) = setup_of setup;
          req = \<lparr>bmRequestType = t, bRequest = r, wValue = v, wIndex = i, wLength = ucast data_len\<rparr>
      in map_option (\<lambda>(ok, data, cs). (if ok then STATUS_SUCCESS else STATUS_DEVICE_BUSY, data, cs))
           (AdaptoidCoreVendorSync B S ans req data data_len cs))"

definition AdaptoidCmdClaim :: "shell \<Rightarrow> bool \<times> shell" where
  "AdaptoidCmdClaim dx = AdaptoidVendorTryClaim dx"

definition AdaptoidCmdXfer ::
    "bus \<Rightarrow> shell seams \<Rightarrow> answer \<Rightarrow> u8 list \<Rightarrow> u8 list \<Rightarrow> u32 \<Rightarrow> bool \<Rightarrow> shell core_state \<Rightarrow>
       (u32 \<times> u8 list \<times> shell core_state) option" where
  "AdaptoidCmdXfer B S ans setup data len keep cs =
     (let (st, dx) = AdaptoidVendorSend B (setup_of setup) len Cb_null (clear_done (world cs))
      in case vendor_wait B S ans (setup_of setup) (NT_SUCCESS st) data len (cs\<lparr>world := dx\<rparr>) of
           None \<Rightarrow> None
         | Some (data, cs) \<Rightarrow>
             let cs = (if keep then cs\<lparr>world := snd (AdaptoidVendorTryClaim (world cs))\<rparr> else cs)
             in Some (if NT_SUCCESS (LastStatus (Vendor (world cs))) then STATUS_SUCCESS else STATUS_DEVICE_BUSY,
                      data, cs))"

definition AdaptoidQueryFirmwareInfo :: "bus \<Rightarrow> shell seams \<Rightarrow> answer \<Rightarrow> shell core_state \<Rightarrow> shell core_state option" where
  "AdaptoidQueryFirmwareInfo B S ans cs =
     (let (got, dx) = AdaptoidVendorTryClaim (world cs)
      in if \<not> got then Some (cs\<lparr>world := dx\<rparr>)
         else
           let setup = (0xC0, 0x75, 0, 0);
               (st, dx) = AdaptoidVendorSend B setup 2 Cb_null (clear_done dx)
           in case vendor_wait B S ans setup (NT_SUCCESS st) [0, 0] 2 (cs\<lparr>world := dx\<rparr>) of
                None \<Rightarrow> None
              | Some (reply, cs) \<Rightarrow> Some (cs\<lparr>world := (world cs)\<lparr>UsbAddress := ucast (reply ! 0)\<rparr>\<rparr>))"

text \<open>The core's part of \<open>AdaptoidWireDevice\<close>; the function pointers are any non-null ones.\<close>

definition AdaptoidWireDevice :: "ptr \<Rightarrow> shell core_state \<Rightarrow> shell core_state" where
  "AdaptoidWireDevice self cs =
     core_set_tick_hook 6 self (core_set_input_hook 5 self (core_set_vendor_sync 4
       (core_set_vendor_claim 3 (core_set_vendor 2 self (core_init 1 self cs)))))"

section \<open>The transport is the one the core relies on\<close>

text \<open>The slot as the core sees it.\<close>

definition core_slot :: "shell \<Rightarrow> slot_state" where
  "core_slot dx = (case State (Vendor dx) of
     SLOT_FREE \<Rightarrow> Slot_free | SLOT_CLAIMED \<Rightarrow> Slot_claimed
   | SLOT_IN_FLIGHT \<Rightarrow> if Callback (Vendor dx) = Cb_core then Slot_in_flight else Slot_elsewhere)"

text \<open>What the remove lock counts besides the base reference: the transfer in flight and the parked
  reads. The count is read modulo the width of \<open>IoCount\<close>.\<close>

definition lock_balance :: "shell \<Rightarrow> int" where
  "lock_balance dx = (IoCount (RemoveLockB dx) - of_bool (State (Vendor dx) = SLOT_IN_FLIGHT) -
     int (length (PendingReads dx))) mod 4294967296"

definition reads_ok :: "shell \<Rightarrow> bool" where
  "reads_ok dx \<longleftrightarrow> distinct (PendingReads dx) \<and> (\<forall>irp. armed dx irp \<longleftrightarrow> irp \<in> set (PendingReads dx))"

lemma slot_cases:
  "core_slot dx = Slot_free \<longleftrightarrow> State (Vendor dx) = SLOT_FREE"
  "core_slot dx = Slot_claimed \<longleftrightarrow> State (Vendor dx) = SLOT_CLAIMED"
  "core_slot dx = Slot_in_flight \<longleftrightarrow> State (Vendor dx) = SLOT_IN_FLIGHT \<and> Callback (Vendor dx) = Cb_core"
  by (auto simp: core_slot_def split: vendor_state.splits)

lemma slot_cong:
  "State (Vendor d') = State (Vendor d) \<Longrightarrow> Callback (Vendor d') = Callback (Vendor d) \<Longrightarrow> core_slot d' = core_slot d"
  by (simp add: core_slot_def)

lemma vendor_release_state [simp]:
  "State (Vendor (snd (vendor_release dx))) =
     (if State (Vendor dx) = SLOT_CLAIMED then SLOT_FREE else State (Vendor dx))"
  "Callback (Vendor (snd (vendor_release dx))) = Callback (Vendor dx)"
  "RemoveLockA (snd (vendor_release dx)) = RemoveLockA dx"
  "RemoveLockB (snd (vendor_release dx)) = RemoveLockB dx" "armed (snd (vendor_release dx)) = armed dx"
  "PendingReads (snd (vendor_release dx)) = PendingReads dx"
  by (simp_all add: vendor_release_def)

lemma vendor_fail_state [simp]:
  "State (Vendor (VendorFail st dx)) = (if State (Vendor dx) = SLOT_CLAIMED then SLOT_FREE else State (Vendor dx))"
  "Callback (Vendor (VendorFail st dx)) = Callback (Vendor dx)" "RemoveLockA (VendorFail st dx) = RemoveLockA dx"
  "RemoveLockB (VendorFail st dx) = RemoveLockB dx" "armed (VendorFail st dx) = armed dx"
  "PendingReads (VendorFail st dx) = PendingReads dx"
  by (simp_all add: VendorFail_def vendor_release_def AdaptoidCompleteIrp_def)

lemma vendor_finish_state [simp]:
  "State (Vendor (vendor_finish dx)) = (if State (Vendor dx) = SLOT_CLAIMED then SLOT_FREE else State (Vendor dx))"
  "Callback (Vendor (vendor_finish dx)) = Callback (Vendor dx)" "RemoveLockA (vendor_finish dx) = RemoveLockA dx"
  "RemoveLockB (vendor_finish dx) = RemoveLockB dx" "armed (vendor_finish dx) = armed dx"
  "PendingReads (vendor_finish dx) = PendingReads dx"
  by (simp_all add: vendor_finish_def vendor_release_def AdaptoidCompleteIrp_def)

lemma lock_fields [simp]:
  "Vendor (release_B dx) = Vendor dx" "armed (release_B dx) = armed dx"
  "PendingReads (release_B dx) = PendingReads dx" "RemoveLockA (release_B dx) = RemoveLockA dx"
  "Vendor (release_A dx) = Vendor dx" "armed (release_A dx) = armed dx"
  "PendingReads (release_A dx) = PendingReads dx" "RemoveLockB (release_A dx) = RemoveLockB dx"
  "Vendor (snd (acquire_A dx)) = Vendor dx" "armed (snd (acquire_A dx)) = armed dx"
  "PendingReads (snd (acquire_A dx)) = PendingReads dx" "RemoveLockB (snd (acquire_A dx)) = RemoveLockB dx"
  "Vendor (snd (acquire_B dx)) = Vendor dx" "armed (snd (acquire_B dx)) = armed dx"
  "PendingReads (snd (acquire_B dx)) = PendingReads dx" "RemoveLockA (snd (acquire_B dx)) = RemoveLockA dx"
  by (simp_all add: release_B_def release_A_def acquire_A_def acquire_B_def split: prod.split)

lemma to_s32_mod [simp]: "to_s32 x mod 4294967296 = x mod 4294967296"
  using take_bit_signed_take_bit [of 32 31 x] by (simp add: to_s32_def take_bit_eq_mod)

lemma to_s32_mod_step [simp]:
  "(to_s32 x - 1) mod 4294967296 = (x - 1) mod 4294967296" "(to_s32 x + 1) mod 4294967296 = (x + 1) mod 4294967296"
  using to_s32_mod [of x] by (metis mod_diff_left_eq, metis mod_add_left_eq)

lemma count_drop: "IoCount (lock_drop l) = to_s32 (IoCount l - 1)"
  by (simp add: lock_drop_def Let_def)

lemma count_mod:
  "IoCount (RemoveLockB (release_B dx)) mod 4294967296 = (IoCount (RemoveLockB dx) - 1) mod 4294967296"
  "acquire_B dx = (st, d) \<Longrightarrow> IoCount (RemoveLockB d) mod 4294967296 =
     (IoCount (RemoveLockB dx) + of_bool (NT_SUCCESS st)) mod 4294967296"
proof -
  show "IoCount (RemoveLockB (release_B dx)) mod 4294967296 = (IoCount (RemoveLockB dx) - 1) mod 4294967296"
    by (simp add: release_B_def AdaptoidLockRelease_def count_drop)
  let ?n = "IoCount (RemoveLockB dx)"
  have undone: "to_s32 (to_s32 (?n + 1) - 1) mod 4294967296 = ?n mod 4294967296"
    unfolding to_s32_mod to_s32_mod_step by simp
  show "IoCount (RemoveLockB d) mod 4294967296 = (?n + of_bool (NT_SUCCESS st)) mod 4294967296"
    if "acquire_B dx = (st, d)"
  proof (cases "Removed (RemoveLockB dx)")
    case True
    then show ?thesis using that undone by (auto simp: acquire_B_def AdaptoidLockAcquire_def count_drop Let_def)
  next
    case False
    then show ?thesis using that by (auto simp: acquire_B_def AdaptoidLockAcquire_def Let_def)
  qed
qed

lemma mod_undo: "a mod n = (b + 1) mod n \<Longrightarrow> c mod n = (a - 1) mod n \<Longrightarrow> c mod n = (b :: int) mod n"
  using mod_diff_cong [of a n "b + 1" 1 1] by simp

lemma balance_change:
  assumes "IoCount (RemoveLockB d') mod 4294967296 = (IoCount (RemoveLockB d) + k) mod 4294967296"
    and "of_bool (State (Vendor d') = SLOT_IN_FLIGHT) + int (length (PendingReads d')) =
      of_bool (State (Vendor d) = SLOT_IN_FLIGHT) + int (length (PendingReads d)) + k"
  shows "lock_balance d' = lock_balance d"
proof -
  have eq: "lock_balance x = (IoCount (RemoveLockB x) -
      (of_bool (State (Vendor x) = SLOT_IN_FLIGHT) + int (length (PendingReads x)))) mod 4294967296" for x
    by (simp only: lock_balance_def diff_diff_eq)
  have "lock_balance d' = ((IoCount (RemoveLockB d) + k) -
      (of_bool (State (Vendor d) = SLOT_IN_FLIGHT) + int (length (PendingReads d)) + k)) mod 4294967296"
    unfolding eq [of d'] assms(2) by (rule mod_diff_cong [OF assms(1) refl])
  also have "\<dots> = lock_balance d" unfolding eq [of d] add_diff_cancel_right ..
  finally show ?thesis .
qed

text \<open>A send, case by case.\<close>

lemma submit_fields:
  assumes "AdaptoidVendorSubmitUrb B setup len dx = (st, d)"
  shows "Vendor d = Vendor dx" "RemoveLockA d = RemoveLockA dx" "RemoveLockB d = RemoveLockB dx" "armed d = armed dx"
    "PendingReads d = PendingReads dx"
  using assms by (auto simp: AdaptoidVendorSubmitUrb_def split: if_splits)

lemma send_effect:
  assumes send: "AdaptoidVendorSend B setup len cb dx = (st, d)"
  shows "NT_SUCCESS st \<Longrightarrow> State (Vendor dx) = SLOT_CLAIMED \<and> State (Vendor d) = SLOT_IN_FLIGHT \<and> Callback (Vendor d) = cb"
    "\<not> NT_SUCCESS st \<Longrightarrow> State (Vendor d) = (if State (Vendor dx) = SLOT_CLAIMED then SLOT_FREE else State (Vendor dx))"
    "State (Vendor dx) \<noteq> SLOT_CLAIMED \<Longrightarrow> Callback (Vendor d) = Callback (Vendor dx)"
    "armed d = armed dx" "PendingReads d = PendingReads dx" "RemoveLockA d = RemoveLockA dx"
    "lock_balance d = lock_balance dx"
proof -
  obtain a e where acq: "acquire_B dx = (a, e)" by fastforce
  have e: "Vendor e = Vendor dx" "armed e = armed dx" "PendingReads e = PendingReads dx" "RemoveLockA e = RemoveLockA dx"
    using lock_fields [of dx] acq by simp_all
  let ?f = "e\<lparr>Vendor := (Vendor e)\<lparr>State := SLOT_IN_FLIGHT, Callback := cb, SubmitTime := interrupt_time e\<rparr>\<rparr>"
  obtain s g where sub: "AdaptoidVendorSubmitUrb B setup len ?f = (s, g)" by fastforce
  note g = submit_fields [OF sub]
  have count: "IoCount (RemoveLockB e) mod 4294967296 = (IoCount (RemoveLockB dx) + of_bool (NT_SUCCESS a)) mod 4294967296"
    by (rule count_mod(2) [OF acq])
  have undone: "lock_balance (release_B f) = lock_balance dx"
    if "NT_SUCCESS a" "RemoveLockB f = RemoveLockB e" "PendingReads f = PendingReads dx"
      "State (Vendor f) = SLOT_IN_FLIGHT \<longleftrightarrow> State (Vendor dx) = SLOT_IN_FLIGHT" for f
  proof (rule balance_change [where k = 0])
    show "IoCount (RemoveLockB (release_B f)) mod 4294967296 = (IoCount (RemoveLockB dx) + 0) mod 4294967296"
      using mod_undo [of "IoCount (RemoveLockB e)" 4294967296 "IoCount (RemoveLockB dx)"] count that(1,2)
        count_mod(1) [of f] by simp
  qed (use that in simp)
  have fwd: "lock_balance g = lock_balance dx" if "NT_SUCCESS a" "State (Vendor dx) = SLOT_CLAIMED"
    by (rule balance_change [where k = 1]) (use count that g e in simp_all)
  have none: "lock_balance (VendorFail a e) = lock_balance dx" if "\<not> NT_SUCCESS a"
    by (rule balance_change [where k = 0]) (use count that e in simp_all)
  have undo: "lock_balance (vendor_unsend s g) = lock_balance dx" if "NT_SUCCESS a" "State (Vendor dx) = SLOT_CLAIMED"
    unfolding vendor_unsend_def Let_def using g e that by (intro undone) simp_all
  have refuse: "lock_balance (release_B (VendorFail s' e)) = lock_balance dx" "lock_balance (release_B e) = lock_balance dx"
    if "NT_SUCCESS a" for s'
    using e that by (intro undone; simp)+
  show "lock_balance d = lock_balance dx"
    using send e g sub refuse undo none fwd
    by (auto simp: AdaptoidVendorSend_def acq Let_def split: if_splits)
  show "NT_SUCCESS st \<Longrightarrow> State (Vendor dx) = SLOT_CLAIMED \<and> State (Vendor d) = SLOT_IN_FLIGHT \<and> Callback (Vendor d) = cb"
    "\<not> NT_SUCCESS st \<Longrightarrow> State (Vendor d) = (if State (Vendor dx) = SLOT_CLAIMED then SLOT_FREE else State (Vendor dx))"
    "State (Vendor dx) \<noteq> SLOT_CLAIMED \<Longrightarrow> Callback (Vendor d) = Callback (Vendor dx)"
    "armed d = armed dx" "PendingReads d = PendingReads dx" "RemoveLockA d = RemoveLockA dx"
    using send e g sub
    by (auto simp: AdaptoidVendorSend_def acq Let_def vendor_unsend_def split: if_splits)
qed

lemma core_vendor_effect:
  assumes send: "AdaptoidCoreVendor B req dx = (ok, d)"
  shows "ok \<Longrightarrow> State (Vendor dx) = SLOT_CLAIMED \<and> State (Vendor d) = SLOT_IN_FLIGHT \<and> Callback (Vendor d) = Cb_core"
    "\<not> ok \<Longrightarrow> State (Vendor d) = (if State (Vendor dx) = SLOT_CLAIMED then SLOT_FREE else State (Vendor dx))"
    "State (Vendor dx) \<noteq> SLOT_CLAIMED \<Longrightarrow> Callback (Vendor d) = Callback (Vendor dx)"
    "armed d = armed dx" "PendingReads d = PendingReads dx" "RemoveLockA d = RemoveLockA dx"
    "lock_balance d = lock_balance dx"
proof -
  obtain st len where "AdaptoidVendorSend B (bmRequestType req, bRequest req, wValue req, wIndex req) len Cb_core dx = (st, d)"
      "ok = NT_SUCCESS st"
    using send by (fastforce simp: AdaptoidCoreVendor_def Let_def split: prod.splits)
  from send_effect [OF this(1)] this(2)
  show "ok \<Longrightarrow> State (Vendor dx) = SLOT_CLAIMED \<and> State (Vendor d) = SLOT_IN_FLIGHT \<and> Callback (Vendor d) = Cb_core"
    "\<not> ok \<Longrightarrow> State (Vendor d) = (if State (Vendor dx) = SLOT_CLAIMED then SLOT_FREE else State (Vendor dx))"
    "State (Vendor dx) \<noteq> SLOT_CLAIMED \<Longrightarrow> Callback (Vendor d) = Callback (Vendor dx)"
    "armed d = armed dx" "PendingReads d = PendingReads dx" "RemoveLockA d = RemoveLockA dx"
    "lock_balance d = lock_balance dx"
    by auto
qed

lemma claim_effect:
  assumes "AdaptoidVendorTryClaim dx = (ok, d)"
  shows "ok \<longleftrightarrow> State (Vendor dx) = SLOT_FREE" "\<not> ok \<Longrightarrow> d = dx"
    "State (Vendor d) = (if State (Vendor dx) = SLOT_FREE then SLOT_CLAIMED else State (Vendor dx))"
    "Callback (Vendor d) = Callback (Vendor dx)"
    "armed d = armed dx" "PendingReads d = PendingReads dx" "RemoveLockA d = RemoveLockA dx"
    "lock_balance d = lock_balance dx"
  using assms by (auto simp: AdaptoidVendorTryClaim_def lock_balance_def split: if_splits)

text \<open>The transport keeps the contract the effect engine and the probe rest on.\<close>

interpretation adaptoid: vendor_transport "device_seams B H" core_slot for B H
proof
  show "ok = (core_slot w = Slot_free) \<and> core_slot w' = (if core_slot w = Slot_free then Slot_claimed else core_slot w)"
    if "call_claim (device_seams B H) f c w = (ok, w')" for f c w ok w'
    using that claim_effect [of w ok w']
    by (auto simp: device_seams_def AdaptoidCoreVendorClaim_def core_slot_def split: vendor_state.splits)
  show "(ok \<longrightarrow> core_slot w = Slot_claimed) \<and>
      core_slot w' = (if core_slot w = Slot_claimed then if ok then Slot_in_flight else Slot_free else core_slot w)"
    if "call_vendor (device_seams B H) f c req w = (ok, w')" for f c req w ok w'
    using that core_vendor_effect [of B req w ok w']
    by (cases ok) (auto simp: device_seams_def core_slot_def split: vendor_state.splits)
qed

section \<open>The remove lock\<close>

text \<open>An operation that keeps the parked reads armed keeps what the lock counts.\<close>

definition balanced :: "shell \<Rightarrow> shell \<Rightarrow> bool" where
  "balanced d d' \<longleftrightarrow> (reads_ok d \<longrightarrow> reads_ok d' \<and> lock_balance d' = lock_balance d)"

lemma balanced_refl: "balanced d d" by (simp add: balanced_def)

lemma balanced_trans: "balanced a b \<Longrightarrow> balanced b c \<Longrightarrow> balanced a c" by (simp add: balanced_def)

lemma reads_ok_cong: "armed d' = armed d \<Longrightarrow> PendingReads d' = PendingReads d \<Longrightarrow> reads_ok d' = reads_ok d"
  by (simp add: reads_ok_def)

lemma balance_cong:
  "RemoveLockB d' = RemoveLockB d \<Longrightarrow> State (Vendor d') = State (Vendor d) \<Longrightarrow> PendingReads d' = PendingReads d \<Longrightarrow>
     lock_balance d' = lock_balance d"
  by (simp add: lock_balance_def)

interpretation balance: world_relation "device_seams B H" balanced for B H
proof
  show "balanced u v" if "call_claim (device_seams B H) f x u = (ok, v)" for f x u ok v
    using that claim_effect [of u ok v] reads_ok_cong [of v u]
    by (simp add: device_seams_def AdaptoidCoreVendorClaim_def balanced_def)
  show "balanced u v" if "call_vendor (device_seams B H) f x req u = (ok, v)" for f x req u ok v
    using that core_vendor_effect [of B req u ok v] reads_ok_cong [of v u]
    by (simp add: device_seams_def balanced_def)
qed (simp_all add: balanced_def)

lemma complete_read_fields [simp]:
  "RemoveLockB (AdaptoidCompleteRead irp b n d) = RemoveLockB d" "Vendor (AdaptoidCompleteRead irp b n d) = Vendor d"
  "armed (AdaptoidCompleteRead irp b n d) = armed d" "PendingReads (AdaptoidCompleteRead irp b n d) = PendingReads d"
  by (simp_all add: AdaptoidCompleteRead_def AdaptoidCompleteIrp_def Let_def split: option.split)

lemma enqueue_fields [simp]:
  "RemoveLockB (enqueue_report i b n d) = RemoveLockB d" "Vendor (enqueue_report i b n d) = Vendor d"
  "armed (enqueue_report i b n d) = armed d" "PendingReads (enqueue_report i b n d) = PendingReads d"
  by (simp_all add: enqueue_report_def Let_def)

lemma release_balance:
  assumes "State (Vendor d) = State (Vendor e)" "RemoveLockB d = RemoveLockB e"
    "length (PendingReads e) = Suc (length (PendingReads d))"
  shows "lock_balance (release_B d) = lock_balance e"
  by (rule balance_change [where k = "- 1"]) (use count_mod(1) [of d] assms in simp_all)

lemma sink_balanced: "balanced d (AdaptoidReportSink i b n d)"
proof (cases "PendingReads d")
  case Nil
  then show ?thesis
    using reads_ok_cong [of "enqueue_report i b n d" d] balance_cong [of "enqueue_report i b n d" d]
    by (simp add: AdaptoidReportSink_def dequeue_first balanced_def)
next
  case (Cons irp rest)
  let ?e = "d\<lparr>PendingReads := rest, PendingReadCount := to_s32 (PendingReadCount d - 1),
      armed := (armed d)(irp := False)\<rparr>"
  let ?f = "release_B (AdaptoidCompleteRead irp (i # take (unat n) b) (ucast (n + 1)) ?e)"
  have "reads_ok ?f \<and> lock_balance ?f = lock_balance d" if "reads_ok d"
    using that Cons release_balance [of "AdaptoidCompleteRead irp (i # take (unat n) b) (ucast (n + 1)) ?e" d]
    by (auto simp: reads_ok_def)
  then show ?thesis
    using dequeue_first(2) [OF Cons] Cons by (auto simp: AdaptoidReportSink_def balanced_def reads_ok_def)
qed

lemma unlink_state [simp]:
  "RemoveLockB (snd (AdaptoidUnlinkRead irp d)) = RemoveLockB d" "Vendor (snd (AdaptoidUnlinkRead irp d)) = Vendor d"
  "armed (snd (AdaptoidUnlinkRead irp d)) = armed d"
  "PendingReads (snd (AdaptoidUnlinkRead irp d)) = remove1 irp (PendingReads d)"
  "fst (AdaptoidUnlinkRead irp d) \<longleftrightarrow> irp \<in> set (PendingReads d)"
  by (simp_all add: AdaptoidUnlinkRead_def remove1_idem)

lemma finish_state [simp]:
  "Vendor (finish_cancelled irp d) = Vendor d" "armed (finish_cancelled irp d) = armed d"
  "PendingReads (finish_cancelled irp d) = PendingReads d"
  by (simp_all add: finish_cancelled_def AdaptoidCompleteIrp_def)

lemma finish_balance:
  assumes "State (Vendor d) = State (Vendor e)" "RemoveLockB d = RemoveLockB e"
    "length (PendingReads e) = Suc (length (PendingReads d))"
  shows "lock_balance (finish_cancelled irp d) = lock_balance e"
  unfolding finish_cancelled_def by (rule release_balance) (use assms in \<open>simp_all add: AdaptoidCompleteIrp_def\<close>)

lemma park_effect:
  assumes "park_locked irp d = (cancelled, e)" and "irp \<notin> set (PendingReads d)" and "\<not> armed d irp"
  shows "Vendor e = Vendor d" "RemoveLockB e = RemoveLockB d"
    "armed e = (if cancelled then armed d else (armed d)(irp := True))"
    "PendingReads e = (if cancelled then PendingReads d else PendingReads d @ [irp])"
  using assms by (auto simp: park_locked_def AdaptoidClaimIrp_def AdaptoidUnlinkRead_def Let_def
      remove1_append fun_upd_idem split: if_splits)

lemma read_balanced:
  assumes free: "\<not> armed d irp"
  shows "balanced d (snd (AdaptoidReadReport irp d))"
proof -
  have "reads_ok (snd (AdaptoidReadReport irp d)) \<and> lock_balance (snd (AdaptoidReadReport irp d)) = lock_balance d"
    if ok: "reads_ok d"
  proof (cases "take_report d")
    case (Pair t e)
    then have e: "armed e = armed d" "PendingReads e = PendingReads d" "RemoveLockB e = RemoveLockB d" "Vendor e = Vendor d"
      by (auto simp: take_report_def split: if_splits)
    show ?thesis
    proof (cases t)
      case (Some node)
      then show ?thesis
        using Pair e ok reads_ok_cong [of "AdaptoidCompleteRead irp (Data node) (Length node) e" d]
          balance_cong [of "AdaptoidCompleteRead irp (Data node) (Length node) e" d]
        by (simp add: AdaptoidReadReport_eq)
    next
      case None
      obtain st f where f: "acquire_B e = (st, f)" by fastforce
      then have g: "armed f = armed d" "PendingReads f = PendingReads d" "Vendor f = Vendor d"
        using lock_fields [of e] e by simp_all
      obtain c h where h: "park_locked irp f = (c, h)" by fastforce
      have "irp \<notin> set (PendingReads f)" "\<not> armed f irp" using ok free g by (auto simp: reads_ok_def)
      note p = park_effect [OF h this]
      note n = count_mod(2) [OF f]
      show ?thesis
      proof (cases "NT_SUCCESS st")
        case False
        have "lock_balance (AdaptoidCompleteIrp irp STATUS_DELETE_PENDING 0 f) = lock_balance d"
          by (rule balance_change [where k = 0]) (use n False e g in \<open>simp_all add: AdaptoidCompleteIrp_def\<close>)
        then show ?thesis
          using None Pair f False g ok
          by (simp add: AdaptoidReadReport_eq reads_ok_def AdaptoidCompleteIrp_def)
      next
        case True
        have "lock_balance h = lock_balance d" if "\<not> c"
          by (rule balance_change [where k = 1]) (use n True e g p that in simp_all)
        moreover have "lock_balance (finish_cancelled irp h) = lock_balance d" if c
        proof (rule balance_change [where k = 0])
          have "IoCount (RemoveLockB (release_B (AdaptoidCompleteIrp irp STATUS_CANCELLED 0 h))) mod 4294967296 =
              (IoCount (RemoveLockB h) - 1) mod 4294967296"
            using count_mod(1) [of "AdaptoidCompleteIrp irp STATUS_CANCELLED 0 h"] by (simp add: AdaptoidCompleteIrp_def)
          then show "IoCount (RemoveLockB (finish_cancelled irp h)) mod 4294967296 = (IoCount (RemoveLockB d) + 0) mod 4294967296"
            using mod_undo [of "IoCount (RemoveLockB f)" 4294967296 "IoCount (RemoveLockB d)"] n True e p(2)
            by (simp add: finish_cancelled_def)
        qed (use g p that in simp)
        ultimately show ?thesis
          using None Pair f True h p g ok free
          by (cases c) (auto simp: AdaptoidReadReport_eq AdaptoidQueueRead_def reads_ok_def)
      qed
    qed
  qed
  then show ?thesis by (simp add: balanced_def)
qed

lemma cancel_balanced: "balanced d (handle_read (Cancel irp) d)"
proof (cases "armed d irp")
  case True
  let ?e = "d\<lparr>cancel_asked := (cancel_asked d)(irp := True), armed := (armed d)(irp := False)\<rparr>"
  have run: "handle_read (Cancel irp) d = finish_cancelled irp (snd (AdaptoidUnlinkRead irp ?e))"
    using True by (simp add: io_cancel_def AdaptoidClaimIrp_def AdaptoidCancelReadIrp_def)
  have "reads_ok (handle_read (Cancel irp) d) \<and> lock_balance (handle_read (Cancel irp) d) = lock_balance d" if ok: "reads_ok d"
  proof -
    have "irp \<in> set (PendingReads d)" using ok True by (simp add: reads_ok_def)
    then have "length (PendingReads d) = Suc (length (remove1 irp (PendingReads d)))"
      using length_pos_if_in_set [of irp "PendingReads d"] by (simp add: length_remove1)
    then show ?thesis
      using finish_balance [of "snd (AdaptoidUnlinkRead irp ?e)" d irp] ok unfolding run
      by (auto simp: reads_ok_def)
  qed
  then show ?thesis by (simp add: balanced_def)
next
  case False
  then show ?thesis
    by (simp add: io_cancel_def AdaptoidClaimIrp_def balanced_def reads_ok_def lock_balance_def fun_upd_idem)
qed

lemma release_B_balance: "lock_balance (release_B d) = (lock_balance d - 1) mod 4294967296"
proof -
  let ?k = "of_bool (State (Vendor d) = SLOT_IN_FLIGHT)" and ?l = "int (length (PendingReads d))"
  have "lock_balance (release_B d) = (IoCount (RemoveLockB d) - 1 - ?k - ?l) mod 4294967296"
    using mod_diff_cong [OF mod_diff_cong [OF count_mod(1) [of d] refl] refl, of ?k ?l] by (simp add: lock_balance_def)
  also have "\<dots> = (IoCount (RemoveLockB d) - ?k - ?l - 1) mod 4294967296" by (simp only: diff_right_commute [of _ 1])
  also have "\<dots> = (lock_balance d - 1) mod 4294967296" by (simp add: lock_balance_def mod_diff_left_eq)
  finally show ?thesis .
qed

text \<open>A completion ends the transfer in flight and drops its reference, whatever its callback starts.\<close>

lemma send_balanced: "balanced d (snd (AdaptoidVendorSend B su n cb d))"
proof -
  obtain st e where "AdaptoidVendorSend B su n cb d = (st, e)" by fastforce
  then show ?thesis using send_effect(4,5,7) reads_ok_cong [of e d] by (simp add: balanced_def)
qed

lemma second_balanced: "balanced d (snd (EnableSecondStage B d))"
  by (simp add: EnableSecondStage_def send_balanced)

lemma callback_balanced: "balanced (world cs) (world (snd (run_callback B (device_seams B H) cb cs)))"
  using balance.Q_completed [where cs = cs and B = B and H = H] second_balanced [of "world cs" B]
  by (cases cb) (simp_all add: AdaptoidCoreVendorComplete_def balanced_refl split_beta)

lemma finish_balanced: "balanced d (vendor_finish d)"
  using reads_ok_cong [of "vendor_finish d" d]
  by (simp add: balanced_def lock_balance_def)

lemma chain_balanced: "balanced (world cs) (world (snd (vendor_chain B (device_seams B H) cb cs)))"
proof -
  obtain t c where r: "run_callback B (device_seams B H) cb cs = (t, c)" by fastforce
  have c: "balanced (world cs) (world c)" using callback_balanced [of cs B H cb] r by simp
  show ?thesis
    using c balanced_trans [OF c balance.lifted.deferred [where cs = c and B = B and H = H]]
    by (simp add: vendor_chain_def r core_effect_run_deferred_def)
qed

text \<open>A completion taken apart.\<close>

lemma complete_parts:
  assumes "State (Vendor (world cs)) = SLOT_IN_FLIGHT"
  obtains held e cb taken c d where "held \<longleftrightarrow> \<not> Removed (RemoveLockA (world cs))"
    "Vendor e = Vendor (world cs)" "armed e = armed (world cs)" "PendingReads e = PendingReads (world cs)"
    "RemoveLockB e = RemoveLockB (world cs)" "CoreVendorReply e = CoreVendorReply (world cs)"
    "cb = (if held \<and> NT_SUCCESS st then Callback (Vendor (world cs)) else Cb_null)"
    "vendor_chain B S cb (cs\<lparr>world := vendor_arrive st info e\<rparr>) = (taken, c)"
    "d = (if taken then world c else vendor_finish (world c))"
    "AdaptoidVendorComplete B S st info cs =
       c\<lparr>world := vendor_depart held (d\<lparr>Vendor := (Vendor d)\<lparr>Done := True\<rparr>\<rparr>)\<rparr>"
proof -
  obtain a e where acq: "acquire_A (world cs) = (a, e)" by fastforce
  have held: "NT_SUCCESS a \<longleftrightarrow> \<not> Removed (RemoveLockA (world cs))" "CoreVendorReply e = CoreVendorReply (world cs)"
    using acq by (auto simp: acquire_A_def AdaptoidLockAcquire_def Let_def split: if_splits)
  have e: "Vendor e = Vendor (world cs)" "armed e = armed (world cs)" "PendingReads e = PendingReads (world cs)"
    "RemoveLockB e = RemoveLockB (world cs)"
    using lock_fields [of "world cs"] acq by simp_all
  obtain taken c where ch: "vendor_chain B S (if NT_SUCCESS a \<and> NT_SUCCESS st then Callback (Vendor (world cs)) else Cb_null)
      (cs\<lparr>world := vendor_arrive st info e\<rparr>) = (taken, c)" by fastforce
  show ?thesis
    by (rule that [OF held(1) e held(2) refl ch refl])
      (use assms ch e(1) in \<open>simp add: AdaptoidVendorComplete_def acq Let_def cong: if_cong split del: if_split\<close>)
qed

lemma complete_balanced:
  assumes fly: "State (Vendor (world cs)) = SLOT_IN_FLIGHT"
  shows "balanced (world cs) (world (AdaptoidVendorComplete B (device_seams B H) st info cs))"
proof -
  let ?S = "device_seams B H"
  obtain held e cb taken c d where p: "Vendor e = Vendor (world cs)" "armed e = armed (world cs)"
    "PendingReads e = PendingReads (world cs)" "RemoveLockB e = RemoveLockB (world cs)"
    "vendor_chain B ?S cb (cs\<lparr>world := vendor_arrive st info e\<rparr>) = (taken, c)"
    "d = (if taken then world c else vendor_finish (world c))"
    "AdaptoidVendorComplete B ?S st info cs =
       c\<lparr>world := vendor_depart held (d\<lparr>Vendor := (Vendor d)\<lparr>Done := True\<rparr>\<rparr>)\<rparr>"
    by (rule complete_parts [OF fly, where B = B and S = ?S and st = st and info = info]) (rule that)
  let ?d0 = "vendor_arrive st info e" and ?f = "d\<lparr>Vendor := (Vendor d)\<lparr>Done := True\<rparr>\<rparr>"
  let ?g = "if held then release_A ?f else ?f"
  have c: "balanced ?d0 (world c)" using chain_balanced [of "cs\<lparr>world := ?d0\<rparr>" B H cb] p(5) by simp
  have "balanced ?d0 d" using c balanced_trans [OF c finish_balanced] p(6) by simp
  moreover have "reads_ok ?g = reads_ok d" "lock_balance ?g = lock_balance d"
    by (auto simp: reads_ok_def lock_balance_def)
  moreover have "reads_ok ?d0 = reads_ok (world cs)" using p by (simp add: vendor_arrive_def reads_ok_def)
  moreover have "lock_balance (release_B ?g) = lock_balance (world cs)" if "lock_balance ?g = lock_balance ?d0"
  proof -
    have "lock_balance ?d0 = (IoCount (RemoveLockB (world cs)) - int (length (PendingReads (world cs)))) mod 4294967296"
      using p by (simp add: lock_balance_def vendor_arrive_def)
    moreover have "lock_balance (world cs) = (IoCount (RemoveLockB (world cs)) - int (length (PendingReads (world cs))) - 1) mod 4294967296"
      using fly by (simp add: lock_balance_def algebra_simps)
    ultimately show ?thesis using release_B_balance [of ?g] that by (simp add: mod_diff_left_eq)
  qed
  moreover have "reads_ok (release_B ?g) = reads_ok ?g" by (simp add: reads_ok_def)
  ultimately show ?thesis unfolding p(7) by (simp add: balanced_def vendor_depart_def)
qed

lemma enable_balanced:
  "balanced (world cs) (world (snd (AdaptoidSetDeviceEnable B (device_seams B H) on cs)))"
proof -
  obtain got d where claim: "AdaptoidVendorTryClaim (world cs) = (got, d)" by fastforce
  have d: "balanced (world cs) d"
    using claim_effect(5,6,8) [OF claim] reads_ok_cong [of d "world cs"] by (simp add: balanced_def)
  note send = balanced_trans [OF d send_balanced]
  have "balanced d (world (AdaptoidSendIdleCommand (device_seams B H) (cs\<lparr>world := d\<rparr>)))"
    using balance.lifted.work(1) [of "cs\<lparr>world := d\<rparr>" B H] by (simp add: AdaptoidSendIdleCommand_def)
  note idle = balanced_trans [OF d this]
  show ?thesis using d send idle by (simp add: AdaptoidSetDeviceEnable_def claim Let_def)
qed

end
