(* ===== verification/Device_Run.thy ===== *)
theory Device_Run
  imports Vendor_Slot
begin

text \<open>
  A wired device as a transition system: its handlers, one at a time, over the core and the device
  extension (\<open>src_drv/wdm.c\<close> on \<open>src_drv/core.c\<close>). \<open>device_step\<close> are the handlers of a bus that completes what it
  accepted; \<open>lock_run\<close> adds the other users of the remove lock and what a bus may do besides. What every run
  keeps: the remove lock counts exactly; while the probe is waiting its own transfer is in flight. What a failed
  transfer, a refused send and a synchronous completion do to it.
\<close>

section \<open>The device as a transition system\<close>

text \<open>What can happen to a wired device, one handler at a time. A \<open>clean\<close> run is one in which no
  transfer fails and the device is not being removed.\<close>

inductive device_step :: "bus \<Rightarrow> hooks \<Rightarrow> bool \<Rightarrow> shell core_state \<Rightarrow> shell core_state \<Rightarrow> bool"
  for B :: bus and H :: hooks and clean :: bool where
  packet: "length pkt = 5 \<Longrightarrow> device_step B H clean cs (core_on_raw_packet (device_seams B H) pkt cs)"
| tick: "device_step B H clean cs (core_tick (device_seams B H) now cs)"
| completed: "State (Vendor (world cs)) = SLOT_IN_FLIGHT \<Longrightarrow>
    clean \<longrightarrow> NT_SUCCESS st \<and> \<not> Removed (RemoveLockA (world cs)) \<Longrightarrow> length reply = 64 \<Longrightarrow>
    device_step B H clean cs (AdaptoidVendorComplete B (device_seams B H) st info
      (cs\<lparr>world := (world cs)\<lparr>CoreVendorReply := reply\<rparr>\<rparr>))"
| enabled: "device_step B H clean cs (snd (AdaptoidSetDeviceEnable B (device_seams B H) on cs))"
| read: "\<not> armed (world cs) irp \<Longrightarrow>
    device_step B H clean cs (cs\<lparr>world := snd (AdaptoidReadReport irp (world cs))\<rparr>)"
| cancelled: "device_step B H clean cs (cs\<lparr>world := handle_read (Cancel irp) (world cs)\<rparr>)"
| clock: "device_step B H clean cs (cs\<lparr>world := (world cs)\<lparr>interrupt_time := now\<rparr>\<rparr>)"
| removing: "\<not> clean \<Longrightarrow> device_step B H clean cs (cs\<lparr>world := (world cs)
    \<lparr>RemoveLockA := (RemoveLockA (world cs))\<lparr>Removed := True\<rparr>\<rparr>\<rparr>)"



section \<open>Everybody who counts\<close>

text \<open>A send whose submission the bus completes, with an error, before \<open>IoCallDriver\<close> returns that error: the
  completion runs on the slot the send has just marked, and the send then takes back what it did.\<close>

definition sent_inside :: "bus \<Rightarrow> shell seams \<Rightarrow> vendor_setup \<Rightarrow> u32 \<Rightarrow> vendor_callback \<Rightarrow> ntstatus \<Rightarrow> u32 \<Rightarrow> shell core_state \<Rightarrow> shell core_state" where
  "sent_inside B S setup len cb st info cs =
     (let dx = snd (acquire_B (world cs));
          dx = dx\<lparr>Vendor := (Vendor dx)\<lparr>State := SLOT_IN_FLIGHT, Callback := cb, SubmitTime := interrupt_time dx\<rparr>,
                  submitted := submitted dx @ [(setup, len)]\<rparr>
      in AdaptoidVendorComplete B S st info (cs\<lparr>world := dx\<rparr>))"

text \<open>The runs of a device with everything that touches \<open>RemoveLockB\<close>, and the references that are held besides those
  of the transfer in flight and of the parked reads: the base reference and one per request in a dispatch routine or
  queued restart (\<open>enters\<close>, \<open>leaves\<close>). The wait of a removal gives back two. A completion that arrives with
  no transfer in flight, and one that has run inside a refused submission, drop a reference nobody took for them.\<close>

inductive lock_run :: "bus \<Rightarrow> hooks \<Rightarrow> shell core_state \<Rightarrow> shell core_state \<Rightarrow> int \<Rightarrow> bool"
  for B :: bus and H :: hooks and cs0 :: "shell core_state" where
  begins: "lock_run B H cs0 cs0 1"
| runs: "lock_run B H cs0 cs n \<Longrightarrow> device_step B H False cs cs' \<Longrightarrow> lock_run B H cs0 cs' n"
| strays: "lock_run B H cs0 cs n \<Longrightarrow> State (Vendor (world cs)) \<noteq> SLOT_IN_FLIGHT \<Longrightarrow>
    lock_run B H cs0 (AdaptoidVendorComplete B (device_seams B H) st info cs) (n - 1)"
| refused: "lock_run B H cs0 cs n \<Longrightarrow> State (Vendor (world cs)) = SLOT_CLAIMED \<Longrightarrow> \<not> Removed (RemoveLockB (world cs)) \<Longrightarrow>
    \<not> NT_SUCCESS st \<Longrightarrow> sent_inside B (device_seams B H) setup len cb st info cs = c \<Longrightarrow>
    lock_run B H cs0 (c\<lparr>world := vendor_unsend st (world c)\<rparr>) (n - of_bool (State (Vendor (world c)) \<noteq> SLOT_IN_FLIGHT))"
| enters: "lock_run B H cs0 cs n \<Longrightarrow> acquire_B (world cs) = (st, d) \<Longrightarrow>
    lock_run B H cs0 (cs\<lparr>world := d\<rparr>) (n + of_bool (NT_SUCCESS st))"
| leaves: "lock_run B H cs0 cs n \<Longrightarrow> lock_run B H cs0 (cs\<lparr>world := release_B (world cs)\<rparr>) (n - 1)"
| waits: "lock_run B H cs0 cs n \<Longrightarrow>
    lock_run B H cs0 (cs\<lparr>world := (world cs)\<lparr>RemoveLockB := snd (AdaptoidLockReleaseAndWait (RemoveLockB (world cs)))\<rparr>\<rparr>) (n - 2)"







text \<open>A device just wired and initialised, on a bus that takes every transfer, running no script.\<close>

definition ready_bus :: bus where
  "ready_bus = \<lparr>urb_pool = (\<lambda>_. True), irp_pool = (\<lambda>_. True), call_driver = (\<lambda>_ _ _. STATUS_PENDING)\<rparr>"

definition no_script :: hooks where
  "no_script = \<lparr>script_input = (\<lambda>_ _ cs. cs), script_tick = (\<lambda>_ cs. cs)\<rparr>"

definition ready_device :: "shell core_state" where
  "ready_device = AdaptoidWireDevice 9 (core_zeroed ready_ext)"

lemma ready_device_state:
  "world ready_device = ready_ext" "vendor ready_device = 2" "vendor_claim ready_device = 3"
  "accessory_state ready_device = 0" "vendor_owner ready_device = 0" "vendor_ctx ready_device = 9"
  by (simp_all add: ready_device_def AdaptoidWireDevice_def core_set_tick_hook_def core_set_input_hook_def
      core_set_vendor_sync_def core_set_vendor_claim_def core_set_vendor_def core_init_def core_zeroed_def)

lemma ready_ext_state:
  "Vendor ready_ext = \<lparr>State = SLOT_FREE, PendingIrp = 0, Callback = Cb_null, Done = False,
     LastStatus = 0, LastInformation = 0, SubmitTime = 0\<rparr>"
  "RemoveLockB ready_ext = AdaptoidLockInit" "RemoveLockA ready_ext = AdaptoidLockInit"
  "PendingReads ready_ext = []" "armed ready_ext = (\<lambda>_. False)" "submitted ready_ext = []"
  by (simp_all add: ready_ext_def AdaptoidDevExtInit_def zeroed_ext_def)



section \<open>The probe is never stranded in a clean run\<close>

lemma kept_world:
  assumes "kept core_slot cs" and "core_slot (world cs) = Slot_in_flight \<Longrightarrow> core_slot w = Slot_in_flight"
  shows "kept core_slot (cs\<lparr>world := w\<rparr>)"
proof -
  have "chain_wf (cs\<lparr>world := w\<rparr>) = chain_wf cs"
    using core_wf_cong [of "cs\<lparr>world := w\<rparr>" cs] by (simp add: chain_wf_def wf_fields_def)
  then show ?thesis using assms by (auto simp: kept_def owner_inv_def)
qed

lemma sink_slot: "Vendor (AdaptoidReportSink i b n d) = Vendor d"
proof -
  have "Vendor (snd (AdaptoidDequeueRead d)) = Vendor d" for d
  proof (induction d rule: AdaptoidDequeueRead.induct)
    case (1 d)
    then show ?case
      by (cases "PendingReads d")
        (simp_all add: AdaptoidDequeueRead.simps [of d] unlink_head_def AdaptoidClaimIrp_def)
  qed
  note d = this [of d]
  show ?thesis using d
    by (cases "AdaptoidDequeueRead d") (simp add: AdaptoidReportSink_def split: option.split)
qed

lemma read_slot: "Vendor (snd (AdaptoidReadReport irp d)) = Vendor d"
proof -
  obtain t e where t: "take_report d = (t, e)" by fastforce
  have e: "Vendor e = Vendor d" using t by (auto simp: take_report_def split: if_splits)
  have q: "Vendor (AdaptoidQueueRead irp f) = Vendor f" for f
  proof -
    obtain c g where "park_locked irp f = (c, g)" by fastforce
    moreover from this have "Vendor g = Vendor f"
      by (auto simp: park_locked_def AdaptoidClaimIrp_def AdaptoidUnlinkRead_def Let_def split: if_splits)
    ultimately show ?thesis by (simp add: AdaptoidQueueRead_def)
  qed
  show ?thesis
    using t e q lock_fields(13) [of e]
    by (cases t; cases "acquire_B e") (simp_all add: AdaptoidReadReport_eq AdaptoidCompleteIrp_def)
qed

lemma cancel_slot: "Vendor (handle_read (Cancel irp) d) = Vendor d"
  by (simp add: io_cancel_def AdaptoidClaimIrp_def AdaptoidCancelReadIrp_def)

text \<open>What the script must not do: touch the probe or the slot.\<close>

definition hooks_kept :: "hooks \<Rightarrow> bool" where
  "hooks_kept H \<longleftrightarrow> (\<forall>pkt now cs. kept core_slot cs \<longrightarrow>
     kept core_slot (script_input H pkt now cs) \<and> kept core_slot (script_tick H now cs))"

lemma deferred_kept:
  assumes "kept core_slot cs" shows "kept core_slot (snd (core_effect_run_deferred (device_seams B H) now cs))"
proof -
  obtain t c where "deferred_loop 32 (device_seams B H) now cs = (t, c)" by fastforce
  then show ?thesis
    using adaptoid.deferred_sends_ok [OF keptD(1,2) [OF assms], of 32 B H now] kept_chain [OF _ _ _ assms]
    by (auto simp: core_effect_run_deferred_def sends_ok_def)
qed

lemma arrive_slot [simp]: "core_slot (vendor_arrive st info e) = Slot_claimed"
  by (simp add: vendor_arrive_def core_slot_def)


lemma chain_kept:
  assumes k: "kept core_slot cs" and fly: "State (Vendor (world cs)) = SLOT_IN_FLIGHT"
  shows "kept core_slot (snd (vendor_chain B (device_seams B H) (Callback (Vendor (world cs)))
    (cs\<lparr>world := vendor_arrive st info e\<rparr>)))"
proof -
  let ?S = "device_seams B H" and ?c = "cs\<lparr>world := vendor_arrive st info e\<rparr>"
  obtain t c where r: "run_callback B ?S (Callback (Vendor (world cs))) ?c = (t, c)" by fastforce
  have wf: "chain_wf ?c"
    using keptD(2) [OF k] core_wf_cong [of ?c cs] by (simp add: chain_wf_def wf_fields_def)
  have "kept core_slot c"
  proof (cases "Callback (Vendor (world cs)) = Cb_core")
    case True
    have "completing core_slot ?c"
      using k wf by (auto simp: completing_def kept_def owner_inv_def)
    then show ?thesis
      using adaptoid.completed_kept r True by (auto simp: AdaptoidCoreVendorComplete_def)
  next
    case False
    have mine: "vendor_owner cs \<noteq> 1" "vendor_owner cs \<noteq> 2"
      using k False by (auto simp: kept_def owner_inv_def slot_cases)
    then have "kept core_slot ?c" using k wf by (auto simp: kept_def owner_inv_def)
    then have "kept core_slot (?c\<lparr>world := w\<rparr>)" for w
      by (rule kept_world) simp
    then show ?thesis
      using r False \<open>kept core_slot ?c\<close>
      by (cases "Callback (Vendor (world cs))") (auto simp: EnableSecondStage_def)
  qed
  then show ?thesis using deferred_kept r by (simp add: vendor_chain_def)
qed

lemma complete_kept:
  assumes k: "kept core_slot cs" and fly: "State (Vendor (world cs)) = SLOT_IN_FLIGHT"
    and ok: "NT_SUCCESS st" "\<not> Removed (RemoveLockA (world cs))"
  shows "kept core_slot (AdaptoidVendorComplete B (device_seams B H) st info cs)"
proof -
  let ?S = "device_seams B H"
  obtain held e cb taken c d where p: "held \<longleftrightarrow> \<not> Removed (RemoveLockA (world cs))"
    "cb = (if held \<and> NT_SUCCESS st then Callback (Vendor (world cs)) else Cb_null)"
    "vendor_chain B ?S cb (cs\<lparr>world := vendor_arrive st info e\<rparr>) = (taken, c)"
    "d = (if taken then world c else vendor_finish (world c))"
    "AdaptoidVendorComplete B ?S st info cs =
       c\<lparr>world := vendor_depart held (d\<lparr>Vendor := (Vendor d)\<lparr>Done := True\<rparr>\<rparr>)\<rparr>"
    by (rule complete_parts [OF fly, where B = B and S = ?S and st = st and info = info]) (rule that)
  have "kept core_slot c" using chain_kept [OF k fly, of B H st info e] p(1,2,3) ok by simp
  then show ?thesis
    unfolding p(5) by (rule kept_world) (auto simp: p(4) vendor_depart_def slot_cases)
qed

lemma enable_kept:
  assumes k: "kept core_slot cs"
  shows "kept core_slot (snd (AdaptoidSetDeviceEnable B (device_seams B H) on cs))"
proof -
  obtain got d where claim: "AdaptoidVendorTryClaim (world cs) = (got, d)" by fastforce
  note cl = claim_effect(1-4) [OF claim]
  have d: "kept core_slot (cs\<lparr>world := d\<rparr>)"
    by (rule kept_world [OF k]) (use cl in \<open>auto simp: slot_cases\<close>)
  have flag: "kept core_slot (c\<lparr>claim_idle_command := True\<rparr>)" "kept core_slot (c\<lparr>keepalive_time := n\<rparr>)"
    if "kept core_slot c" for c :: "shell core_state" and n
    by (rule kept_cong [OF _ that], simp add: kept_fields_def wf_fields_def)+
  have free: "core_slot d = Slot_claimed" if got using cl that by (simp add: slot_cases)
  have send: "kept core_slot ((cs\<lparr>world := d\<rparr>)\<lparr>world := w\<rparr>)"
    "kept core_slot ((cs\<lparr>world := d, keepalive_time := n\<rparr>)\<lparr>world := w\<rparr>)" if got for w n
    by (rule kept_world [OF d], simp add: free that, rule kept_world [OF flag(2) [OF d]], simp add: free that)
  have "sends_ok core_slot (cs\<lparr>world := d\<rparr>) (core_effect_send_idle (device_seams B H) (cs\<lparr>world := d\<rparr>))"
    by (rule adaptoid.pak_sends_ok(3)) (use keptD [OF d] in simp_all)
  then have idle: "kept core_slot (snd (core_effect_send_idle (device_seams B H) (cs\<lparr>world := d\<rparr>)))"
    using kept_chain [OF _ _ _ d] by (auto simp: sends_ok_def split: prod.splits)
  show ?thesis
    using d flag(1) [OF d] idle send
    by (simp add: AdaptoidSetDeviceEnable_def claim Let_def AdaptoidSendIdleCommand_def)
qed

lemma step_kept:
  assumes "device_step B H True cs cs'" and "hooks_kept H" and k: "kept core_slot cs"
  shows "kept core_slot cs'"
  using assms(1)
proof (cases rule: device_step.cases)
  case (packet pkt)
  have "kept core_slot (core_on_raw_packet (device_seams B H) pkt cs)"
    by (rule adaptoid.raw_packet_kept [OF k packet(2)])
      (use assms(2) in \<open>simp_all add: hooks_kept_def device_seams_def core_slot_def sink_slot\<close>)
  then show ?thesis using packet by simp
next
  case (tick now)
  have "kept core_slot (core_tick (device_seams B H) now cs)"
    by (rule adaptoid.tick_kept [OF k]) (use assms(2) in \<open>simp add: hooks_kept_def device_seams_def\<close>)
  then show ?thesis using tick by simp
next
  case (completed st reply info)
  have "kept core_slot (cs\<lparr>world := (world cs)\<lparr>CoreVendorReply := reply\<rparr>\<rparr>)"
    by (rule kept_world [OF k]) (simp add: slot_cases)
  then show ?thesis using complete_kept completed by simp
next
  case (enabled on)
  then show ?thesis using enable_kept [OF k] by simp
next
  case (read irp)
  then show ?thesis using kept_world [OF k] read_slot by (simp add: slot_cases)
next
  case (cancelled irp)
  then show ?thesis using kept_world [OF k] cancel_slot [of irp "world cs"] by (simp add: slot_cases)
qed (use kept_world [OF k] in \<open>simp_all add: slot_cases\<close>)

lemma run_kept:
  "(device_step B H True)\<^sup>*\<^sup>* cs cs' \<Longrightarrow> hooks_kept H \<Longrightarrow> kept core_slot cs \<Longrightarrow> kept core_slot cs'"
  by (induction rule: rtranclp_induct) (auto dest: step_kept)

text \<open>C2. The probe is not stranded. As long as no transfer fails and the device stays, a device whose
  probe is waiting has the probe's own transfer in flight, with the core's callback on it and the
  probe recorded as its owner: the completion that will come is the one the probe waits for. The same
  holds of the effect engine's transfers, whatever packets, ticks, enables, reads and other
  completions come in between.\<close>

theorem probe_never_stranded:
  assumes "(device_step B H True)\<^sup>*\<^sup>* cs cs'" and "hooks_kept H" and "kept core_slot cs"
  shows "(accessory_state cs' = 1 \<longrightarrow> vendor_owner cs' = 1 \<and> probe_step cs' \<le> 7) \<and>
    (vendor_owner cs' = 1 \<or> vendor_owner cs' = 2 \<longrightarrow>
      State (Vendor (world cs')) = SLOT_IN_FLIGHT \<and> Callback (Vendor (world cs')) = Cb_core)"
  using run_kept [OF assms] by (auto simp: kept_def owner_inv_def slot_cases)

lemma ready_kept: "kept core_slot ready_device"
proof -
  have "core_wf ready_device"
    using core_init_wf core_wf_cong [of ready_device "core_init 1 9 (core_zeroed ready_ext)"]
    by (simp add: ready_device_def AdaptoidWireDevice_def core_set_tick_hook_def core_set_input_hook_def
        core_set_vendor_sync_def core_set_vendor_claim_def core_set_vendor_def wf_fields_def)
  moreover have "next_tick ready_device = 0"
    by (simp add: ready_device_def AdaptoidWireDevice_def core_set_tick_hook_def core_set_input_hook_def
        core_set_vendor_sync_def core_set_vendor_claim_def core_set_vendor_def core_init_def core_zeroed_def)
  ultimately show ?thesis
    by (auto simp: kept_def owner_inv_def chain_wf_def ready_device_state is_s32_def)
qed

text \<open>The first packet starts the probe: its first register write is in flight.\<close>

lemma first_packet:
  defines "S \<equiv> device_seams ready_bus no_script"
  shows "accessory_state (core_on_raw_packet S [0, 0, 0x80, 0, 0] ready_device) = 1"
    "vendor_owner (core_on_raw_packet S [0, 0, 0x80, 0, 0] ready_device) = 1"
    "State (Vendor (world (core_on_raw_packet S [0, 0, 0x80, 0, 0] ready_device))) = SLOT_IN_FLIGHT"
    "submitted (world (core_on_raw_packet S [0, 0, 0x80, 0, 0] ready_device)) = [((0x40, 0x72, 0x0038, 0x0015), 0)]"
  by (simp_all add: core_on_raw_packet_def core_probe_start_def seam_claim_def S_def device_seams_def
      ready_device_state AdaptoidCoreVendorClaim_def AdaptoidVendorTryClaim_def ready_ext_state core_probe_issue_def
      probe_request_def CORE_PROBE_WRITES_def seam_vendor_def AdaptoidCoreVendor_def AdaptoidVendorSend_def
      acquire_B_def AdaptoidLockAcquire_def AdaptoidLockInit_def AdaptoidVendorSubmitUrb_def ready_bus_def Let_def)

lemma no_script_kept: "hooks_kept no_script"
  by (simp add: hooks_kept_def no_script_def)

theorem probe_never_stranded_witness:
  "let cs' = core_on_raw_packet (device_seams ready_bus no_script) [0, 0, 0x80, 0, 0] ready_device
   in accessory_state cs' = 1 \<and> vendor_owner cs' = 1 \<and> probe_step cs' \<le> 7 \<and>
     State (Vendor (world cs')) = SLOT_IN_FLIGHT \<and> Callback (Vendor (world cs')) = Cb_core"
proof -
  let ?c = "core_on_raw_packet (device_seams ready_bus no_script) [0, 0, 0x80, 0, 0] ready_device"
  have "(device_step ready_bus no_script True)\<^sup>*\<^sup>* ready_device ?c"
    by (rule r_into_rtranclp, rule device_step.packet) simp
  from probe_never_stranded [OF this no_script_kept ready_kept] first_packet
  show ?thesis by (simp add: Let_def)
qed

section \<open>A failed transfer strands it\<close>










lemma depart_slot [simp]:
  "core_slot (vendor_depart held (d\<lparr>Vendor := (Vendor d)\<lparr>Done := True\<rparr>\<rparr>)) = core_slot d"
  "core_slot (vendor_finish d) = Slot_in_flight \<longleftrightarrow> core_slot d = Slot_in_flight"
  by (simp_all add: vendor_depart_def core_slot_def)

lemma tick_hook_call [simp]: "call_tick_hook (device_seams B H) f x now cs = script_tick H now cs"
  by (simp add: device_seams_def)







section \<open>The synchronous transfers\<close>

lemma send_done:
  assumes "AdaptoidVendorSend B su n cb d = (st, e)"
  shows "Done (Vendor e) = Done (Vendor d)"
proof -
  obtain a f where acq: "acquire_B d = (a, f)" by fastforce
  then have f: "Vendor f = Vendor d" using lock_fields(13) [of d] by simp
  have fail: "Done (Vendor (VendorFail s x)) = Done (Vendor x)" for s x
    by (simp add: VendorFail_def vendor_release_def AdaptoidCompleteIrp_def)
  obtain s g where sub: "AdaptoidVendorSubmitUrb B su n
      (f\<lparr>Vendor := (Vendor f)\<lparr>State := SLOT_IN_FLIGHT, Callback := cb, SubmitTime := interrupt_time f\<rparr>\<rparr>) = (s, g)"
    by fastforce
  show ?thesis
    using assms acq f fail sub submit_fields(1) [OF sub]
    by (auto simp: AdaptoidVendorSend_def vendor_unsend_def Let_def split: if_splits)
qed

lemma clear_done_state [simp]:
  "Done (Vendor (clear_done d)) = False" "State (Vendor (clear_done d)) = State (Vendor d)"
  by (simp_all add: clear_done_def)

text \<open>A synchronous transfer of the core returns: it waits only for a transfer that was taken, whose
  completion ends the wait. With the slot taken it is refused at once and changes nothing.\<close>

theorem core_sync_returns:
  "AdaptoidCoreVendorSync B S ans req data len cs \<noteq> None \<and>
   (State (Vendor (world cs)) \<noteq> SLOT_FREE \<longrightarrow>
     AdaptoidCoreVendorSync B S ans req data len cs = Some (False, data, cs))"
proof -
  obtain got d where claim: "AdaptoidVendorTryClaim (world cs) = (got, d)" by fastforce
  let ?su = "(bmRequestType req, bRequest req, wValue req, wIndex req)"
  obtain st e where send: "AdaptoidVendorSend B ?su len Cb_null (clear_done d) = (st, e)" by fastforce
  note s = send_effect(1) [OF send] send_done [OF send]
  show ?thesis
    using claim_effect(1,2) [OF claim] s
    by (auto simp: AdaptoidCoreVendorSync_def claim send Let_def vendor_wait_def split: prod.splits)
qed

theorem core_sync_returns_witness:
  "AdaptoidCoreVendorSync ready_bus (device_seams ready_bus no_script) (\<lambda>_ d _. (0, 0, d))
     \<lparr>bmRequestType = 0x40, bRequest = 0x72, wValue = 0, wIndex = 0, wLength = 0\<rparr> [] 0
     (core_on_raw_packet (device_seams ready_bus no_script) [0, 0, 0x80, 0, 0] ready_device) =
   Some (False, [], core_on_raw_packet (device_seams ready_bus no_script) [0, 0, 0x80, 0, 0] ready_device)"
  using core_sync_returns [of ready_bus "device_seams ready_bus no_script" "\<lambda>_ d _. (0, 0, d)"
      "\<lparr>bmRequestType = 0x40, bRequest = 0x72, wValue = 0, wIndex = 0, wLength = 0\<rparr>" "[]" 0
      "core_on_raw_packet (device_seams ready_bus no_script) [0, 0, 0x80, 0, 0] ready_device"] first_packet(3)
  by simp

text \<open>The other two synchronous clients ignore the status of the send and wait all the same. On a
  claimed slot \<open>AdaptoidCmdXfer\<close> returns exactly when the send was accepted: a refused one (no memory,
  a device going away, a request type that is neither vendor in nor out, which the caller supplies)
  frees the slot, no completion comes, and the thread waits for ever.\<close>

theorem cmd_xfer_returns_iff_sent:
  assumes "State (Vendor (world cs)) = SLOT_CLAIMED"
  shows "AdaptoidCmdXfer B S ans setup data len keep cs \<noteq> None \<longleftrightarrow>
    NT_SUCCESS (fst (AdaptoidVendorSend B (setup_of setup) len Cb_null (clear_done (world cs))))"
proof -
  obtain st e where send: "AdaptoidVendorSend B (setup_of setup) len Cb_null (clear_done (world cs)) = (st, e)" by fastforce
  note s = send_effect(1,2) [OF send] send_done [OF send]
  show ?thesis
    using s assms by (cases "NT_SUCCESS st") (auto simp: AdaptoidCmdXfer_def send Let_def vendor_wait_def split: prod.splits)
qed

theorem cmd_xfer_returns_iff_sent_witness:
  "AdaptoidCmdXfer ready_bus (device_seams ready_bus no_script) (\<lambda>_ d _. (0, 0, d)) [0x41, 0, 0, 0, 0, 0] [] 0 False
     (ready_device\<lparr>world := snd (AdaptoidVendorTryClaim (world ready_device))\<rparr>) = None"
proof -
  let ?c = "ready_device\<lparr>world := snd (AdaptoidVendorTryClaim (world ready_device))\<rparr>"
  have claimed: "State (Vendor (world ?c)) = SLOT_CLAIMED"
    by (simp add: AdaptoidVendorTryClaim_def ready_device_state ready_ext_state)
  have "\<not> NT_SUCCESS (fst (AdaptoidVendorSend ready_bus (setup_of [0x41, 0, 0, 0, 0, 0]) 0 Cb_null (clear_done (world ?c))))"
    by (simp add: AdaptoidVendorSend_def acquire_B_def AdaptoidLockAcquire_def AdaptoidVendorTryClaim_def
        ready_device_state ready_ext_state clear_done_def AdaptoidLockInit_def setup_of_def Let_def)
  then show ?thesis using cmd_xfer_returns_iff_sent [OF claimed] by blast
qed

text \<open>A send whose submission fails after its completion has run drops its reference twice.
  \<open>AdaptoidVendorSend\<close> takes a failure of \<open>IoCallDriver\<close> to mean that the transfer never reached the
  bus, but a driver below that completes the request at once, with an error, has run
  \<open>AdaptoidVendorComplete\<close> before it returns that error: the completion drops the reference and the
  failure path drops it again, so the lock is one short of what it counts.\<close>

theorem failed_call_drops_twice:
  assumes "State (Vendor (world cs)) = SLOT_IN_FLIGHT" and "reads_ok (world cs)"
    and "State (Vendor (world (AdaptoidVendorComplete B (device_seams B H) st info cs))) \<noteq> SLOT_IN_FLIGHT"
  shows "lock_balance (vendor_unsend st (world (AdaptoidVendorComplete B (device_seams B H) st info cs))) =
    (lock_balance (world cs) - 1) mod 2 ^ 32"
proof -
  let ?d = "world (AdaptoidVendorComplete B (device_seams B H) st info cs)"
  have "lock_balance ?d = lock_balance (world cs)"
    using complete_balanced [OF assms(1), of B H st info] assms(2) by (simp add: balanced_def)
  moreover have "lock_balance (VendorFail st ?d) = lock_balance ?d"
    using assms(3) by (simp add: lock_balance_def)
  ultimately show ?thesis
    using assms(3) release_B_balance [of "VendorFail st ?d"] by (simp add: vendor_unsend_def)
qed

theorem failed_call_drops_twice_witness:
  "let cs = ready_device\<lparr>world := ready_ext\<lparr>Vendor := (Vendor ready_ext)\<lparr>State := SLOT_IN_FLIGHT\<rparr>\<rparr>\<rparr>;
       st = STATUS_CANCELLED
   in lock_balance (vendor_unsend st (world (AdaptoidVendorComplete ready_bus (device_seams ready_bus no_script) st 0 cs))) =
     (lock_balance (world cs) - 1) mod 2 ^ 32"
proof -
  let ?cs = "ready_device\<lparr>world := ready_ext\<lparr>Vendor := (Vendor ready_ext)\<lparr>State := SLOT_IN_FLIGHT\<rparr>\<rparr>\<rparr>"
  have flags: "\<not> claim_idle_command ready_device" "\<not> claim_effect_tick ready_device"
    "\<not> claim_pak_insert ready_device" "\<not> claim_pak_remove ready_device"
    by (simp_all add: ready_device_def AdaptoidWireDevice_def core_set_tick_hook_def core_set_input_hook_def
      core_set_vendor_sync_def core_set_vendor_claim_def core_set_vendor_def core_init_def core_zeroed_def)
  have "deferred_loop n S now (ready_device\<lparr>world := w\<rparr>) = (False, ready_device\<lparr>world := w\<rparr>)" for n S now w
    using flags by (cases n) (simp_all add: Let_def)
  then have over: "State (Vendor (world (AdaptoidVendorComplete ready_bus (device_seams ready_bus no_script) STATUS_CANCELLED 0 ?cs))) \<noteq> SLOT_IN_FLIGHT"
    by (simp add: AdaptoidVendorComplete_def acquire_A_def AdaptoidLockAcquire_def ready_ext_state AdaptoidLockInit_def
        Let_def vendor_chain_def core_effect_run_deferred_def vendor_arrive_def vendor_depart_def)
  have "reads_ok (world ?cs)" by (simp add: reads_ok_def ready_ext_state)
  then show ?thesis
    using failed_call_drops_twice [where cs = ?cs and st = STATUS_CANCELLED and info = 0, OF _ _ over] by (simp add: Let_def)
qed

section \<open>A tick does not claim\<close>

lemma issue_fields:
  "claim_effect_tick (snd (core_effect_issue S rq v i nx cs)) = claim_effect_tick cs"
  "effect_state (snd (core_effect_issue S rq v i nx cs)) = effect_state cs"
  "next_tick (snd (core_effect_issue S rq v i nx cs)) = next_tick cs"
  by (simp_all add: core_effect_issue_def Let_def split: prod.split)

lemma tick_clears: "\<not> claim_effect_tick (snd (core_effect_tick S now cs))"
proof -
  obtain r p c where ev: "core_effect_evaluate True (tick_of now) stack_payload (cs\<lparr>claim_effect_tick := False\<rparr>) = (r, p, c)"
    by (metis prod_cases3)
  have c: "\<not> claim_effect_tick c"
    using evaluate_claim [of True "tick_of now" stack_payload "cs\<lparr>claim_effect_tick := False\<rparr>"] ev by simp
  obtain r' p' c' where ev': "core_effect_evaluate False (next_tick c) stack_payload (c\<lparr>effect_state := 2\<rparr>) = (r', p', c')"
    by (metis prod_cases3)
  have "\<not> claim_effect_tick c'"
    using evaluate_claim [of False "next_tick c" stack_payload "c\<lparr>effect_state := 2\<rparr>"] ev' c by simp
  then have "\<not> claim_effect_tick (snd (core_effect_send_periodic S now c))"
    using c ev' by (simp add: core_effect_send_periodic.simps [of S] core_effect_send_bitmap_def issue_fields)
  then have "\<not> claim_effect_tick (snd (core_effect_keepalive S now c))"
    using c by (simp add: core_effect_keepalive.simps [of S] issue_fields)
  then show ?thesis
    using c ev by (simp add: core_effect_tick.simps [of S] core_effect_send_bitmap_def issue_fields)
qed

text \<open>A tick loses what it was asked to send. \<open>core_tick\<close> runs the effect engine without claiming the
  slot, so unless somebody else happens to hold it claimed the transport refuses the transfer: nothing
  is sent and the slot is as it was; but the request of a deferred start (\<open>claim_effect_tick\<close>) is
  cleared, and a window that had to be sent is booked as sent.\<close>

theorem tick_loses_deferred_start:
  assumes "kept core_slot cs" and "State (Vendor (world cs)) \<noteq> SLOT_CLAIMED"
  shows "fst (core_effect_tick (device_seams B H) now cs) = False \<and>
    core_slot (world (snd (core_effect_tick (device_seams B H) now cs))) = core_slot (world cs) \<and>
    \<not> claim_effect_tick (snd (core_effect_tick (device_seams B H) now cs)) \<and>
    (fst (core_effect_evaluate True (tick_of now) stack_payload (cs\<lparr>claim_effect_tick := False\<rparr>)) = 0 \<longrightarrow>
      effect_state (snd (core_effect_tick (device_seams B H) now cs)) = 1 \<and>
      next_tick (snd (core_effect_tick (device_seams B H) now cs)) = to_s32 (tick_of now + 32))"
proof -
  obtain t c where tk: "core_effect_tick (device_seams B H) now cs = (t, c)" by fastforce
  have "sends_ok core_slot cs (t, c)"
    using adaptoid.chain_sends_ok(3) [OF refl keptD(1,2) [OF assms(1)], of B H now] tk by simp
  then have "\<not> t \<and> core_slot (world c) = core_slot (world cs)"
    using assms(2) by (simp add: sends_ok_def slot_cases)
  moreover obtain r p d where ev: "core_effect_evaluate True (tick_of now) stack_payload (cs\<lparr>claim_effect_tick := False\<rparr>) = (r, p, d)"
    by (metis prod_cases3)
  moreover have "effect_state c = 1 \<and> next_tick c = to_s32 (tick_of now + 32)" if "r = 0"
  proof -
    have "c = snd (core_effect_send_bitmap (device_seams B H) 0x36 p 1
        (d\<lparr>next_tick := to_s32 (tick_of now + 32), effect_state := 1, claim_pak_insert := False, claim_pak_remove := False\<rparr>))"
      using tk ev that by (simp add: core_effect_tick.simps [of "device_seams B H"])
    then show ?thesis by (simp add: core_effect_send_bitmap_def issue_fields)
  qed
  ultimately show ?thesis using tick_clears [of "device_seams B H" now cs] tk by simp
qed

theorem tick_loses_deferred_start_witness:
  "\<not> claim_effect_tick (snd (core_effect_tick (device_seams ready_bus no_script) 0 ready_device)) \<and>
   fst (core_effect_tick (device_seams ready_bus no_script) 0 ready_device) = False"
  using tick_loses_deferred_start [OF ready_kept, of ready_bus no_script 0]
  by (simp add: ready_device_state ready_ext_state)

end
