(* ===== verification/N64_Bus.thy ===== *)
theory N64_Bus
  imports Device_Run
begin

text \<open>
  The raw N64 bus transaction of \<open>src_drv/core.c\<close> (\<open>core_n64_transaction\<close>): its guards, the claim of
  the vendor slot, the short and the long form over the synchronous transport, the acceptance of the
  reply and the reversal in place. A transfer's data stage comes back from the seam as a list; the
  result is whether the transaction was attempted, the caller's buffer, and the length received.
\<close>

section \<open>The transaction\<close>

text \<open>The short form: a single IN transfer, the command packed into the setup packet.\<close>

definition n64_short_request :: "u8 list \<Rightarrow> s32 \<Rightarrow> s32 \<Rightarrow> core_vendor_req" where
  "n64_short_request tx tx_len rx_len =
     (let b1 = (if tx_len \<ge> 2 then tx ! 1 else 0);
          b2 = (if tx_len \<ge> 3 then tx ! 2 else 0);
          b3 = (if tx_len \<ge> 4 then tx ! 3 else 0)
      in \<lparr>bmRequestType = 0xC0, bRequest = 0x20 + of_int tx_len,
          wValue = ucast (tx ! 0) OR push_bit 8 (ucast b1), wIndex = ucast b2 OR push_bit 8 (ucast b3),
          wLength = of_int (rx_len + 1)\<rparr>)"

definition n64_short ::
    "'w seams \<Rightarrow> u8 list \<Rightarrow> s32 \<Rightarrow> s32 \<Rightarrow> 'w core_state \<Rightarrow> bool \<times> u8 list \<times> 'w core_state" where
  "n64_short S tx tx_len rx_len cs =
     (let (sent, reply, cs) = call_vendor_sync S (vendor_sync cs) (vendor_ctx cs)
            (n64_short_request tx tx_len rx_len) (replicate (nat (rx_len + 1)) 0) (of_int (rx_len + 1)) cs
      in (sent \<and> reply ! 0 \<noteq> 0, reply, cs))"

text \<open>The long form: the command goes out with a data stage, the reply is fetched by a second transfer.\<close>

definition n64_long_request :: "u8 list \<Rightarrow> s32 \<Rightarrow> core_vendor_req" where
  "n64_long_request tx rx_len =
     \<lparr>bmRequestType = 0x40, bRequest = 0x20, wValue = ucast (of_int rx_len :: u8) OR push_bit 8 (ucast (tx ! 0)),
      wIndex = ucast (tx ! 1) OR push_bit 8 (ucast (tx ! 2)), wLength = 0\<rparr>"

definition n64_fetch_request :: "s32 \<Rightarrow> core_vendor_req" where
  "n64_fetch_request rx_len =
     \<lparr>bmRequestType = 0xC0, bRequest = 0x71, wValue = 0x0030, wIndex = 0, wLength = of_int (rx_len + 1)\<rparr>"

definition n64_long ::
    "'w seams \<Rightarrow> u8 list \<Rightarrow> s32 \<Rightarrow> s32 \<Rightarrow> 'w core_state \<Rightarrow> bool \<times> u8 list \<times> 'w core_state" where
  "n64_long S tx tx_len rx_len cs =
     (let reply = replicate (nat (rx_len + 1)) 0;
          (sent, _, cs) = call_vendor_sync S (vendor_sync cs) (vendor_ctx cs)
            (n64_long_request tx rx_len) (drop 3 (take (nat tx_len) tx)) (of_int (tx_len - 3)) cs
      in if \<not> sent then (False, reply, cs)
         else
           let (sent, reply, cs) = call_vendor_sync S (vendor_sync cs) (vendor_ctx cs)
                 (n64_fetch_request rx_len) reply (of_int (rx_len + 1)) cs
           in (sent \<and> reply ! 0 AND 0x80 \<noteq> 0 \<and> uint (reply ! 0 AND 0x3F) = rx_len, reply, cs))"

text \<open>The two loops at the end: the copy out, and the reversal in place of its first \<open>n\<close> bytes.\<close>

definition n64_copy :: "nat \<Rightarrow> u8 list \<Rightarrow> u8 list \<Rightarrow> u8 list" where
  "n64_copy n reply rx = fold (\<lambda>i rx. rx[i := reply ! (i + 1)]) [0..<n] rx"

definition n64_reverse :: "nat \<Rightarrow> u8 list \<Rightarrow> u8 list" where
  "n64_reverse n rx = fold (\<lambda>i rx. (rx[i := rx ! (n - 1 - i)])[n - 1 - i := rx ! i]) [0..<n div 2] rx"

definition core_n64_transaction ::
    "'w seams \<Rightarrow> u8 list \<Rightarrow> s32 \<Rightarrow> u8 list \<Rightarrow> s32 \<Rightarrow> 'w core_state \<Rightarrow>
       bool \<times> u8 list \<times> s32 \<times> 'w core_state" where
  "core_n64_transaction S tx tx_len rx rx_len cs =
     (if vendor_sync cs = 0 then (False, rx, 0, cs)
      else if tx_len < 1 then (False, rx, 0, cs)
      else if \<not> (tx_len < 5 \<or> rx_len < 4) then (False, rx, 0, cs)
      else if rx_len < 0 \<or> rx_len > 63 then (False, rx, 0, cs)
      else
        let (got, cs) = seam_claim S cs
        in if \<not> got then (False, rx, 0, cs)
           else
             let (ok, reply, cs) = (if tx_len < 5 then n64_short S tx tx_len rx_len cs
                                    else n64_long S tx tx_len rx_len cs)
             in if \<not> ok then (True, rx, 0, cs)
                else (True, n64_reverse (nat rx_len) (n64_copy (nat rx_len) reply rx), rx_len, cs))"

section \<open>What it receives\<close>

lemma n64_copy_eq:
  "n \<le> length rx \<Longrightarrow> n < length reply \<Longrightarrow> n64_copy n reply rx = take n (tl reply) @ drop n rx"
proof (induction n)
  case 0
  then show ?case by (simp add: n64_copy_def)
next
  case (Suc n)
  then have "n64_copy (Suc n) reply rx = (take n (tl reply) @ drop n rx)[n := reply ! Suc n]"
    by (simp add: n64_copy_def)
  also have "\<dots> = take (Suc n) (tl reply) @ drop (Suc n) rx"
    using Suc.prems by (simp add: list_update_append take_Suc_conv_app_nth nth_tl Cons_nth_drop_Suc [symmetric])
  finally show ?case .
qed

lemma n64_reverse_step:
  assumes "k \<le> n div 2" and "n \<le> length rx"
  shows "fold (\<lambda>i rx. (rx[i := rx ! (n - 1 - i)])[n - 1 - i := rx ! i]) [0..<k] rx =
    map (\<lambda>i. if i < k \<or> n - k \<le> i \<and> i < n then rx ! (n - 1 - i) else rx ! i) [0..<length rx]"
  using assms
proof (induction k)
  case 0
  have "(\<lambda>i. if i < 0 \<or> n - 0 \<le> i \<and> i < n then rx ! (n - 1 - i) else rx ! i) = (!) rx"
    by (rule ext) auto
  then show ?case by (simp only: map_nth) simp
next
  case (Suc k)
  let ?a = "map (\<lambda>i. if i < k \<or> n - k \<le> i \<and> i < n then rx ! (n - 1 - i) else rx ! i) [0..<length rx]"
  have k: "k < n div 2" "k < length rx" "n - 1 - k < length rx" "\<not> n - k \<le> k" "n - 1 - k < n - k" "\<not> n - 1 - k < k"
    using Suc.prems by linarith+
  then have "?a ! k = rx ! k" "?a ! (n - 1 - k) = rx ! (n - 1 - k)" by simp_all
  moreover have "(?a[k := rx ! (n - 1 - k)])[n - 1 - k := rx ! k] =
      map (\<lambda>i. if i < Suc k \<or> n - Suc k \<le> i \<and> i < n then rx ! (n - 1 - i) else rx ! i) [0..<length rx]"
  proof (rule nth_equalityI)
    fix i assume "i < length ((?a[k := rx ! (n - 1 - k)])[n - 1 - k := rx ! k])"
    then have i: "i < length rx" by simp
    consider "i = k" | "i = n - 1 - k" "i \<noteq> k" | "i \<noteq> k" "i \<noteq> n - 1 - k" by blast
    then show "(?a[k := rx ! (n - 1 - k)])[n - 1 - k := rx ! k] ! i =
        map (\<lambda>i. if i < Suc k \<or> n - Suc k \<le> i \<and> i < n then rx ! (n - 1 - i) else rx ! i) [0..<length rx] ! i"
    proof cases
      case 3
      then have "i < Suc k \<or> n - Suc k \<le> i \<and> i < n \<longleftrightarrow> i < k \<or> n - k \<le> i \<and> i < n" using k by linarith
      then show ?thesis using i 3 by (simp add: nth_list_update)
    qed (use i k in \<open>simp_all add: nth_list_update\<close>)
  qed simp
  ultimately show ?case using Suc by simp
qed

lemma n64_reverse_eq:
  assumes "n \<le> length rx"
  shows "n64_reverse n rx = rev (take n rx) @ drop n rx"
proof -
  have "n64_reverse n rx = map (\<lambda>i. if i < n div 2 \<or> n - n div 2 \<le> i \<and> i < n then rx ! (n - 1 - i) else rx ! i) [0..<length rx]"
    unfolding n64_reverse_def by (rule n64_reverse_step) (use assms in simp_all)
  also have "\<dots> = map (\<lambda>i. if i < n then rx ! (n - 1 - i) else rx ! i) [0..<length rx]"
  proof (rule map_cong [OF refl])
    fix i
    define m where "m = n div 2"
    have m: "n = 2 * m \<or> n = 2 * m + 1" unfolding m_def by presburger
    show "(if i < n div 2 \<or> n - n div 2 \<le> i \<and> i < n then rx ! (n - 1 - i) else rx ! i) =
        (if i < n then rx ! (n - 1 - i) else rx ! i)"
    proof (cases "i < n \<and> \<not> (i < m \<or> n - m \<le> i)")
      case True
      then have "n - 1 - i = i" using m by linarith
      then show ?thesis using True by simp
    next
      case False
      then have "(i < m \<or> n - m \<le> i \<and> i < n) = (i < n)" using m by auto
      then show ?thesis unfolding m_def by simp
    qed
  qed
  also have "\<dots> = rev (take n rx) @ drop n rx"
  proof (rule nth_equalityI)
    fix i assume "i < length (map (\<lambda>i. if i < n then rx ! (n - 1 - i) else rx ! i) [0..<length rx])"
    then have i: "i < length rx" by simp
    then show "map (\<lambda>i. if i < n then rx ! (n - 1 - i) else rx ! i) [0..<length rx] ! i =
        (rev (take n rx) @ drop n rx) ! i"
      using assms by (cases "i < n") (simp_all add: nth_append rev_nth)
  qed (use assms in simp)
  finally show ?thesis .
qed

lemma n64_received:
  "n \<le> length rx \<Longrightarrow> n < length reply \<Longrightarrow>
     n64_reverse n (n64_copy n reply rx) = rev (take n (tl reply)) @ drop n rx"
  by (simp add: n64_copy_eq n64_reverse_eq)

lemma n64_refused:
  "vendor_sync cs = 0 \<or> tx_len < 1 \<or> \<not> (tx_len < 5 \<or> rx_len < 4) \<or> rx_len < 0 \<or> rx_len > 63 \<Longrightarrow>
     core_n64_transaction S tx tx_len rx rx_len cs = (False, rx, 0, cs)"
  unfolding core_n64_transaction_def by (elim disjE) simp_all

text \<open>A transport that fills the buffer it is given.\<close>

definition fills_buffer :: "'w seams \<Rightarrow> bool" where
  "fills_buffer S \<longleftrightarrow> (\<forall>f x req d n cs ok d' cs'. call_vendor_sync S f x req d n cs = (ok, d', cs') \<longrightarrow>
     length d' = length d)"

lemma n64_reply_length:
  assumes "fills_buffer S"
  shows "n64_short S tx tx_len rx_len cs = (ok, reply, cs') \<Longrightarrow> length reply = nat (rx_len + 1)"
    "n64_long S tx tx_len rx_len cs = (ok, reply, cs') \<Longrightarrow> length reply = nat (rx_len + 1)"
proof -
  have len: "call_vendor_sync S f x req d n c = (ok, d', c') \<Longrightarrow> length d' = length d" for f x req d n c ok d' c'
    using assms unfolding fills_buffer_def by blast
  show "n64_short S tx tx_len rx_len cs = (ok, reply, cs') \<Longrightarrow> length reply = nat (rx_len + 1)"
    "n64_long S tx tx_len rx_len cs = (ok, reply, cs') \<Longrightarrow> length reply = nat (rx_len + 1)"
    by (auto simp: n64_short_def n64_long_def Let_def dest: len split: prod.splits if_splits)
qed

lemma n64_in_buffer:
  assumes "fills_buffer S" and "nat rx_len \<le> length rx"
    and "core_n64_transaction S tx tx_len rx rx_len cs = (attempted, rx', actual, cs')"
  shows "0 \<le> actual \<and> actual \<le> 63 \<and> (actual = 0 \<or> actual = rx_len) \<and> length rx' = length rx \<and>
    drop (nat actual) rx' = drop (nat actual) rx \<and> (actual \<noteq> 0 \<longrightarrow> attempted)"
proof (cases "vendor_sync cs = 0 \<or> tx_len < 1 \<or> \<not> (tx_len < 5 \<or> rx_len < 4) \<or> rx_len < 0 \<or> rx_len > 63")
  case True
  then show ?thesis using assms(3) n64_refused [OF True] by simp
next
  case False
  obtain got c where claim: "seam_claim S cs = (got, c)" by fastforce
  obtain ok reply d where run: "(if tx_len < 5 then n64_short S tx tx_len rx_len c else n64_long S tx tx_len rx_len c) = (ok, reply, d)"
    by (metis prod_cases3)
  have "length reply = nat (rx_len + 1)"
    using run n64_reply_length [OF assms(1)] by (auto split: if_splits)
  then have "nat rx_len < length reply" using False by linarith
  note len = this
  define r where "r = n64_reverse (nat rx_len) (n64_copy (nat rx_len) reply rx)"
  have r: "length r = length rx" "drop (nat rx_len) r = drop (nat rx_len) rx"
    using n64_received [OF assms(2) len] assms(2) len by (simp_all add: r_def)
  have "core_n64_transaction S tx tx_len rx rx_len cs =
      (if \<not> got then (False, rx, 0, c) else if ok then (True, r, rx_len, d) else (True, rx, 0, d))"
    unfolding core_n64_transaction_def claim Let_def prod.case run r_def using False by auto
  then show ?thesis using assms(3) r False by (auto split: if_splits)
qed

text \<open>The transaction stays inside the caller's buffer. Whatever the device answers, at most 63
  bytes and at most the length asked for are reported, the buffer past them is untouched, and a
  refused or rejected transaction reports nothing and leaves the whole buffer as it was.\<close>

theorem n64_stays_in_buffer:
  assumes "fills_buffer S" and "nat rx_len \<le> length rx"
    and "core_n64_transaction S tx tx_len rx rx_len cs = (attempted, rx', actual, cs')"
  shows "0 \<le> actual \<and> actual \<le> 63 \<and> (actual = 0 \<or> actual = rx_len) \<and> length rx' = length rx \<and>
    drop (nat actual) rx' = drop (nat actual) rx \<and> (actual \<noteq> 0 \<longrightarrow> attempted)"
  using assms by (rule n64_in_buffer)

text \<open>A transport for concrete runs: an accessory that answers every transfer with its address bytes.\<close>

definition echo_seams :: "unit seams" where
  "echo_seams = \<lparr>call_sink = (\<lambda>_ _ _ _ _ w. w), call_vendor = (\<lambda>_ _ _ w. (True, w)),
     call_claim = (\<lambda>_ _ w. (True, w)),
     call_vendor_sync = (\<lambda>_ _ req d _ cs. (True, map (\<lambda>i. of_nat i + 1) [0..<length d], cs)),
     call_input_hook = (\<lambda>_ _ _ _ cs. cs), call_tick_hook = (\<lambda>_ _ _ cs. cs)\<rparr>"

definition echo_core :: "unit core_state" where
  "echo_core = core_set_vendor_sync 4 (core_zeroed ())"

theorem n64_stays_in_buffer_witness:
  "core_n64_transaction echo_seams [0] 1 [9, 9, 9, 9] 3 echo_core = (True, [4, 3, 2, 9], 3, echo_core) \<and>
   drop 3 [4, 3, 2, 9 :: u8] = drop 3 [9, 9, 9, 9]"
proof -
  have run: "core_n64_transaction echo_seams [0] 1 [9, 9, 9, 9] 3 echo_core = (True, [4, 3, 2, 9], 3, echo_core)"
    by code_simp
  have "fills_buffer echo_seams" by (simp add: fills_buffer_def echo_seams_def)
  from n64_stays_in_buffer [OF this _ run] run show ?thesis by simp
qed

section \<open>On the device\<close>

text \<open>C39. On the wired driver no N64 transaction ever succeeds. \<open>core_n64_transaction\<close> claims the vendor
  slot and then calls the synchronous transport, which claims it itself and is refused: nothing is
  received, whatever the accessory would answer, and the slot is left claimed with no completion to
  come that would free it.\<close>

theorem n64_double_claim:
  assumes "vendor_claim cs \<noteq> 0"
    and "core_n64_transaction (device_sync_seams B H ans) tx tx_len rx rx_len cs = (attempted, rx', actual, cs')"
  shows "actual = 0 \<and> rx' = rx \<and> (attempted \<longrightarrow> State (Vendor (world cs)) = SLOT_FREE \<and>
    State (Vendor (world cs')) = SLOT_CLAIMED \<and> submitted (world cs') = submitted (world cs))"
proof -
  let ?S = "device_sync_seams B H ans"
  obtain got c where claim: "seam_claim ?S cs = (got, c)" by fastforce
  obtain w where claimed: "AdaptoidVendorTryClaim (world cs) = (got, w)" and c: "c = cs\<lparr>world := w\<rparr>"
    using claim assms(1)
    by (auto simp: seam_claim_def device_sync_seams_def device_seams_def AdaptoidCoreVendorClaim_def split: prod.splits)
  note cl = claim_effect(1,3) [OF claimed]
  have sub: "submitted w = submitted (world cs)" using claimed by (auto simp: AdaptoidVendorTryClaim_def split: if_splits)
  have refused: "call_vendor_sync ?S f x req d n c = (False, d, c)" if got for f x req d n
    using core_sync_returns [of B "device_seams B H" ans req d n c] cl that by (simp add: device_sync_seams_def c)
  show ?thesis
  proof (cases got)
    case False
    then show ?thesis using assms(2) claim by (auto simp: core_n64_transaction_def split: if_splits)
  next
    case True
    have "\<exists>r. n64_short ?S tx tx_len rx_len c = (False, r, c)" "\<exists>r. n64_long ?S tx tx_len rx_len c = (False, r, c)"
      using refused [OF True] by (simp_all add: n64_short_def n64_long_def Let_def)
    then show ?thesis
      using assms(2) claim True cl sub
      by (auto simp: core_n64_transaction_def Let_def c split: if_splits)
  qed
qed

theorem n64_double_claim_witness:
  "\<exists>cs'. core_n64_transaction (device_sync_seams ready_bus no_script (\<lambda>_ d _. (0, 0, d))) [0] 1 [0, 0, 0] 3
      ready_device = (True, [0, 0, 0], 0, cs') \<and> State (Vendor (world cs')) = SLOT_CLAIMED"
proof -
  let ?S = "device_sync_seams ready_bus no_script (\<lambda>_ d _. (0, 0, d))"
  obtain a r n cs' where run: "core_n64_transaction ?S [0] 1 [0, 0, 0] 3 ready_device = (a, r, n, cs')"
    by (metis prod_cases4)
  have "vendor_claim ready_device \<noteq> 0" by (simp add: ready_device_state)
  note got = n64_double_claim [OF this run]
  have "vendor_sync ready_device \<noteq> 0"
    by (simp add: ready_device_def AdaptoidWireDevice_def core_set_tick_hook_def core_set_input_hook_def core_set_vendor_sync_def)
  moreover have "fst (seam_claim ?S ready_device)"
    by (simp add: seam_claim_def device_sync_seams_def device_seams_def ready_device_state AdaptoidCoreVendorClaim_def
        AdaptoidVendorTryClaim_def ready_ext_state)
  ultimately have a using run by (auto simp: core_n64_transaction_def Let_def split: prod.splits if_splits)
  with got run show ?thesis by simp
qed

end
