(* ===== verification/Script_VM.thy ===== *)
theory Script_VM
  imports Core_State "HOL-Library.Monad_Syntax"
begin

text \<open>
  The bytecode interpreter of \<open>src_drv/script.c\<close>: the machine of \<open>script.h\<close>, the check of a tagged
  operand, and \<open>core_script_run\<close>, an operation per group of opcodes and the loop over them. The model
  is defensive: every access to the code and to the variables goes through \<open>vm_read\<close>, \<open>vm_write\<close> and
  \<open>vm_fetch\<close>, whose result is \<open>None\<close> outside the array the pointer points to. That the C code never
  leaves its arrays is then a theorem, not a convention. The native library is a parameter.
\<close>

section \<open>The machine\<close>

text \<open>The status codes, in the order of their numbers.\<close>

datatype script_status = Running | Terminated | Bad_var | Underflow | Overflow | Div_zero | Range
  | Illegal | Bad_native | Sleeping | Budget_out | No_memory

primrec status_code :: "script_status \<Rightarrow> u32" where
  "status_code Running = 0"
| "status_code Terminated = 1"
| "status_code Bad_var = 2"
| "status_code Underflow = 3"
| "status_code Overflow = 4"
| "status_code Div_zero = 5"
| "status_code Range = 6"
| "status_code Illegal = 7"
| "status_code Bad_native = 8"
| "status_code Sleeping = 9"
| "status_code Budget_out = 10"
| "status_code No_memory = 11"

text \<open>\<open>None\<close> is a null pointer.\<close>

record core_script =
  vm_code :: "u32 list option"
  code_count :: s32
  vm_vars :: "u32 list option"
  var_count :: s32
  vm_budget :: s32
  pc :: s32
  acc :: u32
  sp :: s32

definition core_script_init ::
    "u32 list option \<Rightarrow> s32 \<Rightarrow> u32 list option \<Rightarrow> s32 \<Rightarrow> core_script" where
  "core_script_init code ncode vars nvars =
     \<lparr>vm_code = code, code_count = ncode, vm_vars = vars, var_count = nvars, vm_budget = 100000,
      pc = 0, acc = 0, sp = 0\<rparr>"

text \<open>The check that makes an unvalidated operand safe.\<close>

definition core_script_var_index :: "u32 \<Rightarrow> s32 \<Rightarrow> u32 option" where
  "core_script_var_index v nvars =
     (if v AND 0xF0000000 = 0x20000000 then
        (if s32_of (v AND 0x0FFFFFFF) \<ge> nvars then None else Some (v AND 0x0FFFFFFF))
      else if v AND 0xF0000000 = 0x30000000 then
        (if v AND 0x0FFFFFFF > 199 then None else Some ((v AND 0x0FFFFFFF) + of_int nvars))
      else None)"

section \<open>Memory\<close>

definition vm_fetch :: "core_script \<Rightarrow> int \<Rightarrow> u32 option" where
  "vm_fetch vm i = (case vm_code vm of None \<Rightarrow> None
     | Some c \<Rightarrow> if 0 \<le> i \<and> i < int (length c) then Some (c ! nat i) else None)"

definition vm_read :: "core_script \<Rightarrow> int \<Rightarrow> u32 option" where
  "vm_read vm i = (case vm_vars vm of None \<Rightarrow> None
     | Some v \<Rightarrow> if 0 \<le> i \<and> i < int (length v) then Some (v ! nat i) else None)"

definition vm_write :: "core_script \<Rightarrow> int \<Rightarrow> u32 \<Rightarrow> core_script option" where
  "vm_write vm i x = (case vm_vars vm of None \<Rightarrow> None
     | Some v \<Rightarrow> if 0 \<le> i \<and> i < int (length v) then Some (vm\<lparr>vm_vars := Some (v[nat i := x])\<rparr>) else None)"

text \<open>The macro \<open>STK\<close>: slot \<open>i\<close> of the region above the globals.\<close>

definition stk_read :: "core_script \<Rightarrow> s32 \<Rightarrow> u32 option" where
  "stk_read vm i = vm_read vm (var_count vm + i)"

definition stk_write :: "core_script \<Rightarrow> s32 \<Rightarrow> u32 \<Rightarrow> core_script option" where
  "stk_write vm i x = vm_write vm (var_count vm + i) x"

section \<open>The opcodes\<close>

text \<open>The result of an operation is the status and the machine, or \<open>None\<close> for an access outside memory.\<close>

type_synonym outcome = "(script_status \<times> core_script) option"

definition op_mem :: "u32 \<Rightarrow> core_script \<Rightarrow> outcome" where
  "op_mem op vm =
     (case core_script_var_index (acc vm) (var_count vm) of
        None \<Rightarrow> Some (Bad_var, vm)
      | Some idx \<Rightarrow> do {
          old \<leftarrow> vm_read vm (uint idx);
          if op = 0x020 then Some (Running, vm\<lparr>acc := old\<rparr>)
          else if op = 0x021 then do {
            vm \<leftarrow> vm_write (vm\<lparr>acc := old\<rparr>) (uint idx) (old + 1);
            Some (Running, vm) }
          else if op = 0x022 then do {
            vm \<leftarrow> vm_write (vm\<lparr>acc := old\<rparr>) (uint idx) (old - 1);
            Some (Running, vm) }
          else if op = 0x023 then do {
            vm \<leftarrow> vm_write vm (uint idx) (old + 1);
            x \<leftarrow> vm_read vm (uint idx);
            Some (Running, vm\<lparr>acc := x\<rparr>) }
          else do {
            vm \<leftarrow> vm_write vm (uint idx) (old - 1);
            x \<leftarrow> vm_read vm (uint idx);
            Some (Running, vm\<lparr>acc := x\<rparr>) } })"

definition bool_word :: "bool \<Rightarrow> u32" where
  "bool_word b = (if b then 1 else 0)"

definition op_push :: "core_script \<Rightarrow> outcome" where
  "op_push vm =
     (if sp vm \<ge> 200 then Some (Overflow, vm)
      else do {
        vm \<leftarrow> stk_write vm (sp vm) (acc vm);
        Some (Running, vm\<lparr>sp := sp vm + 1\<rparr>) })"

definition op_pop :: "core_script \<Rightarrow> outcome" where
  "op_pop vm =
     (if sp vm \<le> 0 then Some (Underflow, vm)
      else do {
        x \<leftarrow> stk_read vm (sp vm - 1);
        Some (Running, vm\<lparr>sp := sp vm - 1, acc := x\<rparr>) })"

definition op_swap :: "core_script \<Rightarrow> outcome" where
  "op_swap vm =
     (if sp vm \<le> 0 then Some (Underflow, vm)
      else do {
        t \<leftarrow> stk_read vm (sp vm - 1);
        vm \<leftarrow> stk_write vm (sp vm - 1) (acc vm);
        Some (Running, vm\<lparr>acc := t\<rparr>) })"

definition op_stack :: "u32 \<Rightarrow> core_script \<Rightarrow> outcome" where
  "op_stack operand vm =
     (let vm = vm\<lparr>sp := to_s32 (sp vm + s32_of operand)\<rparr>
      in Some (if sp vm < 0 then Underflow else if sp vm > 200 then Overflow else Running, vm))"

text \<open>A taken branch at word \<open>at\<close>.\<close>

definition branch_to :: "s32 \<Rightarrow> u32 \<Rightarrow> core_script \<Rightarrow> outcome" where
  "branch_to at operand vm =
     (let vm = vm\<lparr>pc := to_s32 (at + 2 + s32_of operand)\<rparr>
      in Some (if pc vm < 0 then Range else Running, vm))"

type_synonym 'c native = "u32 \<Rightarrow> core_script \<Rightarrow> 'c \<Rightarrow> (script_status \<times> core_script \<times> 'c) option"

text \<open>A call. The machine's native seam is \<open>None\<close> when null; it gets the whole target and its context.\<close>

definition op_call :: "'c native option \<Rightarrow> u32 \<Rightarrow> core_script \<Rightarrow> 'c \<Rightarrow> (script_status \<times> core_script \<times> 'c) option" where
  "op_call native target vm c =
     (let tag = target AND 0xF0000000
      in if tag = 0 then Some (Running, vm, c)
         else if tag = 0x10000000 then
           (let dest = s32_of (target AND 0x0FFFFFFF)
            in if dest \<ge> code_count vm then Some (Range, vm, c)
               else if sp vm \<ge> 200 then Some (Overflow, vm, c)
               else do {
                 vm \<leftarrow> stk_write vm (sp vm) (of_int (pc vm));
                 Some (Running, vm\<lparr>sp := sp vm + 1, pc := dest\<rparr>, c) })
         else if tag = 0x40000000 then
           (case native of None \<Rightarrow> Some (Bad_native, vm, c) | Some f \<Rightarrow> f target vm c)
         else Some (Range, vm, c))"

definition op_ret :: "core_script \<Rightarrow> outcome" where
  "op_ret vm =
     (if sp vm \<le> 0 then Some (Terminated, vm)
      else do {
        x \<leftarrow> stk_read vm (sp vm - 1);
        let vm = vm\<lparr>sp := sp vm - 1, pc := s32_of x\<rparr>;
        Some (if pc vm < 0 then Range else Running, vm) })"

definition op_stors :: "core_script \<Rightarrow> outcome" where
  "op_stors vm =
     (if sp vm \<le> 0 then Some (Underflow, vm)
      else
        let vm = vm\<lparr>sp := sp vm - 1\<rparr>
        in case core_script_var_index (acc vm) (var_count vm) of
             None \<Rightarrow> Some (Bad_var, vm)
           | Some idx \<Rightarrow> do {
               x \<leftarrow> stk_read vm (sp vm);
               vm \<leftarrow> vm_write vm (uint idx) x;
               Some (Running, vm) })"

definition op_stora :: "core_script \<Rightarrow> outcome" where
  "op_stora vm =
     (if sp vm \<le> 0 then Some (Underflow, vm)
      else
        let vm = vm\<lparr>sp := sp vm - 1\<rparr>
        in do {
          x \<leftarrow> stk_read vm (sp vm);
          (case core_script_var_index x (var_count vm) of
             None \<Rightarrow> Some (Bad_var, vm)
           | Some idx \<Rightarrow> do {
               vm \<leftarrow> vm_write vm (uint idx) (acc vm);
               Some (Running, vm) }) })"

text \<open>The arithmetic of the binary opcodes. The C division cannot be asked for a result it has not.\<close>

definition binary_value :: "u32 \<Rightarrow> u32 \<Rightarrow> u32 \<Rightarrow> u32" where
  "binary_value op lhs rhs =
     (if op = 0x250 then push_bit (unat (rhs AND 0x1F)) lhs
      else if op = 0x251 then of_int (s32_of lhs div 2 ^ unat (rhs AND 0x1F))
      else if op = 0x252 then lhs + rhs
      else if op = 0x253 then lhs - rhs
      else if op = 0x254 then lhs * rhs
      else if op = 0x255 then of_int (s32_of lhs sdiv s32_of rhs)
      else if op = 0x256 then of_int (s32_of lhs smod s32_of rhs)
      else if op = 0x257 then lhs AND rhs
      else if op = 0x258 then lhs OR rhs
      else if op = 0x259 then lhs XOR rhs
      else if op = 0x260 then bool_word (lhs = rhs)
      else if op = 0x261 then bool_word (lhs \<noteq> rhs)
      else if op = 0x262 then bool_word (s32_of lhs > s32_of rhs)
      else if op = 0x263 then bool_word (s32_of lhs < s32_of rhs)
      else if op = 0x264 then bool_word (s32_of lhs \<ge> s32_of rhs)
      else if op = 0x265 then bool_word (s32_of lhs \<le> s32_of rhs)
      else if op = 0x266 then bool_word (lhs \<noteq> 0 \<and> rhs \<noteq> 0)
      else bool_word (lhs \<noteq> 0 \<or> rhs \<noteq> 0))"

definition op_binary :: "u32 \<Rightarrow> core_script \<Rightarrow> outcome" where
  "op_binary op vm =
     (let divides = (op = 0x255 \<or> op = 0x256)
      in if divides \<and> acc vm = 0 then Some (Div_zero, vm)
         else if op < 0x250 \<or> op > 0x267 then Some (Illegal, vm)
         else if sp vm \<le> 0 then Some (Underflow, vm)
         else do {
           let vm = vm\<lparr>sp := sp vm - 1\<rparr>;
           lhs \<leftarrow> stk_read vm (sp vm);
           if divides \<and> lhs = 0x80000000 \<and> acc vm = 0xFFFFFFFF then Some (Div_zero, vm)
           else Some (Running, vm\<lparr>acc := binary_value op lhs (acc vm)\<rparr>) })"

definition with_ctx :: "'c \<Rightarrow> outcome \<Rightarrow> (script_status \<times> core_script \<times> 'c) option" where
  "with_ctx c r = map_option (\<lambda>(st, vm). (st, vm, c)) r"

text \<open>The switch.\<close>

definition exec_op ::
    "'c native option \<Rightarrow> s32 \<Rightarrow> u32 \<Rightarrow> u32 \<Rightarrow> core_script \<Rightarrow> 'c \<Rightarrow> (script_status \<times> core_script \<times> 'c) option" where
  "exec_op native at op operand vm c =
     (if op \<in> {0x020, 0x021, 0x022, 0x023, 0x024} then with_ctx c (op_mem op vm)
      else if op = 0x040 then Some (Running, vm\<lparr>acc := bool_word (acc vm = 0)\<rparr>, c)
      else if op = 0x041 then Some (Running, vm\<lparr>acc := NOT (acc vm)\<rparr>, c)
      else if op = 0x042 then Some (Running, vm\<lparr>acc := - acc vm\<rparr>, c)
      else if op = 0x093 then with_ctx c (op_push vm)
      else if op = 0x294 then with_ctx c (op_pop vm)
      else if op = 0x095 then with_ctx c (op_swap vm)
      else if op = 0x190 \<or> op = 0x191 then with_ctx c (op_stack operand vm)
      else if op = 0x192 then Some (Running, vm\<lparr>acc := (of_int (sp vm) + operand) OR 0x30000000\<rparr>, c)
      else if op = 0x110 then Some (Running, vm\<lparr>acc := operand\<rparr>, c)
      else if op = 0x170 then with_ctx c (branch_to at operand vm)
      else if op = 0x171 then
        (if acc vm \<noteq> 0 then with_ctx c (branch_to at operand vm) else Some (Running, vm, c))
      else if op = 0x172 then
        (if acc vm = 0 then with_ctx c (branch_to at operand vm) else Some (Running, vm, c))
      else if op = 0x080 then op_call native (acc vm) vm c
      else if op = 0x181 then op_call native operand vm c
      else if op = 0x082 then with_ctx c (op_ret vm)
      else if op = 0x230 then with_ctx c (op_stors vm)
      else if op = 0x231 then with_ctx c (op_stora vm)
      else with_ctx c (op_binary op vm))"

section \<open>The loop\<close>

text \<open>One turn of the loop: the budget, the bound of the program counter, the fetch, the operation.\<close>

definition vm_step :: "'c native option \<Rightarrow> core_script \<Rightarrow> 'c \<Rightarrow> (script_status \<times> core_script \<times> 'c) option" where
  "vm_step native vm c =
     (let vm = vm\<lparr>vm_budget := to_s32 (vm_budget vm - 1)\<rparr>
      in if vm_budget vm < 1 then Some (Budget_out, vm, c)
         else if pc vm \<ge> code_count vm then Some (Range, vm, c)
         else do {
           let at = pc vm;
           op \<leftarrow> vm_fetch vm at;
           operand \<leftarrow> (if op AND 0x100 \<noteq> 0 \<and> at + 1 < code_count vm then vm_fetch vm (at + 1) else Some 0);
           exec_op native at op operand
             (vm\<lparr>pc := to_s32 (at + (if op AND 0x100 \<noteq> 0 then 2 else 1))\<rparr>) c })"

text \<open>Fuel for the loop: every turn spends a unit of the budget, so the budget is enough.\<close>

fun vm_loop :: "nat \<Rightarrow> 'c native option \<Rightarrow> core_script \<Rightarrow> 'c \<Rightarrow> (script_status \<times> core_script \<times> 'c) option" where
  "vm_loop 0 native vm c = None"
| "vm_loop (Suc n) native vm c = do {
     (st, vm, c) \<leftarrow> vm_step native vm c;
     if st = Running then vm_loop n native vm c else Some (st, vm, c) }"

definition core_script_run ::
    "'c native option \<Rightarrow> core_script \<Rightarrow> 'c \<Rightarrow> (script_status \<times> core_script \<times> 'c) option" where
  "core_script_run native vm c =
     (if vm_code vm = None \<or> vm_vars vm = None then Some (Range, vm, c)
      else if pc vm < 0 then Some (Range, vm, c)
      else vm_loop (nat (vm_budget vm) + 1) native vm c)"

section \<open>Memory safety\<close>

lemma tag_value_small: "uint (v AND (0x0FFFFFFF :: u32)) < 268435456"
proof -
  have "v AND 0x0FFFFFFF \<le> (0x0FFFFFFF :: u32)" by (rule word_and_le1)
  then show ?thesis by (simp add: word_le_def)
qed

lemma s32_of_small: "uint w < 2147483648 \<Longrightarrow> s32_of w = uint w"
  using order_trans [OF _ uint_ge_0, of "- 2147483648" w]
  by (simp add: s32_of_def sint_uint signed_take_bit_int_eq_self_iff)

lemma uint_of_count: "0 \<le> n \<Longrightarrow> n < 4294967296 \<Longrightarrow> uint (word_of_int n :: u32) = n"
  by (simp add: uint_word_of_int take_bit_int_eq_self)

lemma var_index_range:
  assumes "core_script_var_index v n = Some i" and n: "0 \<le> n" "n < 1073741824"
  shows "uint i < n + 200"
proof -
  note small = tag_value_small [of v]
  have read: "s32_of (v AND 0x0FFFFFFF) = uint (v AND 0x0FFFFFFF)"
    using small by (intro s32_of_small) simp
  have add: "uint ((v AND 0x0FFFFFFF) + word_of_int n) = uint (v AND 0x0FFFFFFF) + n"
    using small n uint_of_count [of n] by (simp add: uint_word_ariths)
  show ?thesis
    using assms read add
    by (auto simp: core_script_var_index_def word_less_def split: if_splits)
qed

text \<open>The arrays have the sizes the counts say. The bounds on the counts are what \<open>ioctl.c\<close> lets through
  and what an allocation can give; below them no index arithmetic overflows.\<close>

definition vm_mem :: "core_script \<Rightarrow> bool" where
  "vm_mem vm \<longleftrightarrow> (\<exists>c. vm_code vm = Some c \<and> int (length c) = code_count vm) \<and>
     (\<exists>v. vm_vars vm = Some v \<and> int (length v) = var_count vm + 200) \<and>
     code_count vm < 1073741824 \<and> 0 \<le> var_count vm \<and> var_count vm < 1073741824"

definition vm_ok :: "core_script \<Rightarrow> bool" where
  "vm_ok vm \<longleftrightarrow> vm_mem vm \<and> 0 \<le> pc vm \<and> is_s32 (pc vm) \<and> 0 \<le> sp vm \<and> sp vm \<le> 200 \<and>
     - 2147483648 < vm_budget vm \<and> vm_budget vm < 2147483648"

text \<open>What an operation leaves alone.\<close>

definition vm_frame :: "core_script \<Rightarrow> core_script \<Rightarrow> bool" where
  "vm_frame vm vm' \<longleftrightarrow> vm_code vm' = vm_code vm \<and> code_count vm' = code_count vm \<and> var_count vm' = var_count vm \<and>
     map_option length (vm_vars vm') = map_option length (vm_vars vm)"

text \<open>An operation stays in memory, and goes on only from a sound machine.\<close>

definition op_good :: "core_script \<Rightarrow> outcome \<Rightarrow> bool" where
  "op_good vm r \<longleftrightarrow> (case r of None \<Rightarrow> False | Some (st, vm') \<Rightarrow>
     vm_frame vm vm' \<and> vm_budget vm' = vm_budget vm \<and> st \<noteq> No_memory \<and> (st = Running \<or> st = Sleeping \<longrightarrow> vm_ok vm'))"

lemma vm_frame_refl [simp]: "vm_frame vm vm" by (simp add: vm_frame_def)

lemma vm_frame_trans: "vm_frame a b \<Longrightarrow> vm_frame b c \<Longrightarrow> vm_frame a c" by (simp add: vm_frame_def)

lemma vm_mem_frame: "vm_mem vm \<Longrightarrow> vm_frame vm vm' \<Longrightarrow> vm_mem vm'"
  by (auto simp: vm_mem_def vm_frame_def)

named_theorems vm_unfold \<open>the memory of the machine, written out\<close>

lemmas [vm_unfold] = vm_ok_def vm_mem_def vm_frame_def op_good_def vm_read_def vm_write_def vm_fetch_def
  stk_read_def stk_write_def

lemma op_mem_good: "vm_ok vm \<Longrightarrow> op_good vm (op_mem op vm)"
  using var_index_range [of "acc vm" "var_count vm"]
  by (auto simp: vm_unfold op_mem_def Let_def split: option.splits)

lemma op_push_good: "vm_ok vm \<Longrightarrow> op_good vm (op_push vm)"
  by (auto simp: vm_unfold op_push_def)

lemma op_pop_good: "vm_ok vm \<Longrightarrow> op_good vm (op_pop vm)"
  by (auto simp: vm_unfold op_pop_def)

lemma op_swap_good: "vm_ok vm \<Longrightarrow> op_good vm (op_swap vm)"
  by (auto simp: vm_unfold op_swap_def)

lemma op_stack_good: "vm_ok vm \<Longrightarrow> op_good vm (op_stack operand vm)"
  by (auto simp: vm_unfold op_stack_def Let_def)

lemma branch_to_good: "vm_ok vm \<Longrightarrow> op_good vm (branch_to at operand vm)"
  by (auto simp: vm_unfold branch_to_def Let_def)

lemma op_ret_good: "vm_ok vm \<Longrightarrow> op_good vm (op_ret vm)"
  by (auto simp: vm_unfold op_ret_def Let_def)

lemma op_stors_good: "vm_ok vm \<Longrightarrow> op_good vm (op_stors vm)"
  using var_index_range [of "acc vm" "var_count vm"]
  by (auto simp: vm_unfold op_stors_def Let_def split: option.splits)

lemma op_stora_good: "vm_ok vm \<Longrightarrow> op_good vm (op_stora vm)"
  using var_index_range [where n = "var_count vm"]
  by (auto simp: vm_unfold op_stora_def Let_def split: option.splits)

lemma op_binary_good: "vm_ok vm \<Longrightarrow> op_good vm (op_binary op vm)"
  by (auto simp: vm_unfold op_binary_def Let_def)

section \<open>The loop over a library of natives\<close>

lemma with_ctx_good:
  "op_good vm r \<Longrightarrow> \<exists>st vm'. with_ctx c r = Some (st, vm', c) \<and> vm_frame vm vm' \<and> vm_budget vm' = vm_budget vm \<and>
     st \<noteq> No_memory \<and> (st = Running \<or> st = Sleeping \<longrightarrow> vm_ok vm')"
  by (auto simp: op_good_def with_ctx_def split: option.splits)

text \<open>What the interpreter asks of a native: it keeps the machine sound and the budget, and adds at most
  one to the measure \<open>sz\<close> of its context, nothing if it stops the thread. \<open>I\<close> is the context's
  invariant.\<close>

locale native_library =
  fixes native :: "'c native" and I :: "'c \<Rightarrow> bool" and sz :: "'c \<Rightarrow> nat"
  assumes native_keeps: "vm_ok vm \<Longrightarrow> I c \<Longrightarrow>
    \<exists>st vm' c'. native t vm c = Some (st, vm', c') \<and> st \<noteq> No_memory \<and> vm_ok vm' \<and> vm_frame vm vm' \<and> vm_budget vm' = vm_budget vm \<and> I c' \<and>
    sz c' \<le> sz c + (if st = Running then 1 else 0)"
begin

definition good :: "core_script \<Rightarrow> 'c \<Rightarrow> (script_status \<times> core_script \<times> 'c) option \<Rightarrow> bool" where
  "good vm c r \<longleftrightarrow> (\<exists>st vm' c'. r = Some (st, vm', c') \<and> vm_frame vm vm' \<and> vm_budget vm' = vm_budget vm \<and> I c' \<and>
     st \<noteq> No_memory \<and> (st = Running \<or> st = Sleeping \<longrightarrow> vm_ok vm') \<and> sz c' \<le> sz c + (if st = Running then 1 else 0))"

lemma good_with_ctx: "op_good vm r \<Longrightarrow> I c \<Longrightarrow> good vm c (with_ctx c r)"
  by (auto simp: good_def op_good_def with_ctx_def split: option.splits)

lemma good_same: "vm_ok vm \<Longrightarrow> I c \<Longrightarrow> st \<noteq> No_memory \<Longrightarrow> good vm c (Some (st, vm, c))" by (simp add: good_def)

lemma good_acc: "vm_ok vm \<Longrightarrow> I c \<Longrightarrow> good vm c (Some (Running, vm\<lparr>acc := x\<rparr>, c))"
  by (auto simp: good_def vm_unfold)

lemma op_call_good: "vm_ok vm \<Longrightarrow> I c \<Longrightarrow> good vm c (op_call (Some native) target vm c)"
proof -
  assume ok: "vm_ok vm" and inv: "I c"
  have nat: "good vm c (native target vm c)"
    using native_keeps [OF ok inv, of target] unfolding good_def by blast
  have jump: "good vm c (stk_write vm (sp vm) x \<bind> (\<lambda>vm. Some (Running, vm\<lparr>sp := sp vm + 1, pc := dest\<rparr>, c)))"
    if "0 \<le> dest" "is_s32 dest" "sp vm < 200" for x dest
    using ok inv that by (auto simp: good_def vm_unfold)
  have "0 \<le> s32_of (target AND 0x0FFFFFFF)"
    using tag_value_small [of target] s32_of_small [of "target AND 0x0FFFFFFF"] by simp
  then show ?thesis
    using nat jump good_same [OF ok inv] by (simp add: op_call_def Let_def del: bind.simps)
qed

lemma exec_op_good:
  assumes ok: "vm_ok vm" and inv: "I c" shows "good vm c (exec_op (Some native) at op operand vm c)"
  unfolding exec_op_def
  by (simp only: if_distrib [where f = "good vm c"] if_cancel simp_thms script_status.distinct op_call_good [OF ok inv]
      good_acc [OF ok inv] good_same [OF ok inv] good_with_ctx [OF op_mem_good [OF ok] inv]
      good_with_ctx [OF op_push_good [OF ok] inv] good_with_ctx [OF op_pop_good [OF ok] inv]
      good_with_ctx [OF op_swap_good [OF ok] inv] good_with_ctx [OF op_stack_good [OF ok] inv]
      good_with_ctx [OF branch_to_good [OF ok] inv] good_with_ctx [OF op_ret_good [OF ok] inv]
      good_with_ctx [OF op_stors_good [OF ok] inv] good_with_ctx [OF op_stora_good [OF ok] inv]
      good_with_ctx [OF op_binary_good [OF ok] inv])

lemma vm_step_good:
  assumes ok: "vm_ok vm" and inv: "I c"
  obtains st vm' c' where "vm_step (Some native) vm c = Some (st, vm', c')" "vm_frame vm vm'" "I c'"
    "vm_budget vm' = vm_budget vm - 1" "st \<noteq> No_memory \<and> (st = Running \<or> st = Sleeping \<longrightarrow> vm_ok vm')" "st \<noteq> Budget_out \<and> st \<noteq> Range \<longrightarrow> 1 < vm_budget vm"
    "sz c' \<le> sz c + (if st = Running then 1 else 0)"
proof -
  let ?b = "vm\<lparr>vm_budget := vm_budget vm - 1\<rparr>"
  have dec: "to_s32 (vm_budget vm - 1) = vm_budget vm - 1"
    using ok by (intro to_s32_id) (simp add: vm_ok_def is_s32_def)
  have frame: "vm_frame vm vm'" if "vm_frame (?b\<lparr>pc := p\<rparr>) vm'" for p vm'
    using that by (simp add: vm_frame_def)
  show thesis
  proof (cases "vm_budget vm - 1 < 1 \<or> code_count vm \<le> pc vm")
    case True
    then show ?thesis
      by (intro that [of "if vm_budget vm - 1 < 1 then Budget_out else Range" ?b c])
        (auto simp: vm_step_def dec Let_def vm_frame_def inv split: if_splits)
  next
    case False
    define w where "w = (\<lambda>op :: u32. if op AND 0x100 \<noteq> 0 then 2 else 1 :: int)"
    have inside: "\<exists>x. vm_fetch vm i = Some x" if "0 \<le> i" "i < code_count vm" for i
      using ok that by (auto simp: vm_unfold)
    then obtain op where op: "vm_fetch vm (pc vm) = Some op" using ok False by (force simp: vm_ok_def)
    obtain operand where operand:
      "(if op AND 0x100 \<noteq> 0 \<and> pc vm + 1 < code_count vm then vm_fetch vm (pc vm + 1) else Some 0) = Some operand"
      using inside [of "pc vm + 1"] ok by (cases "op AND 0x100 \<noteq> 0 \<and> pc vm + 1 < code_count vm") (auto simp: vm_ok_def)
    note fetch = op operand
    let ?v = "?b\<lparr>pc := to_s32 (pc vm + w op)\<rparr>"
    have "to_s32 (pc vm + w op) = pc vm + w op"
      using ok False by (intro to_s32_id) (auto simp: vm_ok_def vm_mem_def is_s32_def w_def)
    then have "vm_ok ?v" using ok False by (auto simp: vm_unfold is_s32_def w_def)
    from exec_op_good [OF this inv, of "pc vm" op operand] obtain st vm' c' where
      r: "exec_op (Some native) (pc vm) op operand ?v c = Some (st, vm', c')" "vm_frame ?v vm'"
      "vm_budget vm' = vm_budget ?v" "I c'" "st \<noteq> No_memory \<and> (st = Running \<or> st = Sleeping \<longrightarrow> vm_ok vm')"
      "sz c' \<le> sz c + (if st = Running then 1 else 0)" unfolding good_def by blast
    have "vm_fetch ?b = vm_fetch vm" by (simp add: fun_eq_iff vm_fetch_def)
    then have "vm_step (Some native) vm c = Some (st, vm', c')"
      using False fetch r(1) by (simp add: vm_step_def dec Let_def w_def cong: if_cong split del: if_split)
    then show ?thesis using r frame [OF r(2)] False by (intro that) auto
  qed
qed

lemma vm_loop_good:
  "vm_ok vm \<Longrightarrow> I c \<Longrightarrow> nat (vm_budget vm) < n \<Longrightarrow>
   \<exists>st vm' c'. vm_loop n (Some native) vm c = Some (st, vm', c') \<and> st \<noteq> Running \<and> st \<noteq> No_memory \<and> (st = Sleeping \<longrightarrow> vm_ok vm') \<and> vm_frame vm vm' \<and> I c' \<and>
     vm_budget vm' < vm_budget vm \<and> min 0 (vm_budget vm - 1) \<le> vm_budget vm' \<and>
     nat (vm_budget vm') + sz c' + (if st = Sleeping then 1 else 0) \<le> nat (vm_budget vm) + sz c"
proof (induction n arbitrary: vm c)
  case (Suc n)
  obtain st vm' c' where s: "vm_step (Some native) vm c = Some (st, vm', c')" "vm_frame vm vm'" "I c'"
    "vm_budget vm' = vm_budget vm - 1" "st \<noteq> No_memory \<and> (st = Running \<or> st = Sleeping \<longrightarrow> vm_ok vm')"
    "st \<noteq> Budget_out \<and> st \<noteq> Range \<longrightarrow> 1 < vm_budget vm" "sz c' \<le> sz c + (if st = Running then 1 else 0)"
    by (rule vm_step_good [OF Suc.prems(1,2)])
  show ?case
  proof (cases "st = Running")
    case False
    then show ?thesis using s by (auto split: if_splits)
  next
    case True
    then have pos: "1 < vm_budget vm" using s(6) by simp
    have "nat (vm_budget vm') < n" using Suc.prems(3) s(4) pos by simp
    from Suc.IH [OF s(5) [THEN conjunct2, rule_format, OF disjI1, OF True] s(3) this] obtain st2 vm2 c2 where
      "vm_loop n (Some native) vm' c' = Some (st2, vm2, c2)" "st2 \<noteq> Running" "st2 \<noteq> No_memory" "st2 = Sleeping \<longrightarrow> vm_ok vm2" "vm_frame vm' vm2" "I c2"
      "vm_budget vm2 < vm_budget vm'" "min 0 (vm_budget vm' - 1) \<le> vm_budget vm2"
      "nat (vm_budget vm2) + sz c2 + (if st2 = Sleeping then 1 else 0) \<le> nat (vm_budget vm') + sz c'" by blast
    then show ?thesis using s(1,4,7) True pos vm_frame_trans [OF s(2)] by auto
  qed
qed simp

text \<open>A run ends, in memory, whatever the program counter it starts from.\<close>

lemma run_good:
  assumes mem: "vm_mem vm" and stack: "0 \<le> sp vm" "sp vm \<le> 200"
    and budget: "- 2147483648 < vm_budget vm" "vm_budget vm < 2147483648" and at: "is_s32 (pc vm)" and inv: "I c"
  shows "\<exists>st vm' c'. core_script_run (Some native) vm c = Some (st, vm', c') \<and> st \<noteq> Running \<and> st \<noteq> No_memory \<and> (st = Sleeping \<longrightarrow> vm_ok vm') \<and> vm_frame vm vm' \<and> I c' \<and>
    vm_budget vm' \<le> vm_budget vm \<and> min 0 (vm_budget vm - 1) \<le> vm_budget vm' \<and>
    nat (vm_budget vm') + sz c' + (if st = Sleeping then 1 else 0) \<le> nat (vm_budget vm) + sz c"
proof (cases "pc vm < 0")
  case True
  then show ?thesis using mem inv by (auto simp: core_script_run_def vm_mem_def)
next
  case False
  then have "vm_ok vm" using assms by (auto simp: vm_ok_def)
  from vm_loop_good [OF this inv, of "nat (vm_budget vm) + 1"] False mem show ?thesis
    by (fastforce simp: core_script_run_def vm_mem_def)
qed

end

section \<open>Division\<close>

lemma sdiv_fits:
  assumes a: "- 2147483648 \<le> a" "a \<le> 2147483647" and b: "b \<noteq> 0" "\<not> (a = - 2147483648 \<and> b = - 1)"
  shows "is_s32 (a sdiv b)"
proof -
  have le: "\<bar>a sdiv b\<bar> \<le> \<bar>a\<bar>" by (rule abs_sdiv_le)
  have "a sdiv b \<noteq> 2147483648" if "a = - 2147483648"
  proof (cases "b < 0")
    case True
    then have "2 \<le> - b" using b that by linarith
    then have "2147483648 div (- b) \<le> 2147483648 div 2" by (intro zdiv_mono2) auto
    then show ?thesis using True that by (simp add: signed_divide_int_def)
  next
    case False
    then have "0 \<le> 2147483648 div b" using b by (simp add: pos_imp_zdiv_nonneg_iff)
    then show ?thesis using False that b by (simp add: signed_divide_int_def)
  qed
  then show ?thesis using le a unfolding is_s32_def by (cases "a = - 2147483648") arith+
qed

lemma smod_fits:
  assumes b: "- 2147483648 \<le> b" "b \<le> 2147483647" "b \<noteq> 0"
  shows "is_s32 (a smod b)"
proof -
  have "\<bar>a\<bar> mod \<bar>b\<bar> < \<bar>b\<bar>" "0 \<le> \<bar>a\<bar> mod \<bar>b\<bar>" using b by (simp_all add: pos_mod_bound)
  moreover have "\<bar>a smod b\<bar> = \<bar>a\<bar> mod \<bar>b\<bar>"
    using calculation(2) by (cases "a = 0") (simp_all add: signed_modulo_int_def abs_mult)
  ultimately have "\<bar>a smod b\<bar> < \<bar>b\<bar>" by simp
  then show ?thesis using b unfolding is_s32_def by arith
qed

text \<open>A division in a script never asks for a result that does not exist: when a divide or a remainder
  goes on, its divisor is not zero, the quotient fits in 32 bits, and the accumulator holds the result
  exactly. The pair the processor traps on, the least integer by minus one, is refused.\<close>

theorem script_division_defined:
  assumes "op = 0x255 \<or> op = 0x256" and "op_binary op vm = Some (Running, vm')"
  shows "\<exists>lhs. stk_read vm (sp vm - 1) = Some lhs \<and> acc vm \<noteq> 0 \<and>
    is_s32 (s32_of lhs sdiv s32_of (acc vm)) \<and>
    s32_of (acc vm') = (if op = 0x255 then s32_of lhs sdiv s32_of (acc vm) else s32_of lhs smod s32_of (acc vm))"
proof -
  obtain lhs where lhs: "stk_read (vm\<lparr>sp := sp vm - 1\<rparr>) (sp vm - 1) = Some lhs" and
    acc: "acc vm \<noteq> 0" "\<not> (lhs = 0x80000000 \<and> acc vm = 0xFFFFFFFF)" and
    vm': "vm' = vm\<lparr>sp := sp vm - 1, acc := binary_value op lhs (acc vm)\<rparr>"
    using assms by (auto simp: op_binary_def Let_def bind_eq_Some_conv split: if_splits)
  have nz: "s32_of (acc vm) \<noteq> 0" using acc(1) u32_of_s32_of [of "acc vm"] by (auto simp: u32_of_def)
  have "lhs = 0x80000000 \<and> acc vm = 0xFFFFFFFF" if "s32_of lhs = - 2147483648 \<and> s32_of (acc vm) = - 1"
    using that u32_of_s32_of [of lhs, symmetric] u32_of_s32_of [of "acc vm", symmetric]
    by (simp only: u32_of_def) simp
  then have q: "is_s32 (s32_of lhs sdiv s32_of (acc vm))" using acc(2) nz by (intro sdiv_fits) auto
  have r: "is_s32 (s32_of lhs smod s32_of (acc vm))" using nz by (intro smod_fits) auto
  show ?thesis
    using assms(1) lhs acc q s32_of_u32_of [OF q] s32_of_u32_of [OF r] unfolding vm' u32_of_def
    by (auto simp: binary_value_def stk_read_def vm_read_def)
qed

definition divide_vm :: core_script where
  "divide_vm = (core_script_init (Some []) 0 (Some (0xFFFFFFF9 # replicate 199 0)) 0)\<lparr>acc := 2, sp := 1\<rparr>"

theorem script_division_defined_witness:
  "\<exists>lhs. stk_read divide_vm (sp divide_vm - 1) = Some lhs \<and> acc divide_vm \<noteq> 0 \<and>
    is_s32 (s32_of lhs sdiv s32_of (acc divide_vm)) \<and>
    s32_of (acc (divide_vm\<lparr>sp := 0, acc := 0xFFFFFFFD\<rparr>)) = (if (0x255::u32) = 0x255
      then s32_of lhs sdiv s32_of (acc divide_vm) else s32_of lhs smod s32_of (acc divide_vm))"
  by (rule script_division_defined [of "0x255" divide_vm])
    (simp_all add: divide_vm_def core_script_init_def op_binary_def Let_def stk_read_def vm_read_def
      binary_value_def s32_of_def)
end
