(* ===== verification/Sched_State.thy ===== *)
theory Sched_State
  imports Script_VM Hid_Reports
begin

text \<open>
  The state of the script scheduler, \<open>src_drv/sched.h\<close>, and the first half of \<open>sched.c\<close>: memory, the
  event ring, setup, the thread nodes and the ready list, the post-mortem slot, unloading.

  The two linked lists are lists of threads, front first; a thread that is unlinked to run is held apart.
  The allocator is the environment's: \<open>pool\<close> lists what its next calls return, \<open>None\<close> for a refusal and
  otherwise what the fresh block holds, which the code may not rely on; a null seam is one that always
  refuses. \<open>blocks\<close> counts the blocks the scheduler has and has not released.
\<close>

section \<open>Data\<close>

record sched_event =
  ev_type :: u32
  arg1 :: u32
  arg2 :: u32

record sched_thread =
  thread_id :: u32
  thread_pc :: s32
  saved_acc :: u32
  saved_depth :: s32
  wake_time :: u64
  stack_size :: s32
  stack :: "u32 list"

record core_sched =
  svm :: core_script
  has_core :: bool
  load_time :: u64
  ready :: "sched_thread list"
  freepool :: "sched_thread list"
  thread_count :: s32
  next_thread_id :: u32
  bucket :: s32
  sched_time :: u64
  current :: "sched_thread option"
  in_pass :: bool
  pending_valid :: bool
  pending_time :: u64
  fault_thread :: "sched_thread option"
  fault_vars :: "u32 list option"
  fault_status :: u32
  fault_total :: u32
  events :: "sched_event list"
  event_head :: s32
  event_count :: s32
  events_dropped :: u32
  cur_input :: "u8 list"
  prev_input :: "u8 list"
  device_tag :: u32
  pool :: "(nat \<Rightarrow> u32) option list"
  blocks :: int

text \<open>The two seams that act outside: the timer and the event sink.\<close>

record 'w sched_seams =
  call_arm :: "u64 \<Rightarrow> 'w core_state \<Rightarrow> 'w core_state"
  call_emit :: "u32 \<Rightarrow> u32 \<Rightarrow> u32 \<Rightarrow> 'w core_state \<Rightarrow> 'w core_state"

section \<open>Memory\<close>

text \<open>A block of so many bytes, as the words it holds.\<close>

definition sched_alloc :: "u32 \<Rightarrow> core_sched \<Rightarrow> u32 list option \<times> core_sched" where
  "sched_alloc bytes s =
     (case pool s of
        [] \<Rightarrow> (None, s)
      | None # rest \<Rightarrow> (None, s\<lparr>pool := rest\<rparr>)
      | Some f # rest \<Rightarrow> (Some (map f [0..<unat bytes div 4]), s\<lparr>pool := rest, blocks := blocks s + 1\<rparr>))"

definition sched_free :: "'b option \<Rightarrow> core_sched \<Rightarrow> core_sched" where
  "sched_free block s = (if block = None then s else s\<lparr>blocks := blocks s - 1\<rparr>)"

text \<open>The copying loops. A copy outside either array has no result.\<close>

definition cell_at :: "'a list \<Rightarrow> int \<Rightarrow> 'a option" where
  "cell_at xs i = (if 0 \<le> i \<and> i < int (length xs) then Some (xs ! nat i) else None)"

definition cell_put :: "'a list \<Rightarrow> int \<Rightarrow> 'a \<Rightarrow> 'a list option" where
  "cell_put xs i x = (if 0 \<le> i \<and> i < int (length xs) then Some (xs[nat i := x]) else None)"

primrec copy_cells :: "nat \<Rightarrow> 'a list \<Rightarrow> int \<Rightarrow> 'a list \<Rightarrow> int \<Rightarrow> 'a list option" where
  "copy_cells 0 src from_at dst at = Some dst"
| "copy_cells (Suc n) src from_at dst at = do {
     dst \<leftarrow> copy_cells n src from_at dst at;
     x \<leftarrow> cell_at src (from_at + int n);
     cell_put dst (at + int n) x }"

section \<open>Events\<close>

definition core_sched_post_event :: "u32 \<Rightarrow> u32 \<Rightarrow> u32 \<Rightarrow> core_sched \<Rightarrow> core_sched" where
  "core_sched_post_event type a1 a2 s =
     (let s = (if event_count s \<ge> 100 then
                 s\<lparr>event_head := (event_head s + 1) smod 100, event_count := event_count s - 1,
                   events_dropped := events_dropped s + 1\<rparr>
               else s);
          slot = (event_head s + event_count s) smod 100
      in s\<lparr>events := (events s)[nat slot := \<lparr>ev_type = type, arg1 = a1, arg2 = a2\<rparr>],
           event_count := event_count s + 1\<rparr>)"

function sched_drain_events ::
    "'w sched_seams \<Rightarrow> core_sched \<Rightarrow> 'w core_state \<Rightarrow> core_sched \<times> 'w core_state" where
  "sched_drain_events E s cs =
     (if event_count s > 0 then
        let e = events s ! nat (event_head s);
            s = s\<lparr>event_head := (event_head s + 1) smod 100, event_count := event_count s - 1\<rparr>
        in sched_drain_events E s (call_emit E (ev_type e) (arg1 e) (arg2 e) cs)
      else (s, cs))"
  by pat_completeness auto

termination
  by (relation "measure (\<lambda>(E, s, cs). nat (event_count s))") (auto simp: Let_def)

declare sched_drain_events.simps [simp del]

section \<open>Setup\<close>

text \<open>The memory before the call stays in the fields the function does not assign.\<close>

definition core_sched_init :: "core_sched \<Rightarrow> core_sched" where
  "core_sched_init s =
     s\<lparr>svm := \<lparr>vm_code = None, code_count = 0, vm_vars = None, var_count = 0, vm_budget = 0, pc = 0, acc = 0, sp = 0\<rparr>,
       ready := [], freepool := [], thread_count := 0, next_thread_id := 0, bucket := 0, sched_time := 0,
       in_pass := False, pending_valid := False, pending_time := 0, has_core := False, load_time := 0,
       current := None, fault_thread := None, fault_vars := None, fault_status := 0,
       events := replicate 100 \<lparr>ev_type = 0, arg1 = 0, arg2 = 0\<rparr>, event_head := 0, event_count := 0,
       events_dropped := 0, cur_input := replicate 4 0, prev_input := replicate 4 0, device_tag := 0\<rparr>"

definition core_sched_set_core :: "core_sched \<Rightarrow> core_sched" where
  "core_sched_set_core s = s\<lparr>has_core := True\<rparr>"

section \<open>Threads\<close>

definition clamp_stack :: "s32 \<Rightarrow> s32" where
  "clamp_stack n = (let n = (if n < 8 then 8 else n) in if n > 200 then 200 else n)"

text \<open>The pool's first node, if it is big enough.\<close>

definition pooled_thread :: "s32 \<Rightarrow> core_sched \<Rightarrow> sched_thread option \<times> core_sched" where
  "pooled_thread n s =
     (case freepool s of
        [] \<Rightarrow> (None, s)
      | t # rest \<Rightarrow> if stack_size t < n then (None, s\<lparr>freepool := t # rest\<rparr>) else (Some t, s\<lparr>freepool := rest\<rparr>))"

text \<open>A fresh node: a header of 40 bytes, then the stack. A node keeps its stack words across uses.\<close>

definition fresh_thread :: "s32 \<Rightarrow> core_sched \<Rightarrow> sched_thread option \<times> core_sched" where
  "fresh_thread n s =
     (case sched_alloc (40 + of_int n * 4) s of
        (None, s) \<Rightarrow> (None, s)
      | (Some b, s) \<Rightarrow> (Some \<lparr>thread_id = 0, thread_pc = 0, saved_acc = 0, saved_depth = 0, wake_time = 0,
                              stack_size = n, stack = drop 10 b\<rparr>, s))"

definition core_sched_thread_alloc :: "s32 \<Rightarrow> core_sched \<Rightarrow> sched_thread option \<times> core_sched" where
  "core_sched_thread_alloc n s =
     (let n = clamp_stack n;
          (node, s) = pooled_thread n s;
          (node, s) = (case node of None \<Rightarrow> fresh_thread n s | Some t \<Rightarrow> (Some t, s))
      in case node of
           None \<Rightarrow> (None, s)
         | Some t \<Rightarrow>
             let s = s\<lparr>next_thread_id := next_thread_id s + 1\<rparr>
             in (Some (t\<lparr>thread_id := next_thread_id s, thread_pc := 0, saved_acc := 0, saved_depth := 0,
                         wake_time := 0\<rparr>), s))"

definition thread_release :: "sched_thread \<Rightarrow> core_sched \<Rightarrow> core_sched" where
  "thread_release t s = s\<lparr>freepool := t # freepool s\<rparr>"

text \<open>Before the first thread due strictly later.\<close>

fun queue_insert :: "sched_thread \<Rightarrow> sched_thread list \<Rightarrow> sched_thread list" where
  "queue_insert t [] = [t]"
| "queue_insert t (u # us) = (if wake_time t < wake_time u then t # u # us else u # queue_insert t us)"

definition core_sched_queue :: "sched_thread \<Rightarrow> core_sched \<Rightarrow> core_sched" where
  "core_sched_queue t s = s\<lparr>ready := queue_insert t (ready s), thread_count := to_s32 (thread_count s + 1)\<rparr>"

definition find_thread :: "u32 \<Rightarrow> core_sched \<Rightarrow> sched_thread option" where
  "find_thread ident s = List.find (\<lambda>t. thread_id t = ident) (ready s)"

text \<open>Unlink the thread \<open>find_thread\<close> found.\<close>

definition unlink_ready :: "sched_thread \<Rightarrow> core_sched \<Rightarrow> core_sched" where
  "unlink_ready t s = s\<lparr>ready := remove1 t (ready s), thread_count := to_s32 (thread_count s - 1)\<rparr>"

section \<open>The post-mortem slot and the teardown\<close>

definition core_sched_fault_take :: "core_sched \<Rightarrow> sched_thread option \<times> u32 list option \<times> core_sched" where
  "core_sched_fault_take s = (fault_thread s, fault_vars s, s\<lparr>fault_thread := None, fault_vars := None\<rparr>)"

definition free_list :: "sched_thread list \<Rightarrow> core_sched \<Rightarrow> core_sched" where
  "free_list ts s = fold (\<lambda>t. sched_free (Some t)) ts s"

text \<open>What a script held down is let go.\<close>

definition release_held :: "'w seams \<Rightarrow> core_sched \<Rightarrow> 'w core_state \<Rightarrow> 'w core_state" where
  "release_held S s cs =
     (if has_core s then
        fold (\<lambda>b. core_hid_mouse_button S (of_nat b) False) [1..<4] (core_hid_key_event S 0 False cs)
      else cs)"

definition sched_clear :: "core_sched \<Rightarrow> core_sched" where
  "sched_clear s =
     s\<lparr>fault_thread := None, fault_vars := None, fault_status := 0, fault_total := 0, thread_count := 0,
       next_thread_id := 0, pending_valid := False, pending_time := 0, in_pass := False, current := None,
       bucket := 0, sched_time := 0, event_head := 0, event_count := 0\<rparr>"

definition core_sched_unload ::
    "'w seams \<Rightarrow> 'w sched_seams \<Rightarrow> core_sched \<Rightarrow> 'w core_state \<Rightarrow> core_sched \<times> 'w core_state" where
  "core_sched_unload S E s cs =
     (let cs = call_arm E 0 (release_held S s cs);
          s = sched_free (vm_code (svm s)) s;
          s = s\<lparr>svm := (svm s)\<lparr>vm_code := None, code_count := 0\<rparr>\<rparr>;
          s = sched_free (vm_vars (svm s)) s;
          s = s\<lparr>svm := (svm s)\<lparr>vm_vars := None, var_count := 0\<rparr>\<rparr>;
          s = (free_list (ready s) s)\<lparr>ready := []\<rparr>;
          s = (free_list (freepool s) s)\<lparr>freepool := []\<rparr>;
          dead_thread = fault_thread s;
          dead_vars = fault_vars s;
          s = sched_free dead_vars (sched_free dead_thread (sched_clear s))
      in (s, cs))"

end
