(* ===== verification/Sched_Run.thy ===== *)
theory Sched_Run
  imports Sched_State
begin

text \<open>
  The second half of \<open>src_drv/sched.c\<close>: the library of builtins, the running of one thread, the pass over
  the threads that are due, loading, and the threads a packet starts. A machine is given to a builtin apart
  from the scheduler it belongs to, and put back when its thread stops. \<open>None\<close> is an access outside memory.
\<close>

section \<open>The builtins\<close>

type_synonym 'w sched_ctx = "core_sched \<times> 'w core_state"

definition native_arg :: "core_script \<Rightarrow> s32 \<Rightarrow> u32 option" where
  "native_arg vm k =
     (let slot = sp vm + k
      in if slot < 0 \<or> slot \<ge> 200 then Some 0 else stk_read vm slot)"

definition clamp_s32 :: "s32 \<Rightarrow> s32 \<Rightarrow> s32 \<Rightarrow> s32" where
  "clamp_s32 v lo hi = (if v < lo then lo else if v > hi then hi else v)"

definition native_button :: "u32 \<Rightarrow> u32 \<Rightarrow> 'w core_state \<Rightarrow> 'w core_state" where
  "native_button a1 a2 cs =
     (let n = s32_of a1
      in if n > 0 \<and> n < 17 then
           let b = push_bit (nat (n - 1)) (1 :: u16)
           in cs\<lparr>buttons := (if a2 = 0 then buttons cs AND NOT b else buttons cs OR b)\<rparr>
         else cs)"

definition native_stick :: "bool \<Rightarrow> u32 \<Rightarrow> u32 \<Rightarrow> 'w core_state \<Rightarrow> 'w core_state" where
  "native_stick relative a1 a2 cs =
     (let x = (if relative then to_s32 (s32_of a1 + stick_x cs) else s32_of a1);
          y = (if relative then to_s32 (s32_of a2 + stick_y cs) else s32_of a2)
      in cs\<lparr>stick_x := to_s16 (clamp_s32 x (- 1200) 1200), stick_y := to_s16 (clamp_s32 y (- 1200) 1200)\<rparr>)"

definition native_fork ::
    "sched_thread \<Rightarrow> core_script \<Rightarrow> core_sched \<Rightarrow> (core_script \<times> core_sched) option" where
  "native_fork parent vm s =
     (let depth = sp vm
      in if thread_count s > 29 then Some (vm\<lparr>acc := - 1\<rparr>, s)
         else
           let depth = (if depth < 0 then 0 else depth)
           in case core_sched_thread_alloc depth s of
                (None, s) \<Rightarrow> Some (vm\<lparr>acc := - 1\<rparr>, s)
              | (Some child, s) \<Rightarrow> do {
                  vars \<leftarrow> vm_vars vm;
                  stk \<leftarrow> copy_cells (nat (min depth (stack_size child))) vars (var_count vm) (stack child) 0;
                  let child = child\<lparr>thread_pc := pc vm, saved_depth := depth, wake_time := wake_time parent,
                                     saved_acc := 0, stack := stk\<rparr>;
                  let s = s\<lparr>current := Some (parent\<lparr>saved_depth := depth\<rparr>)\<rparr>;
                  Some (vm\<lparr>acc := thread_id child\<rparr>, core_sched_queue child s) })"

text \<open>\<open>_sleep\<close>, \<open>_wake\<close>, \<open>_kill\<close>; \<open>t\<close> is the thread that calls.\<close>

definition native_sleep :: "sched_thread \<Rightarrow> u32 \<Rightarrow> core_sched \<Rightarrow> core_sched" where
  "native_sleep t a1 s = s\<lparr>current := Some (t\<lparr>wake_time := wake_time t + of_int (to_s32 (s32_of a1 * 10000))\<rparr>)\<rparr>"

definition native_wake :: "sched_thread \<Rightarrow> u32 \<Rightarrow> core_sched \<Rightarrow> core_sched" where
  "native_wake t a1 s =
     (case find_thread a1 s of None \<Rightarrow> s
      | Some u \<Rightarrow> core_sched_queue (u\<lparr>wake_time := wake_time t, saved_acc := 0\<rparr>) (unlink_ready u s))"

definition native_kill :: "u32 \<Rightarrow> core_sched \<Rightarrow> core_sched" where
  "native_kill a1 s = (case find_thread a1 s of None \<Rightarrow> s | Some u \<Rightarrow> thread_release u (unlink_ready u s))"

definition native_time :: "sched_thread \<Rightarrow> core_sched \<Rightarrow> u32" where
  "native_time t s = of_int (sint (wake_time t - load_time s) sdiv 10000)"

definition core_sched_native :: "'w sched_ctx native" where
  "core_sched_native ident vm c =
     (case c of (s, cs) \<Rightarrow>
      case current s of None \<Rightarrow> Some (Bad_native, vm, s, cs)
      | Some t \<Rightarrow> do {
          a1 \<leftarrow> native_arg vm 1;
          a2 \<leftarrow> native_arg vm 2;
          let post = (\<lambda>type a1 a2. Some (Running, vm, core_sched_post_event type a1 a2 s, cs));
          if ident = 0x40000000 then Some (Running, vm, s, if has_core s then native_button a1 a2 cs else cs)
          else if ident = 0x40000001 \<or> ident = 0x40000002 then
            Some (Running, vm, s, if has_core s then native_stick (ident = 0x40000002) a1 a2 cs else cs)
          else if ident = 0x40000003 then post 0 a1 a2
          else if ident = 0x40000004 then post 1 a1 a2
          else if ident = 0x40000005 then post 2 a1 a2
          else if ident = 0x40000006 then
            post 3 (of_int (clamp_s32 (s32_of a1) 0 0xFFFF)) (of_int (clamp_s32 (s32_of a2) 0 0xFFFF))
          else if ident = 0x40000010 then post 0x4D a1 a2
          else if ident = 0x40000007 then Some (Terminated, vm, s, cs)
          else if ident = 0x40000008 then Some (Running, vm\<lparr>acc := native_time t s\<rparr>, s, cs)
          else if ident = 0x40000009 then Some (Sleeping, vm\<lparr>acc := 1\<rparr>, native_sleep t a1 s, cs)
          else if ident = 0x4000000A then Some (Running, vm, native_wake t a1 s, cs)
          else if ident = 0x4000000B then
            (if thread_id t = a1 then Some (Terminated, vm, s, cs) else Some (Running, vm, native_kill a1 s, cs))
          else if ident = 0x4000000C then do {
            (vm, s) \<leftarrow> native_fork t vm s;
            Some (Running, vm, s, cs) }
          else if ident = 0x4000000D then Some (Running, vm\<lparr>acc := thread_id t\<rparr>, s, cs)
          else if ident = 0x4000000E \<or> ident = 0x4000000F then Some (Running, vm, s, cs)
          else Some (Bad_native, vm, s, cs) })"

section \<open>Running one thread\<close>

text \<open>The whole node is unpacked into the region above the globals.\<close>

definition unpack_thread :: "sched_thread \<Rightarrow> core_sched \<Rightarrow> core_script option" where
  "unpack_thread t s = do {
     vars \<leftarrow> vm_vars (svm s);
     vars \<leftarrow> copy_cells (nat (min (stack_size t) 200)) (stack t) 0 vars (var_count (svm s));
     Some ((svm s)\<lparr>vm_vars := Some vars, pc := thread_pc t, acc := saved_acc t, sp := saved_depth t,
                   vm_budget := bucket s\<rparr>) }"

text \<open>A node the stack has outgrown is replaced; the result \<open>None\<close> in the pair is a refused allocation.\<close>

definition grow_thread :: "s32 \<Rightarrow> sched_thread \<Rightarrow> core_sched \<Rightarrow> sched_thread option \<times> core_sched" where
  "grow_thread depth t s =
     (if stack_size t < depth then
        case sched_alloc (40 + of_int depth * 4) s of
          (None, s) \<Rightarrow> (None, sched_free (Some t) s)
        | (Some b, s) \<Rightarrow> (Some (t\<lparr>stack_size := depth, stack := drop 10 b\<rparr>), sched_free (Some t) s)
      else (Some t, s))"

text \<open>What is left of a thread after its run: the live part of its stack is copied back.\<close>

definition pack_thread :: "s32 \<Rightarrow> sched_thread \<Rightarrow> core_sched \<Rightarrow> sched_thread option" where
  "pack_thread depth t s = do {
     vars \<leftarrow> vm_vars (svm s);
     stk \<leftarrow> copy_cells (nat depth) vars (var_count (svm s)) (stack t) 0;
     Some (t\<lparr>thread_pc := pc (svm s), saved_acc := acc (svm s), saved_depth := depth, stack := stk\<rparr>) }"

definition sched_execute ::
    "sched_thread \<Rightarrow> 'w sched_ctx \<Rightarrow> (script_status \<times> sched_thread \<times> 'w sched_ctx) option" where
  "sched_execute t c =
     (case c of (s, cs) \<Rightarrow> do {
        vm \<leftarrow> unpack_thread t s;
        (st, vm, s, cs) \<leftarrow> core_script_run (Some core_sched_native) vm (s\<lparr>current := Some t\<rparr>, cs);
        t \<leftarrow> current s;
        let s = s\<lparr>svm := vm, current := None, bucket := vm_budget vm\<rparr>;
        if st = Terminated then Some (st, t, s, cs)
        else
          let depth = (if sp vm > 200 then 200 else sp vm);
              depth = (if depth < 0 then 0 else depth)
          in case grow_thread depth t s of
               (None, s) \<Rightarrow> Some (No_memory, t, s, cs)
             | (Some t, s) \<Rightarrow> do {
                 t \<leftarrow> pack_thread depth t s;
                 Some (st, t, s, cs) } })"

text \<open>A faulted thread takes the post-mortem slot, with a snapshot of the globals.\<close>

definition fault_snapshot :: "core_sched \<Rightarrow> (u32 list option \<times> core_sched) option" where
  "fault_snapshot s =
     (case sched_alloc (of_int (var_count (svm s)) * 4) s of
        (None, s) \<Rightarrow> Some (None, s)
      | (Some b, s) \<Rightarrow> do {
          vars \<leftarrow> vm_vars (svm s);
          b \<leftarrow> copy_cells (nat (var_count (svm s))) vars 0 b 0;
          Some (Some b, s) })"

definition sched_fault :: "sched_thread \<Rightarrow> script_status \<Rightarrow> core_sched \<Rightarrow> core_sched option" where
  "sched_fault t st s = do {
     (snapshot, s) \<leftarrow> fault_snapshot s;
     let was_empty = (fault_thread s = None);
     let old_thread = fault_thread s;
     let old_vars = fault_vars s;
     let s = s\<lparr>fault_thread := Some t, fault_vars := snapshot, fault_status := status_code st,
               fault_total := fault_total s + 1\<rparr>;
     let s = sched_free old_vars (sched_free old_thread s);
     Some (if was_empty then core_sched_post_event 0x42 (status_code st) (device_tag s) s else s) }"

section \<open>The pass\<close>

text \<open>One turn of the sweep: the head of the list is unlinked, run, and disposed of.\<close>

definition sched_turn :: "'w sched_ctx \<Rightarrow> 'w sched_ctx option" where
  "sched_turn c =
     (case c of (s, cs) \<Rightarrow>
      case ready s of [] \<Rightarrow> None
      | t # rest \<Rightarrow> do {
          (st, t, s, cs) \<leftarrow> sched_execute t (s\<lparr>ready := rest, thread_count := to_s32 (thread_count s - 1)\<rparr>, cs);
          if st = Sleeping then Some (core_sched_queue t s, cs)
          else if st = Terminated then Some (thread_release t s, cs)
          else if st \<noteq> No_memory then do {
            s \<leftarrow> sched_fault t st s;
            Some (s, cs) }
          else Some (s, cs) })"

definition due :: "u64 \<Rightarrow> core_sched \<Rightarrow> bool" where
  "due now s = (case ready s of [] \<Rightarrow> False | t # rest \<Rightarrow> \<not> now < wake_time t)"

fun sched_sweep :: "nat \<Rightarrow> u64 \<Rightarrow> 'w sched_ctx \<Rightarrow> 'w sched_ctx option" where
  "sched_sweep 0 now c = None"
| "sched_sweep (Suc n) now c =
     (if due now (fst c) then do {
        c \<leftarrow> sched_turn c;
        sched_sweep n now c }
      else Some c)"

text \<open>The bucket is credited with the time that has passed.\<close>

definition credit :: "u64 \<Rightarrow> core_sched \<Rightarrow> core_sched" where
  "credit now s =
     (let elapsed = sint (now - sched_time s) sdiv 100;
          elapsed = (if elapsed < 0 then 0 else elapsed);
          elapsed = (if elapsed > 100000 then 100000 else elapsed);
          b = to_s32 (bucket s + elapsed);
          b = (if b > 100000 then 100000 else b)
      in s\<lparr>bucket := b, sched_time := now\<rparr>)"

text \<open>The fuel of a sweep: each turn spends a token or takes a thread off the list for good.\<close>

definition sweep_fuel :: "core_sched \<Rightarrow> nat" where
  "sweep_fuel s = nat (bucket s) + length (ready s) + 1"

definition sched_pass :: "'w sched_seams \<Rightarrow> u64 \<Rightarrow> 'w sched_ctx \<Rightarrow> 'w sched_ctx option" where
  "sched_pass E now c =
     (case c of (s, cs) \<Rightarrow>
        let s = credit now s
        in do {
          (s, cs) \<leftarrow> sched_sweep (sweep_fuel s) now (s, cs);
          Some (sched_drain_events E s cs) })"

text \<open>A caller that finds a pass in flight leaves its time behind.\<close>

definition leave_time :: "u64 \<Rightarrow> core_sched \<Rightarrow> core_sched" where
  "leave_time now s = s\<lparr>pending_time := now, pending_valid := True\<rparr>"

definition pass_end :: "'w sched_seams \<Rightarrow> 'w sched_ctx \<Rightarrow> 'w sched_ctx" where
  "pass_end E c =
     (case c of (s, cs) \<Rightarrow>
        (s\<lparr>in_pass := False\<rparr>,
         case ready s of [] \<Rightarrow> cs | t # rest \<Rightarrow> call_arm E (wake_time t) cs))"

text \<open>The loop of \<open>core_sched_run\<close>. \<open>late\<close> says, pass by pass, what the last caller to arrive during it
  left behind, if any came; it has an entry for every pass.\<close>

fun sched_passes :: "'w sched_seams \<Rightarrow> u64 option list \<Rightarrow> u64 \<Rightarrow> 'w sched_ctx \<Rightarrow> 'w sched_ctx option" where
  "sched_passes E [] now c = None"
| "sched_passes E (l # late) now c = do {
     (s, cs) \<leftarrow> sched_pass E now c;
     let s = (case l of None \<Rightarrow> s | Some t \<Rightarrow> leave_time t s);
     if pending_valid s then
       sched_passes E late (pending_time s) (s\<lparr>pending_valid := False, pending_time := 0\<rparr>, cs)
     else Some (pass_end E (s, cs)) }"

definition core_sched_run ::
    "'w sched_seams \<Rightarrow> u64 option list \<Rightarrow> u64 \<Rightarrow> 'w sched_ctx \<Rightarrow> 'w sched_ctx option" where
  "core_sched_run E late now c =
     (case c of (s, cs) \<Rightarrow>
        if vm_code (svm s) = None \<or> vm_vars (svm s) = None then Some (s, cs)
        else if in_pass s then Some (leave_time now s, cs)
        else sched_passes E late now (s\<lparr>in_pass := True\<rparr>, cs))"

section \<open>Loading\<close>

definition sched_rd32 :: "u8 list \<Rightarrow> nat \<Rightarrow> u32" where
  "sched_rd32 p i =
     ucast (p ! i) OR push_bit 8 (ucast (p ! (i + 1))) OR push_bit 16 (ucast (p ! (i + 2))) OR
     push_bit 24 (ucast (p ! (i + 3)))"

text \<open>The two forms the code comes in.\<close>

datatype script_code = Words "u32 list" | Bytes "u8 list"

definition code_words :: "nat \<Rightarrow> script_code \<Rightarrow> u32 list \<Rightarrow> u32 list option" where
  "code_words n code block =
     (case code of
        Words ws \<Rightarrow> copy_cells n ws 0 block 0
      | Bytes bs \<Rightarrow> if 4 * n \<le> length bs then copy_cells n (map (\<lambda>i. sched_rd32 bs (4 * i)) [0..<n]) 0 block 0
                    else None)"

definition sched_load_body ::
    "'w seams \<Rightarrow> 'w sched_seams \<Rightarrow> u64 option list \<Rightarrow> script_code option \<Rightarrow> s32 \<Rightarrow> s32 \<Rightarrow> u64 \<Rightarrow>
       'w sched_ctx \<Rightarrow> (bool \<times> 'w sched_ctx) option" where
  "sched_load_body S E late code ncode nvars now c =
     (case c of (s, cs) \<Rightarrow>
        let (s, cs) = core_sched_unload S E s cs
        in if code = None \<or> ncode \<le> 0 \<or> nvars \<le> 0 then Some (False, s, cs)
           else case sched_alloc (of_int ncode * 4) s of
             (None, s) \<Rightarrow> Some (False, s, cs)
           | (Some cb, s) \<Rightarrow>
               (case sched_alloc ((of_int nvars + 200) * 4) s of
                  (None, s) \<Rightarrow> Some (False, sched_free (Some cb) s, cs)
                | (Some vb, s) \<Rightarrow> do {
                    cb \<leftarrow> code_words (nat ncode) (the code) cb;
                    vb \<leftarrow> copy_cells (nat nvars) (replicate (nat nvars) 0) 0 vb 0;
                    let s = s\<lparr>svm := (svm s)\<lparr>vm_code := Some cb, code_count := ncode, vm_vars := Some vb,
                                             var_count := nvars\<rparr>,
                              sched_time := now, load_time := now, bucket := 100000\<rparr>;
                    (case core_sched_thread_alloc 0 s of
                       (None, s) \<Rightarrow> Some (False, core_sched_unload S E s cs)
                     | (Some t, s) \<Rightarrow> do {
                         let s = core_sched_queue (t\<lparr>thread_pc := 0, wake_time := now\<rparr>) s;
                         c \<leftarrow> core_sched_run E late now (s, cs);
                         Some (True, c) }) }))"

definition core_sched_load where
  "core_sched_load S E late code ncode nvars now c =
     sched_load_body S E late (map_option Words code) ncode nvars now c"

definition core_sched_load_le where
  "core_sched_load_le S E late code_le ncode nvars now c =
     sched_load_body S E late (map_option Bytes code_le) ncode nvars now c"

section \<open>Input\<close>

definition in_dword :: "u8 list \<Rightarrow> u32" where
  "in_dword p = sched_rd32 p 0"

definition in_buttons :: "u8 list \<Rightarrow> s32" where
  "in_buttons p = s16_of (ucast (p ! 2) OR push_bit 8 (ucast (p ! 3)))"

definition in_stick :: "u8 list \<Rightarrow> s32" where
  "in_stick p = s16_of (ucast (p ! 0) OR push_bit 8 (ucast (p ! 1)))"

definition sched_spawn_handler :: "s32 \<Rightarrow> s32 \<Rightarrow> u32 list \<Rightarrow> u64 \<Rightarrow> core_sched \<Rightarrow> core_sched option" where
  "sched_spawn_handler slot stack_words args now s =
     (if slot < 0 \<or> slot \<ge> var_count (svm s) then Some s
      else do {
        target \<leftarrow> vm_read (svm s) slot;
        if target AND 0xF0000000 \<noteq> 0x10000000 then Some s
        else case core_sched_thread_alloc stack_words s of
          (None, s) \<Rightarrow> Some s
        | (Some t, s) \<Rightarrow> do {
            stk \<leftarrow> copy_cells (min (length args) (nat (stack_size t))) args 0 (stack t) 0;
            Some (core_sched_queue (t\<lparr>thread_pc := s32_of (target AND 0x0FFFFFFF), wake_time := now,
                                      stack := stk\<rparr>) s) } })"

text \<open>The packed pair moves on.\<close>

definition advance_input :: "u8 list \<Rightarrow> core_sched \<Rightarrow> core_sched" where
  "advance_input pkt s = s\<lparr>prev_input := cur_input s, cur_input := [pkt ! 0, pkt ! 1, pkt ! 3, pkt ! 4]\<rparr>"

fun spawn_buttons :: "nat list \<Rightarrow> s32 \<Rightarrow> s32 \<Rightarrow> u64 \<Rightarrow> core_sched \<Rightarrow> core_sched option" where
  "spawn_buttons [] delta cur now s = Some s"
| "spawn_buttons (n # ns) delta cur now s = do {
     let mask = (0x8000 div 2 ^ n :: int);
     s \<leftarrow> (if delta AND mask = 0 then Some s
           else sched_spawn_handler (int n) 1 [if cur AND mask \<noteq> 0 then 1 else 0] now s);
     spawn_buttons ns delta cur now s }"

definition core_sched_on_input ::
    "'w sched_seams \<Rightarrow> u64 option list \<Rightarrow> u8 list \<Rightarrow> u64 \<Rightarrow> 'w sched_ctx \<Rightarrow> (bool \<times> 'w sched_ctx) option" where
  "core_sched_on_input E late pkt now c =
     (case c of (s, cs) \<Rightarrow>
        let idle = (vm_code (svm s) = None \<or> code_count (svm s) = 0);
            s = advance_input pkt s;
            cur = cur_input s;
            prev = prev_input s;
            btn_delta = in_buttons cur XOR in_buttons prev;
            stick_delta = in_stick cur XOR in_stick prev
        in if idle then Some (False, s, cs)
           else if btn_delta = 0 \<and> stick_delta = 0 then Some (True, s, cs)
           else do {
             s \<leftarrow> sched_spawn_handler 0x12 2 [in_dword cur, in_dword prev] now s;
             s \<leftarrow> (if stick_delta \<noteq> 0 then
                     sched_spawn_handler 0x11 4
                       (map (\<lambda>b. of_int (s8_of b)) [cur ! 0, cur ! 1, prev ! 0, prev ! 1]) now s
                   else Some s);
             s \<leftarrow> (if btn_delta \<noteq> 0 then do {
                     s \<leftarrow> sched_spawn_handler 0x10 2 [of_int (in_buttons cur), of_int (in_buttons prev)] now s;
                     spawn_buttons [0..<16] btn_delta (in_buttons cur) now s }
                   else Some s);
             s \<leftarrow> sched_spawn_handler 0x13 2 [in_dword cur, in_dword prev] now s;
             c \<leftarrow> core_sched_run E late now (s, cs);
             Some (True, c) })"

end
