(* ===== verification/Sched_Inv.thy ===== *)
theory Sched_Inv
  imports Sched_Run
begin

text \<open>
  What holds of the script scheduler: its invariant and its preservation by every operation, the contract of
  the builtins with the interpreter, and from them that a pass always ends in memory. The measure of a
  sweep is the tokens left plus the threads queued: an instruction costs a token and queues at most one
  thread, and a thread that stops with no token left is off the list for good.
\<close>

section \<open>The copying loops\<close>

lemma copy_cells_value:
  assumes "0 \<le> f" "f + int n \<le> int (length src)" "0 \<le> a" "a + int n \<le> int (length dst)"
  shows "copy_cells n src f dst a =
    Some (take (nat a) dst @ take n (drop (nat f) src) @ drop (nat a + n) dst)"
  using assms
proof (induction n)
  case (Suc n)
  then have ih: "copy_cells n src f dst a =
    Some (take (nat a) dst @ take n (drop (nat f) src) @ drop (nat a + n) dst)" by simp
  have at: "nat (a + int n) = nat a + n" "nat (f + int n) = nat f + n" using Suc.prems by linarith+
  have len: "nat f + n < length src" "nat a + n < length dst" using Suc.prems by linarith+
  then have "drop (nat a + n) dst = dst ! (nat a + n) # drop (Suc (nat a + n)) dst"
    "take (Suc n) (drop (nat f) src) = take n (drop (nat f) src) @ [src ! (nat f + n)]"
    by (simp_all add: Cons_nth_drop_Suc take_Suc_conv_app_nth)
  with ih at len Suc.prems show ?case
    by (simp add: cell_at_def cell_put_def list_update_append min_absorb2)
qed simp

lemma copy_cells_length:
  assumes "0 \<le> f" "f + int n \<le> int (length src)" "0 \<le> a" "a + int n \<le> int (length dst)"
  obtains r where "copy_cells n src f dst a = Some r" "length r = length dst"
proof
  have len: "nat a + n \<le> length dst" "nat f + n \<le> length src" using assms by linarith+
  show "copy_cells n src f dst a = Some (take (nat a) dst @ take n (drop (nat f) src) @ drop (nat a + n) dst)"
    by (rule copy_cells_value [OF assms])
  show "length (take (nat a) dst @ take n (drop (nat f) src) @ drop (nat a + n) dst) = length dst"
    using len by simp
qed

section \<open>The invariant\<close>

definition node_ok :: "sched_thread \<Rightarrow> bool" where
  "node_ok t \<longleftrightarrow> 8 \<le> stack_size t \<and> stack_size t \<le> 200 \<and> int (length (stack t)) = stack_size t"

definition thread_ok :: "sched_thread \<Rightarrow> bool" where
  "thread_ok t \<longleftrightarrow> node_ok t \<and> 0 \<le> saved_depth t \<and> saved_depth t \<le> stack_size t \<and> is_s32 (thread_pc t)"

lemma thread_node [simp]: "thread_ok t \<Longrightarrow> node_ok t" by (simp add: thread_ok_def)

text \<open>The blocks the scheduler can reach.\<close>

definition held :: "'b option \<Rightarrow> int" where
  "held x = (if x = None then 0 else 1)"

definition owned :: "core_sched \<Rightarrow> int" where
  "owned s = int (length (ready s)) + int (length (freepool s)) + held (current s) + held (fault_thread s) +
     held (fault_vars s) + held (vm_code (svm s)) + held (vm_vars (svm s))"

definition events_ok :: "core_sched \<Rightarrow> bool" where
  "events_ok s \<longleftrightarrow> length (events s) = 100 \<and> 0 \<le> event_head s \<and> event_head s < 100 \<and>
     0 \<le> event_count s \<and> event_count s \<le> 100"

text \<open>The post-mortem slot: a whole node, and as many globals as the script has.\<close>

definition dump_ok :: "core_sched \<Rightarrow> bool" where
  "dump_ok s \<longleftrightarrow> (\<forall>t. fault_thread s = Some t \<longrightarrow> node_ok t) \<and>
     (\<forall>v. fault_vars s = Some v \<longrightarrow> int (length v) = var_count (svm s) \<and> length v < 1073741824)"

lemma dump_ok_cong:
  "fault_thread s' = fault_thread s \<Longrightarrow> fault_vars s' = fault_vars s \<Longrightarrow> var_count (svm s') = var_count (svm s) \<Longrightarrow>
   dump_ok s' = dump_ok s"
  by (simp add: dump_ok_def)

lemma dump_ok_lists [simp]:
  "dump_ok (s\<lparr>freepool := f\<rparr>) = dump_ok s" "dump_ok (s\<lparr>ready := r\<rparr>) = dump_ok s"
  "dump_ok (s\<lparr>thread_count := n\<rparr>) = dump_ok s" "dump_ok (s\<lparr>blocks := b\<rparr>) = dump_ok s"
  "dump_ok (s\<lparr>pool := p\<rparr>) = dump_ok s" "dump_ok (s\<lparr>current := c\<rparr>) = dump_ok s"
  "dump_ok (s\<lparr>events := e\<rparr>) = dump_ok s" "dump_ok (s\<lparr>event_head := n\<rparr>) = dump_ok s"
  "dump_ok (s\<lparr>event_count := n\<rparr>) = dump_ok s" "dump_ok (s\<lparr>events_dropped := d\<rparr>) = dump_ok s"
  by (simp_all add: dump_ok_def)

text \<open>\<open>h\<close> counts the thread nodes held apart from the lists.\<close>

definition sched_ok :: "int \<Rightarrow> core_sched \<Rightarrow> bool" where
  "sched_ok h s \<longleftrightarrow> (\<forall>t \<in> set (ready s). thread_ok t) \<and> (\<forall>t \<in> set (freepool s). node_ok t) \<and>
     sorted_wrt (\<lambda>t u. wake_time t \<le> wake_time u) (ready s) \<and>
     thread_count s = to_s32 (int (length (ready s))) \<and> events_ok s \<and> dump_ok s \<and> blocks s = owned s + h"

text \<open>What the operations on threads and events leave alone.\<close>

definition rest_of where
  "rest_of s = (svm s, in_pass s, pending_valid s, pending_time s, bucket s, has_core s, load_time s,
     sched_time s, fault_thread s, fault_vars s, cur_input s, prev_input s)"

lemma sched_ok_other [simp]:
  "sched_ok h (s\<lparr>next_thread_id := n\<rparr>) = sched_ok h s" "rest_of (s\<lparr>next_thread_id := n\<rparr>) = rest_of s"
  "rest_of (s\<lparr>current := c\<rparr>) = rest_of s"
  "sched_ok h (s\<lparr>bucket := b\<rparr>) = sched_ok h s" "sched_ok h (s\<lparr>sched_time := w\<rparr>) = sched_ok h s"
  "sched_ok h (s\<lparr>in_pass := x\<rparr>) = sched_ok h s" "sched_ok h (s\<lparr>pending_valid := y\<rparr>) = sched_ok h s"
  "sched_ok h (s\<lparr>pending_time := w\<rparr>) = sched_ok h s" "sched_ok h (s\<lparr>fault_status := f\<rparr>) = sched_ok h s"
  "sched_ok h (s\<lparr>fault_total := f\<rparr>) = sched_ok h s" "sched_ok h (s\<lparr>cur_input := l\<rparr>) = sched_ok h s"
  "sched_ok h (s\<lparr>prev_input := l\<rparr>) = sched_ok h s"
  by (simp_all add: sched_ok_def owned_def events_ok_def dump_ok_def rest_of_def)

text \<open>A thread moves between a hand and \<open>current\<close>.\<close>

lemma sched_ok_current:
  "sched_ok h s \<Longrightarrow> sched_ok (h + held (current s) - held c) (s\<lparr>current := c\<rparr>)"
  by (simp add: sched_ok_def owned_def events_ok_def dump_ok_def)

subsection \<open>The ready list\<close>

lemma queue_insert_length [simp]: "length (queue_insert t us) = Suc (length us)"
  by (induction us) auto

lemma queue_insert_set [simp]: "set (queue_insert t us) = insert t (set us)"
  by (induction us) auto

lemma queue_insert_sorted:
  "sorted_wrt (\<lambda>t u. wake_time t \<le> wake_time u) us \<Longrightarrow>
   sorted_wrt (\<lambda>t u. wake_time t \<le> wake_time u) (queue_insert t us)"
  by (induction us) (auto simp: not_less intro: order_trans less_imp_le)

text \<open>Threads due at the same time stay in the order they came.\<close>

lemma queue_insert_fifo:
  assumes "sorted_wrt (\<lambda>t u. wake_time t \<le> wake_time u) us"
  shows "filter (\<lambda>u. wake_time u = w) (queue_insert t us) =
    filter (\<lambda>u. wake_time u = w) us @ (if wake_time t = w then [t] else [])"
  using assms
proof (induction us)
  case (Cons u us)
  have "filter (\<lambda>v. wake_time v = wake_time t) us = []" if "wake_time t < wake_time u"
    using Cons.prems that by (auto simp: filter_empty_conv)
  then show ?case using Cons by auto
qed simp

lemma find_thread_ready: "find_thread i s = Some u \<Longrightarrow> u \<in> set (ready s)"
  by (auto simp: find_thread_def find_Some_iff in_set_conv_nth)

lemma sorted_wrt_remove1: "sorted_wrt P xs \<Longrightarrow> sorted_wrt P (remove1 x xs)"
  by (induction xs) (auto dest: notin_set_remove1)

subsection \<open>Operations\<close>

lemma sched_ok_alloc:
  assumes "sched_alloc n s = (b, s')" "sched_ok h s"
  shows "sched_ok (h + held b) s' \<and> ready s' = ready s \<and> current s' = current s \<and> rest_of s' = rest_of s \<and>
    (\<forall>ws. b = Some ws \<longrightarrow> length ws = unat n div 4)"
proof (cases "pool s")
  case Nil
  then show ?thesis using assms by (auto simp: sched_alloc_def held_def)
next
  case (Cons x rest)
  show ?thesis
  proof (cases x)
    case None
    then have "b = None" "s' = s\<lparr>pool := rest\<rparr>" using assms(1) Cons by (simp_all add: sched_alloc_def)
    then show ?thesis using assms(2) by (simp add: sched_ok_def owned_def events_ok_def dump_ok_def held_def rest_of_def)
  next
    case (Some f)
    then have "b = Some (map f [0..<unat n div 4])" "s' = s\<lparr>pool := rest, blocks := blocks s + 1\<rparr>"
      using assms(1) Cons by (simp_all add: sched_alloc_def)
    then show ?thesis using assms(2) by (simp add: sched_ok_def owned_def events_ok_def dump_ok_def held_def rest_of_def)
  qed
qed

lemma sched_ok_free: "sched_ok (h + held b) s \<Longrightarrow> sched_ok h (sched_free b s)"
  by (auto simp: sched_free_def held_def sched_ok_def owned_def events_ok_def dump_ok_def)

lemma sched_free_fields [simp]:
  "ready (sched_free b s) = ready s" "current (sched_free b s) = current s" "rest_of (sched_free b s) = rest_of s"
  "freepool (sched_free b s) = freepool s" "svm (sched_free b s) = svm s" "fault_thread (sched_free b s) = fault_thread s"
  "fault_vars (sched_free b s) = fault_vars s" "device_tag (sched_free b s) = device_tag s"
  by (simp_all add: sched_free_def rest_of_def)

lemma sched_ok_queue:
  "sched_ok (h + 1) s \<Longrightarrow> thread_ok t \<Longrightarrow> sched_ok h (core_sched_queue t s)"
  using to_s32_add [of "int (length (ready s))" 1]
  by (auto simp: sched_ok_def core_sched_queue_def owned_def events_ok_def queue_insert_sorted to_s32_id is_s32_def
      add.commute)

lemma sched_queue_fields [simp]:
  "current (core_sched_queue t s) = current s" "rest_of (core_sched_queue t s) = rest_of s"
  "length (ready (core_sched_queue t s)) = Suc (length (ready s))"
  by (simp_all add: core_sched_queue_def rest_of_def)

lemma sched_ok_release: "sched_ok (h + 1) s \<Longrightarrow> node_ok t \<Longrightarrow> sched_ok h (thread_release t s)"
  by (auto simp: sched_ok_def thread_release_def owned_def events_ok_def)

lemma sched_release_fields [simp]:
  "current (thread_release t s) = current s" "rest_of (thread_release t s) = rest_of s"
  "ready (thread_release t s) = ready s"
  by (simp_all add: thread_release_def rest_of_def)

lemma to_s32_length_pred: "xs \<noteq> [] \<Longrightarrow> to_s32 (to_s32 (int (length xs)) - 1) = to_s32 (int (length xs - 1))"
  using to_s32_diff [of "int (length xs)" 1] by (cases xs) (simp_all add: to_s32_id is_s32_def)

lemma sched_ok_unlink:
  assumes "u \<in> set (ready s)" "sched_ok h s"
  shows "sched_ok (h + 1) (unlink_ready u s) \<and> thread_ok u"
proof -
  have "ready s \<noteq> []" using assms(1) by auto
  then show ?thesis
    using assms to_s32_length_pred [of "ready s"]
    by (auto simp: sched_ok_def unlink_ready_def owned_def events_ok_def length_remove1 sorted_wrt_remove1
        dest: set_remove1_subset [THEN subsetD] simp: Suc_leI)
qed

lemma sched_unlink_fields [simp]:
  "current (unlink_ready u s) = current s" "rest_of (unlink_ready u s) = rest_of s"
  "u \<in> set (ready s) \<Longrightarrow> Suc (length (ready (unlink_ready u s))) = length (ready s)"
  by (auto simp: unlink_ready_def rest_of_def length_remove1 length_pos_if_in_set intro: Suc_pred)

lemma smod_hundred: "0 \<le> i \<Longrightarrow> (i :: int) smod 100 = i mod 100"
  by (simp add: smod_pos)

lemma sched_ok_post: "sched_ok h s \<Longrightarrow> sched_ok h (core_sched_post_event ty a b s)"
  by (auto simp: sched_ok_def core_sched_post_event_def Let_def owned_def events_ok_def smod_hundred)

lemma sched_post_fields [simp]:
  "current (core_sched_post_event ty a b s) = current s" "rest_of (core_sched_post_event ty a b s) = rest_of s"
  "ready (core_sched_post_event ty a b s) = ready s"
  by (simp_all add: core_sched_post_event_def Let_def rest_of_def)

lemma clamp_stack_range: "8 \<le> clamp_stack n" "clamp_stack n \<le> 200" "n \<le> 200 \<Longrightarrow> n \<le> clamp_stack n"
  by (simp_all add: clamp_stack_def Let_def)

lemma node_words:
  assumes "0 \<le> n" "n \<le> 200"
  shows "unat (40 + of_int n * 4 :: u32) div 4 = 10 + nat n"
proof -
  have "uint (40 + of_int n * 4 :: u32) = 40 + n * 4"
    using assms by (simp add: uint_word_ariths uint_of_count)
  then show ?thesis using assms by (simp add: unat_eq_nat_uint nat_add_distrib nat_mult_distrib)
qed

lemma sched_ok_thread_alloc:
  assumes "core_sched_thread_alloc n s = (r, s')" "sched_ok h s"
  shows "sched_ok (h + held r) s' \<and> ready s' = ready s \<and> current s' = current s \<and> rest_of s' = rest_of s \<and>
    (\<forall>t. r = Some t \<longrightarrow> node_ok t \<and> saved_depth t = 0 \<and> thread_pc t = 0 \<and> (n \<le> 200 \<longrightarrow> n \<le> stack_size t))"
proof -
  let ?n = "clamp_stack n"
  note range = clamp_stack_range [of n]
  obtain p s1 where p: "pooled_thread ?n s = (p, s1)" by fastforce
  have s1: "sched_ok (h + held p) s1 \<and> ready s1 = ready s \<and> current s1 = current s \<and> rest_of s1 = rest_of s \<and>
    (\<forall>t. p = Some t \<longrightarrow> node_ok t \<and> ?n \<le> stack_size t)"
  proof (cases "freepool s")
    case Nil
    then show ?thesis using p assms(2) by (auto simp: pooled_thread_def held_def)
  next
    case (Cons t rest)
    then have s: "s\<lparr>freepool := t # rest\<rparr> = s" by simp
    show ?thesis
    proof (cases "stack_size t < ?n")
      case True
      then show ?thesis using p assms(2) Cons s by (simp add: pooled_thread_def held_def)
    next
      case False
      then have "p = Some t" "s1 = s\<lparr>freepool := rest\<rparr>" using p Cons by (simp_all add: pooled_thread_def)
      then show ?thesis
        using assms(2) Cons False by (simp add: sched_ok_def owned_def events_ok_def dump_ok_def held_def rest_of_def)
    qed
  qed
  obtain q s2 where q: "(case p of None \<Rightarrow> fresh_thread ?n s1 | Some t \<Rightarrow> (Some t, s1)) = (q, s2)" by fastforce
  have s2: "sched_ok (h + held q) s2 \<and> ready s2 = ready s \<and> current s2 = current s \<and> rest_of s2 = rest_of s \<and>
    (\<forall>t. q = Some t \<longrightarrow> node_ok t \<and> ?n \<le> stack_size t)"
  proof (cases p)
    case None
    obtain b s3 where b: "sched_alloc (40 + of_int ?n * 4) s1 = (b, s3)" by fastforce
    from sched_ok_alloc [OF b, of h] s1 None show ?thesis
      using q b range node_words [of ?n]
      by (auto simp: fresh_thread_def held_def node_ok_def split: option.splits)
  next
    case (Some t)
    then show ?thesis using q s1 by auto
  qed
  have r: "core_sched_thread_alloc n s = (case q of None \<Rightarrow> (None, s2) | Some t \<Rightarrow>
      (Some (t\<lparr>thread_id := next_thread_id s2 + 1, thread_pc := 0, saved_acc := 0, saved_depth := 0, wake_time := 0\<rparr>),
       s2\<lparr>next_thread_id := next_thread_id s2 + 1\<rparr>))"
    using p q by (simp add: core_sched_thread_alloc_def Let_def split: option.split)
  show ?thesis
  proof (cases q)
    case None
    then show ?thesis using assms(1) r s2 by (simp add: held_def)
  next
    case (Some t)
    then have "r = Some (t\<lparr>thread_id := next_thread_id s2 + 1, thread_pc := 0, saved_acc := 0, saved_depth := 0,
        wake_time := 0\<rparr>)" "s' = s2\<lparr>next_thread_id := next_thread_id s2 + 1\<rparr>" using assms(1) r by simp_all
    moreover have "n \<le> 200 \<longrightarrow> n \<le> stack_size t" using s2 Some range(3) by fastforce
    moreover have "sched_ok (h + 1) s'" "ready s' = ready s2" "current s' = current s2" "rest_of s' = rest_of s2"
      using s2 Some \<open>s' = _\<close> by (simp_all add: held_def)
    ultimately show ?thesis using s2 Some by (simp add: held_def node_ok_def)
  qed
qed

section \<open>The builtins\<close>

text \<open>A thread runs: it is held in \<open>current\<close>, and \<open>K\<close> is what no builtin may touch.\<close>

definition ctx_ok where
  "ctx_ok K c \<longleftrightarrow> sched_ok 0 (fst c) \<and> (\<exists>t. current (fst c) = Some t \<and> node_ok t) \<and> rest_of (fst c) = K"

definition ready_length :: "'w sched_ctx \<Rightarrow> nat" where
  "ready_length c = length (ready (fst c))"

definition builtin_good where
  "builtin_good K vm c r \<longleftrightarrow> (\<exists>st vm' c'. r = Some (st, vm', c') \<and> st \<noteq> No_memory \<and> vm_ok vm' \<and> vm_frame vm vm' \<and>
     vm_budget vm' = vm_budget vm \<and> ctx_ok K c' \<and>
     ready_length c' \<le> ready_length c + (if st = Running then 1 else 0))"

lemma native_arg_some: "vm_ok vm \<Longrightarrow> 0 \<le> k \<Longrightarrow> \<exists>x. native_arg vm k = Some x"
  by (auto simp: native_arg_def vm_unfold Let_def)

lemma vm_ok_acc: "vm_ok vm \<Longrightarrow> vm_ok (vm\<lparr>acc := x\<rparr>) \<and> vm_frame vm (vm\<lparr>acc := x\<rparr>)"
  by (simp add: vm_unfold)

lemma ctx_ok_current:
  "ctx_ok K (s, cs) \<Longrightarrow> current s = Some t \<Longrightarrow> node_ok t' \<Longrightarrow> ctx_ok K (s\<lparr>current := Some t'\<rparr>, cs')"
  using sched_ok_current [of 0 s "Some t'"] by (simp add: ctx_ok_def held_def rest_of_def)

lemma ctx_ok_core: "ctx_ok K (s, cs) = ctx_ok K (s, cs')" by (simp add: ctx_ok_def)

lemma node_ok_update [simp]: "node_ok (t\<lparr>wake_time := w\<rparr>) = node_ok t" "node_ok (t\<lparr>saved_acc := a\<rparr>) = node_ok t"
  "node_ok (t\<lparr>saved_depth := d\<rparr>) = node_ok t" "node_ok (t\<lparr>thread_pc := i\<rparr>) = node_ok t"
  "node_ok (t\<lparr>thread_id := n\<rparr>) = node_ok t"
  by (simp_all add: node_ok_def)

lemma thread_ok_wake [simp]: "thread_ok (t\<lparr>wake_time := w\<rparr>) = thread_ok t" "thread_ok (t\<lparr>saved_acc := a\<rparr>) = thread_ok t"
  by (simp_all add: thread_ok_def)

lemma ctx_ok_post: "ctx_ok K (s, cs) \<Longrightarrow> ctx_ok K (core_sched_post_event ty a b s, cs)"
  by (simp add: ctx_ok_def sched_ok_post)

lemma ctx_ok_sleep:
  "ctx_ok K (s, cs) \<Longrightarrow> current s = Some t \<Longrightarrow> ctx_ok K (native_sleep t a s, cs) \<and> ready (native_sleep t a s) = ready s"
  using ctx_ok_current [of K s cs t] by (auto simp: native_sleep_def ctx_ok_def)

lemma ctx_ok_wake:
  assumes "ctx_ok K (s, cs)" "current s = Some t"
  shows "ctx_ok K (native_wake t a s, cs) \<and> length (ready (native_wake t a s)) = length (ready s)"
proof (cases "find_thread a s")
  case (Some u)
  note u = find_thread_ready [OF Some]
  with assms sched_ok_unlink [of u s 0] have "sched_ok (0 + 1) (unlink_ready u s)" "thread_ok u"
    by (auto simp: ctx_ok_def)
  then have "sched_ok 0 (core_sched_queue (u\<lparr>wake_time := wake_time t, saved_acc := 0\<rparr>) (unlink_ready u s))"
    by (intro sched_ok_queue) simp_all
  then show ?thesis using assms Some u by (simp add: native_wake_def ctx_ok_def)
qed (use assms in \<open>simp add: native_wake_def\<close>)

lemma ctx_ok_kill:
  assumes "ctx_ok K (s, cs)"
  shows "ctx_ok K (native_kill a s, cs) \<and> length (ready (native_kill a s)) \<le> length (ready s)"
proof (cases "find_thread a s")
  case (Some u)
  note u = find_thread_ready [OF Some]
  with assms sched_ok_unlink [of u s 0] have "sched_ok (0 + 1) (unlink_ready u s)" "thread_ok u"
    by (auto simp: ctx_ok_def)
  then have "sched_ok 0 (thread_release u (unlink_ready u s))" by (intro sched_ok_release) simp_all
  moreover have "length (ready (unlink_ready u s)) \<le> length (ready s)"
    using sched_unlink_fields(3) [OF u] by linarith
  ultimately show ?thesis using assms Some by (simp add: native_kill_def ctx_ok_def)
qed (use assms in \<open>simp add: native_kill_def\<close>)

lemma native_fork_good:
  assumes ctx: "ctx_ok K (s, cs)" and cur: "current s = Some t" and ok: "vm_ok vm"
  shows "\<exists>x s'. native_fork t vm s = Some (vm\<lparr>acc := x\<rparr>, s') \<and> ctx_ok K (s', cs) \<and>
    length (ready s') \<le> Suc (length (ready s))"
proof (cases "thread_count s > 29")
  case True
  then show ?thesis using ctx by (auto simp: native_fork_def)
next
  case False
  obtain r s1 where r: "core_sched_thread_alloc (sp vm) s = (r, s1)" by fastforce
  have depth: "0 \<le> sp vm" "sp vm \<le> 200" using ok by (auto simp: vm_ok_def)
  from sched_ok_thread_alloc [OF r, of 0] ctx have s1: "sched_ok (held r) s1" "ready s1 = ready s"
    "current s1 = current s" "rest_of s1 = rest_of s"
    "\<And>u. r = Some u \<Longrightarrow> node_ok u \<and> (sp vm \<le> 200 \<longrightarrow> sp vm \<le> stack_size u)"
    by (auto simp: ctx_ok_def)
  show ?thesis
  proof (cases r)
    case None
    then show ?thesis using False r s1 ctx depth by (auto simp: native_fork_def Let_def ctx_ok_def held_def)
  next
    case (Some u)
    then have u: "node_ok u" "sp vm \<le> stack_size u" using s1(5) depth by auto
    obtain v where v: "vm_vars vm = Some v" "int (length v) = var_count vm + 200" "0 \<le> var_count vm"
      using ok by (auto simp: vm_ok_def vm_mem_def)
    have low: "min (sp vm) (stack_size u) = sp vm" using u(2) by simp
    have fits: "var_count vm + int (nat (sp vm)) \<le> int (length v)" "0 + int (nat (sp vm)) \<le> int (length (stack u))"
      using u v depth by (simp_all add: node_ok_def)
    obtain stk where stk: "copy_cells (nat (min (sp vm) (stack_size u))) v (var_count vm) (stack u) 0 = Some stk"
      "length stk = length (stack u)"
      unfolding low by (rule copy_cells_length [OF v(3) fits(1) order_refl fits(2)])
    let ?u = "u\<lparr>thread_pc := pc vm, saved_depth := sp vm, wake_time := wake_time t, saved_acc := 0, stack := stk\<rparr>"
    let ?s = "s1\<lparr>current := Some (t\<lparr>saved_depth := sp vm\<rparr>)\<rparr>"
    have pcs: "is_s32 (pc vm)" using ok by (simp add: vm_ok_def)
    have "thread_ok ?u" using u stk depth pcs by (simp add: thread_ok_def node_ok_def)
    moreover have "sched_ok (0 + 1) ?s"
      using s1 Some cur sched_ok_current [of 1 s1 "current ?s"] by (simp add: held_def)
    ultimately have "sched_ok 0 (core_sched_queue ?u ?s)" by (rule sched_ok_queue [rotated])
    have "native_fork t vm s = Some (vm\<lparr>acc := thread_id ?u\<rparr>, core_sched_queue ?u ?s)"
      using False r Some v stk depth by (simp add: native_fork_def Let_def)
    moreover have "ctx_ok K (core_sched_queue ?u ?s, cs)"
      using \<open>sched_ok 0 _\<close> s1(4) ctx cur by (simp add: ctx_ok_def)
    ultimately show ?thesis using s1(2) by auto
  qed
qed

lemma builtin_good_same:
  "ctx_ok K (s, cs) \<Longrightarrow> ctx_ok K (s', cs') \<Longrightarrow> vm_ok vm \<Longrightarrow> st \<noteq> No_memory \<Longrightarrow>
   length (ready s') \<le> length (ready s) + (if st = Running then 1 else 0) \<Longrightarrow>
   builtin_good K vm (s, cs) (Some (st, vm, s', cs'))"
  by (auto simp: builtin_good_def ready_length_def)

lemma builtin_good_acc:
  "ctx_ok K (s, cs) \<Longrightarrow> ctx_ok K (s', cs') \<Longrightarrow> vm_ok vm \<Longrightarrow> st \<noteq> No_memory \<Longrightarrow>
   length (ready s') \<le> length (ready s) + (if st = Running then 1 else 0) \<Longrightarrow>
   builtin_good K vm (s, cs) (Some (st, vm\<lparr>acc := x\<rparr>, s', cs'))"
  using vm_ok_acc [of vm x] by (auto simp: builtin_good_def ready_length_def)

lemma core_sched_native_good:
  assumes ok: "vm_ok vm" and ctx: "ctx_ok K c"
  shows "builtin_good K vm c (core_sched_native ident vm c)"
proof -
  obtain s cs where c: "c = (s, cs)" by fastforce
  note ctx = ctx [unfolded c]
  obtain t where t: "current s = Some t" using ctx by (auto simp: ctx_ok_def)
  obtain a1 a2 where args: "native_arg vm 1 = Some a1" "native_arg vm 2 = Some a2"
    using native_arg_some [OF ok, of 1] native_arg_some [OF ok, of 2] by auto
  let ?B = "builtin_good K vm (s, cs)"
  have same: "st \<noteq> No_memory \<Longrightarrow> ?B (Some (st, vm, s, cs'))" for st cs'
    using ctx ok ctx_ok_core [of K s cs cs'] by (intro builtin_good_same) auto
  have getv: "st \<noteq> No_memory \<Longrightarrow> ?B (Some (st, vm\<lparr>acc := x\<rparr>, s, cs))" for st x using ctx ok by (intro builtin_good_acc) auto
  have post: "?B (Some (Running, vm, core_sched_post_event ty a b s, cs))" for ty a b
    using ctx ctx_ok_post [OF ctx] ok by (intro builtin_good_same) auto
  have sleep: "?B (Some (Sleeping, vm\<lparr>acc := x\<rparr>, native_sleep t a s, cs))" for a x
    using ctx ctx_ok_sleep [OF ctx t, of a] ok by (intro builtin_good_acc) auto
  have wake: "?B (Some (Running, vm, native_wake t a s, cs))" for a
    using ctx ctx_ok_wake [OF ctx t, of a] ok by (intro builtin_good_same) auto
  have kill: "?B (Some (Running, vm, native_kill a s, cs))" for a
    using ctx ctx_ok_kill [OF ctx, of a] ok by (intro builtin_good_same) auto
  obtain x s' where fork: "native_fork t vm s = Some (vm\<lparr>acc := x\<rparr>, s')" "ctx_ok K (s', cs)"
    "length (ready s') \<le> Suc (length (ready s))" using native_fork_good [OF ctx t ok] by blast
  have forked: "?B (Some (Running, vm\<lparr>acc := x\<rparr>, s', cs))"
    using ctx fork ok by (intro builtin_good_acc) auto
  show ?thesis
    unfolding c core_sched_native_def
    by (simp only: prod.case t option.case args bind.simps Let_def fork(1) if_distrib [where f = ?B] if_cancel
        same getv post sleep wake kill forked simp_thms script_status.distinct)
qed

interpretation builtins: native_library core_sched_native "ctx_ok K" ready_length for K
  using core_sched_native_good unfolding builtin_good_def by unfold_locales blast

section \<open>Running one thread\<close>

lemma sched_ok_svm:
  "held (vm_code vm) = held (vm_code (svm s)) \<Longrightarrow> held (vm_vars vm) = held (vm_vars (svm s)) \<Longrightarrow>
   var_count vm = var_count (svm s) \<Longrightarrow> sched_ok h (s\<lparr>svm := vm\<rparr>) = sched_ok h s"
  by (simp add: sched_ok_def owned_def events_ok_def dump_ok_def)

lemma unpack_thread_good:
  assumes t: "node_ok t" and mem: "vm_mem (svm s)"
  obtains vm where "unpack_thread t s = Some vm" "vm_mem vm" "vm_frame (svm s) vm" "pc vm = thread_pc t"
    "sp vm = saved_depth t" "vm_budget vm = bucket s"
proof -
  obtain v where v: "vm_vars (svm s) = Some v" "int (length v) = var_count (svm s) + 200" "0 \<le> var_count (svm s)"
    using mem by (auto simp: vm_mem_def)
  have fits: "0 + int (nat (min (stack_size t) 200)) \<le> int (length (stack t))"
    "var_count (svm s) + int (nat (min (stack_size t) 200)) \<le> int (length v)"
    using t v by (simp_all add: node_ok_def)
  obtain r where r: "copy_cells (nat (min (stack_size t) 200)) (stack t) 0 v (var_count (svm s)) = Some r"
    "length r = length v"
    by (rule copy_cells_length [OF order_refl fits(1) v(3) fits(2)])
  show thesis
    by (rule that [of "(svm s)\<lparr>vm_vars := Some r, pc := thread_pc t, acc := saved_acc t, sp := saved_depth t,
        vm_budget := bucket s\<rparr>"])
      (use v r mem in \<open>simp_all add: unpack_thread_def vm_mem_def vm_frame_def\<close>)
qed

text \<open>The part of the state a run of a thread leaves alone; the machine, the bucket and the lists change.\<close>

definition kept where
  "kept s = (in_pass s, pending_valid s, pending_time s, has_core s, load_time s, sched_time s, cur_input s, prev_input s)"

lemma rest_kept: "rest_of s = rest_of s' \<Longrightarrow> kept s = kept s'" by (simp add: rest_of_def kept_def)

lemma grow_thread_good:
  assumes "grow_thread d t s = (r, s')" "sched_ok 1 s" "node_ok t" "d \<le> 200"
  shows "sched_ok (held r) s' \<and> ready s' = ready s \<and> current s' = current s \<and> rest_of s' = rest_of s \<and>
    (\<forall>u. r = Some u \<longrightarrow> node_ok u \<and> d \<le> stack_size u)"
proof (cases "stack_size t < d")
  case False
  then show ?thesis using assms by (auto simp: grow_thread_def held_def)
next
  case True
  obtain b s1 where b: "sched_alloc (40 + of_int d * 4) s = (b, s1)" by fastforce
  note s1 = sched_ok_alloc [OF b assms(2)]
  have d: "0 \<le> d" "8 \<le> d" using True assms(3) by (simp_all add: node_ok_def)
  have "sched_ok (held b + held (Some t)) s1" using s1 by (simp add: held_def add.commute)
  then have free: "sched_ok (held b) (sched_free (Some t) s1)" by (rule sched_ok_free)
  show ?thesis
  proof (cases b)
    case None
    then show ?thesis using assms(1) b True free s1 by (auto simp: grow_thread_def held_def)
  next
    case (Some ws)
    then have "length ws = 10 + nat d" using s1 node_words [OF d(1) assms(4)] by simp
    then show ?thesis using assms(1,4) b True free s1 Some d by (auto simp: grow_thread_def held_def node_ok_def)
  qed
qed

lemma pack_thread_good:
  assumes "node_ok t" "0 \<le> d" "d \<le> stack_size t" and mem: "vm_mem (svm s)"
  obtains stk where "pack_thread d t s = Some (t\<lparr>thread_pc := pc (svm s), saved_acc := acc (svm s), saved_depth := d,
      stack := stk\<rparr>)" "length stk = length (stack t)"
proof -
  obtain v where v: "vm_vars (svm s) = Some v" "int (length v) = var_count (svm s) + 200" "0 \<le> var_count (svm s)"
    using mem by (auto simp: vm_mem_def)
  have fits: "var_count (svm s) + int (nat d) \<le> int (length v)" "0 + int (nat d) \<le> int (length (stack t))"
    using assms v by (simp_all add: node_ok_def)
  obtain stk where "copy_cells (nat d) v (var_count (svm s)) (stack t) 0 = Some stk" "length stk = length (stack t)"
    by (rule copy_cells_length [OF v(3) fits(1) order_refl fits(2)])
  then show thesis using v by (intro that [of stk]) (simp_all add: pack_thread_def)
qed

definition run_result where
  "run_result b n st s' \<longleftrightarrow> bucket s' \<le> b \<and> min 0 (b - 1) \<le> bucket s' \<and>
     nat (bucket s') + length (ready s') + (if st = Sleeping then 1 else 0) \<le> nat b + n"

lemma sched_execute_good:
  fixes cs :: "'w core_state"
  assumes t: "thread_ok t" and s: "sched_ok 1 s" "current s = None" and mem: "vm_mem (svm s)"
    and b: "- 2147483648 < bucket s" "bucket s < 2147483648"
  obtains st u s' cs' where "sched_execute t (s, cs) = Some (st, u, s', cs')" "st \<noteq> Running"
    "sched_ok (if st = No_memory then 0 else 1) s'" "node_ok u" "st = Sleeping \<longrightarrow> thread_ok u" "current s' = None"
    "vm_mem (svm s')" "kept s' = kept s" "run_result (bucket s) (length (ready s)) st s'"
proof -
  obtain vm where vm: "unpack_thread t s = Some vm" "vm_mem vm" "vm_frame (svm s) vm" "pc vm = thread_pc t"
    "sp vm = saved_depth t" "vm_budget vm = bucket s"
    by (rule unpack_thread_good [OF thread_node [OF t] mem])
  let ?s = "s\<lparr>current := Some t\<rparr>"
  have "ctx_ok (rest_of s) (?s, cs)"
    using sched_ok_current [OF s(1), of "Some t"] s(2) t by (simp add: ctx_ok_def held_def)
  moreover have "0 \<le> sp vm" "sp vm \<le> 200" "is_s32 (pc vm)"
    using t vm by (auto simp: thread_ok_def node_ok_def)
  ultimately obtain st vm' c' where run: "core_script_run (Some core_sched_native) vm (?s, cs) = Some (st, vm', c')"
    "st \<noteq> Running" "st \<noteq> No_memory" "st = Sleeping \<longrightarrow> vm_ok vm'" "vm_frame vm vm'" "ctx_ok (rest_of s) c'"
    "vm_budget vm' \<le> bucket s" "min 0 (bucket s - 1) \<le> vm_budget vm'"
    "nat (vm_budget vm') + ready_length c' + (if st = Sleeping then 1 else 0) \<le> nat (bucket s) + length (ready s)"
    using builtins.run_good [OF vm(2), of "rest_of s" "(?s, cs)"] b vm(6) by (auto simp: ready_length_def)
  obtain s1 cs' where c': "c' = (s1, cs')" by fastforce
  obtain t1 where t1: "current s1 = Some t1" "node_ok t1" "sched_ok 0 s1" "rest_of s1 = rest_of s"
    using run(6) by (auto simp: ctx_ok_def c')
  have fr: "vm_frame (svm s) vm'" by (rule vm_frame_trans [OF vm(3) run(5)])
  have mem': "vm_mem vm'" by (rule vm_mem_frame [OF mem fr])
  let ?s1 = "s1\<lparr>svm := vm', current := None, bucket := vm_budget vm'\<rparr>"
  have "svm s1 = svm s" using t1(4) by (simp add: rest_of_def)
  then have "sched_ok 0 (s1\<lparr>svm := vm'\<rparr>)"
    using t1(3) mem mem' fr by (subst sched_ok_svm) (auto simp: held_def vm_frame_def vm_mem_def)
  from sched_ok_current [OF this, of None] have ok1: "sched_ok 1 ?s1" using t1(1) by (simp add: held_def)
  have kept1: "kept ?s1 = kept s" using t1(4) by (simp add: rest_of_def kept_def)
  have res: "run_result (bucket s) (length (ready s)) st ?s1"
    using run(7-9) by (simp add: run_result_def ready_length_def c')
  show thesis
  proof (cases "st = Terminated")
    case True
    then have "sched_execute t (s, cs) = Some (st, t1, ?s1, cs')"
      using vm(1) run(1) t1(1) by (simp add: sched_execute_def c' Let_def)
    then show ?thesis using run(2) ok1 t1(2) mem' kept1 res True by (intro that [of st t1 ?s1 cs']) auto
  next
    case False
    define d where "d = (let n = (if sp vm' > 200 then 200 else sp vm') in if n < 0 then 0 else n)"
    have d: "0 \<le> d" "d \<le> 200" by (simp_all add: d_def Let_def)
    obtain r s2 where r: "grow_thread d t1 ?s1 = (r, s2)" by fastforce
    note s2 = grow_thread_good [OF r ok1 t1(2) d(2)]
    have s2f: "svm s2 = vm'" "kept s2 = kept s" "bucket s2 = vm_budget vm'" "current s2 = None" "ready s2 = ready s1"
      using s2 kept1 rest_kept [of s2 ?s1] by (simp_all add: rest_of_def)
    have res2: "run_result (bucket s) (length (ready s)) st' s2" if "st' = Sleeping \<longrightarrow> st = Sleeping" for st'
      using res that s2f by (auto simp: run_result_def)
    have exec: "sched_execute t (s, cs) = (case (r, s2) of
        (None, s) \<Rightarrow> Some (No_memory, t1, s, cs')
      | (Some t, s) \<Rightarrow> pack_thread d t s \<bind> (\<lambda>t. Some (st, t, s, cs')))"
      using vm(1) run(1) t1(1) False r
      by (simp add: sched_execute_def c' Let_def d_def split del: if_split cong: if_cong option.case_cong)
    show ?thesis
    proof (cases r)
      case None
      then show ?thesis using exec s2 s2f mem' res2 [of No_memory] t1(2)
        by (intro that [of No_memory t1 s2 cs']) (auto simp: held_def)
    next
      case (Some u)
      then have u: "node_ok u" "d \<le> stack_size u" "sched_ok 1 s2" using s2 by (auto simp: held_def)
      obtain stk where p: "pack_thread d u s2 = Some (u\<lparr>thread_pc := pc (svm s2), saved_acc := acc (svm s2),
          saved_depth := d, stack := stk\<rparr>)" "length stk = length (stack u)"
        using pack_thread_good [OF u(1) d(1) u(2), of s2] mem' s2f(1) by metis
      let ?u = "u\<lparr>thread_pc := pc (svm s2), saved_acc := acc (svm s2), saved_depth := d, stack := stk\<rparr>"
      have node: "node_ok ?u" using u(1) p(2) by (simp add: node_ok_def)
      have thr: "thread_ok ?u" if "st = Sleeping"
        using node run(4) that s2f(1) u(2) d(1) by (simp add: thread_ok_def vm_ok_def)
      have e: "sched_execute t (s, cs) = Some (st, ?u, s2, cs')" using exec Some p(1) by simp
      then show ?thesis using run(2,3) u(3) node thr s2f mem' res2 [of st] by (intro that [of st ?u s2 cs']) auto
    qed
  qed
qed

section \<open>Faults\<close>

lemma sched_ok_fault:
  "sched_ok h s \<Longrightarrow> (\<forall>t. x = Some t \<longrightarrow> node_ok t) \<Longrightarrow>
   (\<forall>v. y = Some v \<longrightarrow> int (length v) = var_count (svm s) \<and> length v < 1073741824) \<Longrightarrow>
   sched_ok (h + held (fault_thread s) + held (fault_vars s) - held x - held y) (s\<lparr>fault_thread := x, fault_vars := y\<rparr>)"
  by (simp add: sched_ok_def owned_def events_ok_def dump_ok_def)

lemma count_words:
  assumes "0 \<le> n" "n < 1073741824"
  shows "unat (of_int n * 4 :: u32) div 4 = nat n"
proof -
  have "uint (of_int n * 4 :: u32) = n * 4"
    using assms by (simp add: uint_word_ariths uint_of_count)
  then show ?thesis using assms by (simp add: unat_eq_nat_uint nat_mult_distrib)
qed

lemma fault_snapshot_good:
  assumes "sched_ok h s" "vm_mem (svm s)"
  obtains b s' where "fault_snapshot s = Some (b, s')" "sched_ok (h + held b) s'" "ready s' = ready s"
    "current s' = current s" "rest_of s' = rest_of s" "\<forall>v. b = Some v \<longrightarrow> int (length v) = var_count (svm s) \<and> length v < 1073741824"
proof -
  obtain b s1 where b: "sched_alloc (of_int (var_count (svm s)) * 4) s = (b, s1)" by fastforce
  note s1 = sched_ok_alloc [OF b assms(1)]
  obtain v where v: "vm_vars (svm s) = Some v" "int (length v) = var_count (svm s) + 200"
    "0 \<le> var_count (svm s)" "var_count (svm s) < 1073741824"
    using assms(2) by (auto simp: vm_mem_def)
  show thesis
  proof (cases b)
    case None
    then show ?thesis using s1 b by (intro that [of None s1]) (auto simp: fault_snapshot_def held_def)
  next
    case (Some ws)
    then have "length ws = nat (var_count (svm s))" using s1 count_words [OF v(3,4)] by simp
    then have fits: "0 + int (nat (var_count (svm s))) \<le> int (length v)"
      "0 + int (nat (var_count (svm s))) \<le> int (length ws)" using v by simp_all
    obtain r where "copy_cells (nat (var_count (svm s))) v 0 ws 0 = Some r" "length r = length ws"
      by (rule copy_cells_length [OF order_refl fits(1) order_refl fits(2)])
    moreover have "svm s1 = svm s" using s1 by (simp add: rest_of_def)
    ultimately show ?thesis using s1 b v Some \<open>length ws = _\<close> by (intro that [of "Some r" s1]) (auto simp: fault_snapshot_def held_def)
  qed
qed

lemma sched_fault_good:
  assumes "sched_ok 1 s" "vm_mem (svm s)" "node_ok t"
  obtains s' where "sched_fault t st s = Some s'" "sched_ok 0 s'" "ready s' = ready s" "current s' = current s"
    "svm s' = svm s" "bucket s' = bucket s" "kept s' = kept s" "fault_thread s' = Some t"
proof -
  obtain b s1 where b: "fault_snapshot s = Some (b, s1)" "sched_ok (1 + held b) s1" "ready s1 = ready s"
    "current s1 = current s" "rest_of s1 = rest_of s" "\<forall>v. b = Some v \<longrightarrow> int (length v) = var_count (svm s) \<and> length v < 1073741824"
    by (rule fault_snapshot_good [OF assms(1,2)])
  have dump: "\<forall>u. Some t = Some u \<longrightarrow> node_ok u" "\<forall>v. b = Some v \<longrightarrow> int (length v) = var_count (svm s1) \<and> length v < 1073741824"
    using assms(3) b(5,6) by (simp_all add: rest_of_def)
  let ?f = "s1\<lparr>fault_thread := Some t, fault_vars := b, fault_status := status_code st, fault_total := fault_total s1 + 1\<rparr>"
  have "sched_ok (held (fault_vars s1) + held (fault_thread s1)) ?f"
    using sched_ok_fault [OF b(2) dump] by (simp add: held_def add.commute)
  then have ok: "sched_ok 0 (sched_free (fault_vars s1) (sched_free (fault_thread s1) ?f))"
    using sched_ok_free [of "held (fault_vars s1)" "fault_thread s1" ?f] sched_ok_free [of 0 "fault_vars s1"] by simp
  let ?s = "sched_free (fault_vars s1) (sched_free (fault_thread s1) ?f)"
  let ?r = "if fault_thread s1 = None then core_sched_post_event 0x42 (status_code st) (device_tag s1) ?s else ?s"
  have r: "sched_fault t st s = Some ?r" using b(1) by (simp add: sched_fault_def Let_def)
  have rest: "svm s1 = svm s" "bucket s1 = bucket s" "kept s1 = kept s"
    using b(5) by (simp_all add: rest_of_def kept_def)
  have "rest_of ?s = rest_of ?f" by simp
  then have f: "svm ?s = svm s" "bucket ?s = bucket s" "kept ?s = kept s" "fault_thread ?s = Some t"
    using rest by (simp_all add: rest_of_def kept_def)
  have post: "rest_of (core_sched_post_event ty a b ?s) = rest_of ?s" for ty a b by simp
  show thesis
    using that [OF r] ok b(3,4) f post [of "0x42" "status_code st" "device_tag s1"]
    by (cases "fault_thread s1 = None") (simp_all add: sched_ok_post rest_of_def kept_def)
qed

section \<open>The pass\<close>

text \<open>The state between two turns of a sweep.\<close>

definition between :: "core_sched \<Rightarrow> bool" where
  "between s \<longleftrightarrow> sched_ok 0 s \<and> current s = None \<and> vm_mem (svm s)"

definition tokens :: "core_sched \<Rightarrow> int" where
  "tokens s = \<bar>bucket s\<bar> + int (length (ready s))"

lemma between_queue:
  "sched_ok 1 s \<Longrightarrow> current s = None \<Longrightarrow> vm_mem (svm s) \<Longrightarrow> thread_ok t \<Longrightarrow> between (core_sched_queue t s)"
  using sched_ok_queue [of 0 s t] by (simp add: between_def core_sched_queue_def)

lemma between_release:
  "sched_ok 1 s \<Longrightarrow> current s = None \<Longrightarrow> vm_mem (svm s) \<Longrightarrow> node_ok t \<Longrightarrow> between (thread_release t s)"
  using sched_ok_release [of 0 s t] by (simp add: between_def thread_release_def)

lemma kept_lists [simp]: "kept (core_sched_queue t s) = kept s" "kept (thread_release t s) = kept s"
  "bucket (core_sched_queue t s) = bucket s" "bucket (thread_release t s) = bucket s"
  by (simp_all add: kept_def core_sched_queue_def thread_release_def)

lemma sched_ok_pop:
  "sched_ok h s \<Longrightarrow> ready s = t # rest \<Longrightarrow>
   sched_ok (h + 1) (s\<lparr>ready := rest, thread_count := to_s32 (thread_count s - 1)\<rparr>) \<and> thread_ok t"
  using to_s32_length_pred [of "ready s"] by (auto simp: sched_ok_def owned_def events_ok_def dump_ok_def)

lemma sched_turn_good:
  fixes cs :: "'w core_state"
  assumes inv: "between s" and ne: "ready s \<noteq> []" and room: "tokens s < 2147483648"
  obtains s' cs' where "sched_turn (s, cs) = Some (s', cs')" "between s'" "tokens s' \<le> tokens s" "kept s' = kept s"
    "nat (bucket s') + length (ready s') < nat (bucket s) + length (ready s)"
proof -
  obtain t rest where rd: "ready s = t # rest" using ne by (cases "ready s") auto
  let ?s = "s\<lparr>ready := rest, thread_count := to_s32 (thread_count s - 1)\<rparr>"
  have pop: "sched_ok 1 ?s" "thread_ok t" using sched_ok_pop [of 0 s t rest] inv rd by (auto simp: between_def)
  have pre: "current ?s = None" "vm_mem (svm ?s)" using inv by (simp_all add: between_def)
  have b: "- 2147483648 < bucket ?s" "bucket ?s < 2147483648" using room rd by (auto simp: tokens_def)
  obtain st u s1 cs1 where e: "sched_execute t (?s, cs) = Some (st, u, s1, cs1)" "st \<noteq> Running"
    "sched_ok (if st = No_memory then 0 else 1) s1" "node_ok u" "st = Sleeping \<longrightarrow> thread_ok u" "current s1 = None"
    "vm_mem (svm s1)" "kept s1 = kept ?s" "run_result (bucket ?s) (length (ready ?s)) st s1"
    by (rule sched_execute_good [OF pop(2,1) pre b, of cs])
  have k: "kept s1 = kept s" using e(8) by (simp add: kept_def)
  have r: "bucket s1 \<le> bucket s" "min 0 (bucket s - 1) \<le> bucket s1"
    "nat (bucket s1) + length (ready s1) + (if st = Sleeping then 1 else 0) \<le> nat (bucket s) + length rest"
    using e(9) by (simp_all add: run_result_def)
  have fin: "tokens s2 \<le> tokens s \<and> nat (bucket s2) + length (ready s2) < nat (bucket s) + length (ready s)"
    if "bucket s2 = bucket s1" "length (ready s2) \<le> length (ready s1) + (if st = Sleeping then 1 else 0)" for s2
  proof -
    have n: "nat (bucket s2) + length (ready s2) \<le> nat (bucket s) + length rest" using that r(3) by linarith
    moreover have "\<bar>bucket s2\<bar> + int (length (ready s2)) \<le> \<bar>bucket s\<bar> + int (length (ready s))"
    proof (cases "1 \<le> bucket s")
      case True
      then have "0 \<le> bucket s2" using r(2) that(1) by simp
      then show ?thesis using n True rd by simp
    next
      case False
      then have "bucket s2 \<le> 0" "bucket s - 1 \<le> bucket s2" using r(1,2) that(1) by simp_all
      moreover have "int (length (ready s2)) \<le> int (length rest)" using n False by simp
      ultimately show ?thesis using False rd by simp
    qed
    ultimately show ?thesis using rd by (simp add: tokens_def)
  qed
  note turn = sched_turn_def rd e(1)
  consider "st = Sleeping" | "st = Terminated" | "st = No_memory" | "st \<notin> {Sleeping, Terminated, No_memory}" by blast
  then show thesis
  proof cases
    case 1
    then have "sched_turn (s, cs) = Some (core_sched_queue u s1, cs1)" by (simp add: turn)
    then show ?thesis
      using that between_queue [OF _ e(6,7) e(5) [rule_format]] e(3) 1 k fin [of "core_sched_queue u s1"] by simp
  next
    case 2
    then have "sched_turn (s, cs) = Some (thread_release u s1, cs1)" by (simp add: turn)
    then show ?thesis
      using that between_release [OF _ e(6,7) e(4)] e(3) 2 k fin [of "thread_release u s1"] by simp
  next
    case 3
    then have "sched_turn (s, cs) = Some (s1, cs1)" by (simp add: turn)
    moreover have "between s1" using e(3,6,7) 3 by (simp add: between_def)
    ultimately show ?thesis using that k fin [of s1] by simp
  next
    case 4
    then have ok: "sched_ok 1 s1" using e(3) by simp
    obtain s2 where f: "sched_fault u st s1 = Some s2" "sched_ok 0 s2" "ready s2 = ready s1" "current s2 = current s1"
      "svm s2 = svm s1" "bucket s2 = bucket s1" "kept s2 = kept s1" "fault_thread s2 = Some u"
      by (rule sched_fault_good [OF ok e(7) e(4)])
    have "sched_turn (s, cs) = Some (s2, cs1)" using 4 f(1) by (simp add: turn)
    moreover have "between s2" using e(6,7) f by (simp add: between_def)
    ultimately show ?thesis using that k f fin [of s2] by simp
  qed
qed

lemma sched_sweep_good:
  fixes cs :: "'w core_state"
  assumes "between s" "tokens s < 2147483648" "nat (bucket s) + length (ready s) < n"
  shows "\<exists>s' cs'. sched_sweep n now (s, cs) = Some (s', cs') \<and> between s' \<and> tokens s' \<le> tokens s \<and>
    kept s' = kept s \<and> \<not> due now s'"
  using assms
proof (induction n arbitrary: s cs)
  case (Suc n)
  show ?case
  proof (cases "due now s")
    case True
    then have "ready s \<noteq> []" by (auto simp: due_def)
    from sched_turn_good [OF Suc.prems(1) this Suc.prems(2), of cs] obtain s1 cs1 where
      t: "sched_turn (s, cs) = Some (s1, cs1)" "between s1" "tokens s1 \<le> tokens s" "kept s1 = kept s"
      "nat (bucket s1) + length (ready s1) < nat (bucket s) + length (ready s)" by blast
    have "tokens s1 < 2147483648" "nat (bucket s1) + length (ready s1) < n" using t Suc.prems by linarith+
    from Suc.IH [OF t(2) this, of cs1] t True show ?thesis by (fastforce simp: Let_def)
  next
    case False
    then show ?thesis using Suc.prems(1) by simp
  qed
qed simp

lemma drain_events_good:
  fixes cs :: "'w core_state"
  assumes "between s"
  shows "\<exists>s' cs'. sched_drain_events E s cs = (s', cs') \<and> between s' \<and> kept s' = kept s \<and> ready s' = ready s \<and>
    bucket s' = bucket s \<and> event_count s' = 0"
  using assms
proof (induction E s cs rule: sched_drain_events.induct)
  case (1 E s cs)
  show ?case
  proof (cases "event_count s > 0")
    case True
    let ?s = "s\<lparr>event_head := (event_head s + 1) smod 100, event_count := event_count s - 1\<rparr>"
    have "between ?s" using 1(2) True
      by (simp add: between_def sched_ok_def owned_def events_ok_def dump_ok_def smod_hundred)
    from 1(1) [OF True refl refl this] show ?thesis
      using True by (subst sched_drain_events.simps) (auto simp: Let_def kept_def)
  next
    case False
    then have "event_count s = 0" using 1(2) by (simp add: between_def sched_ok_def events_ok_def)
    then show ?thesis using 1(2) by (subst sched_drain_events.simps) simp
  qed
qed

lemma credit_good:
  assumes "between s" "tokens s < 2147383648"
  shows "between (credit now s) \<and> tokens (credit now s) \<le> tokens s + 100000 \<and> ready (credit now s) = ready s"
proof -
  define e where "e = (let x = sint (now - sched_time s) sdiv 100; x = (if x < 0 then 0 else x)
    in if x > 100000 then 100000 else x)"
  have e: "0 \<le> e" "e \<le> 100000" by (simp_all add: e_def Let_def)
  have "to_s32 (bucket s + e) = bucket s + e"
    using assms(2) e by (intro to_s32_id) (auto simp: tokens_def is_s32_def)
  then have c: "credit now s = s\<lparr>bucket := min (bucket s + e) 100000, sched_time := now\<rparr>"
    by (simp add: credit_def e_def Let_def min_def)
  show ?thesis using assms e by (auto simp: c between_def tokens_def)
qed

definition kept_clock where
  "kept_clock s = (in_pass s, pending_valid s, pending_time s, has_core s, load_time s, cur_input s, prev_input s)"

lemma sched_pass_good:
  fixes cs :: "'w core_state"
  assumes "between s" "tokens s < 2147383648"
  shows "\<exists>s' cs'. sched_pass E now (s, cs) = Some (s', cs') \<and> between s' \<and> tokens s' \<le> tokens s + 100000 \<and>
    kept_clock s' = kept_clock s \<and> sched_time s' = now \<and> \<not> due now s' \<and> event_count s' = 0"
proof -
  let ?s = "credit now s"
  note c = credit_good [OF assms, of now]
  have "between ?s" "tokens ?s < 2147483648" using c assms(2) by linarith+
  from sched_sweep_good [OF this, of "sweep_fuel ?s" now cs] obtain s1 cs1 where
    w: "sched_sweep (sweep_fuel ?s) now (?s, cs) = Some (s1, cs1)" "between s1" "tokens s1 \<le> tokens ?s"
    "kept s1 = kept ?s" "\<not> due now s1" by (auto simp: sweep_fuel_def)
  obtain s2 cs2 where d: "sched_drain_events E s1 cs1 = (s2, cs2)" "between s2" "kept s2 = kept s1"
    "ready s2 = ready s1" "bucket s2 = bucket s1" "event_count s2 = 0"
    using drain_events_good [OF w(2), of E cs1] by auto
  have "sched_pass E now (s, cs) = Some (s2, cs2)" using w(1) d(1) by (simp add: sched_pass_def Let_def)
  moreover have "kept_clock s2 = kept_clock s" "sched_time s2 = now"
    using w(4) d(3) by (auto simp: kept_def kept_clock_def credit_def Let_def)
  ultimately show ?thesis using c d w by (auto simp: tokens_def due_def)
qed

definition settled_at where
  "settled_at s' \<longleftrightarrow> between s' \<and> \<not> in_pass s' \<and> \<not> pending_valid s' \<and> \<not> due (sched_time s') s' \<and> event_count s' = 0"

lemma sched_passes_good:
  fixes cs :: "'w core_state"
  assumes "between s" "tokens s + 100000 * int (length late) < 2147483648" "None \<in> set late" "\<not> pending_valid s"
  shows "\<exists>s' cs'. sched_passes E late now (s, cs) = Some (s', cs') \<and> settled_at s'"
  using assms
proof (induction late arbitrary: s now cs)
  case (Cons l late)
  have room: "tokens s < 2147383648" using Cons.prems(2) by simp
  from sched_pass_good [OF Cons.prems(1) room, of E now cs] obtain s1 cs1 where
    p: "sched_pass E now (s, cs) = Some (s1, cs1)" "between s1" "tokens s1 \<le> tokens s + 100000"
    "kept_clock s1 = kept_clock s" "sched_time s1 = now" "\<not> due now s1" "event_count s1 = 0" by blast
  have pv: "\<not> pending_valid s1" using p(4) Cons.prems(4) by (simp add: kept_clock_def)
  show ?case
  proof (cases l)
    case None
    have e: "sched_passes E (l # late) now (s, cs) = Some (pass_end E (s1, cs1))" using p(1) pv None by simp
    have "settled_at (s1\<lparr>in_pass := False\<rparr>)"
      using p pv by (simp add: settled_at_def between_def due_def)
    then show ?thesis unfolding e by (simp add: pass_end_def)
  next
    case (Some t)
    let ?s = "(leave_time t s1)\<lparr>pending_valid := False, pending_time := 0\<rparr>"
    have e: "sched_passes E (l # late) now (s, cs) = sched_passes E late t (?s, cs1)"
      using p(1) Some by (simp add: leave_time_def)
    have "between ?s" "tokens ?s = tokens s1" "\<not> pending_valid ?s"
      using p(2) by (simp_all add: leave_time_def between_def tokens_def)
    moreover have "None \<in> set late" using Cons.prems(3) Some by simp
    ultimately show ?thesis unfolding e using Cons.IH [of ?s t cs1] Cons.prems(2) p(3) by simp
  qed
qed simp

text \<open>What holds of a scheduler between calls: either nothing is loaded, or a script is and the lists are
  sound.\<close>

definition sched_inv :: "core_sched \<Rightarrow> bool" where
  "sched_inv s \<longleftrightarrow> sched_ok 0 s \<and> current s = None \<and> \<not> pending_valid s \<and> \<not> in_pass s \<and>
     (vm_code (svm s) = None \<and> vm_vars (svm s) = None \<and> ready s = [] \<or> vm_mem (svm s))"

lemma core_sched_run_good:
  fixes cs :: "'w core_state"
  assumes inv: "sched_inv s" and loaded: "vm_code (svm s) \<noteq> None"
    and room: "tokens s + 100000 * int (length late) < 2147483648" and late: "None \<in> set late"
  shows "\<exists>s' cs'. core_sched_run E late now (s, cs) = Some (s', cs') \<and> settled_at s'"
proof -
  have mem: "vm_mem (svm s)" using inv loaded by (simp add: sched_inv_def)
  let ?s = "s\<lparr>in_pass := True\<rparr>"
  have "between ?s" "tokens ?s = tokens s" "\<not> pending_valid ?s"
    using inv mem by (simp_all add: between_def sched_inv_def tokens_def)
  from sched_passes_good [OF this(1) _ late this(3), of E now cs] room this(2) have
    "\<exists>s' cs'. sched_passes E late now (?s, cs) = Some (s', cs') \<and> settled_at s'" by simp
  then show ?thesis using inv mem loaded by (auto simp: core_sched_run_def sched_inv_def vm_mem_def)
qed

end
