(* ===== verification/Sched_Facts.thy ===== *)
theory Sched_Facts
  imports Sched_Inv
begin

text \<open>
  What the script scheduler promises: a run ends with every due thread run and the events of each round delivered, whatever the bytecode; the
  ready list is a stable priority queue; the event ring is a bounded queue that drops its oldest entry; a
  thread that is put aside comes back with its registers and stack; unloading gives back every block and
  lets go of every key. The last section is a load that writes outside its allocation.
\<close>

section \<open>A scheduler to try things on\<close>

definition quiet_seams :: "'w sched_seams" where
  "quiet_seams = \<lparr>call_arm = \<lambda>_ cs. cs, call_emit = \<lambda>_ _ _ cs. cs\<rparr>"

definition demo_thread :: "u32 \<Rightarrow> u64 \<Rightarrow> sched_thread" where
  "demo_thread ident w = \<lparr>thread_id = ident, thread_pc = 0, saved_acc = 0, saved_depth = 0, wake_time = w,
     stack_size = 8, stack = replicate 8 0\<rparr>"

definition empty_sched :: "(nat \<Rightarrow> u32) option list \<Rightarrow> core_sched" where
  "empty_sched p = \<lparr>svm = \<lparr>vm_code = None, code_count = 0, vm_vars = None, var_count = 0, vm_budget = 0, pc = 0,
       acc = 0, sp = 0\<rparr>,
     has_core = True, load_time = 0, ready = [], freepool = [], thread_count = 0, next_thread_id = 0, bucket = 0,
     sched_time = 0, current = None, in_pass = False, pending_valid = False, pending_time = 0,
     fault_thread = None, fault_vars = None, fault_status = 0, fault_total = 0,
     events = replicate 100 \<lparr>ev_type = 0, arg1 = 0, arg2 = 0\<rparr>, event_head = 0, event_count = 0, events_dropped = 0,
     cur_input = replicate 4 0, prev_input = replicate 4 0, device_tag = 0, pool = p, blocks = 0\<rparr>"

text \<open>One thread, one global, and a script that branches to itself for ever.\<close>

definition looping_sched :: core_sched where
  "looping_sched = (empty_sched [])\<lparr>svm := core_script_init (Some [0x170, 0xFFFFFFFE]) 2 (Some (replicate 201 0)) 1,
     ready := [demo_thread 1 0], thread_count := 1, bucket := 100000, blocks := 3\<rparr>"

lemma looping_inv: "sched_inv looping_sched"
  by (simp add: sched_inv_def looping_sched_def sched_ok_def owned_def held_def events_ok_def dump_ok_def thread_ok_def node_ok_def
      demo_thread_def empty_sched_def vm_mem_def core_script_init_def is_s32_def to_s32_id)

lemma looping_loaded: "vm_code (svm looping_sched) \<noteq> None" "tokens looping_sched = 100001"
  by (simp_all add: looping_sched_def core_script_init_def tokens_def)

section \<open>The interpreter\<close>

text \<open>C8. The interpreter is safe on arbitrary bytecode: from any program counter, with the scheduler's
  builtins installed, a run ends, touches no word outside the code and the variables (the result is not
  \<open>None\<close>), leaves the code alone, and pays for what it does from the budget.\<close>

theorem script_run_in_memory:
  assumes "vm_mem vm" and "0 \<le> sp vm" and "sp vm \<le> 200" and "is_s32 (pc vm)"
    and "- 2147483648 < vm_budget vm" and "vm_budget vm < 2147483648"
    and "sched_ok 0 s" and "current s = Some t" and "node_ok t"
  shows "\<exists>st vm' s' cs'. core_script_run (Some core_sched_native) vm (s, cs) = Some (st, vm', s', cs') \<and>
    st \<noteq> Running \<and> vm_code vm' = vm_code vm \<and> vm_mem vm' \<and> sched_ok 0 s' \<and>
    vm_budget vm' \<le> vm_budget vm \<and> min 0 (vm_budget vm - 1) \<le> vm_budget vm'"
proof -
  have "ctx_ok (rest_of s) (s, cs)" using assms(7-9) by (simp add: ctx_ok_def)
  from builtins.run_good [OF assms(1-3,5,6,4) this] obtain st vm' c' where
    r: "core_script_run (Some core_sched_native) vm (s, cs) = Some (st, vm', c')" "st \<noteq> Running" "vm_frame vm vm'"
    "ctx_ok (rest_of s) c'" "vm_budget vm' \<le> vm_budget vm" "min 0 (vm_budget vm - 1) \<le> vm_budget vm'" by blast
  then show ?thesis using vm_mem_frame [OF assms(1) r(3)] by (cases c') (auto simp: ctx_ok_def vm_frame_def)
qed

definition wild_vm :: core_script where
  "wild_vm = core_script_init (Some [0x181, 0x4000000C, 0x110, 0x3FFFFFFF, 0x020]) 5 (Some (replicate 201 0)) 1"

theorem script_run_in_memory_witness:
  "\<exists>st vm' s' cs'. core_script_run (Some core_sched_native) wild_vm
      ((empty_sched [])\<lparr>current := Some (demo_thread 1 0), blocks := 1\<rparr>, logged_core) = Some (st, vm', s', cs') \<and>
    st \<noteq> Running \<and> vm_code vm' = vm_code wild_vm \<and> vm_mem vm' \<and> sched_ok 0 s' \<and>
    vm_budget vm' \<le> vm_budget wild_vm \<and> min 0 (vm_budget wild_vm - 1) \<le> vm_budget vm'"
  by (rule script_run_in_memory [where t = "demo_thread 1 0"])
    (simp_all add: wild_vm_def core_script_init_def vm_mem_def is_s32_def sched_ok_def owned_def held_def
      events_ok_def dump_ok_def empty_sched_def demo_thread_def node_ok_def to_s32_id)

section \<open>The ready list\<close>

text \<open>The ready list is a stable priority queue: queueing keeps it sorted by wake time, adds exactly the
  thread, and puts it behind every thread due at the same time.\<close>

theorem ready_list_stable:
  assumes "sorted_wrt (\<lambda>t u. wake_time t \<le> wake_time u) (ready s)"
  shows "sorted_wrt (\<lambda>t u. wake_time t \<le> wake_time u) (ready (core_sched_queue t s)) \<and>
    set (ready (core_sched_queue t s)) = insert t (set (ready s)) \<and>
    length (ready (core_sched_queue t s)) = Suc (length (ready s)) \<and>
    filter (\<lambda>u. wake_time u = w) (ready (core_sched_queue t s)) =
      filter (\<lambda>u. wake_time u = w) (ready s) @ (if wake_time t = w then [t] else [])"
  using queue_insert_sorted [OF assms] queue_insert_fifo [OF assms] by (simp add: core_sched_queue_def)

theorem ready_list_stable_witness:
  "sorted_wrt (\<lambda>t u. wake_time t \<le> wake_time u) (ready (core_sched_queue (demo_thread 2 0) looping_sched)) \<and>
    set (ready (core_sched_queue (demo_thread 2 0) looping_sched)) = insert (demo_thread 2 0) (set (ready looping_sched)) \<and>
    length (ready (core_sched_queue (demo_thread 2 0) looping_sched)) = Suc (length (ready looping_sched)) \<and>
    filter (\<lambda>u. wake_time u = 0) (ready (core_sched_queue (demo_thread 2 0) looping_sched)) =
      filter (\<lambda>u. wake_time u = 0) (ready looping_sched) @ (if wake_time (demo_thread 2 0) = 0 then [demo_thread 2 0] else [])"
  by (rule ready_list_stable) (simp add: looping_sched_def)

section \<open>The event ring\<close>

definition event_list :: "core_sched \<Rightarrow> sched_event list" where
  "event_list s = map (\<lambda>i. events s ! nat ((event_head s + int i) mod 100)) [0..<nat (event_count s)]"

lemma nat_mod_hundred: "0 \<le> i \<Longrightarrow> nat (i mod 100) = nat i mod 100"
  by (simp add: nat_mod_distrib)

text \<open>The ring over natural numbers.\<close>

lemma ring_snoc:
  assumes "length xs = 100" "h < 100" "n < 100"
  shows "map (\<lambda>i. (xs[(h + n) mod 100 := x]) ! ((h + i) mod 100)) [0..<Suc n] =
    map (\<lambda>i. xs ! ((h + i) mod 100)) [0..<n] @ [x]"
proof -
  have ne: "(h + n) mod 100 \<noteq> (h + i) mod 100" if "i < n" for i
    using that assms(3) mod_eq_dvd_iff_nat [of "h + i" "h + n" 100] nat_dvd_not_less [of "n - i" 100] by auto
  have "(h + n) mod 100 < length xs" using assms(1) by simp
  then have "(xs[(h + n) mod 100 := x]) ! ((h + n) mod 100) = x" by (rule nth_list_update_eq)
  moreover have "map (\<lambda>i. (xs[(h + n) mod 100 := x]) ! ((h + i) mod 100)) [0..<n] =
    map (\<lambda>i. xs ! ((h + i) mod 100)) [0..<n]"
    by (rule map_cong [OF refl], rule nth_list_update_neq, rule ne) simp
  ultimately show ?thesis by (simp only: upt_Suc_append [OF le0] map_append list.map)
qed

lemma ring_tail:
  "map (\<lambda>i. xs ! (((h + 1) mod 100 + i) mod 100)) [0..<n] = tl (map (\<lambda>i. xs ! ((h + i) mod 100)) [0..<Suc n])"
  by (rule nth_equalityI) (simp_all add: nth_tl mod_simps add.assoc del: upt_Suc)

lemma event_list_nat:
  assumes "events_ok s"
  shows "event_list s = map (\<lambda>i. events s ! ((nat (event_head s) + i) mod 100)) [0..<nat (event_count s)]"
  using assms by (simp add: event_list_def events_ok_def dump_ok_def nat_mod_distrib nat_add_distrib)

lemma event_list_pop:
  assumes "events_ok s" "event_count s > 0"
  shows "event_list s = events s ! nat (event_head s) #
    event_list (s\<lparr>event_head := (event_head s + 1) smod 100, event_count := event_count s - 1\<rparr>)"
proof -
  let ?s = "s\<lparr>event_head := (event_head s + 1) smod 100, event_count := event_count s - 1\<rparr>"
  have ok: "events_ok ?s" using assms by (simp add: events_ok_def dump_ok_def smod_hundred)
  have head: "nat ((event_head s + 1) smod 100) = (nat (event_head s) + 1) mod 100"
    using assms by (simp add: events_ok_def dump_ok_def smod_hundred nat_mod_distrib nat_add_distrib)
  obtain n where n: "nat (event_count s) = Suc n" using assms(2) by (metis gr0_implies_Suc zero_less_nat_eq)
  have n1: "nat (event_count s - 1) = n" using n by simp
  have small: "nat (event_head s) mod 100 = nat (event_head s)"
    using assms(1) by (intro mod_less) (auto simp: events_ok_def dump_ok_def)
  let ?f = "\<lambda>i. events s ! ((nat (event_head s) + i) mod 100)"
  have e: "event_list s = map ?f [0..<Suc n]" by (simp only: event_list_nat [OF assms(1)] n)
  have t: "event_list ?s = tl (map ?f [0..<Suc n])"
    using ring_tail [of "events s" "nat (event_head s)" n] by (simp add: event_list_nat [OF ok] head n1 del: upt_Suc)
  have "map ?f [0..<Suc n] = ?f 0 # tl (map ?f [0..<Suc n])" by (simp add: upt_conv_Cons del: upt_Suc)
  then show ?thesis using e t small by simp
qed

lemma event_list_append:
  assumes "events_ok s" "event_count s < 100"
  shows "event_list (s\<lparr>events := (events s)[nat ((event_head s + event_count s) smod 100) := x],
      event_count := event_count s + 1\<rparr>) = event_list s @ [x]"
proof -
  let ?s = "s\<lparr>events := (events s)[nat ((event_head s + event_count s) smod 100) := x], event_count := event_count s + 1\<rparr>"
  have ok: "events_ok ?s" using assms by (simp add: events_ok_def dump_ok_def)
  have at: "nat ((event_head s + event_count s) smod 100) = (nat (event_head s) + nat (event_count s)) mod 100"
    "nat (event_count s + 1) = Suc (nat (event_count s))"
    using assms by (simp_all add: events_ok_def dump_ok_def smod_hundred nat_mod_distrib nat_add_distrib)
  have bounds: "length (events s) = 100" "nat (event_head s) < 100" "nat (event_count s) < 100"
    using assms by (auto simp: events_ok_def dump_ok_def)
  show ?thesis
    unfolding event_list_nat [OF ok] event_list_nat [OF assms(1)] using ring_snoc [OF bounds, of x]
    by (simp add: at del: upt_Suc)
qed

lemma event_list_post:
  assumes "events_ok s"
  shows "event_list (core_sched_post_event ty a b s) =
    (if length (event_list s) = 100 then tl (event_list s) else event_list s) @ [\<lparr>ev_type = ty, arg1 = a, arg2 = b\<rparr>]"
proof -
  have len: "length (event_list s) = nat (event_count s)" by (simp add: event_list_def)
  show ?thesis
  proof (cases "event_count s \<ge> 100")
    case True
    let ?s = "s\<lparr>event_head := (event_head s + 1) smod 100, event_count := event_count s - 1, events_dropped := events_dropped s + 1\<rparr>"
    have c: "event_count s = 100" using True assms by (simp add: events_ok_def dump_ok_def)
    have ok: "events_ok ?s" "event_count ?s < 100" using assms c by (simp_all add: events_ok_def dump_ok_def smod_hundred)
    have "event_list ?s = event_list (s\<lparr>event_head := (event_head s + 1) smod 100, event_count := event_count s - 1\<rparr>)"
      by (simp add: event_list_def)
    then have "tl (event_list s) = event_list ?s" using event_list_pop [OF assms] c by simp
    then show ?thesis
      using event_list_append [OF ok, of "\<lparr>ev_type = ty, arg1 = a, arg2 = b\<rparr>"] len c
      by (simp add: core_sched_post_event_def Let_def)
  next
    case False
    then show ?thesis
      using event_list_append [OF assms, of "\<lparr>ev_type = ty, arg1 = a, arg2 = b\<rparr>"] len
      by (auto simp: core_sched_post_event_def Let_def)
  qed
qed

lemma drain_event_list:
  "events_ok s \<Longrightarrow>
   snd (sched_drain_events E s cs) = fold (\<lambda>e. call_emit E (ev_type e) (arg1 e) (arg2 e)) (event_list s) cs \<and>
   event_list (fst (sched_drain_events E s cs)) = []"
proof (induction E s cs rule: sched_drain_events.induct)
  case (1 E s cs)
  show ?case
  proof (cases "event_count s > 0")
    case True
    let ?s = "s\<lparr>event_head := (event_head s + 1) smod 100, event_count := event_count s - 1\<rparr>"
    have "events_ok ?s" using 1(2) True by (simp add: events_ok_def dump_ok_def smod_hundred)
    from 1(1) [OF True refl refl this] show ?thesis
      using True event_list_pop [OF 1(2) True] by (subst (1 2) sched_drain_events.simps) (simp add: Let_def)
  next
    case False
    then have "event_count s = 0" using 1(2) by (simp add: events_ok_def dump_ok_def)
    then show ?thesis by (subst (1 2) sched_drain_events.simps) (simp add: event_list_def)
  qed
qed

text \<open>The event ring is a queue of at most a hundred: posting appends, a full ring drops its oldest
  entry and counts it, and draining delivers exactly the queued events, oldest first, and empties it.\<close>

theorem event_ring_is_queue:
  assumes "events_ok s"
  shows "event_list (core_sched_post_event ty a b s) =
      (if length (event_list s) = 100 then tl (event_list s) else event_list s) @ [\<lparr>ev_type = ty, arg1 = a, arg2 = b\<rparr>] \<and>
    events_dropped (core_sched_post_event ty a b s) =
      events_dropped s + (if length (event_list s) = 100 then 1 else 0) \<and>
    snd (sched_drain_events E s cs) = fold (\<lambda>e. call_emit E (ev_type e) (arg1 e) (arg2 e)) (event_list s) cs \<and>
    event_list (fst (sched_drain_events E s cs)) = []"
proof -
  have post: "event_list (core_sched_post_event ty a b s) =
      (if length (event_list s) = 100 then tl (event_list s) else event_list s) @ [\<lparr>ev_type = ty, arg1 = a, arg2 = b\<rparr>]"
    by (rule event_list_post [OF assms])
  have len: "length (event_list s) = nat (event_count s)" by (simp add: event_list_def)
  then have dropped: "events_dropped (core_sched_post_event ty a b s) =
      events_dropped s + (if length (event_list s) = 100 then 1 else 0)"
    using assms by (auto simp: core_sched_post_event_def Let_def events_ok_def dump_ok_def)
  show ?thesis using post dropped drain_event_list [OF assms, of E cs] by simp
qed

definition full_ring :: core_sched where
  "full_ring = (empty_sched [])\<lparr>event_head := 97, event_count := 100\<rparr>"

theorem event_ring_is_queue_witness:
  "event_list (core_sched_post_event 2 3 4 full_ring) =
      (if length (event_list full_ring) = 100 then tl (event_list full_ring) else event_list full_ring) @
        [\<lparr>ev_type = 2, arg1 = 3, arg2 = 4\<rparr>] \<and>
    events_dropped (core_sched_post_event 2 3 4 full_ring) =
      events_dropped full_ring + (if length (event_list full_ring) = 100 then 1 else 0) \<and>
    snd (sched_drain_events quiet_seams full_ring logged_core) =
      fold (\<lambda>e. call_emit quiet_seams (ev_type e) (arg1 e) (arg2 e)) (event_list full_ring) logged_core \<and>
    event_list (fst (sched_drain_events quiet_seams full_ring logged_core)) = []"
  by (rule event_ring_is_queue) (simp add: full_ring_def empty_sched_def events_ok_def dump_ok_def)

section \<open>The pass\<close>

text \<open>A delivery: the sink gets the events of the ring, oldest first, and nothing else changes but the ring, which
  is empty after it.\<close>

definition delivered :: "'w sched_seams \<Rightarrow> 'w sched_ctx \<Rightarrow> 'w sched_ctx \<Rightarrow> bool" where
  "delivered E c c' \<longleftrightarrow>
     snd c' = fold (\<lambda>e. call_emit E (ev_type e) (arg1 e) (arg2 e)) (event_list (fst c)) (snd c) \<and>
     event_list (fst c') = [] \<and> (fst c')\<lparr>event_head := event_head (fst c), event_count := event_count (fst c)\<rparr> = fst c"

text \<open>What a run does, round by round: the bucket is credited, the threads that are due are swept, the events are
  delivered, and the next round is for the time a caller has left behind; the first round that nobody calls in
  is the last.\<close>

inductive sched_rounds :: "'w sched_seams \<Rightarrow> u64 option list \<Rightarrow> u64 \<Rightarrow> 'w sched_ctx \<Rightarrow> 'w sched_ctx \<Rightarrow> bool" for E where
  alone: "sched_sweep (sweep_fuel (credit now s)) now (credit now s, cs) = Some c \<Longrightarrow> delivered E c c' \<Longrightarrow>
    sched_rounds E (None # late) now (s, cs) c'"
| called: "sched_sweep (sweep_fuel (credit now s)) now (credit now s, cs) = Some c \<Longrightarrow> delivered E c (s1, cs1) \<Longrightarrow>
    sched_rounds E late t (s1\<lparr>pending_valid := False, pending_time := 0\<rparr>, cs1) c' \<Longrightarrow>
    sched_rounds E (Some t # late) now (s, cs) c'"

lemma drain_delivers:
  assumes "events_ok s"
  shows "delivered E (s, cs) (sched_drain_events E s cs)"
proof -
  have "(fst (sched_drain_events E s cs))\<lparr>event_head := h, event_count := n\<rparr> = s\<lparr>event_head := h, event_count := n\<rparr>" for h n
    by (induction E s cs rule: sched_drain_events.induct) (subst sched_drain_events.simps, simp add: Let_def)
  then show ?thesis using drain_event_list [OF assms, of E cs] by (simp add: delivered_def)
qed

lemma sched_pass_round:
  fixes cs :: "'w core_state"
  assumes "between s" and "tokens s < 2147383648"
  obtains c where "sched_sweep (sweep_fuel (credit now s)) now (credit now s, cs) = Some c"
    and "\<And>c'. sched_pass E now (s, cs) = Some c' \<Longrightarrow> delivered E c c'"
proof -
  let ?s = "credit now s"
  note c = credit_good [OF assms, of now]
  have "between ?s" "tokens ?s < 2147483648" using c assms(2) by linarith+
  from sched_sweep_good [OF this, of "sweep_fuel ?s" now cs] obtain s1 cs1 where
    w: "sched_sweep (sweep_fuel ?s) now (?s, cs) = Some (s1, cs1)" "between s1" by (auto simp: sweep_fuel_def)
  have "events_ok s1" using w(2) by (simp add: between_def sched_ok_def)
  from drain_delivers [OF this, of E cs1] show thesis using w(1) by (auto simp: sched_pass_def Let_def intro!: that)
qed

lemma sched_passes_rounds:
  fixes cs :: "'w core_state"
  assumes "between s" "tokens s + 100000 * int (length late) < 2147483648" "None \<in> set late" "\<not> pending_valid s"
  shows "\<exists>s' cs'. sched_passes E late now (s, cs) = Some (pass_end E (s', cs')) \<and> sched_rounds E late now (s, cs) (s', cs') \<and>
    between s' \<and> \<not> pending_valid s' \<and> \<not> due (sched_time s') s' \<and> event_count s' = 0"
  using assms
proof (induction late arbitrary: s now cs)
  case (Cons l late)
  have room: "tokens s < 2147383648" using Cons.prems(2) by simp
  from sched_pass_good [OF Cons.prems(1) room, of E now cs] obtain s1 cs1 where
    p: "sched_pass E now (s, cs) = Some (s1, cs1)" "between s1" "tokens s1 \<le> tokens s + 100000"
    "kept_clock s1 = kept_clock s" "sched_time s1 = now" "\<not> due now s1" "event_count s1 = 0" by blast
  from sched_pass_round [OF Cons.prems(1) room, of now cs E] obtain c where
    w: "sched_sweep (sweep_fuel (credit now s)) now (credit now s, cs) = Some c" "delivered E c (s1, cs1)" using p(1) by metis
  have pv: "\<not> pending_valid s1" using p(4) Cons.prems(4) by (simp add: kept_clock_def)
  show ?case
  proof (cases l)
    case None
    then show ?thesis using p pv alone [OF w] by auto
  next
    case (Some t)
    let ?s = "s1\<lparr>pending_valid := False, pending_time := 0\<rparr>"
    have e: "sched_passes E (Some t # late) now (s, cs) = sched_passes E late t (?s, cs1)"
      using p(1) by (simp add: leave_time_def)
    have "between ?s" "tokens ?s = tokens s1" "\<not> pending_valid ?s"
      using p(2) by (simp_all add: between_def tokens_def)
    moreover have "None \<in> set late" using Cons.prems(3) Some by simp
    ultimately obtain s' cs' where "sched_passes E late t (?s, cs1) = Some (pass_end E (s', cs'))"
      "sched_rounds E late t (?s, cs1) (s', cs')" "between s'" "\<not> pending_valid s'" "\<not> due (sched_time s') s'" "event_count s' = 0"
      using Cons.IH [of ?s t cs1] Cons.prems(2) p(3) by auto
    then show ?thesis unfolding Some e using called [OF w] by blast
  qed
qed simp

text \<open>C9. A scheduling run always returns and never leaves its arrays, whatever the bytecode, as long as one round of it
  is left alone. It goes round by round as \<open>sched_rounds\<close> says: each sweeps the threads that are due and hands the
  events then in the ring to the sink, each once and oldest first (the ring keeps the last hundred posted since the
  round before). Afterwards the invariant holds, no thread that is due at the time of the last round is left, the ring
  is empty, and the timer has been set for the first thread that waits. A caller that arrives meanwhile leaves its time
  behind; that it may also have edited the ready list is not modelled.\<close>

theorem sched_pass_returns:
  assumes "sched_inv s" and "vm_code (svm s) \<noteq> None" and "None \<in> set late"
    and "\<bar>bucket s\<bar> + int (length (ready s)) + 100000 * int (length late) < 2147483648"
  shows "\<exists>s' cs'. core_sched_run E late now (s, cs) = Some (s'\<lparr>in_pass := False\<rparr>,
      (case ready s' of [] \<Rightarrow> cs' | t # rest \<Rightarrow> call_arm E (wake_time t) cs')) \<and>
    sched_rounds E late now (s\<lparr>in_pass := True\<rparr>, cs) (s', cs') \<and> sched_inv (s'\<lparr>in_pass := False\<rparr>) \<and>
    (\<forall>t \<in> set (ready s'). sched_time s' < wake_time t) \<and> event_list s' = []"
proof -
  have mem: "vm_mem (svm s)" using assms(1,2) by (simp add: sched_inv_def)
  let ?s = "s\<lparr>in_pass := True\<rparr>"
  have "between ?s" "\<not> pending_valid ?s" using assms(1) mem by (simp_all add: between_def sched_inv_def)
  moreover have "tokens ?s + 100000 * int (length late) < 2147483648" using assms(4) by (simp add: tokens_def)
  ultimately obtain s' cs' where r: "sched_passes E late now (?s, cs) = Some (pass_end E (s', cs'))"
    "sched_rounds E late now (?s, cs) (s', cs')" "between s'" "\<not> pending_valid s'" "\<not> due (sched_time s') s'" "event_count s' = 0"
    using sched_passes_rounds [OF _ _ assms(3), of ?s E now cs] by blast
  have "core_sched_run E late now (s, cs) = Some (pass_end E (s', cs'))"
    using r(1) assms(1,2) mem by (auto simp: core_sched_run_def sched_inv_def vm_mem_def)
  moreover have "sched_inv (s'\<lparr>in_pass := False\<rparr>)" using r(3,4) by (simp add: between_def sched_inv_def)
  moreover have "sorted_wrt (\<lambda>t u. wake_time t \<le> wake_time u) (ready s')" using r(3) by (simp add: between_def sched_ok_def)
  then have "\<forall>t \<in> set (ready s'). sched_time s' < wake_time t"
    using r(5) by (cases "ready s'") (auto simp: due_def intro: less_le_trans)
  moreover have "event_list s' = []" using r(6) by (simp add: event_list_def)
  ultimately show ?thesis using r(2) by (intro exI conjI) (auto simp: pass_end_def)
qed

text \<open>The looping script, with two events still in the ring, across its end.\<close>

definition ringing_sched :: core_sched where
  "ringing_sched = looping_sched\<lparr>event_head := 99, event_count := 2\<rparr>"

lemma ringing_inv: "sched_inv ringing_sched" "vm_code (svm ringing_sched) \<noteq> None"
  by (simp_all add: ringing_sched_def sched_inv_def looping_sched_def sched_ok_def owned_def held_def events_ok_def dump_ok_def
      thread_ok_def node_ok_def demo_thread_def empty_sched_def vm_mem_def core_script_init_def is_s32_def to_s32_id)

theorem sched_pass_returns_witness:
  "\<exists>s' cs'. core_sched_run quiet_seams [Some 7, None] 5 (ringing_sched, logged_core) = Some (s'\<lparr>in_pass := False\<rparr>,
      (case ready s' of [] \<Rightarrow> cs' | t # rest \<Rightarrow> call_arm quiet_seams (wake_time t) cs')) \<and>
    sched_rounds quiet_seams [Some 7, None] 5 (ringing_sched\<lparr>in_pass := True\<rparr>, logged_core) (s', cs') \<and>
    sched_inv (s'\<lparr>in_pass := False\<rparr>) \<and> (\<forall>t \<in> set (ready s'). sched_time s' < wake_time t) \<and> event_list s' = []"
  by (rule sched_pass_returns [OF ringing_inv])
    (use looping_loaded(2) in \<open>simp_all add: tokens_def ringing_sched_def\<close>)

section \<open>Threads put aside\<close>

text \<open>C14. Putting a thread aside loses nothing: when a thread's registers and the live part of its stack are
  packed into its node, and the node is later unpacked, the machine has the same program counter,
  accumulator and stack depth and the same words on the stack, whatever the globals and the region held.\<close>

theorem context_switch_roundtrip:
  assumes "node_ok t" and "0 \<le> d" and "d \<le> stack_size t" and "vm_mem (svm s)" and "vm_mem (svm s2)"
  shows "\<exists>u vm. pack_thread d t s = Some u \<and> unpack_thread u s2 = Some vm \<and>
    pc vm = pc (svm s) \<and> acc vm = acc (svm s) \<and> sp vm = d \<and>
    (\<forall>i. 0 \<le> i \<and> i < d \<longrightarrow> stk_read vm i = stk_read (svm s) i)"
proof -
  obtain v where v: "vm_vars (svm s) = Some v" "int (length v) = var_count (svm s) + 200" "0 \<le> var_count (svm s)"
    using assms(4) by (auto simp: vm_mem_def)
  obtain v2 where v2: "vm_vars (svm s2) = Some v2" "int (length v2) = var_count (svm s2) + 200" "0 \<le> var_count (svm s2)"
    using assms(5) by (auto simp: vm_mem_def)
  have size: "stack_size t \<le> 200" "int (length (stack t)) = stack_size t" using assms(1) by (simp_all add: node_ok_def)
  let ?stk = "take (nat d) (drop (nat (var_count (svm s))) v) @ drop (nat d) (stack t)"
  have len: "length ?stk = length (stack t)" using assms(2,3) v size by auto
  have pack: "pack_thread d t s =
      Some (t\<lparr>thread_pc := pc (svm s), saved_acc := acc (svm s), saved_depth := d, stack := ?stk\<rparr>)"
    using v size assms(2,3) by (simp add: pack_thread_def copy_cells_value)
  let ?u = "t\<lparr>thread_pc := pc (svm s), saved_acc := acc (svm s), saved_depth := d, stack := ?stk\<rparr>"
  let ?n = "nat (stack_size t)" and ?a = "nat (var_count (svm s2))"
  let ?w = "take ?a v2 @ ?stk @ drop (?a + ?n) v2"
  have n: "?n = length ?stk" using len size by simp
  have "copy_cells ?n ?stk 0 v2 (var_count (svm s2)) = Some (take ?a v2 @ take ?n (drop (nat 0) ?stk) @ drop (?a + ?n) v2)"
  proof (rule copy_cells_value)
    show "0 + int ?n \<le> int (length ?stk)" using len by (simp only: n)
    show "var_count (svm s2) + int ?n \<le> int (length v2)" using v2 size assms(2,3) by simp
  qed (use v2 in auto)
  then have "copy_cells ?n ?stk 0 v2 (var_count (svm s2)) = Some ?w" by (simp only: n nat_0 drop_0 take_all [OF order_refl])
  then have unpack: "unpack_thread ?u s2 = Some ((svm s2)\<lparr>vm_vars := Some ?w, pc := pc (svm s), acc := acc (svm s),
      sp := d, vm_budget := bucket s2\<rparr>)"
    using v2 size by (simp add: unpack_thread_def min_absorb1)
  have "vm_read ((svm s2)\<lparr>vm_vars := Some ?w, pc := p, acc := a, sp := d, vm_budget := b\<rparr>) (var_count (svm s2) + i) =
      vm_read (svm s) (var_count (svm s) + i)" if i: "0 \<le> i" "i < d" for i p a b
  proof -
    have at: "nat (var_count (svm s2) + i) = ?a + nat i" "nat (var_count (svm s) + i) = nat (var_count (svm s)) + nat i"
      using v v2 i by (simp_all add: nat_add_distrib)
    have a: "length (take ?a v2) = ?a" using v2 by simp
    have lt: "nat i < length ?stk" unfolding len using i size assms(3) by linarith
    have "?w ! (length (take ?a v2) + nat i) = (?stk @ drop (?a + ?n) v2) ! nat i" by (rule nth_append_length_plus)
    then have "?w ! (?a + nat i) = ?stk ! nat i" by (simp only: a nth_append [of ?stk] lt if_True)
    also have "\<dots> = v ! (nat (var_count (svm s)) + nat i)" using i v size assms(3) by (simp add: nth_append)
    finally show ?thesis using v v2 i size assms(3) at len by (simp add: vm_read_def)
  qed
  then show ?thesis using pack unpack by (auto simp: stk_read_def)
qed

text \<open>A machine stopped in the middle of things.\<close>

definition stopped_sched :: core_sched where
  "stopped_sched = looping_sched\<lparr>svm := (core_script_init (Some [0x170, 0xFFFFFFFE]) 2
     (Some (7 # 11 # 12 # 13 # replicate 197 0)) 1)\<lparr>pc := 1, acc := 5, sp := 3\<rparr>\<rparr>"

theorem context_switch_roundtrip_witness:
  "\<exists>u vm. pack_thread 3 (demo_thread 1 0) stopped_sched = Some u \<and> unpack_thread u looping_sched = Some vm \<and>
    pc vm = pc (svm stopped_sched) \<and> acc vm = acc (svm stopped_sched) \<and> sp vm = 3 \<and>
    (\<forall>i. 0 \<le> i \<and> i < 3 \<longrightarrow> stk_read vm i = stk_read (svm stopped_sched) i)"
  by (rule context_switch_roundtrip)
    (simp_all add: stopped_sched_def looping_sched_def demo_thread_def node_ok_def vm_mem_def core_script_init_def)

section \<open>Teardown\<close>

lemma free_list_blocks: "free_list ts s = s\<lparr>blocks := blocks s - int (length ts)\<rparr>"
  by (induction ts arbitrary: s) (simp_all add: free_list_def sched_free_def)

lemma held_none: "held None = 0" by (simp add: held_def)

lemma sched_free_blocks: "sched_free b s = s\<lparr>blocks := blocks s - held b\<rparr>"
  by (simp add: sched_free_def held_def)

lemma free_list_state [simp]:
  "freepool (free_list ts s) = freepool s" "pool (free_list ts s) = pool s" "svm (free_list ts s) = svm s"
  by (simp_all add: free_list_blocks)

text \<open>The state after an unload.\<close>

lemma unload_state:
  assumes "sched_ok 0 s" "current s = None"
  shows "sched_inv (fst (core_sched_unload S E s cs)) \<and> blocks (fst (core_sched_unload S E s cs)) = 0 \<and>
    pool (fst (core_sched_unload S E s cs)) = pool s \<and> freepool (fst (core_sched_unload S E s cs)) = [] \<and>
    bucket (fst (core_sched_unload S E s cs)) = 0 \<and> vm_code (svm (fst (core_sched_unload S E s cs))) = None \<and>
    vm_vars (svm (fst (core_sched_unload S E s cs))) = None \<and> fault_vars (fst (core_sched_unload S E s cs)) = None"
  using assms
  by (simp add: core_sched_unload_def Let_def sched_inv_def sched_ok_def owned_def events_ok_def dump_ok_def
      sched_free_blocks sched_clear_def free_list_blocks to_s32_id is_s32_def held_none)

lemma emit_keeps_hid:
  "key_modifiers (core_emit S i d n cs) = key_modifiers cs" "key_down_count (core_emit S i d n cs) = key_down_count cs"
  "mouse_buttons (core_emit S i d n cs) = mouse_buttons cs"
  by (simp_all add: core_emit_def)

lemma mouse_button_up:
  "w = 1 \<or> w = 2 \<or> w = 3 \<Longrightarrow> mouse_buttons (core_hid_mouse_button S w False cs) =
     mouse_buttons cs AND NOT (ucast (push_bit (unat (w - 1)) (1 :: u32)))"
  by (auto simp: core_hid_mouse_button_def Let_def emit_keeps_hid)

lemma mouse_button_keys:
  "key_modifiers (core_hid_mouse_button S w x cs) = key_modifiers cs"
  "key_down_count (core_hid_mouse_button S w x cs) = key_down_count cs"
  by (simp_all add: core_hid_mouse_button_def Let_def emit_keeps_hid)

text \<open>C23. Unloading a script gives back every block the scheduler owns and leaves nothing of the script
  behind in the host: no key and no modifier is down, and none of the three mouse buttons, when the timer
  is cancelled.\<close>

theorem unload_releases_all:
  assumes "sched_ok 0 s" and "current s = None" and "has_core s"
  shows "\<exists>s' cs1. core_sched_unload S E s cs = (s', call_arm E 0 cs1) \<and> blocks s' = 0 \<and> sched_inv s' \<and>
    key_modifiers cs1 = 0 \<and> key_down_count cs1 = 0 \<and> mouse_buttons cs1 AND 7 = 0"
proof -
  let ?k = "core_hid_key_event S 0 False cs"
  let ?m = "\<lambda>w. core_hid_mouse_button S w False"
  have k: "key_modifiers ?k = 0" "key_down_count ?k = 0"
    by (simp_all add: core_hid_key_event_def core_hid_key_report_def Let_def emit_keeps_hid)
  have r: "release_held S s cs = ?m 3 (?m 2 (?m 1 ?k))"
    using assms(3) by (simp add: release_held_def upt_rec)
  have keys: "key_modifiers (release_held S s cs) = 0" "key_down_count (release_held S s cs) = 0"
    unfolding r by (simp_all only: mouse_button_keys k)
  have "mouse_buttons (release_held S s cs) AND 7 = 0"
    unfolding r by (simp add: mouse_button_up and.assoc)
  moreover have "core_sched_unload S E s cs = (fst (core_sched_unload S E s cs), call_arm E 0 (release_held S s cs))"
    by (simp add: core_sched_unload_def Let_def)
  ultimately show ?thesis using unload_state [OF assms(1,2), of S E cs] keys by blast
qed

theorem unload_releases_all_witness:
  "\<exists>s' cs1. core_sched_unload report_log quiet_seams looping_sched (logged_core\<lparr>key_modifiers := 2, mouse_buttons := 5\<rparr>) =
      (s', call_arm quiet_seams 0 cs1) \<and> blocks s' = 0 \<and> sched_inv s' \<and>
    key_modifiers cs1 = 0 \<and> key_down_count cs1 = 0 \<and> mouse_buttons cs1 AND 7 = 0"
  by (rule unload_releases_all)
    (use looping_inv in \<open>simp_all add: sched_inv_def looping_sched_def empty_sched_def\<close>)

section \<open>Loading\<close>

definition enough_code :: "s32 \<Rightarrow> script_code \<Rightarrow> bool" where
  "enough_code n code \<longleftrightarrow> (case code of Words ws \<Rightarrow> n \<le> int (length ws) | Bytes bs \<Rightarrow> 4 * n \<le> int (length bs))"

lemma code_words_some:
  assumes "enough_code n code" "0 \<le> n" "nat n \<le> length block"
  obtains r where "code_words (nat n) code block = Some r" "length r = length block"
proof (cases code)
  case (Words ws)
  have fits: "0 + int (nat n) \<le> int (length ws)" "0 + int (nat n) \<le> int (length block)"
    using assms Words by (simp_all add: enough_code_def)
  obtain r where "copy_cells (nat n) ws 0 block 0 = Some r" "length r = length block"
    by (rule copy_cells_length [OF order_refl fits(1) order_refl fits(2)])
  then show ?thesis using that Words by (simp add: code_words_def)
next
  case (Bytes bs)
  let ?ws = "map (\<lambda>i. sched_rd32 bs (4 * i)) [0..<nat n]"
  have fits: "0 + int (nat n) \<le> int (length ?ws)" "0 + int (nat n) \<le> int (length block)"
    using assms by simp_all
  obtain r where "copy_cells (nat n) ?ws 0 block 0 = Some r" "length r = length block"
    by (rule copy_cells_length [OF order_refl fits(1) order_refl fits(2)])
  moreover have "4 * nat n \<le> length bs" using assms(1,2) Bytes by (simp add: enough_code_def)
  ultimately show ?thesis using that [of r] Bytes by (simp add: code_words_def)
qed

lemma alloc_blocks: "sched_alloc n s = (b, s') \<Longrightarrow> blocks s' = blocks s + held b"
  by (auto simp: sched_alloc_def held_def split: list.splits option.splits)

lemma inv_of:
  "sched_inv s \<Longrightarrow> sched_ok 0 s' \<Longrightarrow> ready s' = ready s \<Longrightarrow> current s' = current s \<Longrightarrow> rest_of s' = rest_of s \<Longrightarrow> sched_inv s'"
  by (simp add: sched_inv_def rest_of_def)

lemma var_words:
  assumes "0 \<le> n" "n < 1073741624"
  shows "unat ((of_int n + 200) * 4 :: u32) div 4 = nat (n + 200)"
  using count_words [of "n + 200"] assms by simp

lemma load_good:
  assumes "sched_ok 0 s" and "current s = None" and "enough_code ncode code"
    and "ncode < 1073741824" and "nvars < 1073741624"
    and "None \<in> set late" and "int (length late) < 20000"
  shows "\<exists>ok s' cs'. sched_load_body S E late (Some code) ncode nvars now (s, cs) = Some (ok, s', cs') \<and>
    sched_inv s' \<and> (if ok then vm_mem (svm s') else blocks s' = 0)"
proof -
  obtain s1 cs1 where u: "core_sched_unload S E s cs = (s1, cs1)" by fastforce
  have s1: "sched_inv s1" "blocks s1 = 0" "freepool s1 = []" "vm_code (svm s1) = None" "vm_vars (svm s1) = None"
    and nodump: "fault_vars s1 = None"
    using unload_state [OF assms(1,2), of S E cs] u by simp_all
  then have ok1: "sched_ok 0 s1" "current s1 = None" "ready s1 = []" by (auto simp: sched_inv_def vm_mem_def)
  show ?thesis
  proof (cases "ncode \<le> 0 \<or> nvars \<le> 0")
    case True
    then have "sched_load_body S E late (Some code) ncode nvars now (s, cs) = Some (False, s1, cs1)"
      using u by (simp add: sched_load_body_def)
    then show ?thesis using s1 by (intro exI [of _ False]) simp
  next
    case False
    then have pos: "0 \<le> ncode" "0 \<le> nvars" "0 < ncode" "0 < nvars" by simp_all
    obtain c s2 where c: "sched_alloc (of_int ncode * 4) s1 = (c, s2)" by fastforce
    note s2 = sched_ok_alloc [OF c ok1(1)]
    obtain v s3 where v: "sched_alloc ((of_int nvars + 200) * 4) s2 = (v, s3)" by fastforce
    have s2ok: "sched_ok (held c) s2" using s2 by simp
    note s3 = sched_ok_alloc [OF v s2ok]
    show ?thesis
    proof (cases c)
      case None
      have "sched_load_body S E late (Some code) ncode nvars now (s, cs) = Some (False, s2, cs1)"
        using u False c None by (simp add: sched_load_body_def)
      moreover have "sched_inv s2" "blocks s2 = 0"
        using inv_of [OF s1(1), of s2] s2 None ok1 alloc_blocks [OF c] s1 by (simp_all add: held_def)
      ultimately show ?thesis by (intro exI [of _ False]) simp
    next
      case (Some cb)
      note cS = Some
      have lenc: "length cb = nat ncode" using s2 Some count_words [OF pos(1) assms(4)] by simp
      show ?thesis
      proof (cases v)
        case None
        let ?s = "sched_free (Some cb) s3"
        have "sched_load_body S E late (Some code) ncode nvars now (s, cs) = Some (False, ?s, cs1)"
          using u False c v Some None by (simp add: sched_load_body_def)
        moreover have "sched_ok 0 ?s" using s3 Some None by (intro sched_ok_free) (simp add: held_def)
        then have "sched_inv ?s" using inv_of [OF s1(1), of ?s] s2 s3 ok1 by simp
        moreover have "blocks ?s = 0" using alloc_blocks [OF c] alloc_blocks [OF v] s1 Some None
          by (simp add: sched_free_blocks held_def)
        ultimately show ?thesis by (intro exI [of _ False]) simp
      next
        case (Some vb)
        have "length vb = nat (nvars + 200)" using s3 Some var_words [OF pos(2) assms(5)] by simp
        then have lenv: "int (length vb) = nvars + 200" using pos by simp
        obtain cb' where cb': "code_words (nat ncode) code cb = Some cb'" "length cb' = length cb"
          using code_words_some [OF assms(3) pos(1), of cb] lenc by auto
        have fits: "0 + int (nat nvars) \<le> int (length (replicate (nat nvars) (0 :: u32)))"
          "0 + int (nat nvars) \<le> int (length vb)" using pos lenv by simp_all
        obtain vb' where vb': "copy_cells (nat nvars) (replicate (nat nvars) 0) 0 vb 0 = Some vb'" "length vb' = length vb"
          by (rule copy_cells_length [OF order_refl fits(1) order_refl fits(2)])
        let ?s = "s3\<lparr>svm := (svm s3)\<lparr>vm_code := Some cb', code_count := ncode, vm_vars := Some vb', var_count := nvars\<rparr>,
          sched_time := now, load_time := now, bucket := 100000\<rparr>"
        have svm3: "svm s3 = svm s1" "in_pass s3 = in_pass s1" "pending_valid s3 = pending_valid s1" "ready s3 = []"
          "current s3 = None" "fault_vars s3 = None" using s2 s3 ok1 nodump by (simp_all add: rest_of_def)
        have "sched_ok 2 s3" using s3 cS Some by (simp add: held_def)
        then have ok: "sched_ok 0 ?s" using s1(4,5) svm3 by (simp add: sched_ok_def owned_def events_ok_def dump_ok_def held_def)
        have mem: "vm_mem (svm ?s)" using cb' vb' lenc lenv pos assms(4,5) by (simp add: vm_mem_def)
        obtain r s4 where r: "core_sched_thread_alloc 0 ?s = (r, s4)" by fastforce
        note s4 = sched_ok_thread_alloc [OF r ok]
        have load: "sched_load_body S E late (Some code) ncode nvars now (s, cs) = (case r of
            None \<Rightarrow> Some (False, core_sched_unload S E s4 cs1)
          | Some t \<Rightarrow> core_sched_run E late now (core_sched_queue (t\<lparr>thread_pc := 0, wake_time := now\<rparr>) s4, cs1) \<bind>
              (\<lambda>c. Some (True, c)))"
          using u False c v cS Some cb'(1) vb'(1) r by (simp add: sched_load_body_def Let_def split: option.split)
        have fr: "svm s4 = svm ?s" "in_pass s4 = in_pass s1" "pending_valid s4 = pending_valid s1" "bucket s4 = 100000"
          "ready s4 = []" "current s4 = None" using s4 svm3 by (simp_all add: rest_of_def)
        show ?thesis
        proof (cases r)
          case None
          then have "sched_ok 0 s4" using s4 by (simp add: held_def)
          from unload_state [OF this fr(6), of S E cs1] show ?thesis
            using load None by (cases "core_sched_unload S E s4 cs1") (intro exI [of _ False], simp)
        next
          case (Some t)
          let ?t = "t\<lparr>thread_pc := 0, wake_time := now\<rparr>" and ?q = "core_sched_queue (t\<lparr>thread_pc := 0, wake_time := now\<rparr>) s4"
          have "thread_ok ?t" using s4 Some by (auto simp: thread_ok_def node_ok_def is_s32_def)
          moreover have "sched_ok (0 + 1) s4" using s4 Some by (simp add: held_def)
          ultimately have okq: "sched_ok 0 ?q" by (intro sched_ok_queue)
          have q: "svm ?q = svm ?s" "in_pass ?q = in_pass s1" "pending_valid ?q = pending_valid s1" "bucket ?q = 100000"
            "length (ready ?q) = 1" "current ?q = None" using fr by (simp_all add: core_sched_queue_def)
          have "sched_inv ?q" using okq q mem s1(1) by (simp add: sched_inv_def)
          moreover have "vm_code (svm ?q) \<noteq> None" using q(1) by simp
          moreover have "tokens ?q + 100000 * int (length late) < 2147483648" using q(4,5) assms(7) by (simp add: tokens_def)
          ultimately obtain s' cs' where run: "core_sched_run E late now (?q, cs1) = Some (s', cs')" "settled_at s'"
            using core_sched_run_good [of ?q late E now cs1] assms(6) by blast
          then show ?thesis using load Some
            by (intro exI [of _ True]) (simp add: settled_at_def between_def sched_inv_def)
        qed
      qed
    qed
  qed
qed

text \<open>C13. A load with counts in range always returns, in memory, and leaves a sound scheduler: on success the
  script is installed and its first pass has been run; on failure, whichever of the three allocations was
  refused, no block is left behind. The bound on the count of variables is the caller's to keep.\<close>

theorem load_keeps_invariant:
  assumes "sched_ok 0 s" and "current s = None" and "enough_code ncode code"
    and "ncode < 1073741824" and "nvars < 1073741624"
    and "None \<in> set late" and "int (length late) < 20000"
  shows "\<exists>ok s' cs'. sched_load_body S E late (Some code) ncode nvars now (s, cs) = Some (ok, s', cs') \<and>
    sched_inv s' \<and> (if ok then vm_mem (svm s') else blocks s' = 0)"
  using assms by (rule load_good)

theorem load_keeps_invariant_witness:
  "\<exists>ok s' cs'. sched_load_body report_log quiet_seams [None] (Some (Bytes [0x82, 0, 0, 0])) 1 20 9
      (empty_sched [Some (\<lambda>i. of_nat i), None], logged_core) = Some (ok, s', cs') \<and>
    sched_inv s' \<and> (if ok then vm_mem (svm s') else blocks s' = 0)"
  by (rule load_keeps_invariant)
    (simp_all add: empty_sched_def sched_ok_def owned_def held_def events_ok_def dump_ok_def to_s32_id is_s32_def enough_code_def)

lemma copy_cells_overrun:
  assumes "0 \<le> a" "int (length dst) < a + int n" "0 < n"
  shows "copy_cells n src f dst a = None"
proof -
  obtain m where n: "n = Suc m" using assms(3) by (cases n) auto
  have len: "length d = length dst" if "copy_cells m src f dst a = Some d" for d
    using that by (induction m arbitrary: d) (auto simp: cell_put_def bind_eq_Some_conv split: if_splits)
  show ?thesis
  proof (cases "copy_cells m src f dst a")
    case (Some d)
    then show ?thesis using len [OF Some] assms(2)
      by (cases "cell_at src (f + int m)") (auto simp: n cell_put_def)
  qed (simp add: n)
qed

text \<open>C35. The size of the block for the variables is computed in 32 bits and wraps: a load whose count of
  variables is within 200 of 2^30 or above gets a block smaller than its globals and clears memory beyond
  it. Nothing on the way from the request checks that count.\<close>

theorem load_var_count_overflow:
  assumes "sched_ok 0 s" and "current s = None" and "enough_code ncode code" and "0 < ncode" and "ncode < 1073741824"
    and "1073741624 \<le> nvars" and "nvars < 2147483648" and "pool s = Some f # Some g # p"
  shows "sched_load_body S E late (Some code) ncode nvars now (s, cs) = None"
proof -
  obtain s1 cs1 where u: "core_sched_unload S E s cs = (s1, cs1)" by fastforce
  have s1: "pool s1 = Some f # Some g # p" using unload_state [OF assms(1,2), of S E cs] u assms(8) by simp
  let ?v = "map g [0..<unat ((of_int nvars + 200) * 4 :: u32) div 4]"
  have "uint ((of_int nvars + 200) * 4 :: u32) = ((nvars + 200) * 4) mod 4294967296"
    using assms(6,7) by (simp add: uint_word_ariths uint_of_count mod_simps)
  moreover have "((nvars + 200) * 4) mod 4294967296 < 4 * nvars"
  proof -
    define x :: int where "x = (nvars + 200) * 4"
    have "1 \<le> x div 4294967296" using zdiv_mono1 [of 4294967296 x 4294967296] assms(6) by (simp add: x_def)
    then have "x mod 4294967296 \<le> x - 4294967296" using minus_mult_div_eq_mod [of x 4294967296] by linarith
    then show ?thesis by (simp add: x_def)
  qed
  ultimately have "int (length ?v) < nvars"
    by (simp add: unat_eq_nat_uint nat_div_distrib)
  then have "copy_cells (nat nvars) (replicate (nat nvars) 0) 0 ?v 0 = None"
    using assms(6) by (intro copy_cells_overrun) (simp_all del: length_map length_upt)
  then show ?thesis
    using u s1 assms(4,6) by (simp add: sched_load_body_def sched_alloc_def bind_eq_None_conv)
qed

theorem load_var_count_overflow_witness:
  "sched_load_body report_log quiet_seams [None] (Some (Words [0x82])) 1 1073741624 9
    (empty_sched [Some (\<lambda>i. 0), Some (\<lambda>i. 0)], logged_core) = None"
  by (rule load_var_count_overflow [where f = "\<lambda>i. 0" and g = "\<lambda>i. 0" and p = "[]"])
    (simp_all add: empty_sched_def sched_ok_def owned_def held_def events_ok_def dump_ok_def to_s32_id is_s32_def enough_code_def)

section \<open>Input\<close>

definition spawns :: "nat \<Rightarrow> core_sched \<Rightarrow> core_sched option \<Rightarrow> bool" where
  "spawns n s r \<longleftrightarrow> (\<exists>s'. r = Some s' \<and> sched_inv s' \<and> svm s' = svm s \<and> bucket s' = bucket s \<and>
     length (ready s') \<le> length (ready s) + n)"

lemma spawn_handler_good:
  assumes inv: "sched_inv s" and mem: "vm_mem (svm s)"
  shows "spawns 1 s (sched_spawn_handler slot n args now s)"
proof (cases "slot < 0 \<or> slot \<ge> var_count (svm s)")
  case True
  then show ?thesis using inv by (simp add: spawns_def sched_spawn_handler_def)
next
  case False
  then obtain x where x: "vm_read (svm s) slot = Some x" using mem by (auto simp: vm_read_def vm_mem_def)
  obtain r s1 where r: "core_sched_thread_alloc n s = (r, s1)" by fastforce
  have ok: "sched_ok 0 s" using inv by (simp add: sched_inv_def)
  note s1 = sched_ok_thread_alloc [OF r ok]
  show ?thesis
  proof (cases "x AND 0xF0000000 \<noteq> 0x10000000 \<or> r = None")
    case True
    have "sched_inv s1" if "r = None" using inv_of [OF inv, of s1] s1 that by (simp add: held_def)
    then show ?thesis using True False x r s1 inv by (auto simp: spawns_def sched_spawn_handler_def rest_of_def)
  next
    case False2: False
    then obtain t where t: "r = Some t" by auto
    then have node: "node_ok t" "saved_depth t = 0" using s1 by auto
    have fits: "0 + int (min (length args) (nat (stack_size t))) \<le> int (length args)"
      "0 + int (min (length args) (nat (stack_size t))) \<le> int (length (stack t))"
      using node by (auto simp: node_ok_def min_def)
    obtain stk where stk: "copy_cells (min (length args) (nat (stack_size t))) args 0 (stack t) 0 = Some stk"
      "length stk = length (stack t)" by (rule copy_cells_length [OF order_refl fits(1) order_refl fits(2)])
    let ?t = "t\<lparr>thread_pc := s32_of (x AND 0x0FFFFFFF), wake_time := now, stack := stk\<rparr>"
    have "thread_ok ?t" using node stk(2) by (simp add: thread_ok_def node_ok_def)
    then have "sched_ok 0 (core_sched_queue ?t s1)" using s1 t by (intro sched_ok_queue) (simp_all add: held_def)
    moreover have "svm s1 = svm s" "current s1 = None" "pending_valid s1 = pending_valid s" "in_pass s1 = in_pass s"
      "bucket s1 = bucket s" "ready s1 = ready s" using s1 inv by (simp_all add: rest_of_def sched_inv_def)
    ultimately have "sched_inv (core_sched_queue ?t s1)" "svm (core_sched_queue ?t s1) = svm s"
      "bucket (core_sched_queue ?t s1) = bucket s" "length (ready (core_sched_queue ?t s1)) = Suc (length (ready s))"
      using inv mem by (simp_all add: sched_inv_def core_sched_queue_def)
    moreover have "sched_spawn_handler slot n args now s = Some (core_sched_queue ?t s1)"
      using False False2 x r t stk(1) by (simp add: sched_spawn_handler_def)
    ultimately show ?thesis by (simp add: spawns_def)
  qed
qed

lemma spawns_none: "sched_inv s \<Longrightarrow> spawns n s (Some s)" by (simp add: spawns_def)

lemma spawns_bind:
  assumes "spawns n s r" and "\<And>s'. sched_inv s' \<Longrightarrow> svm s' = svm s \<Longrightarrow> spawns m s' (f s')"
  shows "spawns (n + m) s (r \<bind> f)"
proof -
  obtain s' where s': "r = Some s'" "sched_inv s'" "svm s' = svm s" "bucket s' = bucket s"
    "length (ready s') \<le> length (ready s) + n" using assms(1) by (auto simp: spawns_def)
  from assms(2) [OF s'(2,3)] show ?thesis using s' by (fastforce simp: spawns_def)
qed

lemma spawns_if: "sched_inv s \<Longrightarrow> spawns n s r \<Longrightarrow> spawns n s (if b then r else Some s)"
  by (simp add: spawns_none)

lemma spawn_buttons_good:
  "sched_inv s \<Longrightarrow> vm_mem (svm s) \<Longrightarrow> spawns (length ns) s (spawn_buttons ns delta cur now s)"
proof (induction ns arbitrary: s)
  case (Cons n ns)
  have "spawns (1 + length ns) s (spawn_buttons (n # ns) delta cur now s)"
    unfolding spawn_buttons.simps Let_def
    by (rule spawns_bind) (use Cons in \<open>auto simp: spawn_handler_good [unfolded One_nat_def] spawns_none\<close>)
  then show ?case by simp
qed (simp add: spawns_none)

text \<open>C24. A packet is handed to the script in finite time whatever the script binds: the handlers are queued,
  the pass is run, and the scheduler is sound again, whether or not an allocation was refused on the way.\<close>

theorem input_keeps_invariant:
  assumes "sched_inv s" and "None \<in> set late"
    and "\<bar>bucket s\<bar> + int (length (ready s)) + 100000 * int (length late) < 2147483000"
  shows "\<exists>r s' cs'. core_sched_on_input E late pkt now (s, cs) = Some (r, s', cs') \<and> sched_inv s'"
proof -
  let ?a = "advance_input pkt s"
  have inv: "sched_inv ?a" using assms(1) by (simp add: sched_inv_def advance_input_def sched_ok_def owned_def events_ok_def dump_ok_def)
  have same: "svm ?a = svm s" "bucket ?a = bucket s" "ready ?a = ready s" by (simp_all add: advance_input_def)
  let ?cur = "cur_input ?a" and ?prev = "prev_input ?a"
  let ?b = "in_buttons ?cur XOR in_buttons ?prev" and ?k = "in_stick ?cur XOR in_stick ?prev"
  show ?thesis
  proof (cases "vm_code (svm s) = None \<or> code_count (svm s) = 0 \<or> ?b = 0 \<and> ?k = 0")
    case True
    then have "\<exists>r. core_sched_on_input E late pkt now (s, cs) = Some (r, ?a, cs)"
      by (auto simp: core_sched_on_input_def Let_def)
    then show ?thesis using inv by blast
  next
    case False
    then have mem: "vm_mem (svm ?a)" using assms(1) same by (auto simp: sched_inv_def)
    define r where "r = sched_spawn_handler 0x12 2 [in_dword ?cur, in_dword ?prev] now ?a \<bind> (\<lambda>s.
      (if ?k \<noteq> 0 then sched_spawn_handler 0x11 4
         (map (\<lambda>b. of_int (s8_of b)) [?cur ! 0, ?cur ! 1, ?prev ! 0, ?prev ! 1]) now s else Some s) \<bind> (\<lambda>s.
      (if ?b \<noteq> 0 then sched_spawn_handler 0x10 2 [of_int (in_buttons ?cur), of_int (in_buttons ?prev)] now s \<bind>
         (\<lambda>s. spawn_buttons [0..<16] ?b (in_buttons ?cur) now s) else Some s) \<bind> (\<lambda>s.
      sched_spawn_handler 0x13 2 [in_dword ?cur, in_dword ?prev] now s)))"
    have buttons: "spawns (1 + 16) s1 (sched_spawn_handler 0x10 2 as now s1 \<bind> (\<lambda>s. spawn_buttons [0..<16] d c now s))"
      if "sched_inv s1" "vm_mem (svm s1)" for s1 as d c
      using that spawn_buttons_good [of _ "[0..<16]" d c now] by (intro spawns_bind spawn_handler_good) simp_all
    have "spawns (1 + (1 + ((1 + 16) + 1))) ?a r"
      unfolding r_def
      by (intro spawns_bind spawns_if buttons spawn_handler_good) (simp_all add: inv mem)
    then obtain s2 where s2: "r = Some s2" "sched_inv s2" "svm s2 = svm s" "bucket s2 = bucket s"
      "length (ready s2) \<le> length (ready s) + 20" by (auto simp: spawns_def same)
    have e: "core_sched_on_input E late pkt now (s, cs) = r \<bind> (\<lambda>s. core_sched_run E late now (s, cs) \<bind> (\<lambda>c. Some (True, c)))"
    proof -
      have c: "(vm_code (svm s) = None) = False" "(code_count (svm s) = 0) = False" "(?b = 0 \<and> ?k = 0) = False"
        using False by simp_all
      show ?thesis by (simp only: core_sched_on_input_def prod.case Let_def c if_False simp_thms r_def bind_assoc)
    qed
    have "tokens s2 + 100000 * int (length late) < 2147483648" using s2(4,5) assms(3) by (simp add: tokens_def)
    then obtain s' cs' where "core_sched_run E late now (s2, cs) = Some (s', cs')" "settled_at s'"
      using core_sched_run_good [of s2 late E now cs] s2(2,3) assms(2) False by auto
    then show ?thesis using e s2(1) by (intro exI [of _ True]) (simp add: settled_at_def between_def sched_inv_def)
  qed
qed

theorem input_keeps_invariant_witness:
  "\<exists>r s' cs'. core_sched_on_input quiet_seams [None] [1, 2, 0, 128, 0] 5 (looping_sched, logged_core) = Some (r, s', cs') \<and>
    sched_inv s'"
  by (rule input_keeps_invariant [OF looping_inv])
    (simp_all add: looping_sched_def core_script_init_def)

end
