(* ===== verification/Ioctl_Device.thy ===== *)
theory Ioctl_Device
  imports N64_Bus Sched_Facts Pak_CRC
begin

text \<open>
  The private IOCTL surface of one adapter, the first part of \<open>src_drv/ioctl.c\<close>: the record of a request,
  \<open>core_effect_slot_active\<close>, one definition per control code and \<open>core_ioctl_dispatch\<close>.

  A result is the status, the byte count for the caller, the output buffer and the environment. Every access
  to a buffer whose size the caller chose is checked, and \<open>None\<close> is an access outside it. The two buffers of a
  request are separate lists: each case reads its input before it writes. A buffer local to a case starts
  zeroed; its bytes are only read once the transaction has filled them.
\<close>

section \<open>Requests\<close>

abbreviation (input) CORE_ST_SUCCESS :: u32 where "CORE_ST_SUCCESS \<equiv> 0"
abbreviation (input) CORE_ST_PENDING :: u32 where "CORE_ST_PENDING \<equiv> 0x103"
abbreviation (input) CORE_ST_DEVICE_BUSY :: u32 where "CORE_ST_DEVICE_BUSY \<equiv> 0x80000011"
abbreviation (input) CORE_ST_INVALID_PARAM :: u32 where "CORE_ST_INVALID_PARAM \<equiv> 0xC000000D"
abbreviation (input) CORE_ST_DEVICE_NOT_READY :: u32 where "CORE_ST_DEVICE_NOT_READY \<equiv> 0xC0000013"
abbreviation (input) CORE_ST_DATA_ERROR :: u32 where "CORE_ST_DATA_ERROR \<equiv> 0xC000003E"
abbreviation (input) CORE_ST_CRC_ERROR :: u32 where "CORE_ST_CRC_ERROR \<equiv> 0xC000003F"
abbreviation (input) CORE_ST_NOT_SUPPORTED :: u32 where "CORE_ST_NOT_SUPPORTED \<equiv> 0xC00000BB"
abbreviation (input) CORE_ST_BUFFER_TOO_SMALL :: u32 where "CORE_ST_BUFFER_TOO_SMALL \<equiv> 0xC0000023"
abbreviation (input) CORE_ST_NO_MEMORY :: u32 where "CORE_ST_NO_MEMORY \<equiv> 0xC000009A"

record core_ioctl =
  ioc_code :: u32
  ioc_in :: "u8 list"
  ioc_out :: "u8 list"

definition in_len :: "core_ioctl \<Rightarrow> u32" where
  "in_len r = of_nat (length (ioc_in r))"

definition out_len :: "core_ioctl \<Rightarrow> u32" where
  "out_len r = of_nat (length (ioc_out r))"

record 'w core_ioctl_env =
  env_cs :: "'w core_state"
  env_sched :: "core_sched option"
  env_vendor :: ptr
  env_vendor_ctx :: ptr
  env_enable :: ptr
  env_enable_ctx :: ptr
  env_now :: u64

text \<open>What a call through a pointer does; the 40 bytes the compiler lays a thread's header out in; and who
  calls the scheduler while a load runs its first pass.\<close>

record 'w ioctl_seams =
  on_core :: "'w seams"
  on_sched :: "'w sched_seams"
  call_raw_vendor :: "ptr \<Rightarrow> ptr \<Rightarrow> u8 list \<Rightarrow> u8 list option \<Rightarrow> u32 \<Rightarrow> 'w core_state \<Rightarrow>
    u32 \<times> u8 list \<times> 'w core_state"
  call_enable :: "ptr \<Rightarrow> ptr \<Rightarrow> bool \<Rightarrow> 'w core_state \<Rightarrow> 'w core_state"
  thread_header :: "sched_thread \<Rightarrow> u8 list"
  pass_late :: "u64 option list"

type_synonym 'w ioc_result = "(u32 \<times> u32 \<times> u8 list \<times> 'w core_ioctl_env) option"

definition refuse :: "u32 \<Rightarrow> core_ioctl \<Rightarrow> 'w core_ioctl_env \<Rightarrow> 'w ioc_result" where
  "refuse st r env = Some (st, 0, ioc_out r, env)"

text \<open>Dwords of a buffer.\<close>

definition dword_in :: "u8 list \<Rightarrow> nat \<Rightarrow> u32 option" where
  "dword_in xs at = (if at + 4 \<le> length xs then Some (rd32 xs at) else None)"

definition dword_out :: "u8 list \<Rightarrow> nat \<Rightarrow> u32 \<Rightarrow> u8 list option" where
  "dword_out xs at v = (if at + 4 \<le> length xs then Some (take at xs @ wr32 v @ drop (at + 4) xs) else None)"

section \<open>Effect slots\<close>

definition map_slot :: "nat \<Rightarrow> (core_effect_slot \<Rightarrow> core_effect_slot) \<Rightarrow> 'w core_state \<Rightarrow> 'w core_state" where
  "map_slot n f cs = cs\<lparr>effect := (effect cs)[n := f (effect cs ! n)]\<rparr>"

definition effect_tick_now :: "u64 \<Rightarrow> s32" where
  "effect_tick_now now = to_s32 (uint (now div 156250))"

definition core_effect_slot_active :: "'w core_state \<Rightarrow> s32 \<Rightarrow> s32 \<Rightarrow> bool \<times> 'w core_state" where
  "core_effect_slot_active cs slot now_tick =
     (if slot < 0 \<or> slot \<ge> 32 then (False, cs)
      else
        let fx = effect cs ! nat slot
        in if \<not> running fx then (False, cs)
           else if now_tick < start_tick fx then (False, cs)
           else if duration fx = - 1 then (True, cs)
           else
             let elapsed = to_s32 (now_tick - start_tick fx);
                 cs = (if elapsed > to_s32 (duration fx + 32) then map_slot (nat slot) (running_update (\<lambda>_. False)) cs
                       else cs)
             in (elapsed < duration fx, cs))"

section \<open>The device's state\<close>

definition ioc_status_snap :: "'w core_ioctl_env \<Rightarrow> core_ioctl \<Rightarrow> 'w ioc_result" where
  "ioc_status_snap env r =
     (if in_len r \<noteq> 0 \<or> out_len r \<noteq> 6 then refuse CORE_ST_INVALID_PARAM r env
      else do {
        out \<leftarrow> cell_put (ioc_out r) 0 (if report_pending (env_cs env) then 1 else 0);
        out \<leftarrow> copy_cells 5 (raw (env_cs env)) 0 out 1;
        Some (CORE_ST_SUCCESS, 6, out, env\<lparr>env_cs := (env_cs env)\<lparr>report_pending := False\<rparr>\<rparr>) })"

text \<open>The name up to and with its NUL, or as much as fits: the loop, and the index it ends at.\<close>

primrec name_loop :: "nat \<Rightarrow> nat \<Rightarrow> u8 list \<Rightarrow> u8 list \<Rightarrow> (nat \<times> u8 list) option" where
  "name_loop 0 i name out = Some (i, out)"
| "name_loop (Suc k) i name out = do {
     b \<leftarrow> cell_at name (int i);
     out \<leftarrow> cell_put out (int i) b;
     if b = 0 then Some (i + 1, out) else name_loop k (i + 1) name out }"

definition ioc_device_name :: "'w core_ioctl_env \<Rightarrow> core_ioctl \<Rightarrow> 'w ioc_result" where
  "ioc_device_name env r =
     (if in_len r \<noteq> 0 \<or> out_len r = 0 then refuse CORE_ST_INVALID_PARAM r env
      else do {
        (n, out) \<leftarrow> name_loop (unat (out_len r)) 0 (device_name (env_cs env)) (ioc_out r);
        Some (CORE_ST_SUCCESS, of_nat n, out, env) })"

definition ioc_read_counter :: "'w core_ioctl_env \<Rightarrow> core_ioctl \<Rightarrow> 'w ioc_result" where
  "ioc_read_counter env r =
     (if in_len r \<noteq> 4 \<or> out_len r \<noteq> 4 then refuse CORE_ST_INVALID_PARAM r env
      else do {
        sel \<leftarrow> dword_in (ioc_in r) 0;
        if sel = 0 \<or> sel > 4 then refuse CORE_ST_INVALID_PARAM r env
        else do {
          out \<leftarrow> dword_out (ioc_out r) 0 0;
          let cs = env_cs env;
          out \<leftarrow> (if sel = 1 then do {
                     out \<leftarrow> cell_put out 0 (ucast (bcd_device cs AND 0xFF));
                     cell_put out 1 (ucast (drop_bit 8 (bcd_device cs) AND 0xFF)) }
                   else if sel = 2 then dword_out out 0 (counter_two cs)
                   else if sel = 3 then dword_out out 0 (reports_emitted cs)
                   else dword_out out 0 (ucast (accessory_state cs)));
          Some (CORE_ST_SUCCESS, 4, out, env) } })"

definition ioc_zero_counter :: "'w core_ioctl_env \<Rightarrow> core_ioctl \<Rightarrow> 'w ioc_result" where
  "ioc_zero_counter env r =
     (if in_len r \<noteq> 4 \<or> out_len r \<noteq> 0 then refuse CORE_ST_INVALID_PARAM r env
      else do {
        sel \<leftarrow> dword_in (ioc_in r) 0;
        if sel = 0 \<or> sel > 4 then refuse CORE_ST_INVALID_PARAM r env
        else
          let cs = env_cs env;
              cs = (if sel = 2 then cs\<lparr>counter_two := 0\<rparr>
                    else if sel = 3 then cs\<lparr>reports_emitted := 0\<rparr> else cs)
          in Some (CORE_ST_SUCCESS, 0, ioc_out r, env\<lparr>env_cs := cs\<rparr>) })"

text \<open>One dword read, written, or both. The last part of the result is the field.\<close>

definition ioc_get_set :: "core_ioctl \<Rightarrow> s32 \<Rightarrow> (u32 \<times> u32 \<times> u8 list \<times> s32) option" where
  "ioc_get_set r field =
     (if in_len r \<noteq> 0 \<and> in_len r \<noteq> 4 then Some (CORE_ST_INVALID_PARAM, 0, ioc_out r, field)
      else if out_len r \<noteq> 0 \<and> out_len r \<noteq> 4 then Some (CORE_ST_INVALID_PARAM, 0, ioc_out r, field)
      else do {
        let before = field;
        field \<leftarrow> (if in_len r = 4 then map_option s32_of (dword_in (ioc_in r) 0) else Some field);
        if out_len r = 4 then do {
          out \<leftarrow> dword_out (ioc_out r) 0 (u32_of before);
          Some (CORE_ST_SUCCESS, 4, out, field) }
        else Some (CORE_ST_SUCCESS, 0, ioc_out r, field) })"

section \<open>The bus and the Controller Pak\<close>

definition ioc_n64_passthru :: "'w ioctl_seams \<Rightarrow> 'w core_ioctl_env \<Rightarrow> core_ioctl \<Rightarrow> 'w ioc_result" where
  "ioc_n64_passthru I env r =
     (if in_len r = 0 \<or> out_len r = 0 then refuse CORE_ST_INVALID_PARAM r env
      else if out_len r > 63 then refuse CORE_ST_INVALID_PARAM r env
      else
        let (_, out, actual, cs) = core_n64_transaction (on_core I) (ioc_in r) (s32_of (in_len r)) (ioc_out r)
              (s32_of (out_len r)) (env_cs env)
        in Some (CORE_ST_SUCCESS, u32_of actual, out, env\<lparr>env_cs := cs\<rparr>))"

definition ioc_pak_status :: "'w ioctl_seams \<Rightarrow> 'w core_ioctl_env \<Rightarrow> core_ioctl \<Rightarrow> 'w ioc_result" where
  "ioc_pak_status I env r =
     (if in_len r \<noteq> 0 \<or> out_len r \<noteq> 1 then refuse CORE_ST_INVALID_PARAM r env
      else
        let (_, rx, actual, cs) = core_n64_transaction (on_core I) [0] 1 (replicate 4 0) 3 (env_cs env);
            env = env\<lparr>env_cs := cs\<rparr>
        in if actual \<noteq> 3 then refuse CORE_ST_DATA_ERROR r env
           else do {
             out \<leftarrow> cell_put (ioc_out r) 0 (rx ! 2);
             Some (CORE_ST_SUCCESS, 1, out, env) })"

definition pak_crc_status :: "u8 \<Rightarrow> u32" where
  "pak_crc_status crc = (if crc = 0x80 then CORE_ST_DEVICE_NOT_READY else CORE_ST_CRC_ERROR)"

definition ioc_pak_read :: "'w ioctl_seams \<Rightarrow> 'w core_ioctl_env \<Rightarrow> core_ioctl \<Rightarrow> 'w ioc_result" where
  "ioc_pak_read I env r =
     (if in_len r \<noteq> 4 \<or> out_len r < 32 then refuse CORE_ST_INVALID_PARAM r env
      else do {
        d \<leftarrow> dword_in (ioc_in r) 0;
        let addr = core_pak_addr_encode (ucast d);
        let tx = [0x02, ucast (drop_bit 8 addr AND 0xFF), ucast (addr AND 0xFF)];
        let (_, rx, actual, cs) = core_n64_transaction (on_core I) tx 3 (replicate 36 0) 33 (env_cs env);
        let env = env\<lparr>env_cs := cs\<rparr>;
        if actual \<noteq> 33 then refuse CORE_ST_DATA_ERROR r env
        else
          let crc = core_pak_data_crc8 (Some rx) 32 XOR rx ! 32
          in if crc \<noteq> 0 then refuse (pak_crc_status crc) r env
             else do {
               out \<leftarrow> copy_cells 32 rx 0 (ioc_out r) 0;
               Some (CORE_ST_SUCCESS, 32, out, env) } })"

definition ioc_pak_write :: "'w ioctl_seams \<Rightarrow> 'w core_ioctl_env \<Rightarrow> core_ioctl \<Rightarrow> 'w ioc_result" where
  "ioc_pak_write I env r =
     (if in_len r \<noteq> 36 \<or> out_len r \<noteq> 0 then refuse CORE_ST_INVALID_PARAM r env
      else do {
        d \<leftarrow> dword_in (ioc_in r) 0;
        let addr = core_pak_addr_encode (ucast d);
        block \<leftarrow> copy_cells 32 (ioc_in r) 4 (replicate 32 0) 0;
        let tx = [0x03, ucast (drop_bit 8 addr AND 0xFF), ucast (addr AND 0xFF)] @ block;
        let crc = core_pak_data_crc8 (Some block) 32;
        let (_, rx, actual, cs) = core_n64_transaction (on_core I) tx 35 (replicate 4 0) 1 (env_cs env);
        let env = env\<lparr>env_cs := cs\<rparr>;
        if actual \<noteq> 1 then refuse CORE_ST_DATA_ERROR r env
        else if crc XOR rx ! 0 \<noteq> 0 then refuse (pak_crc_status (crc XOR rx ! 0)) r env
        else Some (CORE_ST_SUCCESS, 0, ioc_out r, env) })"

section \<open>The script\<close>

definition ioc_script_load :: "'w ioctl_seams \<Rightarrow> 'w core_ioctl_env \<Rightarrow> core_ioctl \<Rightarrow> 'w ioc_result" where
  "ioc_script_load I env r =
     (if in_len r < 8 then refuse CORE_ST_INVALID_PARAM r env
      else do {
        ncode \<leftarrow> map_option s32_of (dword_in (ioc_in r) 0);
        nvars \<leftarrow> map_option s32_of (dword_in (ioc_in r) 4);
        if ncode < 0 then refuse CORE_ST_INVALID_PARAM r env
        else if u32_of ncode > (0xFFFFFFFF - 8) div 4 then refuse CORE_ST_INVALID_PARAM r env
        else if u32_of ncode * 4 + 8 \<noteq> in_len r then refuse CORE_ST_INVALID_PARAM r env
        else case env_sched env of
          None \<Rightarrow> refuse CORE_ST_INVALID_PARAM r env
        | Some s \<Rightarrow>
            if in_pass s then refuse CORE_ST_DEVICE_BUSY r env
            else if ncode = 0 \<or> nvars \<le> 0 then
              let (s, cs) = core_sched_unload (on_core I) (on_sched I) s (env_cs env)
              in Some (CORE_ST_SUCCESS, 0, ioc_out r, env\<lparr>env_cs := cs, env_sched := Some s\<rparr>)
            else do {
              (ok, s, cs) \<leftarrow> core_sched_load_le (on_core I) (on_sched I) (pass_late I) (Some (drop 8 (ioc_in r)))
                ncode nvars (env_now env) (s, env_cs env);
              let env = env\<lparr>env_cs := cs, env_sched := Some s\<rparr>;
              if \<not> ok then refuse CORE_ST_NO_MEMORY r env
              else Some (CORE_ST_SUCCESS, 0, ioc_out r, env) } })"

text \<open>The bytes of the post-mortem dump: the node and the globals, as they lie in memory.\<close>

definition words_image :: "u32 list \<Rightarrow> u8 list" where
  "words_image ws = concat (map wr32 ws)"

definition thread_image :: "'w ioctl_seams \<Rightarrow> sched_thread \<Rightarrow> u8 list" where
  "thread_image I t = take 40 (thread_header I t) @ words_image (stack t)"

definition ioc_script_fault :: "'w ioctl_seams \<Rightarrow> 'w core_ioctl_env \<Rightarrow> core_ioctl \<Rightarrow> 'w ioc_result" where
  "ioc_script_fault I env r =
     (if in_len r \<noteq> 0 then refuse CORE_ST_INVALID_PARAM r env
      else case env_sched env of
        None \<Rightarrow> Some (CORE_ST_SUCCESS, 0, ioc_out r, env)
      | Some s \<Rightarrow>
          let (t, vars, s) = core_sched_fault_take s
          in case t of
               None \<Rightarrow> Some (CORE_ST_SUCCESS, 0, ioc_out r, env\<lparr>env_sched := Some (sched_free vars s)\<rparr>)
             | Some t \<Rightarrow> do {
                 let took = min (u32_of (stack_size t) * 4 + 40) (out_len r);
                 out \<leftarrow> copy_cells (unat took) (thread_image I t) 0 (ioc_out r) 0;
                 let s = sched_free (Some t) s;
                 let room = min (out_len r - took) (u32_of (var_count (svm s)) * 4);
                 case vars of
                   None \<Rightarrow> Some (CORE_ST_SUCCESS, took, out, env\<lparr>env_sched := Some s\<rparr>)
                 | Some v \<Rightarrow> do {
                     out \<leftarrow> copy_cells (unat room) (words_image v) 0 out (uint took);
                     Some (CORE_ST_SUCCESS, took + room, out, env\<lparr>env_sched := Some (sched_free vars s)\<rparr>) } })"

section \<open>Force feedback\<close>

text \<open>The length a request must have, and the copy of its streams; \<open>p\<close> is the read position.\<close>

primrec prog_need :: "nat list \<Rightarrow> u32 \<Rightarrow> s32 \<Rightarrow> s32 \<Rightarrow> s32" where
  "prog_need [] flags block need = need"
| "prog_need (n # ns) flags block need =
     prog_need ns flags block (if flags AND push_bit n 1 \<noteq> 0 then to_s32 (need + block) else need)"

primrec prog_streams ::
    "nat list \<Rightarrow> u32 \<Rightarrow> s32 \<Rightarrow> u8 list \<Rightarrow> int \<Rightarrow> core_effect_axis list \<Rightarrow> core_effect_axis list option" where
  "prog_streams [] flags block xs p axes = Some axes"
| "prog_streams (n # ns) flags block xs p axes =
     (if flags AND push_bit n 1 = 0 then prog_streams ns flags block xs p axes
      else do {
        ax \<leftarrow> copy_cells (nat (min block 8)) xs p (axes ! n) 0;
        prog_streams ns flags block xs (p + block) (axes[n := ax]) })"

text \<open>When the clock of a slot starts again.\<close>

definition prog_clock :: "u32 \<Rightarrow> nat \<Rightarrow> s32 \<Rightarrow> 'w core_state \<Rightarrow> 'w core_state" where
  "prog_clock flags n tick cs =
     (if \<not> running (effect cs ! n) then
        if flags AND 0xC0 \<noteq> 0 then map_slot n (start_tick_update (\<lambda>_. tick)) cs else cs
      else if flags AND 0x40 \<noteq> 0 then map_slot n (start_tick_update (\<lambda>_. tick)) cs
      else
        let (active, cs) = core_effect_slot_active cs (int n) tick
        in if \<not> active then map_slot n (start_tick_update (\<lambda>_. tick)) cs else cs)"

definition ioc_effect_prog :: "'w ioctl_seams \<Rightarrow> 'w core_ioctl_env \<Rightarrow> core_ioctl \<Rightarrow> 'w ioc_result" where
  "ioc_effect_prog I env r =
     (if in_len r < 0x1C \<or> out_len r \<noteq> 0 then refuse CORE_ST_INVALID_PARAM r env
      else do {
        head \<leftarrow> dword_in (ioc_in r) 0;
        let slot = head AND 0xFFFF;
        let flags = drop_bit 16 head AND 0xFF;
        block \<leftarrow> map_option s32_of (dword_in (ioc_in r) 0x18);
        if s32_of (in_len r) < prog_need [0, 1] flags block 0x1C \<or> slot \<ge> 32 then refuse CORE_ST_INVALID_PARAM r env
        else do {
          dur \<leftarrow> map_option s32_of (dword_in (ioc_in r) 0x04);
          a_level \<leftarrow> map_option s32_of (dword_in (ioc_in r) 0x08);
          a_time \<leftarrow> map_option s32_of (dword_in (ioc_in r) 0x0C);
          f_level \<leftarrow> map_option s32_of (dword_in (ioc_in r) 0x10);
          f_time \<leftarrow> map_option s32_of (dword_in (ioc_in r) 0x14);
          let n = unat slot;
          axes \<leftarrow> prog_streams [0, 1] flags block (ioc_in r) 0x1C (axis (effect (env_cs env) ! n));
          let cs = map_slot n (\<lambda>fx. fx\<lparr>fx_type := drop_bit 24 head, duration := dur, attack_level := a_level,
            attack_time := a_time, fade_level := f_level, fade_time := f_time, block_length := block,
            axis := axes\<rparr>) (env_cs env);
          let cs = prog_clock flags n (effect_tick_now (env_now env)) cs;
          let cs = (if block > 0 then
            snd (core_effect_kick (on_core I) (env_now env) (map_slot n (running_update (\<lambda>_. True)) cs)) else cs);
          Some (CORE_ST_SUCCESS, 0, ioc_out r, env\<lparr>env_cs := cs\<rparr>) } })"

definition ioc_effect_ctrl :: "'w ioctl_seams \<Rightarrow> 'w core_ioctl_env \<Rightarrow> core_ioctl \<Rightarrow> 'w ioc_result" where
  "ioc_effect_ctrl I env r =
     (if in_len r \<noteq> 2 \<or> out_len r \<noteq> 0 then refuse CORE_ST_INVALID_PARAM r env
      else do {
        cmd \<leftarrow> cell_at (ioc_in r) 0;
        slot \<leftarrow> map_option s8_of (cell_at (ioc_in r) 1);
        if slot < 0 \<or> slot \<ge> 32 then refuse CORE_ST_INVALID_PARAM r env
        else
          let n = nat slot;
              cs = env_cs env;
              kick = (\<lambda>cs. snd (core_effect_kick (on_core I) (env_now env) cs));
              cs = (if cmd = 1 then
                      if block_length (effect cs ! n) > 0 then
                        kick (map_slot n (\<lambda>fx. fx\<lparr>running := True, start_tick := effect_tick_now (env_now env)\<rparr>) cs)
                      else cs
                    else if cmd = 2 then kick (map_slot n (running_update (\<lambda>_. False)) cs)
                    else if cmd = 3 then kick (fold (\<lambda>i. map_slot i (running_update (\<lambda>_. False))) [0..<32] cs)
                    else kick cs)
          in Some (CORE_ST_SUCCESS, 0, ioc_out r, env\<lparr>env_cs := cs\<rparr>) })"

definition ioc_effect_query :: "'w core_ioctl_env \<Rightarrow> core_ioctl \<Rightarrow> 'w ioc_result" where
  "ioc_effect_query env r =
     (if in_len r \<noteq> 1 \<or> out_len r \<noteq> 1 then refuse CORE_ST_INVALID_PARAM r env
      else do {
        slot \<leftarrow> map_option s8_of (cell_at (ioc_in r) 0);
        if slot < 0 \<or> slot \<ge> 32 then refuse CORE_ST_INVALID_PARAM r env
        else do {
          let (active, cs) = core_effect_slot_active (env_cs env) slot (effect_tick_now (env_now env));
          out \<leftarrow> cell_put (ioc_out r) 0 (if active then 1 else 0);
          Some (CORE_ST_SUCCESS, 1, out, env\<lparr>env_cs := cs\<rparr>) } })"

section \<open>The vendor passthrough and the dispatcher\<close>

definition ioc_raw_vendor :: "'w ioctl_seams \<Rightarrow> 'w core_ioctl_env \<Rightarrow> core_ioctl \<Rightarrow> 'w ioc_result" where
  "ioc_raw_vendor I env r =
     (if in_len r < 6 then refuse CORE_ST_INVALID_PARAM r env
      else do {
        b \<leftarrow> cell_at (ioc_in r) 0;
        let in_dir = (b AND 0x80 \<noteq> 0);
        let call = (\<lambda>data len. call_raw_vendor I (env_vendor env) (env_vendor_ctx env) (ioc_in r) data len (env_cs env));
        if in_len r = 6 \<and> out_len r \<ge> 1 \<and> in_dir then
          if env_vendor env = 0 then refuse CORE_ST_INVALID_PARAM r env
          else let (st, data, cs) = call (Some (ioc_out r)) (out_len r) in Some (st, 0, data, env\<lparr>env_cs := cs\<rparr>)
        else if in_len r \<ge> 7 \<and> out_len r = 0 \<and> \<not> in_dir then
          if env_vendor env = 0 then refuse CORE_ST_INVALID_PARAM r env
          else let (st, _, cs) = call (Some (drop 6 (ioc_in r))) (in_len r - 6)
               in Some (st, 0, ioc_out r, env\<lparr>env_cs := cs\<rparr>)
        else if in_len r = 6 \<and> out_len r = 0 \<and> \<not> in_dir then
          if env_vendor env = 0 then refuse CORE_ST_INVALID_PARAM r env
          else let (st, _, cs) = call None 0 in Some (st, 0, ioc_out r, env\<lparr>env_cs := cs\<rparr>)
        else refuse CORE_ST_INVALID_PARAM r env })"

definition core_ioctl_fn :: "u32 \<Rightarrow> u32" where
  "core_ioctl_fn c = drop_bit 2 c AND 0xFFF"

definition core_ioctl_dispatch :: "'w ioctl_seams \<Rightarrow> 'w core_ioctl_env \<Rightarrow> core_ioctl \<Rightarrow> 'w ioc_result" where
  "core_ioctl_dispatch I env r =
     (if ioc_code r AND 0xFFFF0000 \<noteq> 0xB98C0000 then refuse CORE_ST_NOT_SUPPORTED r env
      else
        let fn = core_ioctl_fn (ioc_code r)
        in if fn = 0x832 then ioc_raw_vendor I env r
           else if fn = 0x833 then ioc_status_snap env r
           else if fn = 0x834 then
             if out_len r \<noteq> 0 \<or> in_len r > 0x200 then refuse CORE_ST_INVALID_PARAM r env
             else refuse CORE_ST_SUCCESS r env
           else if fn = 0x835 then ioc_device_name env r
           else if fn = 0x836 then ioc_read_counter env r
           else if fn = 0x837 then ioc_zero_counter env r
           else if fn = 0x839 then
             if in_len r \<noteq> 4 \<or> out_len r \<noteq> 0 then refuse CORE_ST_INVALID_PARAM r env
             else if env_enable env \<noteq> 0 then do {
               v \<leftarrow> dword_in (ioc_in r) 0;
               refuse CORE_ST_SUCCESS r
                 (env\<lparr>env_cs := call_enable I (env_enable env) (env_enable_ctx env) (v \<noteq> 0) (env_cs env)\<rparr>) }
             else refuse CORE_ST_SUCCESS r env
           else if fn = 0x83A then ioc_n64_passthru I env r
           else if fn = 0x83C then ioc_script_load I env r
           else if fn = 0x83D then ioc_script_fault I env r
           else if fn = 0x83E then do {
             (st, info, out, v) \<leftarrow> ioc_get_set r (stick_clip (env_cs env));
             Some (st, info, out, env\<lparr>env_cs := (env_cs env)\<lparr>stick_clip := v\<rparr>\<rparr>) }
           else if fn = 0x83F then do {
             (st, info, out, v) \<leftarrow> ioc_get_set r (stick_stretch (env_cs env));
             Some (st, info, out, env\<lparr>env_cs := (env_cs env)\<lparr>stick_stretch := v\<rparr>\<rparr>) }
           else if fn = 0x840 then ioc_pak_status I env r
           else if fn = 0x841 then ioc_pak_read I env r
           else if fn = 0x842 then ioc_pak_write I env r
           else if fn = 0x852 then ioc_effect_prog I env r
           else if fn = 0x853 then ioc_effect_ctrl I env r
           else if fn = 0x855 then ioc_effect_query env r
           else refuse CORE_ST_NOT_SUPPORTED r env)"

end
