(* ===== verification/Ioctl_Facts.thy ===== *)
theory Ioctl_Facts
  imports Ioctl_Device
begin

text \<open>
  What holds of the private IOCTL surface: every request is answered inside its buffers and leaves the
  scheduler sound, except where the arithmetic of the code wraps; what a programmed effect, a drained dump, a
  tunable and a Pak block are.
\<close>

section \<open>Buffers\<close>

definition small :: "core_ioctl \<Rightarrow> bool" where
  "small r \<longleftrightarrow> length (ioc_in r) < 2147483648 \<and> length (ioc_out r) < 2147483648"

lemma unat_small: "n < 4294967296 \<Longrightarrow> unat (of_nat n :: u32) = n"
  by (simp add: unat_of_nat)

lemma word_of_unat: "unat (w :: u32) = n \<Longrightarrow> w = of_nat n" by auto

lemma len_unat: "small r \<Longrightarrow> unat (in_len r) = length (ioc_in r) \<and> unat (out_len r) = length (ioc_out r)"
  by (simp add: small_def in_len_def out_len_def unat_small)

lemma in_len_iff:
  assumes "small r"
  shows "in_len r = n \<longleftrightarrow> length (ioc_in r) = unat n" "in_len r < n \<longleftrightarrow> length (ioc_in r) < unat n"
    "n < in_len r \<longleftrightarrow> unat n < length (ioc_in r)" "n \<le> in_len r \<longleftrightarrow> unat n \<le> length (ioc_in r)"
  using len_unat [OF assms] by (simp_all add: word_unat_eq_iff word_less_nat_alt word_le_nat_alt)

lemma out_len_iff:
  assumes "small r"
  shows "out_len r = n \<longleftrightarrow> length (ioc_out r) = unat n" "out_len r < n \<longleftrightarrow> length (ioc_out r) < unat n"
    "n < out_len r \<longleftrightarrow> unat n < length (ioc_out r)" "n \<le> out_len r \<longleftrightarrow> unat n \<le> length (ioc_out r)"
  using len_unat [OF assms] by (simp_all add: word_unat_eq_iff word_less_nat_alt word_le_nat_alt)

lemma s32_of_len:
  assumes "small r"
  shows "s32_of (in_len r) = int (length (ioc_in r))" "s32_of (out_len r) = int (length (ioc_out r))"
proof -
  have "s32_of (of_nat n) = int n" if "n < 2147483648" for n
    using that s32_of_u32_of [of "int n"] by (simp add: is_s32_def u32_of_def)
  then show "s32_of (in_len r) = int (length (ioc_in r))" "s32_of (out_len r) = int (length (ioc_out r))"
    using assms by (simp_all add: small_def in_len_def out_len_def)
qed

lemma dword_in_some: "at + 4 \<le> length xs \<Longrightarrow> dword_in xs at = Some (rd32 xs at)"
  by (simp add: dword_in_def)

lemma dword_out_some:
  "at + 4 \<le> length xs \<Longrightarrow> dword_out xs at v = Some (take at xs @ wr32 v @ drop (at + 4) xs)"
  by (simp add: dword_out_def)

lemma cell_some:
  "0 \<le> i \<Longrightarrow> i < int (length xs) \<Longrightarrow> cell_at xs i = Some (xs ! nat i)"
  "0 \<le> i \<Longrightarrow> i < int (length xs) \<Longrightarrow> cell_put xs i x = Some (xs[nat i := x])"
  by (simp_all add: cell_at_def cell_put_def)

lemma copy_some:
  "0 \<le> a \<Longrightarrow> n \<le> length src \<Longrightarrow> a + int n \<le> int (length dst) \<Longrightarrow>
   copy_cells n src 0 dst a = Some (take (nat a) dst @ take n src @ drop (nat a + n) dst)"
  using copy_cells_value [of 0 n src a dst] by simp

section \<open>Soundness of a result\<close>

definition scheds_ok :: "'w core_ioctl_env \<Rightarrow> bool" where
  "scheds_ok env \<longleftrightarrow> (\<forall>s. env_sched env = Some s \<longrightarrow> sched_inv s)"

definition ioc_sound :: "core_ioctl \<Rightarrow> 'w ioc_result \<Rightarrow> bool" where
  "ioc_sound r res \<longleftrightarrow> (case res of None \<Rightarrow> False | Some (st, info, out, env) \<Rightarrow>
     length out = length (ioc_out r) \<and> unat info \<le> length (ioc_out r) \<and> scheds_ok env)"

lemma ioc_sound_simps [simp]:
  "\<not> ioc_sound r None"
  "ioc_sound r (Some (st, info, out, env)) \<longleftrightarrow>
     length out = length (ioc_out r) \<and> unat info \<le> length (ioc_out r) \<and> scheds_ok env"
  "ioc_sound r (refuse st r env) \<longleftrightarrow> scheds_ok env"
  by (simp_all add: ioc_sound_def refuse_def)

lemma scheds_ok_core [simp]: "scheds_ok (env\<lparr>env_cs := cs\<rparr>) = scheds_ok env"
  by (simp add: scheds_ok_def)

lemma scheds_ok_sched [simp]: "scheds_ok (env\<lparr>env_sched := Some s\<rparr>) = sched_inv s"
  by (simp add: scheds_ok_def)

text \<open>What the surface relies on: the arrays of the core, a terminated name, a transport that fills the
  buffers it is given, a thread header of 40 bytes, and an end to the calls during a pass.\<close>

definition surface_ok :: "'w ioctl_seams \<Rightarrow> 'w core_ioctl_env \<Rightarrow> bool" where
  "surface_ok I env \<longleftrightarrow> arrays_wf (env_cs env) \<and> 0 \<in> set (device_name (env_cs env)) \<and> scheds_ok env \<and>
     fills_buffer (on_core I) \<and>
     (\<forall>f x p d n cs st d' cs'. call_raw_vendor I f x p (Some d) n cs = (st, d', cs') \<longrightarrow> length d' = length d) \<and>
     (\<forall>t. 40 \<le> length (thread_header I t)) \<and> None \<in> set (pass_late I) \<and> length (pass_late I) < 20000"

section \<open>The cases\<close>

lemma snap_sound: "small r \<Longrightarrow> surface_ok I env \<Longrightarrow> ioc_sound r (ioc_status_snap env r)"
  by (auto simp: ioc_status_snap_def in_len_iff out_len_iff surface_ok_def cell_some copy_some arrays_wf_def)

lemma name_loop_in:
  assumes "i + k = length out" "j < length name" "name ! j = 0" "i \<le> j"
  shows "\<exists>n out'. name_loop k i name out = Some (n, out') \<and> length out' = length out \<and> n \<le> length out"
  using assms
proof (induction k arbitrary: i out)
  case (Suc k)
  have at: "cell_at name (int i) = Some (name ! i)" "cell_put out (int i) (name ! i) = Some (out[i := name ! i])"
    using Suc.prems by (simp_all add: cell_some)
  show ?case
  proof (cases "name ! i = 0")
    case False
    then have "i \<noteq> j" using Suc.prems by auto
    then show ?thesis using Suc.IH [of "i + 1" "out[i := name ! i]"] Suc.prems at False by simp
  qed (use at Suc.prems in simp)
qed simp

lemma name_sound:
  assumes "small r" "surface_ok I env"
  shows "ioc_sound r (ioc_device_name env r)"
proof (cases "in_len r \<noteq> 0 \<or> out_len r = 0")
  case False
  obtain j where "j < length (device_name (env_cs env))" "device_name (env_cs env) ! j = 0"
    using assms(2) by (auto simp: surface_ok_def in_set_conv_nth)
  from name_loop_in [of 0 "unat (out_len r)" "ioc_out r", OF _ this] obtain n out where
    "name_loop (unat (out_len r)) 0 (device_name (env_cs env)) (ioc_out r) = Some (n, out)"
    "length out = length (ioc_out r)" "n \<le> length (ioc_out r)" using len_unat [OF assms(1)] by auto
  then show ?thesis using False assms
    by (simp add: ioc_device_name_def unat_small small_def surface_ok_def)
qed (use assms in \<open>auto simp: ioc_device_name_def surface_ok_def\<close>)

lemma read_counter_sound: "small r \<Longrightarrow> surface_ok I env \<Longrightarrow> ioc_sound r (ioc_read_counter env r)"
  by (auto simp: ioc_read_counter_def Let_def in_len_iff out_len_iff surface_ok_def dword_in_some dword_out_some cell_some)

lemma zero_counter_sound: "small r \<Longrightarrow> surface_ok I env \<Longrightarrow> ioc_sound r (ioc_zero_counter env r)"
  by (auto simp: ioc_zero_counter_def Let_def in_len_iff surface_ok_def dword_in_some out_len_iff)

lemma get_set_in:
  assumes "small r"
  shows "\<exists>st info out v. ioc_get_set r f = Some (st, info, out, v) \<and> length out = length (ioc_out r) \<and>
    unat info \<le> length (ioc_out r)"
  using assms by (auto simp: ioc_get_set_def Let_def in_len_iff out_len_iff dword_in_some dword_out_some)


lemma passthru_sound:
  assumes "small r" "surface_ok I env"
  shows "ioc_sound r (ioc_n64_passthru I env r)"
proof (cases "in_len r = 0 \<or> out_len r = 0 \<or> out_len r > 63")
  case False
  obtain a out n cs where t: "core_n64_transaction (on_core I) (ioc_in r) (s32_of (in_len r)) (ioc_out r)
      (s32_of (out_len r)) (env_cs env) = (a, out, n, cs)" by (metis prod_cases4)
  have "fills_buffer (on_core I)" "nat (s32_of (out_len r)) \<le> length (ioc_out r)"
    using assms by (simp_all add: surface_ok_def s32_of_len)
  from n64_in_buffer [OF this t] have n: "length out = length (ioc_out r)" "0 \<le> n" "n \<le> int (length (ioc_out r))" "n \<le> 63"
    using s32_of_len [OF assms(1)] by auto
  then have "unat (u32_of n) = nat n" by (simp add: u32_of_def unat_eq_nat_uint uint_word_of_int)
  then have "unat (u32_of n) \<le> length (ioc_out r)" using n by simp
  then show ?thesis using False t n assms(2) by (simp add: ioc_n64_passthru_def surface_ok_def)
qed (use assms in \<open>auto simp: ioc_n64_passthru_def surface_ok_def\<close>)

lemma n64_length:
  assumes "surface_ok I env" "core_n64_transaction (on_core I) tx tn rx rn cs = (a, rx', n, cs')" "nat rn \<le> length rx"
  shows "length rx' = length rx"
  using n64_in_buffer [of "on_core I" rn rx tx tn cs a rx' n cs'] assms by (simp add: surface_ok_def)

lemma pak_status_sound:
  assumes "small r" "surface_ok I env"
  shows "ioc_sound r (ioc_pak_status I env r)"
proof -
  obtain a rx n cs where t: "core_n64_transaction (on_core I) [0] 1 (replicate 4 0) 3 (env_cs env) = (a, rx, n, cs)"
    by (metis prod_cases4)
  show ?thesis using assms t by (auto simp: ioc_pak_status_def surface_ok_def in_len_iff out_len_iff cell_some Let_def)
qed

text \<open>The wire command of a Pak access, and its answer.\<close>

definition pak_command :: "u8 \<Rightarrow> u8 list \<Rightarrow> u8 list" where
  "pak_command c xs = (let addr = core_pak_addr_encode (ucast (rd32 xs 0))
     in [c, ucast (drop_bit 8 addr AND 0xFF), ucast (addr AND 0xFF)])"

lemma pak_read_run:
  assumes "small r" "surface_ok I env" "length (ioc_in r) = 4" "32 \<le> length (ioc_out r)"
    and "core_n64_transaction (on_core I) (pak_command 2 (ioc_in r)) 3 (replicate 36 0) 33 (env_cs env) = (a, rx, n, cs)"
  shows "length rx = 36" and "ioc_pak_read I env r =
    (let crc = core_pak_data_crc8 (Some rx) 32 XOR rx ! 32; env = env\<lparr>env_cs := cs\<rparr>
     in if n \<noteq> 33 then refuse CORE_ST_DATA_ERROR r env
        else if crc \<noteq> 0 then refuse (pak_crc_status crc) r env
        else Some (CORE_ST_SUCCESS, 32, take 32 rx @ drop 32 (ioc_out r), env))"
proof -
  show len: "length rx = 36" using n64_length [OF assms(2) assms(5)] by simp
  have "copy_cells 32 rx 0 (ioc_out r) 0 = Some (take 32 rx @ drop 32 (ioc_out r))"
    using copy_some [of 0 32 rx "ioc_out r"] len assms(4) by simp
  moreover have "in_len r = 4" "\<not> out_len r < 32" using assms by (simp_all add: in_len_iff out_len_iff)
  ultimately show "ioc_pak_read I env r =
    (let crc = core_pak_data_crc8 (Some rx) 32 XOR rx ! 32; env = env\<lparr>env_cs := cs\<rparr>
     in if n \<noteq> 33 then refuse CORE_ST_DATA_ERROR r env
        else if crc \<noteq> 0 then refuse (pak_crc_status crc) r env
        else Some (CORE_ST_SUCCESS, 32, take 32 rx @ drop 32 (ioc_out r), env))"
    using assms(3,5) by (simp add: ioc_pak_read_def dword_in_some pak_command_def Let_def)
qed

lemma pak_read_sound:
  assumes "small r" "surface_ok I env"
  shows "ioc_sound r (ioc_pak_read I env r)"
proof (cases "in_len r \<noteq> 4 \<or> out_len r < 32")
  case False
  then have len: "length (ioc_in r) = 4" "32 \<le> length (ioc_out r)"
    using assms(1) by (simp_all add: in_len_iff out_len_iff)
  obtain a rx n cs where t: "core_n64_transaction (on_core I) (pak_command 2 (ioc_in r)) 3 (replicate 36 0) 33 (env_cs env)
    = (a, rx, n, cs)" by (metis prod_cases4)
  show ?thesis using pak_read_run [OF assms len t] len assms(2) by (simp add: Let_def surface_ok_def)
qed (use assms in \<open>auto simp: ioc_pak_read_def surface_ok_def\<close>)

lemma pak_write_sound:
  assumes "small r" "surface_ok I env"
  shows "ioc_sound r (ioc_pak_write I env r)"
proof (cases "in_len r \<noteq> 36 \<or> out_len r \<noteq> 0")
  case False
  then have len: "length (ioc_in r) = 36" using assms(1) by (simp add: in_len_iff)
  have b: "copy_cells 32 (ioc_in r) 4 (replicate 32 0) 0 = Some (drop 4 (ioc_in r))"
    using copy_cells_value [of 4 32 "ioc_in r" 0 "replicate 32 0"] len by simp
  show ?thesis using False b len assms(2)
    by (auto simp: ioc_pak_write_def dword_in_some Let_def surface_ok_def split: prod.splits)
qed (use assms in \<open>auto simp: ioc_pak_write_def surface_ok_def\<close>)

lemma effect_ctrl_sound: "small r \<Longrightarrow> surface_ok I env \<Longrightarrow> ioc_sound r (ioc_effect_ctrl I env r)"
  by (auto simp: ioc_effect_ctrl_def in_len_iff out_len_iff surface_ok_def cell_some Let_def)

lemma effect_query_sound: "small r \<Longrightarrow> surface_ok I env \<Longrightarrow> ioc_sound r (ioc_effect_query env r)"
  by (auto simp: ioc_effect_query_def in_len_iff out_len_iff surface_ok_def cell_some split: prod.splits)

lemma raw_vendor_sound:
  assumes "small r" "surface_ok I env"
  shows "ioc_sound r (ioc_raw_vendor I env r)"
proof (cases "in_len r < 6")
  case False
  then have "cell_at (ioc_in r) 0 = Some (ioc_in r ! 0)" using assms(1) by (auto simp: in_len_iff cell_at_def)
  then show ?thesis using False assms(2)
    by (auto simp: ioc_raw_vendor_def Let_def surface_ok_def split: prod.splits)
qed (use assms in \<open>auto simp: ioc_raw_vendor_def surface_ok_def\<close>)


section \<open>The script\<close>

text \<open>The counts a load request carries.\<close>

definition load_fits :: "core_ioctl \<Rightarrow> bool" where
  "load_fits r \<longleftrightarrow> s32_of (rd32 (ioc_in r) 4) < 1073741624"

lemma script_load_sound:
  fixes I :: "'w ioctl_seams"
  assumes "small r" "surface_ok I env" "load_fits r"
  shows "ioc_sound r (ioc_script_load I env r)"
proof (cases "in_len r < 8")
  case False
  define nc nv where "nc = s32_of (rd32 (ioc_in r) 0)" and "nv = s32_of (rd32 (ioc_in r) 4)"
  have len: "8 \<le> length (ioc_in r)" using False assms(1) by (simp add: in_len_iff)
  have ok: "scheds_ok env" using assms(2) by (simp add: surface_ok_def)
  show ?thesis
  proof (cases "nc < 0 \<or> u32_of nc > (0xFFFFFFFF - 8) div 4 \<or> u32_of nc * 4 + 8 \<noteq> in_len r \<or> env_sched env = None")
    case True
    then show ?thesis using False len ok
      by (cases "env_sched env") (auto simp: ioc_script_load_def dword_in_some nc_def)
  next
    case c: False
    obtain s where s: "env_sched env = Some s" "sched_inv s" using c ok by (auto simp: scheds_ok_def)
    then have inv: "sched_ok 0 s" "current s = None" "\<not> in_pass s" by (auto simp: sched_inv_def)
    have nc: "0 \<le> nc" "nc < 2147483648" using c s32_of_range(2) [of "rd32 (ioc_in r) 0"] unfolding nc_def by linarith+
    have u: "unat (u32_of nc) = nat nc" using nc by (simp add: u32_of_def unat_eq_nat_uint uint_word_of_int)
    have lim: "nat nc \<le> 1073741821" using c u by (simp add: word_less_nat_alt not_less)
    have "unat (u32_of nc * 4 + 8) = nat nc * 4 + 8" using u lim by (simp add: unat_word_ariths)
    moreover have "u32_of nc * 4 + 8 = in_len r" using c by blast
    ultimately have words: "length (ioc_in r) = nat nc * 4 + 8" using len_unat [OF assms(1)] by simp
    have fits: "enough_code nc (Bytes (drop 8 (ioc_in r)))" "nc < 1073741824" "nv < 1073741624"
      using words lim nc assms(3) by (simp_all add: enough_code_def load_fits_def nv_def)
    have late: "None \<in> set (pass_late I)" "int (length (pass_late I)) < 20000" using assms(2) by (simp_all add: surface_ok_def)
    obtain b s' cs' where l: "core_sched_load_le (on_core I) (on_sched I) (pass_late I) (Some (drop 8 (ioc_in r))) nc nv
        (env_now env) (s, env_cs env) = Some (b, s', cs')" "sched_inv s'"
      using load_good [OF inv(1,2) fits late, of "on_core I" "on_sched I" "env_now env" "env_cs env"]
      by (auto simp: core_sched_load_le_def)
    have "sched_inv (fst (core_sched_unload (on_core I) (on_sched I) s (env_cs env)))"
      using unload_state [OF inv(1,2)] by blast
    then show ?thesis using False len s inv(3) l c
      by (auto simp: ioc_script_load_def dword_in_some nc_def [symmetric] nv_def [symmetric] Let_def split: prod.splits)
  qed
qed (use assms in \<open>auto simp: ioc_script_load_def surface_ok_def\<close>)

lemma length_words_image [simp]: "length (words_image ws) = 4 * length ws"
  by (induction ws) (simp_all add: words_image_def)

lemma fault_taken:
  assumes "sched_inv s"
  shows "sched_inv (sched_free (fault_vars s) (sched_free (fault_thread s) (s\<lparr>fault_thread := None, fault_vars := None\<rparr>)))"
proof -
  let ?e = "s\<lparr>fault_thread := None, fault_vars := None\<rparr>"
  have "sched_ok (0 + held (fault_vars s) + held (fault_thread s)) ?e"
    using sched_ok_fault [of 0 s None None] assms by (simp add: sched_inv_def held_def add.commute add.left_commute)
  then have "sched_ok 0 (sched_free (fault_vars s) (sched_free (fault_thread s) ?e))"
    by (intro sched_ok_free) simp
  then show ?thesis using assms by (auto simp: sched_inv_def sched_free_def split: if_splits)
qed

text \<open>What draining a dump hands over: the node, then the globals, cut to the buffer.\<close>

definition dump_of :: "'w ioctl_seams \<Rightarrow> core_sched \<Rightarrow> u8 list" where
  "dump_of I s = (case fault_thread s of None \<Rightarrow> []
     | Some t \<Rightarrow> thread_image I t @ (case fault_vars s of None \<Rightarrow> [] | Some v \<Rightarrow> words_image v))"

lemma script_fault_run:
  assumes "small r" "surface_ok I env" "ioc_in r = []" "env_sched env = Some s"
  shows "\<exists>out env'. ioc_script_fault I env r =
      Some (CORE_ST_SUCCESS, of_nat (min (length (dump_of I s)) (length (ioc_out r))), out, env') \<and>
    out = take (length (ioc_out r)) (dump_of I s) @ drop (length (dump_of I s)) (ioc_out r) \<and>
    env' = env\<lparr>env_sched := Some (sched_free (fault_vars s) (sched_free (fault_thread s)
      (s\<lparr>fault_thread := None, fault_vars := None\<rparr>)))\<rparr>"
proof (cases "fault_thread s")
  case None
  then show ?thesis using assms(3,4)
    by (simp add: ioc_script_fault_def in_len_def core_sched_fault_take_def dump_of_def sched_free_def)
next
  case (Some t)
  let ?L = "length (ioc_out r)"
  have inv: "dump_ok s" "vm_code (svm s) = None \<and> vm_vars (svm s) = None \<or> vm_mem (svm s)"
    using assms(2,4) by (auto simp: surface_ok_def scheds_ok_def sched_inv_def sched_ok_def)
  have t: "8 \<le> stack_size t" "stack_size t \<le> 200" "int (length (stack t)) = stack_size t"
    using inv(1) Some by (auto simp: dump_ok_def node_ok_def)
  have img: "length (thread_image I t) = 4 * length (stack t) + 40"
    using assms(2) by (simp add: thread_image_def surface_ok_def)
  have unat_min: "unat (min a b) = min (unat a) (unat b)" for a b :: u32
    by (simp add: min_def word_le_nat_alt)
  define n where "n = min (length (thread_image I t)) ?L"
  define took where "took = min (u32_of (stack_size t) * 4 + 40) (out_len r)"
  have word: "u32_of (stack_size t) * 4 + 40 = of_nat (length (thread_image I t))"
    using t(3) [symmetric] by (simp add: img u32_of_def)
  have "unat (of_nat (length (thread_image I t)) :: u32) = length (thread_image I t)"
    using img t by (intro unat_small) simp
  then have took: "unat took = n" "uint took = int n"
    using len_unat [OF assms(1)] unfolding took_def word uint_nat unat_min n_def by simp_all
  have c1: "copy_cells n (thread_image I t) 0 (ioc_out r) 0 = Some (take n (thread_image I t) @ drop n (ioc_out r))"
    using copy_some [of 0 n "thread_image I t" "ioc_out r"] by (simp add: n_def)
  let ?s = "s\<lparr>fault_thread := None, fault_vars := None\<rparr>"
  have le: "took \<le> out_len r" by (simp add: took_def)
  show ?thesis
  proof (cases "fault_vars s")
    case None
    have "took = of_nat n" unfolding took(1) [symmetric] by simp
    then show ?thesis using None Some assms(3,4) c1 took
      by (simp add: ioc_script_fault_def in_len_def core_sched_fault_take_def dump_of_def sched_free_def
          flip: took_def) (auto simp: n_def min_def)
  next
    case v: (Some v)
    define room where "room = min (out_len r - took) (u32_of (var_count (svm s)) * 4)"
    have "var_count (svm s) = int (length v)" "length v < 1073741824" using inv(1) v by (simp_all add: dump_ok_def)
    then have "u32_of (var_count (svm s)) * 4 = of_nat (4 * length v)" "unat (of_nat (4 * length v) :: u32) = 4 * length v"
      using unat_small [of "4 * length v"] by (simp_all add: u32_of_def)
    then have room: "unat room = min (?L - n) (4 * length v)"
      using len_unat [OF assms(1)] took le unfolding room_def unat_min by (simp only: unat_sub)
    let ?img = "thread_image I t" and ?w = "words_image v"
    let ?out1 = "take n ?img @ drop n (ioc_out r)"
    have n: "n \<le> length ?img" "n \<le> ?L" "length ?out1 = ?L" by (simp_all add: n_def)
    have c2: "copy_cells (unat room) ?w 0 ?out1 (int n) =
        Some (take n ?out1 @ take (unat room) ?w @ drop (n + unat room) ?out1)"
      using copy_some [of "int n" "unat room" ?w ?out1] room n by simp
    have eq: "take n ?out1 @ take (unat room) ?w @ drop (n + unat room) ?out1 =
        take ?L (?img @ ?w) @ drop (length (?img @ ?w)) (ioc_out r)"
      using room n by (cases "length ?img \<le> ?L") (auto simp: n_def min_def add.commute)
    have "n + unat room \<le> ?L" using room n by simp
    then have "unat (took + room) = n + unat room"
      using took assms(1) by (subst unat_add_lem [THEN iffD1]) (simp_all add: small_def)
    moreover have "n + unat room = min (length (?img @ ?w)) ?L"
      using room by (cases "length ?img \<le> ?L") (auto simp: n_def)
    ultimately have info: "took + room = of_nat (min (length (?img @ ?w)) ?L)"
      by (intro word_of_unat) simp
    show ?thesis using Some v assms(3,4) c1 c2 took eq info
      by (simp add: ioc_script_fault_def in_len_def core_sched_fault_take_def dump_of_def Let_def flip: took_def room_def)
  qed
qed


lemma script_fault_sound:
  assumes "small r" "surface_ok I env"
  shows "ioc_sound r (ioc_script_fault I env r)"
proof (cases "ioc_in r = [] \<and> env_sched env \<noteq> None")
  case True
  then obtain s where s: "ioc_in r = []" "env_sched env = Some s" "sched_inv s"
    using assms(2) by (auto simp: surface_ok_def scheds_ok_def)
  from script_fault_run [OF assms s(1,2)] fault_taken [OF s(3)] show ?thesis
    using assms(1) by (auto simp: small_def unat_small)
next
  case False
  then show ?thesis using assms by (auto simp: ioc_script_fault_def in_len_iff surface_ok_def)
qed

section \<open>Programming an effect\<close>

text \<open>The payload length in \<open>need\<close> does not wrap.\<close>

definition prog_fits :: "core_ioctl \<Rightarrow> bool" where
  "prog_fits r \<longleftrightarrow> s32_of (rd32 (ioc_in r) 0x18) < 1073741810"

lemma prog_need_step:
  assumes "0 \<le> need" "need + block < 2147483648" "- 2147483648 \<le> block"
  shows "to_s32 (need + block) = need + block"
  using assms by (intro to_s32_id) (simp add: is_s32_def)

lemma prog_streams_skip: "block \<le> 0 \<Longrightarrow> prog_streams ns flags block xs p axes = Some axes"
  by (induction ns arbitrary: p) auto

lemma prog_streams_in:
  assumes "0 < block" "0 \<le> p"
    "p + block * int (length (filter (\<lambda>n. flags AND push_bit n 1 \<noteq> 0) ns)) \<le> int (length xs)"
    "length axes = 2" "\<forall>ax\<in>set axes. length ax = 8" "set ns \<subseteq> {0, 1}"
  shows "\<exists>axes'. prog_streams ns flags block xs p axes = Some axes' \<and> length axes' = 2 \<and> (\<forall>ax\<in>set axes'. length ax = 8)"
  using assms(2-)
proof (induction ns arbitrary: p axes)
  case (Cons n ns)
  show ?case
  proof (cases "flags AND push_bit n 1 = 0")
    case False
    define k where "k = int (length (filter (\<lambda>n. flags AND push_bit n 1 \<noteq> 0) ns))"
    have room: "p + block + block * k \<le> int (length xs)" "0 \<le> block * k"
      using Cons.prems(2) False assms(1) by (simp_all add: k_def algebra_simps)
    have ax: "length (axes ! n) = 8" using Cons.prems by auto
    then have fit: "p + int (nat (min block 8)) \<le> int (length xs)" "0 + int (nat (min block 8)) \<le> int (length (axes ! n))"
      using room assms(1) by auto
    obtain a where a: "copy_cells (nat (min block 8)) xs p (axes ! n) 0 = Some a" "length a = length (axes ! n)"
      by (rule copy_cells_length [OF Cons.prems(1) fit(1) order_refl fit(2)])
    have "\<forall>b\<in>set (axes[n := a]). length b = 8" using a ax Cons.prems(4)
      by (auto dest!: set_update_subset_insert [THEN subsetD])
    then show ?thesis using Cons.IH [of "p + block" "axes[n := a]"] Cons.prems False a room assms(1)
      by (simp add: k_def)
  qed (use Cons in simp)
qed simp

lemma prog_need_in:
  assumes "0 < block" "0 \<le> need" "need + block * int (length ns) < 2147483648"
  shows "prog_need ns flags block need = need + block * int (length (filter (\<lambda>n. flags AND push_bit n 1 \<noteq> 0) ns))"
  using assms(2,3)
proof (induction ns arbitrary: need)
  case (Cons n ns)
  have "0 \<le> block * int (length ns)" "need + block + block * int (length ns) < 2147483648"
    using Cons.prems assms(1) by (simp_all add: algebra_simps)
  then have "need + block + block * int (length ns) < 2147483648" "need + block < 2147483648"
    "need + block * int (length ns) < 2147483648" using assms(1) by linarith+
  moreover from this have "to_s32 (need + block) = need + block"
    using Cons.prems assms(1) by (intro to_s32_id) (simp add: is_s32_def)
  ultimately show ?case using Cons.IH Cons.prems assms(1) by (simp add: algebra_simps)
qed simp

lemma prog_axes:
  assumes "prog_fits r" "s32_of (rd32 (ioc_in r) 0x18) = block" "prog_need [0, 1] flags block 0x1C \<le> int (length (ioc_in r))"
    "length axes = 2" "\<forall>ax\<in>set axes. length ax = 8"
  shows "\<exists>axes'. prog_streams [0, 1] flags block (ioc_in r) 0x1C axes = Some axes' \<and> length axes' = 2 \<and>
    (\<forall>ax\<in>set axes'. length ax = 8)"
proof (cases "0 < block")
  case True
  have "prog_need [0, 1] flags block 0x1C =
      0x1C + block * int (length (filter (\<lambda>n. flags AND push_bit n 1 \<noteq> 0) [0, 1]))"
    using True assms(1,2) by (intro prog_need_in) (simp_all add: prog_fits_def)
  then show ?thesis using prog_streams_in [of block "0x1C" flags "[0, 1]" "ioc_in r" axes] True assms by simp
next
  case False
  then show ?thesis using assms by (auto simp: prog_streams_skip simp del: prog_streams.simps)
qed

lemma effect_prog_sound:
  assumes "small r" "surface_ok I env" "prog_fits r"
  shows "ioc_sound r (ioc_effect_prog I env r)"
proof (cases "in_len r < 0x1C \<or> out_len r \<noteq> 0")
  case False
  then have len: "28 \<le> length (ioc_in r)" using assms(1) by (simp add: in_len_iff)
  define slot flags block where "slot = rd32 (ioc_in r) 0 AND 0xFFFF" and "flags = drop_bit 16 (rd32 (ioc_in r) 0) AND 0xFF"
    and "block = s32_of (rd32 (ioc_in r) 0x18)"
  show ?thesis
  proof (cases "s32_of (in_len r) < prog_need [0, 1] flags block 0x1C \<or> slot \<ge> 32")
    case True
    then show ?thesis using False len assms(2)
      by (auto simp: ioc_effect_prog_def dword_in_some Let_def surface_ok_def slot_def flags_def block_def
          simp del: prog_need.simps)
  next
    case ok: False
    let ?axes = "axis (effect (env_cs env) ! unat slot)"
    have "unat slot < 32" using ok by (simp add: word_less_nat_alt not_le)
    then have "slot_wf (effect (env_cs env) ! unat slot)" using assms(2) by (simp add: surface_ok_def arrays_wf_def)
    then obtain axes' where "prog_streams [0, 1] flags block (ioc_in r) 0x1C ?axes = Some axes'"
      using prog_axes [OF assms(3) block_def [symmetric], of flags ?axes] ok s32_of_len [OF assms(1)]
      by (auto simp: slot_wf_def simp del: prog_need.simps prog_streams.simps)
    then show ?thesis using False ok len assms(2)
      by (simp add: ioc_effect_prog_def dword_in_some Let_def surface_ok_def slot_def flags_def block_def
          del: prog_need.simps prog_streams.simps)
  qed
qed (use assms in \<open>auto simp: ioc_effect_prog_def surface_ok_def\<close>)

section \<open>The surface\<close>

definition request_fits :: "core_ioctl \<Rightarrow> bool" where
  "request_fits r \<longleftrightarrow> small r \<and> (core_ioctl_fn (ioc_code r) = 0x83C \<longrightarrow> load_fits r) \<and>
     (core_ioctl_fn (ioc_code r) = 0x852 \<longrightarrow> prog_fits r)"

lemma dispatch_sound:
  assumes "request_fits r" "surface_ok I env"
  shows "ioc_sound r (core_ioctl_dispatch I env r)"
proof -
  have small: "small r" and ok: "scheds_ok env" using assms by (simp_all add: request_fits_def surface_ok_def)
  note cases = raw_vendor_sound snap_sound name_sound read_counter_sound zero_counter_sound passthru_sound
    script_fault_sound pak_status_sound pak_read_sound pak_write_sound effect_ctrl_sound effect_query_sound
  have gs: "ioc_sound r (do { (st, info, out, v) \<leftarrow> ioc_get_set r f; Some (st, info, out, env\<lparr>env_cs := g v\<rparr>) })" for f g
    using get_set_in [OF small, of f] ok by auto
  have en: "in_len r = 4 \<Longrightarrow> dword_in (ioc_in r) 0 = Some (rd32 (ioc_in r) 0)"
    using small by (simp add: in_len_iff dword_in_some)
  show ?thesis unfolding core_ioctl_dispatch_def Let_def
    using assms(1) by (simp add: cases [OF small assms(2)] ok gs en request_fits_def
        script_load_sound [OF small assms(2)] effect_prog_sound [OF small assms(2)])
qed


lemma dispatch_some:
  assumes "request_fits r" "surface_ok I env"
  obtains st info out env' where "core_ioctl_dispatch I env r = Some (st, info, out, env')"
    "length out = length (ioc_out r)" "unat info \<le> length (ioc_out r)" "scheds_ok env'"
proof (cases "core_ioctl_dispatch I env r")
  case None
  then show thesis using dispatch_sound [OF assms] by simp
next
  case (Some x)
  obtain st info out env' where "x = (st, info, out, env')" by (metis prod_cases4)
  then show thesis using that Some dispatch_sound [OF assms] by simp
qed

lemma dispatch_code:
  "ioc_code r = 0xB98C2104 \<Longrightarrow> core_ioctl_dispatch I env r = ioc_pak_read I env r"
  "ioc_code r = 0xB98C2148 \<Longrightarrow> core_ioctl_dispatch I env r = ioc_effect_prog I env r"
  "ioc_code r = 0xB98C20F4 \<Longrightarrow> core_ioctl_dispatch I env r = ioc_script_fault I env r"
  "ioc_code r = 0xB98C20F8 \<Longrightarrow> core_ioctl_dispatch I env r = do {
     (st, info, out, v) \<leftarrow> ioc_get_set r (stick_clip (env_cs env));
     Some (st, info, out, env\<lparr>env_cs := (env_cs env)\<lparr>stick_clip := v\<rparr>\<rparr>) }"
proof -
  have fn: "core_ioctl_fn 0xB98C2104 = 0x841" "core_ioctl_fn 0xB98C2148 = 0x852" "core_ioctl_fn 0xB98C20F4 = 0x83D"
    "core_ioctl_fn 0xB98C20F8 = 0x83E" by (simp_all add: core_ioctl_fn_def)
  note go = core_ioctl_dispatch_def [of I env r, unfolded Let_def]
  show "ioc_code r = 0xB98C2104 \<Longrightarrow> core_ioctl_dispatch I env r = ioc_pak_read I env r" by (simp add: go fn)
  show "ioc_code r = 0xB98C2148 \<Longrightarrow> core_ioctl_dispatch I env r = ioc_effect_prog I env r" by (simp add: go fn)
  show "ioc_code r = 0xB98C20F4 \<Longrightarrow> core_ioctl_dispatch I env r = ioc_script_fault I env r" by (simp add: go fn)
  show "ioc_code r = 0xB98C20F8 \<Longrightarrow> core_ioctl_dispatch I env r = do {
     (st, info, out, v) \<leftarrow> ioc_get_set r (stick_clip (env_cs env));
     Some (st, info, out, env\<lparr>env_cs := (env_cs env)\<lparr>stick_clip := v\<rparr>\<rparr>) }" by (simp add: go fn)
qed

text \<open>C10. Every request on the private surface, whatever its code, its lengths and its bytes, is answered
  without an access outside its buffers; the count reported lies inside the output buffer, whose size is
  kept, and the script scheduler is left sound. The request must keep the two bounds the code fails to check.\<close>

theorem ioctl_stays_in_buffers:
  assumes "request_fits r" and "surface_ok I env"
  shows "\<exists>st info out env'. core_ioctl_dispatch I env r = Some (st, info, out, env') \<and>
    length out = length (ioc_out r) \<and> unat info \<le> length (ioc_out r) \<and> scheds_ok env'"
proof -
  obtain st info out env' where "core_ioctl_dispatch I env r = Some (st, info, out, env')"
    "length out = length (ioc_out r)" "unat info \<le> length (ioc_out r)" "scheds_ok env'"
    by (rule dispatch_some [OF assms])
  then show ?thesis by simp
qed

definition demo_ioctl :: "(u8 \<times> u8 list) list ioctl_seams" where
  "demo_ioctl = \<lparr>on_core = report_log, on_sched = quiet_seams,
     call_raw_vendor = (\<lambda>_ _ _ d _ cs. (0, case d of None \<Rightarrow> [] | Some d \<Rightarrow> d, cs)), call_enable = (\<lambda>_ _ _ cs. cs),
     thread_header = (\<lambda>_. replicate 40 0), pass_late = [None]\<rparr>"

definition demo_env :: "core_sched \<Rightarrow> (u8 \<times> u8 list) list core_ioctl_env" where
  "demo_env s = \<lparr>env_cs = logged_core, env_sched = Some s, env_vendor = 0, env_vendor_ctx = 0, env_enable = 0,
     env_enable_ctx = 0, env_now = 0\<rparr>"

lemma demo_surface: "sched_inv s \<Longrightarrow> surface_ok demo_ioctl (demo_env s)"
  using core_init_wf [of 1 0 "core_zeroed []"]
  by (auto simp: surface_ok_def demo_ioctl_def demo_env_def fills_buffer_def report_log_def scheds_ok_def logged_core_def
      core_wf_def core_init_def core_zeroed_def)

lemma empty_inv: "sched_inv (empty_sched p)"
  by (simp add: empty_sched_def sched_inv_def sched_ok_def owned_def held_def events_ok_def dump_ok_def to_s32_id is_s32_def)

theorem ioctl_stays_in_buffers_witness:
  "\<exists>st info out env'. core_ioctl_dispatch demo_ioctl (demo_env (empty_sched [Some (\<lambda>i. of_nat i), None]))
      \<lparr>ioc_code = 0xB98C20F0, ioc_in = [1, 0, 0, 0, 20, 0, 0, 0, 0x82, 0, 0, 0], ioc_out = []\<rparr> = Some (st, info, out, env') \<and>
    length out = 0 \<and> unat info \<le> 0 \<and> scheds_ok env'"
  using ioctl_stays_in_buffers [of "\<lparr>ioc_code = 0xB98C20F0, ioc_in = [1, 0, 0, 0, 20, 0, 0, 0, 0x82, 0, 0, 0], ioc_out = []\<rparr>",
      OF _ demo_surface [OF empty_inv]]
  by (simp add: request_fits_def small_def load_fits_def rd32_def core_ioctl_fn_def s32_of_def)

section \<open>The effect request that reads past its end\<close>

lemma to_s32_over: "2147483648 \<le> x \<Longrightarrow> x < 6442450944 \<Longrightarrow> to_s32 x = x - 4294967296"
proof -
  assume "2147483648 \<le> x" "x < 6442450944"
  then have "to_s32 (x - 4294967296) = x - 4294967296" by (intro to_s32_id) (simp add: is_s32_def)
  moreover have "to_s32 (x - 4294967296) = to_s32 (to_s32 x - to_s32 4294967296)" by (simp only: to_s32_diff)
  moreover have "to_s32 4294967296 = 0" by (simp add: to_s32_def)
  ultimately show ?thesis by (simp add: to_s32_id)
qed

lemma copy_cells_outside:
  assumes "int (length src) \<le> f" "0 < n"
  shows "copy_cells n src f dst a = None"
proof (cases n)
  case (Suc m)
  have "cell_at src (f + int m) = None" using assms(1) by (simp add: cell_at_def)
  then show ?thesis using Suc by (cases "copy_cells m src f dst a") simp_all
qed (use assms in simp)

text \<open>C36. The length that programming an effect requires is computed in 32 bits and wraps: a request for both
  streams with a block of 1073741810 bytes or more passes the length check however short it is, and the copy
  of the second stream reads past its end. Below that block length no request does.\<close>

theorem effect_prog_overread:
  assumes "ioc_code r = 0xB98C2148" and "28 \<le> length (ioc_in r)" and "length (ioc_in r) < 1073741824" and "ioc_out r = []"
    and "rd32 (ioc_in r) 0 AND 0xFFFF < 32"
    and "bit (rd32 (ioc_in r) 0) 16" and "bit (rd32 (ioc_in r) 0) 17"
    and "1073741810 \<le> s32_of (rd32 (ioc_in r) 0x18)"
  shows "core_ioctl_dispatch I env r = None"
proof -
  define flags block where "flags = drop_bit 16 (rd32 (ioc_in r) 0) AND 0xFF" and "block = s32_of (rd32 (ioc_in r) 0x18)"
  have small: "small r" using assms(3,4) by (simp add: small_def)
  have b: "1073741810 \<le> block" "block < 2147483648"
    using assms(8) s32_of_range(2) [of "rd32 (ioc_in r) 0x18"] unfolding block_def by linarith+
  have "bit flags 0" "bit flags 1" using assms(6,7) by (simp_all add: flags_def bit_simps)
  then have fl: "flags AND 1 \<noteq> 0" "flags AND 2 \<noteq> 0"
    using and_exp_eq_0_iff_not_bit [of flags 0] and_exp_eq_0_iff_not_bit [of flags 1] by simp_all
  have "to_s32 (to_s32 (28 + block) + block) = to_s32 (to_s32 (28 + block) + to_s32 block)"
    using b by (simp add: to_s32_id is_s32_def)
  also have "\<dots> = 28 + 2 * block - 4294967296"
    using b by (simp add: to_s32_add to_s32_over)
  finally have need: "prog_need [0, 1] flags block 0x1C < int (length (ioc_in r))"
    using fl b assms(2) by simp
  have "copy_cells 8 (ioc_in r) (28 + block) x 0 = None" for x
    using b assms(3) by (intro copy_cells_outside) simp_all
  moreover have "nat (min block 8) = 8" using b by simp
  ultimately have none: "prog_streams [0, 1] flags block (ioc_in r) 0x1C axes = None" for axes
    using fl by simp
  have "\<not> 32 \<le> rd32 (ioc_in r) 0 AND 0xFFFF" using assms(5) by (simp only: not_le)
  then show ?thesis
    using assms(1,2,4) need none s32_of_len [OF small] small
    by (simp add: dispatch_code ioc_effect_prog_def dword_in_some Let_def in_len_iff out_len_iff
        flags_def [symmetric] block_def [symmetric] del: prog_need.simps prog_streams.simps)
qed

theorem effect_prog_overread_witness:
  "core_ioctl_dispatch demo_ioctl (demo_env (empty_sched []))
     \<lparr>ioc_code = 0xB98C2148, ioc_in = [5, 0, 3, 1, 0, 0, 0, 0, 0, 0, 0, 0, 0, 0, 0, 0, 0, 0, 0, 0, 0, 0, 0, 0, 0xFF, 0xFF, 0xFF, 0x7F], ioc_out = []\<rparr> = None"
  by (rule effect_prog_overread) (simp_all add: rd32_def s32_of_def)


section \<open>What the requests mean\<close>

text \<open>A Pak read that reports success hands over, in 32 bytes of the output buffer, a block whose checksum is
  the one the device sent with it. On any other answer the buffer is untouched and no byte is reported.\<close>

theorem pak_read_checked:
  assumes "small r" and "surface_ok I env" and "ioc_code r = 0xB98C2104" and "length (ioc_in r) = 4"
    and "32 \<le> length (ioc_out r)" and "core_ioctl_dispatch I env r = Some (st, info, out, env')"
  shows "if st = CORE_ST_SUCCESS then
      \<exists>a rx cs. core_n64_transaction (on_core I) (pak_command 2 (ioc_in r)) 3 (replicate 36 0) 33 (env_cs env) =
          (a, rx, 33, cs) \<and> info = 32 \<and> out = take 32 rx @ drop 32 (ioc_out r) \<and>
        core_pak_data_crc8 (Some out) 32 = rx ! 32
    else info = 0 \<and> out = ioc_out r \<and> st \<in> {CORE_ST_DATA_ERROR, CORE_ST_DEVICE_NOT_READY, CORE_ST_CRC_ERROR}"
proof -
  obtain a rx n cs where t: "core_n64_transaction (on_core I) (pak_command 2 (ioc_in r)) 3 (replicate 36 0) 33 (env_cs env)
    = (a, rx, n, cs)" by (metis prod_cases4)
  note run = pak_read_run [OF assms(1,2,4,5) t]
  have "core_pak_data_crc8 (Some (take 32 rx @ drop 32 (ioc_out r))) 32 = core_pak_data_crc8 (Some rx) 32"
    using run(1) by (simp add: core_pak_data_crc8_def)
  then show ?thesis using run(2) t assms(6)
    by (auto simp: dispatch_code(1) [OF assms(3)] Let_def refuse_def pak_crc_status_def split: if_splits)
qed

definition pak_request :: core_ioctl where
  "pak_request = \<lparr>ioc_code = 0xB98C2104, ioc_in = [0, 0x80, 0, 0], ioc_out = replicate 32 7\<rparr>"

text \<open>A Rumble Pak, which answers its identify region with 32 bytes 0x80 and their checksum, reversed.\<close>

definition rumble_ioctl :: "unit ioctl_seams" where
  "rumble_ioctl = \<lparr>on_core = \<lparr>call_sink = (\<lambda>_ _ _ _ _ w. w), call_vendor = (\<lambda>_ _ _ w. (True, w)),
       call_claim = (\<lambda>_ _ w. (True, w)),
       call_vendor_sync = (\<lambda>_ _ _ d _ cs.
         (True, map (\<lambda>i. if i = 0 then 1 else if i = 1 then 0xB8 else 0x80) [0..<length d], cs)),
       call_input_hook = (\<lambda>_ _ _ _ cs. cs), call_tick_hook = (\<lambda>_ _ _ cs. cs)\<rparr>,
     on_sched = quiet_seams, call_raw_vendor = (\<lambda>_ _ _ d _ cs. (0, case d of None \<Rightarrow> [] | Some d \<Rightarrow> d, cs)),
     call_enable = (\<lambda>_ _ _ cs. cs), thread_header = (\<lambda>_. replicate 40 0), pass_late = [None]\<rparr>"

definition rumble_env :: "unit core_ioctl_env" where
  "rumble_env = \<lparr>env_cs = echo_core, env_sched = None, env_vendor = 0, env_vendor_ctx = 0, env_enable = 0,
     env_enable_ctx = 0, env_now = 0\<rparr>"

lemma rumble_surface: "surface_ok rumble_ioctl rumble_env"
  using core_init_wf [of 1 0 "core_zeroed ()"]
  by (auto simp: surface_ok_def rumble_ioctl_def rumble_env_def fills_buffer_def scheds_ok_def echo_core_def
      core_set_vendor_sync_def core_wf_def arrays_wf_def core_init_def core_zeroed_def)

theorem pak_read_checked_witness:
  "\<exists>out env' a rx cs. core_ioctl_dispatch rumble_ioctl rumble_env pak_request = Some (CORE_ST_SUCCESS, 32, out, env') \<and>
     out = replicate 32 0x80 \<and> core_n64_transaction (on_core rumble_ioctl) (pak_command 2 [0, 0x80, 0, 0]) 3
       (replicate 36 0) 33 echo_core = (a, rx, 33, cs) \<and> core_pak_data_crc8 (Some out) 32 = rx ! 32"
proof -
  have run: "case core_ioctl_dispatch rumble_ioctl rumble_env pak_request of None \<Rightarrow> False
      | Some (st, info, out, env') \<Rightarrow> st = 0 \<and> out = replicate 32 0x80" by code_simp
  then obtain info out env' where d: "core_ioctl_dispatch rumble_ioctl rumble_env pak_request =
      Some (CORE_ST_SUCCESS, info, out, env')" "out = replicate 32 0x80" by (auto split: option.splits)
  from pak_read_checked [OF _ rumble_surface _ _ _ d(1)] d show ?thesis
    by (auto simp: pak_request_def small_def rumble_env_def)
qed

text \<open>The two stick tunables swap: a call that sets and gets installs the dword it was given, returns the one
  that was there, and a second call with what came back restores the device.\<close>

theorem tunable_swap:
  assumes "length (ioc_in r) = 4" and "length (ioc_out r) = 4" and "ioc_code r = 0xB98C20F8"
    and "is_s32 (stick_clip (env_cs env))"
    and "core_ioctl_dispatch I env r = Some (st, info, out, env')"
  shows "st = CORE_ST_SUCCESS \<and> info = 4 \<and> rd32 out 0 = u32_of (stick_clip (env_cs env)) \<and>
    stick_clip (env_cs env') = s32_of (rd32 (ioc_in r) 0) \<and>
    (\<exists>out'. core_ioctl_dispatch I env' (r\<lparr>ioc_in := out\<rparr>) = Some (CORE_ST_SUCCESS, 4, out', env) \<and>
       rd32 out' 0 = rd32 (ioc_in r) 0)"
proof -
  have wr: "ioc_get_set q f = Some (CORE_ST_SUCCESS, 4, wr32 (u32_of f), s32_of (rd32 (ioc_in q) 0))"
    if "length (ioc_in q) = 4" "length (ioc_out q) = 4" for q f
    using that by (simp add: ioc_get_set_def in_len_def out_len_def dword_in_some dword_out_some Let_def)
  have d: "st = CORE_ST_SUCCESS" "info = 4" "out = wr32 (u32_of (stick_clip (env_cs env)))"
    "env' = env\<lparr>env_cs := (env_cs env)\<lparr>stick_clip := s32_of (rd32 (ioc_in r) 0)\<rparr>\<rparr>"
    using assms(5) wr [OF assms(1,2)] by (auto simp: dispatch_code(4) [OF assms(3)])
  have "core_ioctl_dispatch I env' (r\<lparr>ioc_in := out\<rparr>) =
      Some (CORE_ST_SUCCESS, 4, wr32 (rd32 (ioc_in r) 0), env)"
    using wr [of "r\<lparr>ioc_in := out\<rparr>"] assms(2-4) d by (simp add: dispatch_code(4) rd32_wr32 s32_of_u32_of)
  then show ?thesis using d by (simp add: rd32_wr32)
qed

theorem tunable_swap_witness:
  "\<exists>out env'. core_ioctl_dispatch demo_ioctl (demo_env (empty_sched [])) \<lparr>ioc_code = 0xB98C20F8, ioc_in = [80, 0, 0, 0],
       ioc_out = [0, 0, 0, 0]\<rparr> = Some (CORE_ST_SUCCESS, 4, out, env') \<and> rd32 out 0 = 75 \<and> stick_clip (env_cs env') = 80"
proof -
  let ?r = "\<lparr>ioc_code = 0xB98C20F8, ioc_in = [80, 0, 0, 0], ioc_out = [0, 0, 0, 0]\<rparr>"
  have clip: "stick_clip (env_cs (demo_env (empty_sched []))) = 75"
    by (simp add: demo_env_def logged_core_def core_init_def)
  obtain st info out env' where d: "core_ioctl_dispatch demo_ioctl (demo_env (empty_sched [])) ?r = Some (st, info, out, env')"
    by (rule dispatch_some [OF _ demo_surface [OF empty_inv], of ?r])
      (simp_all add: request_fits_def small_def core_ioctl_fn_def)
  from tunable_swap [OF _ _ _ _ d] show ?thesis
    using d clip by (auto simp: is_s32_def rd32_def s32_of_def u32_of_def)
qed


text \<open>A post-mortem dump is handed over once: a drain returns the thread's node and then the globals as far as
  the buffer reaches, releases both whole whatever the buffer's size, and leaves the slot empty, so that a
  second drain returns nothing. Neither block is leaked.\<close>

theorem fault_dump_once:
  assumes "small r" and "surface_ok I env" and "ioc_code r = 0xB98C20F4" and "ioc_in r = []"
    and "env_sched env = Some s"
  shows "\<exists>info out env' s'. core_ioctl_dispatch I env r = Some (CORE_ST_SUCCESS, info, out, env') \<and>
    unat info = min (length (dump_of I s)) (length (ioc_out r)) \<and>
    take (unat info) out = take (length (ioc_out r)) (dump_of I s) \<and>
    env_sched env' = Some s' \<and> sched_inv s' \<and> blocks s' = blocks s - held (fault_thread s) - held (fault_vars s) \<and>
    core_ioctl_dispatch I env' r = Some (CORE_ST_SUCCESS, 0, ioc_out r, env')"
proof -
  define s' where "s' = sched_free (fault_vars s) (sched_free (fault_thread s) (s\<lparr>fault_thread := None, fault_vars := None\<rparr>))"
  let ?env = "env\<lparr>env_sched := Some s'\<rparr>" and ?k = "min (length (dump_of I s)) (length (ioc_out r))"
  let ?out = "take (length (ioc_out r)) (dump_of I s) @ drop (length (dump_of I s)) (ioc_out r)"
  have inv: "sched_inv s" using assms(2,5) by (simp add: surface_ok_def scheds_ok_def)
  have first: "ioc_script_fault I env r = Some (CORE_ST_SUCCESS, of_nat ?k, ?out, ?env)"
    using script_fault_run [OF assms(1,2,4,5)] by (auto simp: s'_def)
  have k: "unat (of_nat ?k :: u32) = ?k" using assms(1) by (intro unat_small) (auto simp: small_def)
  have empty: "fault_thread s' = None" "fault_vars s' = None" "blocks s' = blocks s - held (fault_thread s) - held (fault_vars s)"
    by (simp_all add: s'_def sched_free_def held_def)
  have s': "sched_inv s'" using fault_taken [OF inv] by (simp add: s'_def)
  have "surface_ok I ?env" using assms(2) s' by (simp add: surface_ok_def)
  then have "ioc_script_fault I ?env r = Some (CORE_ST_SUCCESS, 0, ioc_out r, ?env)"
    using script_fault_run [OF assms(1) _ assms(4), of I ?env s'] empty
    by (simp add: dump_of_def sched_free_def)
  then show ?thesis using first k empty(3) s'
    by (intro exI [of _ "of_nat ?k"] exI [of _ ?out] exI [of _ ?env] exI [of _ s'])
      (auto simp: dispatch_code(3) [OF assms(3)] min_def)
qed

text \<open>A scheduler with a dump.\<close>

definition faulted_sched :: core_sched where
  "faulted_sched = (empty_sched [])\<lparr>fault_thread := Some (demo_thread 3 0), fault_status := 3, fault_total := 1, blocks := 1\<rparr>"

theorem fault_dump_once_witness:
  "\<exists>info out env' s'. core_ioctl_dispatch demo_ioctl (demo_env faulted_sched)
      \<lparr>ioc_code = 0xB98C20F4, ioc_in = [], ioc_out = replicate 50 9\<rparr> = Some (CORE_ST_SUCCESS, info, out, env') \<and>
    unat info = 50 \<and> env_sched env' = Some s' \<and> blocks s' = 0"
proof -
  have inv: "sched_inv faulted_sched"
    by (simp add: faulted_sched_def empty_sched_def sched_inv_def sched_ok_def owned_def held_def events_ok_def dump_ok_def
        to_s32_id is_s32_def node_ok_def demo_thread_def)
  have "length (dump_of demo_ioctl faulted_sched) = 72"
    by (simp add: dump_of_def faulted_sched_def empty_sched_def thread_image_def demo_ioctl_def demo_thread_def)
  then show ?thesis
    using fault_dump_once [OF _ demo_surface [OF inv], of "\<lparr>ioc_code = 0xB98C20F4, ioc_in = [], ioc_out = replicate 50 9\<rparr>" faulted_sched]
    by (auto simp: small_def demo_env_def faulted_sched_def empty_sched_def held_def)
qed

text \<open>A slot answers as running exactly when it is, its time has come and it is infinite or not yet over;
  asking stops it only once it is more than 32 ticks over, and never changes another slot.\<close>

theorem slot_active_meaning:
  assumes "0 \<le> slot" and "slot < 32" and "fx = effect cs ! nat slot" and "core_effect_slot_active cs slot t = (active, cs')"
    and "is_s32 (t - start_tick fx)" and "is_s32 (duration fx + 32)"
  defines "begun \<equiv> running fx \<and> start_tick fx \<le> t"
    and "over \<equiv> running fx \<and> start_tick fx \<le> t \<and> duration fx \<noteq> - 1 \<and> duration fx + 32 < t - start_tick fx"
  shows "active = (begun \<and> (duration fx = - 1 \<or> t - start_tick fx < duration fx)) \<and> \<not> (active \<and> over) \<and>
    cs' = (if over then cs\<lparr>effect := (effect cs)[nat slot := fx\<lparr>running := False\<rparr>]\<rparr> else cs)"
proof -
  have "core_effect_slot_active cs slot t = (if \<not> running fx then (False, cs) else if t < start_tick fx then (False, cs)
      else if duration fx = - 1 then (True, cs)
      else (t - start_tick fx < duration fx, if duration fx + 32 < t - start_tick fx then
        cs\<lparr>effect := (effect cs)[nat slot := fx\<lparr>running := False\<rparr>]\<rparr> else cs))"
    using assms(1-3) to_s32_id [OF assms(5)] to_s32_id [OF assms(6)]
    by (simp add: core_effect_slot_active_def map_slot_def Let_def)
  then have "(active, cs') = (if \<not> begun then (False, cs) else if duration fx = - 1 then (True, cs)
      else (t - start_tick fx < duration fx, if over then
        cs\<lparr>effect := (effect cs)[nat slot := fx\<lparr>running := False\<rparr>]\<rparr> else cs))"
    unfolding assms(4) begun_def over_def by (auto simp: not_less)
  moreover have "\<not> begun \<Longrightarrow> \<not> over" "duration fx = - 1 \<Longrightarrow> \<not> over" "over \<Longrightarrow> \<not> t - start_tick fx < duration fx"
    by (auto simp: begun_def over_def)
  ultimately show ?thesis by (cases begun; cases "duration fx = - 1") auto
qed

text \<open>A slot that began at tick 10 and lasts 5 ticks.\<close>

definition short_slot :: "bool \<Rightarrow> core_effect_slot" where
  "short_slot b = \<lparr>fx_type = 0, running = b, start_tick = 10, duration = 5, attack_level = 0, attack_time = 0,
     fade_level = 0, fade_time = 0, block_length = 8, axis = replicate 2 zero_axis\<rparr>"

definition running_core :: "unit core_state" where
  "running_core = echo_core\<lparr>effect := replicate 32 (short_slot True)\<rparr>"

theorem slot_active_meaning_witness:
  "fst (core_effect_slot_active running_core 3 12) \<and> \<not> fst (core_effect_slot_active running_core 3 15) \<and>
   snd (core_effect_slot_active running_core 3 47) = running_core \<and>
   effect (snd (core_effect_slot_active running_core 3 48)) ! 3 = short_slot False"
proof -
  have fx: "effect running_core = replicate 32 (short_slot True)" "short_slot True = effect running_core ! nat 3"
    by (simp_all add: running_core_def)
  have m: "fst (core_effect_slot_active running_core 3 t) = (10 \<le> t \<and> t - 10 < 5) \<and>
      snd (core_effect_slot_active running_core 3 t) =
        (if 47 < t then running_core\<lparr>effect := (effect running_core)[nat 3 := short_slot False]\<rparr> else running_core)"
    if "is_s32 (t - 10)" for t
  proof -
    obtain a c where ac: "core_effect_slot_active running_core 3 t = (a, c)" by fastforce
    have f: "start_tick (short_slot True) = 10" "duration (short_slot True) = 5" "running (short_slot True)"
      "(short_slot True)\<lparr>running := False\<rparr> = short_slot False" by (simp_all add: short_slot_def)
    have "is_s32 (t - start_tick (short_slot True))" "is_s32 (duration (short_slot True) + 32)"
      using that by (simp_all add: f is_s32_def)
    note q = slot_active_meaning [of 3, OF _ _ fx(2) ac this, unfolded f]
    have "c = (if 47 < t then running_core\<lparr>effect := (effect running_core)[nat 3 := short_slot False]\<rparr> else running_core)"
      using conjunct2 [OF conjunct2 [OF q]] f(3) by (cases "47 < t") simp_all
    then show ?thesis using conjunct1 [OF q] f(3) unfolding ac by simp
  qed
  show ?thesis using m [of 12] m [of 15] m [of 47] m [of 48] by (simp add: is_s32_def fx(1))
qed

end
