(* ===== verification/Wait_List.thy ===== *)
theory Wait_List
  imports Prelude
begin

text \<open>
  The intrusive doubly linked list of \<open>src_drv/ioctl.c\<close> (\<open>nw_init\<close>, \<open>nw_empty\<close>, \<open>nw_append\<close>,
  \<open>nw_unlink\<close>): a store of the two link fields of every node, the four operations as the pointer writes
  they are, and their refinement of operations on a list.
\<close>

section \<open>Links\<close>

record links =
  flink :: "ptr \<Rightarrow> ptr"
  blink :: "ptr \<Rightarrow> ptr"

definition set_flink :: "ptr \<Rightarrow> ptr \<Rightarrow> links \<Rightarrow> links" where
  "set_flink p q s = s\<lparr>flink := (flink s)(p := q)\<rparr>"

definition set_blink :: "ptr \<Rightarrow> ptr \<Rightarrow> links \<Rightarrow> links" where
  "set_blink p q s = s\<lparr>blink := (blink s)(p := q)\<rparr>"

definition nw_init :: "ptr \<Rightarrow> links \<Rightarrow> links" where
  "nw_init head s = set_blink head head (set_flink head head s)"

definition nw_empty :: "ptr \<Rightarrow> links \<Rightarrow> bool" where
  "nw_empty head s \<longleftrightarrow> flink s head = head"

definition nw_append :: "ptr \<Rightarrow> ptr \<Rightarrow> links \<Rightarrow> links" where
  "nw_append head w s =
     (let s = set_flink w head s;
          s = set_blink w (blink s head) s;
          s = set_flink (blink s head) w s
      in set_blink head w s)"

definition nw_unlink :: "ptr \<Rightarrow> links \<Rightarrow> links" where
  "nw_unlink w s =
     (let s = set_flink (blink s w) (flink s w) s;
          s = set_blink (flink s w) (blink s w) s;
          s = set_flink w 0 s
      in set_blink w 0 s)"

lemma set_link_simps [simp]:
  "flink (set_flink p q s) = (flink s)(p := q)" "blink (set_flink p q s) = blink s"
  "flink (set_blink p q s) = flink s" "blink (set_blink p q s) = (blink s)(p := q)"
  by (simp_all add: set_flink_def set_blink_def)

section \<open>The list a ring of nodes stands for\<close>

fun linked :: "links \<Rightarrow> ptr \<Rightarrow> ptr list \<Rightarrow> ptr \<Rightarrow> bool" where
  "linked s a [] b \<longleftrightarrow> flink s a = b \<and> blink s b = a"
| "linked s a (x # xs) b \<longleftrightarrow> flink s a = x \<and> blink s x = a \<and> linked s x xs b"

definition wait_ring :: "links \<Rightarrow> ptr \<Rightarrow> ptr list \<Rightarrow> bool" where
  "wait_ring s head xs \<longleftrightarrow> linked s head xs head \<and> distinct (head # xs) \<and> 0 \<notin> set (head # xs)"

lemma linked_append: "linked s a (xs @ y # ys) b \<longleftrightarrow> linked s a xs y \<and> linked s y ys b"
  by (induction xs arbitrary: a) auto

text \<open>Writes to nodes off the path leave it alone.\<close>

lemma linked_frame [simp]:
  "p \<notin> set (a # xs) \<Longrightarrow> linked (set_flink p q s) a xs b = linked s a xs b"
  "p \<notin> set (xs @ [b]) \<Longrightarrow> linked (set_blink p q s) a xs b = linked s a xs b"
  by (induction xs arbitrary: a) auto

text \<open>Replacing the end of a path, and its start.\<close>

lemma linked_end:
  assumes "linked s a xs b" "distinct (a # xs)" "c \<notin> set xs"
  shows "linked (set_blink c (last (a # xs)) (set_flink (last (a # xs)) c s)) a xs c"
  using assms
proof (induction xs arbitrary: a)
  case (Cons x xs)
  have "last (x # xs) \<noteq> a" using Cons.prems(2) by (metis distinct.simps(2) last_in_set list.distinct(1))
  then show ?case using Cons by (auto simp del: linked_frame)
qed simp

lemma ring_end: "linked s a xs b \<Longrightarrow> blink s b = last (a # xs)"
  by (induction xs arbitrary: a) auto

lemma ring_start: "linked s a xs b \<Longrightarrow> flink s a = hd (xs @ [b])"
  by (cases xs) auto

lemma ring_init: "h \<noteq> 0 \<Longrightarrow> wait_ring (nw_init h s) h []"
  by (simp add: wait_ring_def nw_init_def)

lemma ring_empty: "wait_ring s h xs \<Longrightarrow> nw_empty h s \<longleftrightarrow> xs = []"
  by (cases xs) (auto simp: wait_ring_def nw_empty_def)

lemma ring_first: "wait_ring s h (x # xs) \<Longrightarrow> flink s h = x"
  by (simp add: wait_ring_def)

lemma ring_append:
  assumes "wait_ring s h xs" "w \<notin> set (h # xs)" "w \<noteq> 0"
  shows "wait_ring (nw_append h w s) h (xs @ [w])"
proof -
  let ?l = "last (h # xs)"
  have l: "linked s h xs h" "distinct (h # xs)" using assms(1) by (simp_all add: wait_ring_def)
  have lb: "blink s h = ?l" using ring_end [OF l(1)] .
  have lw: "?l \<noteq> w" "?l \<in> set (h # xs)" using assms(2) last_in_set [of "h # xs"] by auto
  have s: "nw_append h w s = set_blink h w (set_flink ?l w (set_blink w ?l (set_flink w h s)))"
    using assms(2) by (simp add: nw_append_def lb)
  have "linked (set_blink w ?l (set_flink ?l w s)) h xs w"
    by (rule linked_end [OF l]) (use assms(2) in simp)
  moreover have "set_blink h w (set_flink ?l w (set_blink w ?l (set_flink w h s))) =
      set_flink w h (set_blink h w (set_blink w ?l (set_flink ?l w s)))"
    using lw assms(2) by (simp add: set_flink_def set_blink_def fun_upd_twist)
  ultimately have "linked (nw_append h w s) h xs w" using assms(2) l(2) by (simp add: s)
  moreover have "linked (nw_append h w s) w [] h" using assms(2) lw by (simp add: s)
  ultimately show ?thesis using assms l by (auto simp: wait_ring_def linked_append)
qed

lemma ring_unlink:
  assumes "wait_ring s h (xs @ w # ys)"
  shows "wait_ring (nw_unlink w s) h (xs @ ys)" "flink (nw_unlink w s) w = 0"
proof -
  let ?p = "last (h # xs)" and ?n = "hd (ys @ [h])"
  have l: "linked s h xs w" "linked s w ys h" "distinct (h # xs @ w # ys)" "0 \<notin> set (h # xs @ w # ys)"
    using assms by (auto simp: wait_ring_def linked_append)
  have e: "blink s w = ?p" "flink s w = ?n" using ring_end [OF l(1)] ring_start [OF l(2)] .
  have ne: "?p \<noteq> w" "?n \<noteq> w" "?p \<in> set (h # xs)"
    using l(3) last_in_set [of "h # xs"] hd_in_set [of "ys @ [h]"] by auto
  have s: "nw_unlink w s = set_blink w 0 (set_flink w 0 (set_blink ?n ?p (set_flink ?p ?n s)))"
    using ne by (simp add: nw_unlink_def e)
  have "linked (nw_unlink w s) h (xs @ ys) h"
  proof (cases ys)
    case Nil
    have "linked (set_blink h ?p (set_flink ?p h s)) h xs h"
      by (rule linked_end [OF l(1)]) (use l(3) in auto)
    then show ?thesis using l(3) Nil by (simp add: s)
  next
    case (Cons y zs)
    have n: "?n = y" by (simp add: Cons)
    have "linked (set_blink y ?p (set_flink ?p y s)) h xs y"
      by (rule linked_end [OF l(1)]) (use l(3) Cons in auto)
    then have a: "linked (nw_unlink w s) h xs y" using l(3) Cons by (auto simp: s n)
    have "?p \<notin> set (y # zs)" using ne(3) l(3) Cons by auto
    moreover have "linked s y zs h" using l(2) Cons by simp
    ultimately have "linked (nw_unlink w s) y zs h" using l(3) Cons by (auto simp: s n)
    then show ?thesis using a by (simp add: Cons linked_append)
  qed
  then show "wait_ring (nw_unlink w s) h (xs @ ys)" using l by (auto simp: wait_ring_def)
  show "flink (nw_unlink w s) w = 0" by (simp add: s)
qed


text \<open>Nodes on no list have a null link, which is what \<open>core_notify_cancel\<close> goes by.\<close>

definition loose :: "links \<Rightarrow> ptr \<Rightarrow> ptr list \<Rightarrow> bool" where
  "loose s head xs \<longleftrightarrow> (\<forall>p. p \<notin> set (head # xs) \<longrightarrow> flink s p = 0)"

lemma linked_nonnull: "linked s a xs b \<Longrightarrow> b \<noteq> 0 \<Longrightarrow> 0 \<notin> set xs \<Longrightarrow> p \<in> set (a # xs) \<Longrightarrow> flink s p \<noteq> 0"
  by (induction xs arbitrary: a) auto

lemma parked_iff:
  assumes "wait_ring s h xs" "loose s h xs" "p \<noteq> h"
  shows "flink s p = 0 \<longleftrightarrow> p \<notin> set xs"
  using assms linked_nonnull [of s h xs h p] by (auto simp: wait_ring_def loose_def)

lemma loose_append:
  assumes "wait_ring s h xs" "loose s h xs"
  shows "loose (nw_append h w s) h (xs @ [w])"
proof -
  have "blink s h = last (h # xs)" using assms(1) ring_end by (fastforce simp: wait_ring_def)
  then have "blink s h \<in> set (h # xs)" using last_in_set [of "h # xs"] by simp
  then show ?thesis using assms(2) by (auto simp: loose_def nw_append_def Let_def split: if_splits)
qed

lemma loose_unlink:
  assumes "wait_ring s h (xs @ w # ys)" "loose s h (xs @ w # ys)"
  shows "loose (nw_unlink w s) h (xs @ ys)"
proof -
  have "blink s w = last (h # xs)" using assms(1) ring_end by (fastforce simp: wait_ring_def linked_append)
  then have "blink s w \<in> set (h # xs)" using last_in_set [of "h # xs"] by simp
  then show ?thesis using assms(2) by (auto simp: loose_def nw_unlink_def Let_def)
qed

end
