(* ===== verification/Notify_Queue.thy ===== *)
theory Notify_Queue
  imports Wait_List Sched_Facts
begin

text \<open>
  The notification queue of \<open>src_drv/ioctl.c\<close>: a ring of a hundred events and an intrusive list of parked
  waiters, with the three calls to the owner. \<open>owner\<close> is the state those calls act on. The delivery loop ends
  only if the waiters really are a list, so its result is an option.
\<close>

section \<open>The code\<close>

record 'o core_notify =
  nq_events :: "sched_event list"
  nq_head :: s32
  nq_count :: s32
  nq_dropped :: u32
  waiters :: ptr
  nq_links :: links
  waiter_count :: s32
  delivering :: bool
  nq_claim :: ptr
  nq_deliver :: ptr
  nq_abort :: ptr
  nq_ctx :: ptr
  owner :: 'o

record 'o notify_seams =
  call_ntf_claim :: "ptr \<Rightarrow> ptr \<Rightarrow> ptr \<Rightarrow> 'o \<Rightarrow> bool \<times> 'o"
  call_ntf_deliver :: "ptr \<Rightarrow> ptr \<Rightarrow> ptr \<Rightarrow> sched_event \<Rightarrow> 'o \<Rightarrow> 'o"
  call_ntf_abort :: "ptr \<Rightarrow> ptr \<Rightarrow> ptr \<Rightarrow> 'o \<Rightarrow> 'o"

definition core_notify_init :: "ptr \<Rightarrow> ptr \<Rightarrow> ptr \<Rightarrow> ptr \<Rightarrow> 'o core_notify \<Rightarrow> 'o core_notify" where
  "core_notify_init claim deliver abort ctx n =
     n\<lparr>nq_events := replicate 100 \<lparr>ev_type = 0, arg1 = 0, arg2 = 0\<rparr>, nq_head := 0, nq_count := 0, nq_dropped := 0,
       nq_links := nw_init (waiters n) (nq_links n), waiter_count := 0, delivering := False,
       nq_claim := claim, nq_deliver := deliver, nq_abort := abort, nq_ctx := ctx\<rparr>"

text \<open>The front waiter taken off the list, and whether it is still ours.\<close>

definition take_waiter :: "'o notify_seams \<Rightarrow> 'o core_notify \<Rightarrow> ptr \<times> bool \<times> 'o core_notify" where
  "take_waiter N n =
     (let w = flink (nq_links n) (waiters n);
          n = n\<lparr>nq_links := nw_unlink w (nq_links n), waiter_count := waiter_count n - 1\<rparr>;
          (got, ow) = (if nq_claim n \<noteq> 0 then call_ntf_claim N (nq_claim n) (nq_ctx n) w (owner n) else (True, owner n))
      in (w, got, n\<lparr>owner := ow\<rparr>))"

partial_function (option) notify_pump :: "'o notify_seams \<Rightarrow> 'o core_notify \<Rightarrow> 'o core_notify option" where
  "notify_pump N n =
     (if nq_count n > 0 \<and> \<not> nw_empty (waiters n) (nq_links n) then
        let (w, got, n) = take_waiter N n
        in if \<not> got then notify_pump N n
           else
             let e = nq_events n ! nat (nq_head n);
                 n = n\<lparr>nq_head := (nq_head n + 1) smod 100, nq_count := nq_count n - 1\<rparr>;
                 n = (if nq_deliver n \<noteq> 0 then n\<lparr>owner := call_ntf_deliver N (nq_deliver n) (nq_ctx n) w e (owner n)\<rparr> else n)
             in notify_pump N n
      else Some (n\<lparr>delivering := False\<rparr>))"

definition core_notify_post :: "'o notify_seams \<Rightarrow> u32 \<Rightarrow> u32 \<Rightarrow> u32 \<Rightarrow> 'o core_notify \<Rightarrow> 'o core_notify option" where
  "core_notify_post N type a1 a2 n =
     (let n = (if nq_count n \<ge> 100 then
                 n\<lparr>nq_head := (nq_head n + 1) smod 100, nq_count := nq_count n - 1, nq_dropped := nq_dropped n + 1\<rparr>
               else n);
          slot = (nq_head n + nq_count n) smod 100;
          n = n\<lparr>nq_events := (nq_events n)[nat slot := \<lparr>ev_type = type, arg1 = a1, arg2 = a2\<rparr>], nq_count := nq_count n + 1\<rparr>
      in if \<not> nw_empty (waiters n) (nq_links n) \<and> \<not> delivering n then notify_pump N (n\<lparr>delivering := True\<rparr>)
         else Some n)"

definition core_notify_wait :: "'o notify_seams \<Rightarrow> ptr \<Rightarrow> 'o core_notify \<Rightarrow> (bool \<times> 'o core_notify) option" where
  "core_notify_wait N w n =
     (if w = 0 then Some (False, n)
      else
        let n = n\<lparr>nq_links := nw_append (waiters n) w (nq_links n), waiter_count := waiter_count n + 1\<rparr>
        in if nq_count n > 0 \<and> \<not> delivering n then do {
             let before = nq_count n;
             n \<leftarrow> notify_pump N (n\<lparr>delivering := True\<rparr>);
             Some (nq_count n < before, n) }
           else Some (False, n))"

definition core_notify_cancel :: "ptr \<Rightarrow> 'o core_notify \<Rightarrow> bool \<times> 'o core_notify" where
  "core_notify_cancel w n =
     (if w = 0 \<or> flink (nq_links n) w = 0 then (False, n)
      else (True, n\<lparr>nq_links := nw_unlink w (nq_links n), waiter_count := waiter_count n - 1\<rparr>))"

partial_function (option) core_notify_flush :: "'o notify_seams \<Rightarrow> 'o core_notify \<Rightarrow> 'o core_notify option" where
  "core_notify_flush N n =
     (if \<not> nw_empty (waiters n) (nq_links n) then
        let (w, got, n) = take_waiter N n;
            n = (if got \<and> nq_abort n \<noteq> 0 then n\<lparr>owner := call_ntf_abort N (nq_abort n) (nq_ctx n) w (owner n)\<rparr> else n)
        in core_notify_flush N n
      else Some n)"

section \<open>What the queue is\<close>

text \<open>Its events, oldest first, and its waiters in the order they parked.\<close>

definition waiting :: "'o core_notify \<Rightarrow> sched_event list" where
  "waiting n = map (\<lambda>i. nq_events n ! ((nat (nq_head n) + i) mod 100)) [0..<nat (nq_count n)]"

definition nq_ok :: "'o core_notify \<Rightarrow> ptr list \<Rightarrow> bool" where
  "nq_ok n ws \<longleftrightarrow> length (nq_events n) = 100 \<and> 0 \<le> nq_head n \<and> nq_head n < 100 \<and> 0 \<le> nq_count n \<and> nq_count n \<le> 100 \<and>
     wait_ring (nq_links n) (waiters n) ws \<and> loose (nq_links n) (waiters n) ws \<and> waiter_count n = int (length ws)"

text \<open>Between calls no waiter is parked while an event is pending.\<close>

definition nq_idle :: "'o core_notify \<Rightarrow> ptr list \<Rightarrow> bool" where
  "nq_idle n ws \<longleftrightarrow> nq_ok n ws \<and> \<not> delivering n \<and> (waiting n = [] \<or> ws = [])"

text \<open>The contract: events are served to waiters one for one, in order, and a waiter that was cancelled is
  dropped without an event.\<close>

definition claim_waiter :: "'o notify_seams \<Rightarrow> 'o core_notify \<Rightarrow> ptr \<Rightarrow> 'o \<Rightarrow> bool \<times> 'o" where
  "claim_waiter N n w ow = (if nq_claim n \<noteq> 0 then call_ntf_claim N (nq_claim n) (nq_ctx n) w ow else (True, ow))"

definition deliver_to :: "'o notify_seams \<Rightarrow> 'o core_notify \<Rightarrow> ptr \<Rightarrow> sched_event \<Rightarrow> 'o \<Rightarrow> 'o" where
  "deliver_to N n w e ow = (if nq_deliver n \<noteq> 0 then call_ntf_deliver N (nq_deliver n) (nq_ctx n) w e ow else ow)"

fun serve :: "'o notify_seams \<Rightarrow> 'o core_notify \<Rightarrow> sched_event list \<Rightarrow> ptr list \<Rightarrow> 'o \<Rightarrow>
    sched_event list \<times> ptr list \<times> 'o" where
  "serve N n [] ws ow = ([], ws, ow)"
| "serve N n es [] ow = (es, [], ow)"
| "serve N n (e # es) (w # ws) ow =
     (let (got, ow) = claim_waiter N n w ow
      in if got then serve N n es ws (deliver_to N n w e ow) else serve N n (e # es) ws ow)"

text \<open>What a run of the loop leaves alone.\<close>

definition nq_fixed where
  "nq_fixed n = (nq_dropped n, waiters n, nq_claim n, nq_deliver n, nq_abort n, nq_ctx n)"

section \<open>The loop implements the contract\<close>

lemma waiting_length [simp]: "length (waiting n) = nat (nq_count n)"
  by (simp add: waiting_def)

lemma waiting_nil: "0 \<le> nq_count n \<Longrightarrow> waiting n = [] \<longleftrightarrow> nq_count n = 0"
  by (metis waiting_length length_0_conv nat_0_iff order_antisym_conv)

lemma waiting_cong [simp]:
  "waiting (n\<lparr>nq_links := l\<rparr>) = waiting n" "waiting (n\<lparr>waiter_count := c\<rparr>) = waiting n"
  "waiting (n\<lparr>owner := ow\<rparr>) = waiting n" "waiting (n\<lparr>delivering := d\<rparr>) = waiting n"
  by (simp_all add: waiting_def)

lemma waiting_pop:
  assumes "nq_ok n ws" "0 < nq_count n"
  shows "waiting n = nq_events n ! nat (nq_head n) #
      waiting (n\<lparr>nq_head := (nq_head n + 1) smod 100, nq_count := nq_count n - 1\<rparr>)"
proof -
  have h: "0 \<le> nq_head n" "nq_head n < 100" using assms(1) by (simp_all add: nq_ok_def)
  have "(nat ((nq_head n + 1) smod 100) + i) mod 100 = (nat (nq_head n) + Suc i) mod 100" for i
    using h by (simp add: smod_hundred nat_mod_hundred nat_add_distrib mod_simps)
  moreover have "nat (nq_count n) = Suc (nat (nq_count n - 1))" using assms(2) by simp
  ultimately show ?thesis using h
    by (simp add: waiting_def upt_conv_Cons nat_less_iff map_Suc_upt [symmetric] del: upt_Suc)
qed

lemma pop_ok:
  "nq_ok n ws \<Longrightarrow> 0 < nq_count n \<Longrightarrow> nq_ok (n\<lparr>nq_head := (nq_head n + 1) smod 100, nq_count := nq_count n - 1\<rparr>) ws"
  by (auto simp: nq_ok_def smod_hundred)

lemma take_waiter_step:
  assumes "nq_ok n (w # ws)" "claim_waiter N n w (owner n) = (got, ow)"
  obtains n' where "take_waiter N n = (w, got, n')" "nq_ok n' ws" "waiting n' = waiting n" "owner n' = ow"
    "nq_fixed n' = nq_fixed n" "delivering n' = delivering n" "nq_count n' = nq_count n" "nq_head n' = nq_head n"
    "nq_events n' = nq_events n"
proof -
  have r: "wait_ring (nq_links n) (waiters n) (w # ws)" using assms(1) by (simp add: nq_ok_def)
  let ?n = "n\<lparr>nq_links := nw_unlink w (nq_links n), waiter_count := waiter_count n - 1, owner := ow\<rparr>"
  have "take_waiter N n = (w, got, ?n)"
    using assms(2) ring_first [OF r] by (simp add: take_waiter_def claim_waiter_def Let_def split: if_splits)
  moreover have "nq_ok ?n ws" using assms(1) ring_unlink(1) [of _ _ "[]" w ws] loose_unlink [of _ _ "[]" w ws] r by (simp add: nq_ok_def)
  ultimately show thesis by (intro that [of ?n]) (simp_all add: nq_fixed_def)
qed

lemma claim_fixed: "nq_fixed n' = nq_fixed n \<Longrightarrow> claim_waiter N n' = claim_waiter N n"
  "nq_fixed n' = nq_fixed n \<Longrightarrow> deliver_to N n' = deliver_to N n"
  by (auto simp: nq_fixed_def claim_waiter_def deliver_to_def fun_eq_iff)

lemma serve_cong:
  assumes "claim_waiter N n' = claim_waiter N n" "deliver_to N n' = deliver_to N n"
  shows "serve N n' es ws ow = serve N n es ws ow"
proof (induction ws arbitrary: es ow)
  case Nil
  then show ?case by (cases es) simp_all
next
  case (Cons w ws)
  then show ?case by (cases es) (simp_all add: assms split: prod.split)
qed

lemma serve_fixed: "nq_fixed n' = nq_fixed n \<Longrightarrow> serve N n' es ws ow = serve N n es ws ow"
  by (rule serve_cong) (erule claim_fixed)+

lemma nq_empty: "nq_ok n ws \<Longrightarrow> nw_empty (waiters n) (nq_links n) \<longleftrightarrow> ws = []"
  unfolding nq_ok_def using ring_empty by blast

lemma notify_pump_serves:
  assumes "nq_ok n ws" "serve N n (waiting n) ws (owner n) = (es, vs, ow)"
  shows "\<exists>n'. notify_pump N n = Some n' \<and> nq_ok n' vs \<and> waiting n' = es \<and> owner n' = ow \<and> \<not> delivering n' \<and>
    nq_fixed n' = nq_fixed n"
  using assms
proof (induction ws arbitrary: n)
  case Nil
  then have "nw_empty (waiters n) (nq_links n)" by (simp add: nq_empty)
  moreover have "es = waiting n" "vs = []" "ow = owner n" using Nil by (cases "waiting n"; auto)+
  ultimately show ?case using Nil by (simp add: notify_pump.simps nq_ok_def nq_fixed_def)
next
  case (Cons w ws)
  have ne: "\<not> nw_empty (waiters n) (nq_links n)" using Cons.prems(1) by (simp add: nq_empty)
  show ?case
  proof (cases "0 < nq_count n")
    case False
    then have "waiting n = []" using Cons.prems(1) by (simp add: waiting_nil nq_ok_def)
    then show ?thesis using Cons.prems False by (auto simp: notify_pump.simps [of N n] nq_ok_def nq_fixed_def)
  next
    case True
    obtain got ow1 where c: "claim_waiter N n w (owner n) = (got, ow1)" by fastforce
    obtain n1 where t: "take_waiter N n = (w, got, n1)" "nq_ok n1 ws" "waiting n1 = waiting n" "owner n1 = ow1"
      "nq_fixed n1 = nq_fixed n" "nq_count n1 = nq_count n" "nq_head n1 = nq_head n" "nq_events n1 = nq_events n"
      by (rule take_waiter_step [OF Cons.prems(1) c])
    let ?n2 = "n1\<lparr>nq_head := (nq_head n1 + 1) smod 100, nq_count := nq_count n1 - 1\<rparr>"
    let ?e = "nq_events n1 ! nat (nq_head n1)"
    have pop: "waiting n1 = ?e # waiting ?n2" "nq_ok ?n2 ws" using waiting_pop [OF t(2)] pop_ok [OF t(2)] True t(6) by simp_all
    show ?thesis
    proof (cases got)
      case False
      have "serve N n1 (waiting n1) ws (owner n1) = (es, vs, ow)"
        using Cons.prems(2) pop(1) t(3,4) c False by (simp add: serve_fixed [OF t(5)])
      from Cons.IH [OF t(2) this] show ?thesis using True ne t(1,5) False
        by (simp add: notify_pump.simps [of N n])
    next
      case got: True
      let ?n3 = "?n2\<lparr>owner := deliver_to N n w ?e ow1\<rparr>"
      have step: "(if nq_deliver ?n2 \<noteq> 0 then ?n2\<lparr>owner := call_ntf_deliver N (nq_deliver ?n2) (nq_ctx ?n2) w ?e (owner ?n2)\<rparr>
          else ?n2) = ?n3"
        using t(4,5) by (simp add: deliver_to_def nq_fixed_def)
      have fx: "nq_fixed ?n3 = nq_fixed n" using t(5) by (simp add: nq_fixed_def)
      have "nq_ok ?n3 ws" using pop(2) by (simp add: nq_ok_def)
      moreover have "serve N ?n3 (waiting ?n3) ws (owner ?n3) = (es, vs, ow)"
        using Cons.prems(2) pop(1) t(3) c got by (simp add: serve_fixed [OF fx])
      ultimately have "\<exists>n'. notify_pump N ?n3 = Some n' \<and> nq_ok n' vs \<and> waiting n' = es \<and> owner n' = ow \<and>
          \<not> delivering n' \<and> nq_fixed n' = nq_fixed ?n3" by (rule Cons.IH)
      moreover have "notify_pump N n = notify_pump N ?n3"
        using True ne t(1) got step by (simp add: notify_pump.simps [of N n] Let_def)
      ultimately show ?thesis using fx by simp
    qed
  qed
qed


lemma serve_drains: "serve N n es ws ow = (es', vs, ow') \<Longrightarrow> es' = [] \<or> vs = []"
  by (induction N n es ws ow rule: serve.induct) (auto split: prod.splits if_splits)

section \<open>The calls\<close>

lemma waiting_push:
  assumes "nq_ok n ws" "nq_count n < 100"
  shows "waiting (n\<lparr>nq_events := (nq_events n)[nat ((nq_head n + nq_count n) smod 100) := x], nq_count := nq_count n + 1\<rparr>) =
    waiting n @ [x]"
proof -
  have b: "length (nq_events n) = 100" "nat (nq_head n) < 100" "nat (nq_count n) < 100" "0 \<le> nq_head n" "0 \<le> nq_count n"
    using assms by (auto simp: nq_ok_def)
  then have at: "nat ((nq_head n + nq_count n) smod 100) = (nat (nq_head n) + nat (nq_count n)) mod 100"
    "nat (nq_count n + 1) = Suc (nat (nq_count n))" by (simp_all add: smod_hundred nat_mod_distrib nat_add_distrib)
  show ?thesis using ring_snoc [OF b(1-3), of x] by (simp add: waiting_def at del: upt_Suc)
qed

text \<open>What posting makes of the pending events.\<close>

definition push_event :: "sched_event \<Rightarrow> sched_event list \<Rightarrow> sched_event list" where
  "push_event e es = (if length es = 100 then tl es else es) @ [e]"

text \<open>The events of a post, the waiters of a wait, and what the contract makes of them.\<close>

lemma post_implements:
  assumes idle: "nq_idle n ws"
    and spec: "serve N n (push_event \<lparr>ev_type = ty, arg1 = a, arg2 = b\<rparr> (waiting n)) ws (owner n) = (es, vs, ow)"
  shows "\<exists>n'. core_notify_post N ty a b n = Some n' \<and> nq_idle n' vs \<and> waiting n' = es \<and> owner n' = ow \<and>
    nq_dropped n' = nq_dropped n + (if length (waiting n) = 100 then 1 else 0) \<and>
    (waiters n', nq_claim n', nq_deliver n', nq_abort n', nq_ctx n') = (waiters n, nq_claim n, nq_deliver n, nq_abort n, nq_ctx n)"
proof -
  let ?e = "\<lparr>ev_type = ty, arg1 = a, arg2 = b\<rparr>"
  define m where "m = (if nq_count n \<ge> 100 then
      n\<lparr>nq_head := (nq_head n + 1) smod 100, nq_count := nq_count n - 1, nq_dropped := nq_dropped n + 1\<rparr> else n)"
  let ?n = "m\<lparr>nq_events := (nq_events m)[nat ((nq_head m + nq_count m) smod 100) := ?e], nq_count := nq_count m + 1\<rparr>"
  have ok: "nq_ok n ws" "\<not> delivering n" using idle by (simp_all add: nq_idle_def)
  have len: "length (waiting n) = 100 \<longleftrightarrow> nq_count n \<ge> 100" using ok(1) by (auto simp: nq_ok_def)
  have m: "nq_ok m ws" "nq_count m < 100" "waiting m @ [?e] = push_event ?e (waiting n)"
    "nq_dropped m = nq_dropped n + (if length (waiting n) = 100 then 1 else 0)" "owner m = owner n" "\<not> delivering m"
    "(waiters m, nq_claim m, nq_deliver m, nq_abort m, nq_ctx m) = (waiters n, nq_claim n, nq_deliver n, nq_abort n, nq_ctx n)"
  proof -
    let ?p = "n\<lparr>nq_head := (nq_head n + 1) smod 100, nq_count := nq_count n - 1\<rparr>"
    have "waiting m = waiting ?p" if "nq_count n \<ge> 100" using that by (simp add: m_def waiting_def)
    then show "waiting m @ [?e] = push_event ?e (waiting n)"
      using waiting_pop [OF ok(1)] len by (cases "nq_count n \<ge> 100") (simp_all add: push_event_def m_def)
    show "nq_ok m ws" "nq_count m < 100" using pop_ok [OF ok(1)] ok(1) by (auto simp: m_def nq_ok_def)
  qed (use len ok(2) in \<open>simp_all add: m_def\<close>)
  have push: "waiting ?n = push_event ?e (waiting n)" using waiting_push [OF m(1,2)] m(3) by simp
  have okn: "nq_ok ?n ws" using m(1,2) by (simp add: nq_ok_def)
  have fx: "nq_fixed ?n = nq_fixed m" by (simp add: nq_fixed_def)
  have post: "core_notify_post N ty a b n =
      (if ws \<noteq> [] then notify_pump N (?n\<lparr>delivering := True\<rparr>) else Some ?n)"
    using nq_empty [OF okn] m(6) by (simp add: core_notify_post_def m_def [symmetric] Let_def)
  show ?thesis
  proof (cases "ws = []")
    case True
    then have "es = push_event ?e (waiting n)" "vs = []" "ow = owner n"
      using spec by (cases "push_event ?e (waiting n)"; auto)+
    then show ?thesis using post True push okn m(4-7) by (simp add: nq_idle_def)
  next
    case False
    let ?d = "?n\<lparr>delivering := True\<rparr>"
    have okd: "nq_ok ?d ws" using okn by (simp add: nq_ok_def)
    have "claim_waiter N ?d = claim_waiter N n" "deliver_to N ?d = deliver_to N n"
      using m(7) by (simp_all add: claim_waiter_def deliver_to_def fun_eq_iff)
    note cg = serve_cong [OF this]
    have pd: "waiting ?d = push_event ?e (waiting n)" "owner ?d = owner n" using push m(5) by simp_all
    have "serve N ?d (waiting ?d) ws (owner ?d) = (es, vs, ow)" unfolding pd cg by (rule spec)
    from notify_pump_serves [OF okd this] obtain n' where "notify_pump N ?d = Some n'" "nq_ok n' vs" "waiting n' = es" "owner n' = ow"
      "\<not> delivering n'" "nq_fixed n' = nq_fixed ?d" by blast
    then show ?thesis using post False m(4,7) serve_drains [OF spec] by (auto simp: nq_idle_def nq_fixed_def)
  qed
qed


lemma wait_implements:
  assumes idle: "nq_idle n ws" and fresh: "w \<noteq> 0" "w \<noteq> waiters n" "w \<notin> set ws"
    and spec: "serve N n (waiting n) (ws @ [w]) (owner n) = (es, vs, ow)"
  shows "\<exists>n'. core_notify_wait N w n = Some (length es < length (waiting n), n') \<and> nq_idle n' vs \<and> waiting n' = es \<and>
    owner n' = ow \<and> nq_fixed n' = nq_fixed n"
proof -
  let ?n = "n\<lparr>nq_links := nw_append (waiters n) w (nq_links n), waiter_count := waiter_count n + 1\<rparr>"
  have ok: "nq_ok n ws" "\<not> delivering n" "waiting n = [] \<or> ws = []" using idle by (simp_all add: nq_idle_def)
  have okn: "nq_ok ?n (ws @ [w])"
    using ok(1) ring_append [of "nq_links n" "waiters n" ws w] loose_append [of "nq_links n" "waiters n" ws w] fresh
    by (simp add: nq_ok_def)
  have fx: "nq_fixed ?n = nq_fixed n" by (simp add: nq_fixed_def)
  have run: "core_notify_wait N w n = (if nq_count n > 0 then
      do { n' \<leftarrow> notify_pump N (?n\<lparr>delivering := True\<rparr>); Some (nq_count n' < nq_count n, n') } else Some (False, ?n))"
    using fresh(1) ok(2) by (simp add: core_notify_wait_def Let_def)
  show ?thesis
  proof (cases "nq_count n > 0")
    case False
    then have "waiting n = []" using ok(1) by (simp add: waiting_nil nq_ok_def)
    then show ?thesis using spec run False okn fx ok(2) by (simp add: nq_idle_def)
  next
    case True
    let ?d = "?n\<lparr>delivering := True\<rparr>"
    have okd: "nq_ok ?d (ws @ [w])" using okn by (simp add: nq_ok_def)
    have fd: "nq_fixed ?d = nq_fixed n" by (simp add: nq_fixed_def)
    have pd: "waiting ?d = waiting n" "owner ?d = owner n" by simp_all
    have "serve N ?d (waiting ?d) (ws @ [w]) (owner ?d) = (es, vs, ow)" unfolding pd serve_fixed [OF fd] by (rule spec)
    from notify_pump_serves [OF okd this] obtain n' where p: "notify_pump N ?d = Some n'" "nq_ok n' vs" "waiting n' = es"
      "owner n' = ow" "\<not> delivering n'" "nq_fixed n' = nq_fixed ?d" by blast
    have "nq_count n' = int (length es)" "nq_count n = int (length (waiting n))"
      using p(2,3) ok(1) by (auto simp: nq_ok_def)
    then have "(nq_count n' < nq_count n) = (length es < length (waiting n))" by linarith
    moreover have "core_notify_wait N w n = Some (nq_count n' < nq_count n, n')" using run True p(1) by simp
    moreover have "nq_idle n' vs" using p serve_drains [OF spec] by (auto simp: nq_idle_def)
    ultimately show ?thesis using p(3,4,6) fd by simp
  qed
qed

lemma cancel_implements:
  assumes idle: "nq_idle n ws" and w: "w \<noteq> waiters n"
  shows "\<exists>n'. core_notify_cancel w n = (w \<in> set ws, n') \<and> nq_idle n' (remove1 w ws) \<and> waiting n' = waiting n \<and>
    owner n' = owner n \<and> nq_fixed n' = nq_fixed n"
proof -
  have ok: "nq_ok n ws" "\<not> delivering n" "waiting n = [] \<or> ws = []" using idle by (simp_all add: nq_idle_def)
  have r: "wait_ring (nq_links n) (waiters n) ws" "loose (nq_links n) (waiters n) ws" using ok(1) by (simp_all add: nq_ok_def)
  have null: "0 \<notin> set ws" using r(1) by (simp add: wait_ring_def)
  note parked = parked_iff [OF r w]
  show ?thesis
  proof (cases "w \<in> set ws")
    case False
    then have "core_notify_cancel w n = (False, n)" using parked by (simp add: core_notify_cancel_def)
    then show ?thesis using False idle by (auto simp: remove1_idem)
  next
    case True
    then have nz: "w \<noteq> 0" using null by metis
    from True obtain xs ys where ws: "ws = xs @ w # ys" "w \<notin> set xs" by (meson split_list_first)
    let ?n = "n\<lparr>nq_links := nw_unlink w (nq_links n), waiter_count := waiter_count n - 1\<rparr>"
    have "core_notify_cancel w n = (True, ?n)" using True parked nz by (simp add: core_notify_cancel_def)
    moreover have "remove1 w ws = xs @ ys" using ws by (simp add: remove1_append)
    moreover have "nq_idle ?n (xs @ ys)"
      using ok r ring_unlink(1) [of _ _ xs w ys] loose_unlink [of _ _ xs w ys] ws(1)
      by (simp add: nq_idle_def nq_ok_def)
    ultimately show ?thesis using True by (simp add: nq_fixed_def)
  qed
qed

text \<open>A flush takes every waiter off the list, and aborts those that were still ours.\<close>

fun abort_all :: "'o notify_seams \<Rightarrow> 'o core_notify \<Rightarrow> ptr list \<Rightarrow> 'o \<Rightarrow> 'o" where
  "abort_all N n [] ow = ow"
| "abort_all N n (w # ws) ow =
     (let (got, ow) = claim_waiter N n w ow
      in abort_all N n ws (if got \<and> nq_abort n \<noteq> 0 then call_ntf_abort N (nq_abort n) (nq_ctx n) w ow else ow))"

lemma flush_implements:
  assumes "nq_idle n ws"
  shows "\<exists>n'. core_notify_flush N n = Some n' \<and> nq_idle n' [] \<and> waiting n' = waiting n \<and>
    owner n' = abort_all N n ws (owner n) \<and> nq_fixed n' = nq_fixed n"
  using assms
proof (induction ws arbitrary: n)
  case Nil
  then have "nw_empty (waiters n) (nq_links n)" by (auto simp: nq_idle_def nq_empty)
  then show ?case using Nil by (simp add: core_notify_flush.simps [of N n])
next
  case (Cons w ws)
  have ok: "nq_ok n (w # ws)" "\<not> delivering n" "waiting n = []" using Cons.prems by (auto simp: nq_idle_def)
  have ne: "\<not> nw_empty (waiters n) (nq_links n)" using ok(1) by (simp add: nq_empty)
  obtain got ow where c: "claim_waiter N n w (owner n) = (got, ow)" by fastforce
  obtain n1 where t: "take_waiter N n = (w, got, n1)" "nq_ok n1 ws" "waiting n1 = waiting n" "owner n1 = ow"
    "nq_fixed n1 = nq_fixed n" "delivering n1 = delivering n" by (rule take_waiter_step [OF ok(1) c])
  define ow2 where "ow2 = (if got \<and> nq_abort n \<noteq> 0 then call_ntf_abort N (nq_abort n) (nq_ctx n) w ow else ow)"
  let ?n2 = "n1\<lparr>owner := ow2\<rparr>"
  have step: "(if got \<and> nq_abort n1 \<noteq> 0 then n1\<lparr>owner := call_ntf_abort N (nq_abort n1) (nq_ctx n1) w (owner n1)\<rparr> else n1) = ?n2"
    using t(4,5) by (simp add: ow2_def nq_fixed_def)
  have fx: "nq_fixed ?n2 = nq_fixed n" using t(5) by (simp add: nq_fixed_def)
  have "nq_idle ?n2 ws" using t ok by (simp add: nq_idle_def nq_ok_def)
  from Cons.IH [OF this] obtain n' where i: "core_notify_flush N ?n2 = Some n'" "nq_idle n' []" "waiting n' = waiting ?n2"
    "owner n' = abort_all N ?n2 ws (owner ?n2)" "nq_fixed n' = nq_fixed ?n2" by blast
  have "core_notify_flush N n = core_notify_flush N ?n2"
    using ne t(1) step by (simp add: core_notify_flush.simps [of N n] Let_def)
  moreover have "abort_all N ?n2 vs o2 = abort_all N n vs o2" for vs o2
  proof (induction vs arbitrary: o2)
    case (Cons v vs)
    then show ?case using fx claim_fixed(1) [OF fx] by (auto simp: nq_fixed_def split: prod.split)
  qed simp
  moreover have "owner ?n2 = ow2" by simp
  ultimately show ?case using i t(3) c fx by (simp add: ow2_def)
qed

end
