(* ===== verification/Control_Device.thy ===== *)
theory Control_Device
  imports Notify_Queue Ioctl_Device
begin

text \<open>
  The control device of \<open>src_drv/ioctl.c\<close>: the registry of adapters and the dispatcher of the driver-wide
  codes, which forwards what is left to the adapter named by a handle.

  An entry lives in its adapter's extension: \<open>entry\<close> is the store of them and \<open>devices\<close> the addresses on the
  list, front first (the links are those of \<open>Wait_List\<close>). A function that posts a notification has an
  optional result, as the queue's own functions do.
\<close>

section \<open>The registry\<close>

abbreviation (input) CORE_ST_NO_SUCH_DEVICE :: u32 where "CORE_ST_NO_SUCH_DEVICE \<equiv> 0xC000000E"
abbreviation (input) CORE_ST_DELETE_PENDING :: u32 where "CORE_ST_DELETE_PENDING \<equiv> 0xC0000056"

record 'w core_device_entry =
  handle :: u32
  dev_cs :: "'w core_state option"
  dev_sched :: "core_sched option"
  live :: bool
  needs_resubmit :: bool
  dev_vendor :: ptr
  dev_enable :: ptr
  cmd_claim :: ptr
  cmd_xfer :: ptr
  os_ctx :: ptr

record ('w, 'o) core_registry =
  devices :: "ptr list"
  entry :: "ptr \<Rightarrow> 'w core_device_entry"
  dev_count :: s32
  live_count :: s32
  generation :: u32
  reg_button_map :: "u8 list"
  reg_reports_enabled :: bool
  notify :: "'o core_notify"

definition map_entry :: "ptr \<Rightarrow> ('w core_device_entry \<Rightarrow> 'w core_device_entry) \<Rightarrow> ('w, 'o) core_registry \<Rightarrow>
    ('w, 'o) core_registry" where
  "map_entry d f reg = reg\<lparr>entry := (entry reg)(d := f (entry reg d))\<rparr>"

definition core_registry_init :: "('w, 'o) core_registry \<Rightarrow> ('w, 'o) core_registry" where
  "core_registry_init reg =
     reg\<lparr>devices := [], dev_count := 0, live_count := 0, generation := 0, reg_reports_enabled := False,
       reg_button_map := [0, 3, 9, 8, 10, 11, 12, 13, 0xFF, 0xFF, 6, 7, 5, 1, 4, 2],
       notify := core_notify_init 0 0 0 0 (notify reg)\<rparr>"

definition core_registry_add :: "ptr \<Rightarrow> ('w, 'o) core_registry \<Rightarrow> ('w, 'o) core_registry" where
  "core_registry_add ent reg =
     (if ent = 0 then reg else reg\<lparr>devices := devices reg @ [ent], dev_count := to_s32 (dev_count reg + 1)\<rparr>)"

definition core_registry_set_live ::
    "'o notify_seams \<Rightarrow> ptr \<Rightarrow> bool \<Rightarrow> ('w, 'o) core_registry \<Rightarrow> ('w, 'o) core_registry option" where
  "core_registry_set_live N ent on reg =
     (if ent = 0 \<or> live (entry reg ent) = on then Some reg
      else do {
        let reg = map_entry ent (live_update (\<lambda>_. on)) reg;
        let reg = reg\<lparr>generation := generation reg + 1, live_count := to_s32 (live_count reg + (if on then 1 else - 1))\<rparr>;
        n \<leftarrow> core_notify_post N 99 0 (handle (entry reg ent)) (notify reg);
        n \<leftarrow> (if \<not> on \<and> live_count reg = 0 then core_notify_flush N n else Some n);
        Some (reg\<lparr>notify := n\<rparr>) })"

text \<open>An entry is on the list when its link is not null.\<close>

definition core_registry_remove ::
    "'o notify_seams \<Rightarrow> ptr \<Rightarrow> ('w, 'o) core_registry \<Rightarrow> ('w, 'o) core_registry option" where
  "core_registry_remove N ent reg =
     (if ent = 0 \<or> ent \<notin> set (devices reg) then Some reg
      else do {
        reg \<leftarrow> (if live (entry reg ent) then core_registry_set_live N ent False reg else Some reg);
        Some (reg\<lparr>devices := remove1 ent (devices reg), dev_count := to_s32 (dev_count reg - 1)\<rparr>) })"

definition registry_find :: "('w, 'o) core_registry \<Rightarrow> u32 \<Rightarrow> ptr option" where
  "registry_find reg h = List.find (\<lambda>d. handle (entry reg d) = h) (devices reg)"

section \<open>The driver-wide codes\<close>

type_synonym ('w, 'o) ctl_result = "(u32 \<times> u32 \<times> u8 list \<times> ('w, 'o) core_registry) option"

definition ctl_refuse :: "u32 \<Rightarrow> core_ioctl \<Rightarrow> ('w, 'o) core_registry \<Rightarrow> ('w, 'o) ctl_result" where
  "ctl_refuse st r reg = Some (st, 0, ioc_out r, reg)"

text \<open>The loop over the caller's map, from entry \<open>i\<close>; and the adapters' copies.\<close>

fun apply_map :: "nat \<Rightarrow> u8 list \<Rightarrow> u8 list \<Rightarrow> u8 list" where
  "apply_map i [] m = m"
| "apply_map i (b # bs) m =
     (if i < 16 then apply_map (i + 1) bs (if b < 14 then m[i := b] else m) else m)"

definition push_map :: "u8 list \<Rightarrow> 'w core_device_entry \<Rightarrow> 'w core_device_entry" where
  "push_map m e = e\<lparr>dev_cs := map_option (button_map_update (\<lambda>_. m)) (dev_cs e)\<rparr>"

definition ctl_button_map :: "('w, 'o) core_registry \<Rightarrow> core_ioctl \<Rightarrow> ('w, 'o) ctl_result" where
  "ctl_button_map reg r = do {
     let old = reg_button_map reg;
     let reg = reg\<lparr>reg_button_map := apply_map 0 (ioc_in r) old\<rparr>;
     let reg = fold (\<lambda>d. map_entry d (push_map (reg_button_map reg))) (devices reg) reg;
     let n = min (length (ioc_out r)) 16;
     out \<leftarrow> copy_cells n old 0 (ioc_out r) 0;
     Some (CORE_ST_SUCCESS, of_nat n, out, reg) }"

text \<open>Resubmitting to the first adapter that still needs it, until none does.\<close>

definition resubmit_to :: "'w seams \<Rightarrow> bool \<Rightarrow> 'w core_device_entry \<Rightarrow> 'w core_device_entry" where
  "resubmit_to S on e =
     (let e = e\<lparr>needs_resubmit := False\<rparr>
      in case dev_cs e of None \<Rightarrow> e
         | Some cs \<Rightarrow> e\<lparr>dev_cs := Some (core_submit_joystick S None (cs\<lparr>reports_enabled := on\<rparr>))\<rparr>)"

lemma resubmit_to_done [simp]: "\<not> needs_resubmit (resubmit_to S on e)"
  by (simp add: resubmit_to_def Let_def split: option.split)

lemma map_entry_simps [simp]:
  "devices (map_entry d f reg) = devices reg" "dev_count (map_entry d f reg) = dev_count reg"
  "live_count (map_entry d f reg) = live_count reg" "generation (map_entry d f reg) = generation reg"
  "reg_button_map (map_entry d f reg) = reg_button_map reg" "notify (map_entry d f reg) = notify reg"
  "reg_reports_enabled (map_entry d f reg) = reg_reports_enabled reg"
  "entry (map_entry d f reg) = (entry reg)(d := f (entry reg d))"
  by (simp_all add: map_entry_def)

lemma find_measure:
  assumes "List.find P xs = Some d" "\<not> Q d" "\<And>x. x \<noteq> d \<Longrightarrow> Q x = P x"
  shows "length (filter Q xs) < length (filter P xs)"
proof -
  have d: "d \<in> set xs" "P d" using assms(1) by (auto simp: find_Some_iff)
  have "Q x \<longleftrightarrow> P x \<and> x \<noteq> d" for x using assms(2) assms(3) [of x] by (cases "x = d") auto
  then have "Q = (\<lambda>x. P x \<and> x \<noteq> d)" by (rule ext)
  then have "filter Q xs = filter (\<lambda>x. x \<noteq> d) (filter P xs)" by (simp only: filter_filter)
  moreover have "d \<in> set (filter P xs)" using d by simp
  ultimately show ?thesis using length_filter_less [of d "filter P xs" "\<lambda>x. x \<noteq> d"] by simp
qed

function resubmit_all :: "'w seams \<Rightarrow> ('w, 'o) core_registry \<Rightarrow> ('w, 'o) core_registry" where
  "resubmit_all S reg =
     (case List.find (\<lambda>d. needs_resubmit (entry reg d)) (devices reg) of
        None \<Rightarrow> reg
      | Some d \<Rightarrow> resubmit_all S (map_entry d (resubmit_to S (reg_reports_enabled reg)) reg))"
  by pat_completeness auto

termination
proof (relation "measure (\<lambda>(S, reg). length (filter (\<lambda>d. needs_resubmit (entry reg d)) (devices reg)))")
  fix S :: "'w seams" and reg :: "('w, 'o) core_registry" and d
  assume f: "List.find (\<lambda>d. needs_resubmit (entry reg d)) (devices reg) = Some d"
  show "((S, map_entry d (resubmit_to S (reg_reports_enabled reg)) reg), S, reg) \<in>
      measure (\<lambda>(S, reg). length (filter (\<lambda>d. needs_resubmit (entry reg d)) (devices reg)))"
    using find_measure [OF f, where Q = "\<lambda>x. needs_resubmit (entry (map_entry d (resubmit_to S (reg_reports_enabled reg)) reg) x)"]
    by simp
qed simp

declare resubmit_all.simps [simp del]

definition ctl_set_reports :: "'w seams \<Rightarrow> ('w, 'o) core_registry \<Rightarrow> core_ioctl \<Rightarrow> ('w, 'o) ctl_result" where
  "ctl_set_reports S reg r =
     (if in_len r \<noteq> 4 \<or> out_len r \<noteq> 0 then ctl_refuse CORE_ST_INVALID_PARAM r reg
      else do {
        v \<leftarrow> dword_in (ioc_in r) 0;
        let reg = reg\<lparr>reg_reports_enabled := (v \<noteq> 0)\<rparr>;
        let reg = fold (\<lambda>d. map_entry d (needs_resubmit_update (\<lambda>_. True))) (devices reg) reg;
        ctl_refuse CORE_ST_SUCCESS r (resubmit_all S reg) })"

text \<open>The walk of the list: the handle it found, and whether it is still looking for the previous one.\<close>

fun enum_loop :: "('w, 'o) core_registry \<Rightarrow> u32 \<Rightarrow> bool \<Rightarrow> ptr list \<Rightarrow> u32 option \<times> bool" where
  "enum_loop reg prev seeking [] = (None, seeking)"
| "enum_loop reg prev seeking (d # ds) =
     (if seeking then enum_loop reg prev (handle (entry reg d) \<noteq> prev) ds
      else if live (entry reg d) then (Some (handle (entry reg d)), seeking)
      else enum_loop reg prev seeking ds)"

definition ctl_enum_devices :: "('w, 'o) core_registry \<Rightarrow> core_ioctl \<Rightarrow> ('w, 'o) ctl_result" where
  "ctl_enum_devices reg r =
     (if in_len r \<noteq> 4 \<or> out_len r \<noteq> 8 then ctl_refuse CORE_ST_INVALID_PARAM r reg
      else do {
        prev \<leftarrow> dword_in (ioc_in r) 0;
        out \<leftarrow> dword_out (ioc_out r) 0 0;
        out \<leftarrow> dword_out out 4 (u32_of (live_count reg));
        let (found, seeking) = enum_loop reg prev (prev \<noteq> 0) (devices reg);
        out \<leftarrow> (case found of None \<Rightarrow> Some out | Some h \<Rightarrow> dword_out out 0 h);
        Some (if seeking then (CORE_ST_NO_SUCH_DEVICE, 0, out, reg) else (CORE_ST_SUCCESS, 8, out, reg)) })"

definition ctl_lookup :: "('w, 'o) core_registry \<Rightarrow> core_ioctl \<Rightarrow> ('w, 'o) ctl_result" where
  "ctl_lookup reg r =
     (if in_len r \<noteq> 4 \<or> out_len r \<noteq> 4 then ctl_refuse CORE_ST_INVALID_PARAM r reg
      else do {
        ident \<leftarrow> dword_in (ioc_in r) 0;
        case List.find (\<lambda>d. case dev_cs (entry reg d) of None \<Rightarrow> False | Some cs \<Rightarrow> u32_of (instance_id cs) = ident)
            (devices reg) of
          None \<Rightarrow> ctl_refuse CORE_ST_NO_SUCH_DEVICE r reg
        | Some d \<Rightarrow> do {
            out \<leftarrow> dword_out (ioc_out r) 0 (handle (entry reg d));
            Some (CORE_ST_SUCCESS, 4, out, reg) } })"

definition ctl_wait :: "'o notify_seams \<Rightarrow> ptr option \<Rightarrow> ('w, 'o) core_registry \<Rightarrow> core_ioctl \<Rightarrow> ('w, 'o) ctl_result" where
  "ctl_wait N waiter reg r =
     (if in_len r \<noteq> 0 \<or> out_len r \<noteq> 12 then ctl_refuse CORE_ST_INVALID_PARAM r reg
      else if live_count reg = 0 then ctl_refuse CORE_ST_DELETE_PENDING r reg
      else case waiter of None \<Rightarrow> ctl_refuse CORE_ST_INVALID_PARAM r reg
      | Some w \<Rightarrow> do {
          (served, n) \<leftarrow> core_notify_wait N w (notify reg);
          let reg = reg\<lparr>notify := n\<rparr>;
          Some (if served then (CORE_ST_SUCCESS, 12, ioc_out r, reg) else (CORE_ST_PENDING, 0, ioc_out r, reg)) })"

section \<open>The dispatcher\<close>

text \<open>Forwarding a request to the adapter its first dword names, through that adapter's surface.\<close>

definition entry_env :: "'w core_device_entry \<Rightarrow> 'w core_state \<Rightarrow> u64 \<Rightarrow> 'w core_ioctl_env" where
  "entry_env e cs now = \<lparr>env_cs = cs, env_sched = dev_sched e, env_vendor = dev_vendor e, env_vendor_ctx = os_ctx e,
     env_enable = dev_enable e, env_enable_ctx = os_ctx e, env_now = now\<rparr>"

definition ctl_forward ::
    "('w core_ioctl_env \<Rightarrow> core_ioctl \<Rightarrow> 'w ioc_result) \<Rightarrow> u64 \<Rightarrow> ('w, 'o) core_registry \<Rightarrow> core_ioctl \<Rightarrow>
       ('w, 'o) ctl_result" where
  "ctl_forward surface now reg r =
     (if in_len r < 4 then ctl_refuse CORE_ST_INVALID_PARAM r reg
      else do {
        h \<leftarrow> dword_in (ioc_in r) 0;
        case registry_find reg h of
          None \<Rightarrow> ctl_refuse CORE_ST_NO_SUCH_DEVICE r reg
        | Some d \<Rightarrow>
            let e = entry reg d
            in if \<not> live e then ctl_refuse CORE_ST_NO_SUCH_DEVICE r reg
               else case dev_cs e of
                 None \<Rightarrow> ctl_refuse CORE_ST_INVALID_PARAM r reg
               | Some cs \<Rightarrow> do {
                   (st, info, out, env) \<leftarrow> surface (entry_env e cs now) (r\<lparr>ioc_in := drop 4 (ioc_in r)\<rparr>);
                   Some (st, info, out,
                     map_entry d (\<lambda>e. e\<lparr>dev_cs := Some (env_cs env), dev_sched := env_sched env\<rparr>) reg) } })"

definition core_ctl_dispatch ::
    "'w ioctl_seams \<Rightarrow> 'o notify_seams \<Rightarrow> ptr option \<Rightarrow> u64 \<Rightarrow> ('w, 'o) core_registry \<Rightarrow> core_ioctl \<Rightarrow>
       ('w, 'o) ctl_result" where
  "core_ctl_dispatch I N waiter now reg r =
     (if ioc_code r AND 0xFFFF0000 \<noteq> 0xB98C0000 then ctl_refuse CORE_ST_NOT_SUPPORTED r reg
      else
        let fn = core_ioctl_fn (ioc_code r)
        in if fn = 0x801 then
             if in_len r \<noteq> 0 \<or> out_len r \<noteq> 1 then ctl_refuse CORE_ST_INVALID_PARAM r reg
             else do {
               out \<leftarrow> cell_put (ioc_out r) 0 (of_int (live_count reg));
               Some (CORE_ST_SUCCESS, 1, out, reg) }
           else if fn = 0x802 \<or> fn = 0x803 then
             if in_len r \<noteq> 0x40 \<or> out_len r \<noteq> 0x40 then ctl_refuse CORE_ST_INVALID_PARAM r reg
             else Some (CORE_ST_SUCCESS, 0x40, ioc_out r, reg)
           else if fn = 0x811 then
             if in_len r \<noteq> 0 \<or> out_len r < 4 then ctl_refuse CORE_ST_INVALID_PARAM r reg
             else do {
               out \<leftarrow> copy_cells 4 [2, 1, 0, 0] 0 (ioc_out r) 0;
               Some (CORE_ST_SUCCESS, 4, out, reg) }
           else if fn = 0x812 then
             if in_len r \<noteq> 0 \<or> out_len r \<noteq> 4 then ctl_refuse CORE_ST_INVALID_PARAM r reg
             else do {
               out \<leftarrow> dword_out (ioc_out r) 0 (generation reg);
               Some (CORE_ST_SUCCESS, 4, out, reg) }
           else if fn = 0x814 then
             if in_len r \<noteq> 0 \<and> in_len r \<noteq> 4 \<or> out_len r \<noteq> 0 \<and> out_len r \<noteq> 4 then
               ctl_refuse CORE_ST_INVALID_PARAM r reg
             else ctl_refuse CORE_ST_NOT_SUPPORTED r reg
           else if fn = 0x816 then ctl_set_reports (on_core I) reg r
           else if fn = 0x817 then ctl_button_map reg r
           else if fn = 0x818 then ctl_wait N waiter reg r
           else if fn = 0x821 then ctl_enum_devices reg r
           else if fn = 0x822 then ctl_lookup reg r
           else ctl_forward (core_ioctl_dispatch I) now reg r)"

end
