(* ===== verification/Control_Facts.thy ===== *)
theory Control_Facts
  imports Control_Device Ioctl_Facts
begin

text \<open>
  What holds of the control device: the registry counts its live adapters exactly and releases the waiters
  with the last of them, the enumeration visits the live adapters once each, the virtual-mode switch reaches
  every adapter once, and every request is answered in bounds.
\<close>

section \<open>The registry\<close>

definition live_devices :: "('w, 'o) core_registry \<Rightarrow> ptr list" where
  "live_devices reg = filter (\<lambda>d. live (entry reg d)) (devices reg)"

definition reg_ok :: "('w, 'o) core_registry \<Rightarrow> ptr list \<Rightarrow> bool" where
  "reg_ok reg ws \<longleftrightarrow> distinct (devices reg) \<and> 0 \<notin> set (devices reg) \<and> length (devices reg) < 2147483648 \<and>
     dev_count reg = int (length (devices reg)) \<and> live_count reg = int (length (live_devices reg)) \<and>
     length (reg_button_map reg) = 16 \<and> nq_idle (notify reg) ws"

lemma device_nonnull: "reg_ok reg ws \<Longrightarrow> d \<in> set (devices reg) \<Longrightarrow> d \<noteq> 0"
  unfolding reg_ok_def by metis

lemma filter_toggle:
  assumes "distinct xs" "d \<in> set xs" "P d \<noteq> b"
  shows "int (length (filter (P(d := b)) xs)) = int (length (filter P xs)) + (if b then 1 else - 1)"
  using assms
proof (induction xs)
  case (Cons x xs)
  show ?case
  proof (cases "x = d")
    case True
    then have "filter (P(d := b)) xs = filter P xs" using Cons.prems(1) by (intro filter_cong) auto
    then show ?thesis using True Cons.prems(3) by (cases b) (simp_all add: fun_upd_same del: fun_upd_apply)
  next
    case False
    then show ?thesis using Cons by (auto simp: fun_upd_other simp del: fun_upd_apply)
  qed
qed simp

lemma post_some:
  assumes "nq_idle n ws"
  obtains n' vs where "core_notify_post N ty a b n = Some n'" "nq_idle n' vs"
proof -
  obtain es vs ow where "serve N n (push_event \<lparr>ev_type = ty, arg1 = a, arg2 = b\<rparr> (waiting n)) ws (owner n) = (es, vs, ow)"
    by (metis prod_cases3)
  from post_implements [OF assms this] that show thesis by blast
qed

lemma set_live_good:
  assumes ok: "reg_ok reg ws" and d: "d \<in> set (devices reg)"
  obtains reg' vs where "core_registry_set_live N d on reg = Some reg'" "reg_ok reg' vs"
    "devices reg' = devices reg" "entry reg' = (entry reg)(d := (entry reg d)\<lparr>live := on\<rparr>)"
    "generation reg' = generation reg + (if live (entry reg d) = on then 0 else 1)"
    "live (entry reg d) \<and> \<not> on \<and> live_devices reg' = [] \<Longrightarrow> vs = []"
    "reg_button_map reg' = reg_button_map reg" "dev_count reg' = dev_count reg"
proof (cases "live (entry reg d) = on")
  case True
  then have "core_registry_set_live N d on reg = Some reg" by (simp add: core_registry_set_live_def)
  moreover have "(entry reg)(d := (entry reg d)\<lparr>live := on\<rparr>) = entry reg" using True by (auto simp: fun_eq_iff)
  ultimately show thesis using that [of reg ws] ok True by auto
next
  case False
  define r where "r = (map_entry d (live_update (\<lambda>_. on)) reg)\<lparr>generation := generation reg + 1,
    live_count := to_s32 (live_count reg + (if on then 1 else - 1))\<rparr>"
  have r: "devices r = devices reg" "entry r = (entry reg)(d := (entry reg d)\<lparr>live := on\<rparr>)" "generation r = generation reg + 1"
    "reg_button_map r = reg_button_map reg" "dev_count r = dev_count reg" "notify r = notify reg"
    "live_count r = to_s32 (live_count reg + (if on then 1 else - 1))" by (simp_all add: r_def)
  have lives: "live_devices r = filter ((\<lambda>d. live (entry reg d))(d := on)) (devices reg)"
    by (auto simp: live_devices_def r intro: filter_cong)
  have cnt: "live_count reg + (if on then 1 else - 1) = int (length (live_devices r))"
    using filter_toggle [of "devices reg" d "\<lambda>d. live (entry reg d)" on] ok d False
    unfolding lives by (simp add: reg_ok_def live_devices_def)
  have "length (live_devices r) < 2147483648"
    unfolding live_devices_def r(1) using ok by (intro le_less_trans [OF length_filter_le]) (simp add: reg_ok_def)
  then have lc: "live_count r = int (length (live_devices r))" unfolding r(7) cnt by (intro to_s32_id) (simp add: is_s32_def)
  have nz: "d \<noteq> 0" by (rule device_nonnull [OF ok d])
  have idle: "nq_idle (notify reg) ws" using ok by (simp add: reg_ok_def)
  obtain n vs where p: "core_notify_post N 99 0 (handle (entry r d)) (notify r) = Some n" "nq_idle n vs"
    unfolding r(6) by (rule post_some [OF idle])
  define last where "last \<longleftrightarrow> \<not> on \<and> live_count r = 0"
  obtain n' us where f: "(if last then core_notify_flush N n else Some n) = Some n'" "nq_idle n' us" "last \<Longrightarrow> us = []"
  proof (cases last)
    case True
    then show thesis using flush_implements [OF p(2), of N] that by fastforce
  qed (use p(2) that in auto)
  have "core_registry_set_live N d on reg = (if d = 0 \<or> live (entry reg d) = on then Some reg else do {
      n \<leftarrow> core_notify_post N 99 0 (handle (entry r d)) (notify r);
      n \<leftarrow> (if \<not> on \<and> live_count r = 0 then core_notify_flush N n else Some n);
      Some (r\<lparr>notify := n\<rparr>) })"
    unfolding core_registry_set_live_def Let_def r_def by simp
  then have "core_registry_set_live N d on reg = Some (r\<lparr>notify := n'\<rparr>)"
    using nz False p(1) f(1) by (simp only: last_def if_False Option.bind.simps disj_not1 simp_thms)
  moreover have "live_devices (r\<lparr>notify := n'\<rparr>) = live_devices r" by (simp add: live_devices_def)
  ultimately show thesis
    using that [of "r\<lparr>notify := n'\<rparr>" us] ok f(2,3) lc False r(1-5) by (auto simp: reg_ok_def last_def)
qed


lemma add_good:
  assumes "reg_ok reg ws" "d \<noteq> 0" "d \<notin> set (devices reg)" "\<not> live (entry reg d)" "length (devices reg) < 2147483647"
  shows "reg_ok (core_registry_add d reg) ws"
proof -
  have "to_s32 (int (length (devices reg)) + 1) = int (length (devices reg)) + 1"
    using assms(5) by (intro to_s32_id) (simp add: is_s32_def)
  then show ?thesis using assms by (simp add: reg_ok_def core_registry_add_def live_devices_def)
qed

lemma remove_good:
  assumes ok: "reg_ok reg ws"
  obtains reg' vs where "core_registry_remove N d reg = Some reg'" "reg_ok reg' vs" "devices reg' = remove1 d (devices reg)"
    "d \<in> set (devices reg) \<and> live (entry reg d) \<and> live_devices reg' = [] \<Longrightarrow> vs = []"
proof (cases "d \<in> set (devices reg)")
  case False
  then have "core_registry_remove N d reg = Some reg" by (simp add: core_registry_remove_def)
  then show thesis using that [of reg ws] ok False by (simp add: remove1_idem)
next
  case True
  have nz: "d \<noteq> 0" by (rule device_nonnull [OF ok True])
  obtain r us where s: "core_registry_set_live N d False reg = Some r" "reg_ok r us" "devices r = devices reg"
    "entry r = (entry reg)(d := (entry reg d)\<lparr>live := False\<rparr>)"
    "live (entry reg d) \<and> live_devices r = [] \<Longrightarrow> us = []"
    using set_live_good [OF ok True, of N False] by (metis (no_types, lifting))
  have same: "core_registry_set_live N d False reg = Some reg" if "\<not> live (entry reg d)"
    using that by (simp add: core_registry_set_live_def)
  let ?r = "r\<lparr>devices := remove1 d (devices r), dev_count := to_s32 (dev_count r - 1)\<rparr>"
  have run: "core_registry_remove N d reg = Some ?r"
    using nz True s(1) same by (cases "live (entry reg d)") (simp_all add: core_registry_remove_def)
  have dist: "distinct (devices reg)" and mem: "d \<in> set (devices r)" using ok True s(3) by (simp_all add: reg_ok_def)
  have lives: "live_devices ?r = live_devices r"
    using dist s(3,4) by (simp add: live_devices_def filter_remove1 distinct_remove1_removeAll removeAll_filter_not_eq filter_filter)
  have "length (devices r) \<noteq> 0" using mem by auto
  then have "to_s32 (dev_count r - 1) = int (length (remove1 d (devices r)))"
    using s(2) mem by (subst to_s32_id) (auto simp: reg_ok_def is_s32_def length_remove1 of_nat_diff Suc_le_eq)
  moreover have "length (remove1 d (devices r)) < 2147483648" using s(2) mem by (auto simp: reg_ok_def length_remove1)
  ultimately have "reg_ok ?r us" using s(2) lives by (auto simp: reg_ok_def dest: notin_set_remove1)
  then show thesis using that [OF run] s(3,5) lives by simp
qed

text \<open>C22. Through every arrival and departure the live count is exactly the number of adapters on the list whose
  interface is up, each change bumps the generation once, and when the last live adapter goes every parked
  waiter is released.\<close>

theorem registry_live_exact:
  assumes "reg_ok reg ws" and "d \<in> set (devices reg)"
  shows "\<exists>reg' vs. core_registry_set_live N d on reg = Some reg' \<and> reg_ok reg' vs \<and>
    live_count reg' = int (length (filter (\<lambda>d. live (entry reg' d)) (devices reg'))) \<and> live (entry reg' d) = on \<and>
    generation reg' = generation reg + (if live (entry reg d) = on then 0 else 1) \<and>
    (live (entry reg d) \<and> \<not> on \<and> live_count reg' = 0 \<longrightarrow> vs = [])"
proof -
  obtain reg' vs where s: "core_registry_set_live N d on reg = Some reg'" "reg_ok reg' vs"
    "entry reg' = (entry reg)(d := (entry reg d)\<lparr>live := on\<rparr>)"
    "generation reg' = generation reg + (if live (entry reg d) = on then 0 else 1)"
    "live (entry reg d) \<and> \<not> on \<and> live_devices reg' = [] \<Longrightarrow> vs = []"
    using set_live_good [OF assms, of N on] by (metis (no_types, lifting))
  have "live_count reg' = int (length (live_devices reg'))" using s(2) by (simp add: reg_ok_def)
  then show ?thesis using s by (intro exI [of _ reg'] exI [of _ vs]) (auto simp: live_devices_def)
qed


text \<open>Two adapters, of which the first is live.\<close>

definition demo_entry :: "u32 \<Rightarrow> bool \<Rightarrow> (u8 \<times> u8 list) list core_device_entry" where
  "demo_entry h up = \<lparr>handle = h, dev_cs = Some logged_core, dev_sched = None, live = up, needs_resubmit = False,
     dev_vendor = 0, dev_enable = 0, cmd_claim = 0, cmd_xfer = 0, os_ctx = 0\<rparr>"

definition demo_notify :: "unit core_notify" where
  "demo_notify = core_notify_init 0 0 0 0 \<lparr>nq_events = [], nq_head = 7, nq_count = 7, nq_dropped = 0, waiters = 500,
     nq_links = \<lparr>flink = (\<lambda>_. 0), blink = (\<lambda>_. 0)\<rparr>, waiter_count = 7, delivering = True, nq_claim = 0, nq_deliver = 0,
     nq_abort = 0, nq_ctx = 0, owner = ()\<rparr>"

definition demo_reg :: "((u8 \<times> u8 list) list, unit) core_registry" where
  "demo_reg = \<lparr>devices = [100, 200], entry = (\<lambda>d. if d = 100 then demo_entry 7 True else demo_entry 9 False), dev_count = 2,
     live_count = 1, generation = 3, reg_button_map = CORE_BUTTON_MAP_DEFAULT, reg_reports_enabled = False,
     notify = demo_notify\<rparr>"

lemma init_idle:
  assumes "waiters n \<noteq> 0" "\<And>p. p \<noteq> waiters n \<Longrightarrow> flink (nq_links n) p = 0"
  shows "nq_idle (core_notify_init c d a x n) []"
  using assms ring_init [OF assms(1), of "nq_links n"]
  by (auto simp: nq_idle_def nq_ok_def core_notify_init_def waiting_def loose_def nw_init_def)

lemma demo_idle: "nq_idle demo_notify []"
  unfolding demo_notify_def by (rule init_idle) simp_all

lemma demo_reg_ok: "reg_ok demo_reg []"
  by (simp add: reg_ok_def demo_reg_def live_devices_def demo_entry_def demo_idle CORE_BUTTON_MAP_DEFAULT_def)

definition demo_nseams :: "unit notify_seams" where
  "demo_nseams = \<lparr>call_ntf_claim = (\<lambda>_ _ _ o'. (True, o')), call_ntf_deliver = (\<lambda>_ _ _ _ o'. o'),
     call_ntf_abort = (\<lambda>_ _ _ o'. o')\<rparr>"

theorem registry_live_exact_witness:
  "\<exists>reg' vs. core_registry_set_live demo_nseams 200 True demo_reg = Some reg' \<and> reg_ok reg' vs \<and>
     live_count reg' = int (length (filter (\<lambda>d. live (entry reg' d)) (devices reg'))) \<and> generation reg' = 4"
proof -
  have "(200 :: ptr) \<in> set (devices demo_reg)" by (simp add: demo_reg_def)
  from registry_live_exact [OF demo_reg_ok this, of demo_nseams True] show ?thesis
    by (auto simp: demo_reg_def demo_entry_def)
qed

section \<open>Enumeration\<close>

lemma enum_next: "enum_loop reg prev False ds = (map_option (\<lambda>d. handle (entry reg d)) (List.find (\<lambda>d. live (entry reg d)) ds), False)"
  by (induction ds) auto

lemma enum_seek:
  assumes "\<forall>x\<in>set xs. handle (entry reg x) \<noteq> prev" "handle (entry reg d) = prev"
  shows "enum_loop reg prev True (xs @ d # ys) = enum_loop reg prev False ys"
  using assms by (induction xs) auto

lemma enum_gone: "\<forall>x\<in>set xs. handle (entry reg x) \<noteq> prev \<Longrightarrow> enum_loop reg prev True xs = (None, True)"
  by (induction xs) auto

text \<open>A client that asks for the adapter after each one it is given, starting from 0.\<close>

primrec enum_walk :: "nat \<Rightarrow> ('w, 'o) core_registry \<Rightarrow> u32 \<Rightarrow> u32 list option" where
  "enum_walk 0 reg h = None"
| "enum_walk (Suc k) reg h =
     (case ctl_enum_devices reg \<lparr>ioc_code = 0xB98C2084, ioc_in = wr32 h, ioc_out = replicate 8 0\<rparr> of
        None \<Rightarrow> None
      | Some (st, info, out, _) \<Rightarrow>
          if st \<noteq> CORE_ST_SUCCESS then None
          else if rd32 out 0 = 0 then Some [] else map_option ((#) (rd32 out 0)) (enum_walk k reg (rd32 out 0)))"

definition handles_ok :: "('w, 'o) core_registry \<Rightarrow> bool" where
  "handles_ok reg \<longleftrightarrow> distinct (map (\<lambda>d. handle (entry reg d)) (devices reg)) \<and>
     (\<forall>d\<in>set (devices reg). handle (entry reg d) \<noteq> 0)"

lemma rd32_append: "rd32 (wr32 v @ xs) 0 = v"
  using rd32_wr32 [of v] by (simp add: rd32_def nth_append wr32_def)

lemma enum_call:
  "ctl_enum_devices reg \<lparr>ioc_code = c, ioc_in = wr32 h, ioc_out = replicate 8 0\<rparr> =
     (let (found, seeking) = enum_loop reg h (h \<noteq> 0) (devices reg);
          out = (case found of None \<Rightarrow> wr32 0 | Some h \<Rightarrow> wr32 h) @ wr32 (u32_of (live_count reg))
      in Some (if seeking then (CORE_ST_NO_SUCH_DEVICE, 0, out, reg) else (CORE_ST_SUCCESS, 8, out, reg)))"
  by (simp add: ctl_enum_devices_def in_len_def out_len_def dword_in_def dword_out_def rd32_wr32 Let_def
      split: prod.split option.split)

lemma find_split: "\<forall>y\<in>set as. \<not> P y \<Longrightarrow> P d \<Longrightarrow> List.find P (as @ d # bs) = Some d"
  by (induction as) auto

lemma enum_from:
  assumes "\<forall>d\<in>set ys. handle (entry reg d) \<noteq> 0" "length ys < k"
    and step: "enum_loop reg h (h \<noteq> 0) (devices reg) = enum_loop reg h False ys"
    and suffix: "\<And>as d bs. ys = as @ d # bs \<Longrightarrow>
      enum_loop reg (handle (entry reg d)) True (devices reg) = enum_loop reg (handle (entry reg d)) False bs"
  shows "enum_walk k reg h = Some (map (\<lambda>d. handle (entry reg d)) (filter (\<lambda>d. live (entry reg d)) ys))"
  using assms
proof (induction k arbitrary: ys h)
  case (Suc k)
  show ?case
  proof (cases "\<exists>d\<in>set ys. live (entry reg d)")
    case False
    then have "filter (\<lambda>d. live (entry reg d)) ys = []" "List.find (\<lambda>d. live (entry reg d)) ys = None"
      by (simp_all add: find_None_iff filter_empty_conv)
    then show ?thesis using Suc.prems(3) by (simp add: enum_call enum_next rd32_append)
  next
    case True
    from split_list_first_prop [OF this] obtain as d bs where
      ys: "ys = as @ d # bs" "live (entry reg d)" "\<forall>a\<in>set as. \<not> live (entry reg a)" by auto
    have first: "List.find (\<lambda>d. live (entry reg d)) ys = Some d" unfolding ys(1) by (rule find_split [OF ys(3,2)])
    let ?h = "handle (entry reg d)"
    have nz: "?h \<noteq> 0" using Suc.prems(1) ys(1) by simp
    have "enum_walk k reg ?h = Some (map (\<lambda>d. handle (entry reg d)) (filter (\<lambda>d. live (entry reg d)) bs))"
    proof (rule Suc.IH)
      show "enum_loop reg ?h (?h \<noteq> 0) (devices reg) = enum_loop reg ?h False bs"
        using Suc.prems(4) [OF ys(1)] nz by simp
      show "enum_loop reg (handle (entry reg e)) True (devices reg) = enum_loop reg (handle (entry reg e)) False cs"
        if "bs = zs @ e # cs" for zs e cs
        using Suc.prems(4) [of "as @ d # zs" e cs] ys(1) that by simp
    qed (use Suc.prems(1,2) ys(1) in simp_all)
    moreover have "filter (\<lambda>d. live (entry reg d)) as = []" using ys(3) by (simp add: filter_empty_conv)
    ultimately show ?thesis using Suc.prems(3) first nz ys by (simp add: enum_call enum_next rd32_append)
  qed
qed simp

text \<open>A client that enumerates the adapters, passing back each handle it is given, gets every live adapter
  exactly once, in the order they arrived, and then the end mark, whatever the adapters that are not live.\<close>

theorem enumeration_complete:
  assumes "handles_ok reg"
  shows "enum_walk (Suc (length (devices reg))) reg 0 =
    Some (map (\<lambda>d. handle (entry reg d)) (filter (\<lambda>d. live (entry reg d)) (devices reg)))"
proof (rule enum_from)
  fix as d bs
  assume d: "devices reg = as @ d # bs"
  have "\<forall>x\<in>set as. handle (entry reg x) \<noteq> handle (entry reg d)" using assms by (force simp: handles_ok_def d image_iff)
  then show "enum_loop reg (handle (entry reg d)) True (devices reg) = enum_loop reg (handle (entry reg d)) False bs"
    unfolding d by (rule enum_seek) simp
qed (use assms in \<open>auto simp: handles_ok_def\<close>)

theorem enumeration_complete_witness:
  "enum_walk 3 demo_reg 0 = Some [7]"
proof -
  have n: "Suc (length (devices demo_reg)) = 3" and ok: "handles_ok demo_reg"
    by (simp_all add: demo_reg_def handles_ok_def demo_entry_def)
  show ?thesis using enumeration_complete [OF ok] unfolding n by (simp add: demo_reg_def demo_entry_def)
qed


section \<open>The virtual-mode switch\<close>

lemma resubmit_all_eq:
  "resubmit_all S reg = reg\<lparr>entry := \<lambda>d. if d \<in> set (devices reg) \<and> needs_resubmit (entry reg d)
     then resubmit_to S (reg_reports_enabled reg) (entry reg d) else entry reg d\<rparr>"
proof (induction S reg rule: resubmit_all.induct)
  case (1 S reg)
  show ?case
  proof (cases "List.find (\<lambda>d. needs_resubmit (entry reg d)) (devices reg)")
    case None
    then have "entry reg = (\<lambda>d. if d \<in> set (devices reg) \<and> needs_resubmit (entry reg d)
        then resubmit_to S (reg_reports_enabled reg) (entry reg d) else entry reg d)"
      by (auto simp: find_None_iff fun_eq_iff)
    then have "reg = reg\<lparr>entry := \<lambda>d. if d \<in> set (devices reg) \<and> needs_resubmit (entry reg d)
        then resubmit_to S (reg_reports_enabled reg) (entry reg d) else entry reg d\<rparr>" by (cases reg) simp
    then show ?thesis using None by (simp add: resubmit_all.simps [of S reg])
  next
    case (Some d)
    let ?r = "map_entry d (resubmit_to S (reg_reports_enabled reg)) reg"
    have d: "d \<in> set (devices reg)" "needs_resubmit (entry reg d)" using Some by (auto simp: find_Some_iff)
    have "resubmit_all S reg = resubmit_all S ?r" using Some by (simp add: resubmit_all.simps [of S reg])
    also have "\<dots> = ?r\<lparr>entry := \<lambda>e. if e \<in> set (devices ?r) \<and> needs_resubmit (entry ?r e)
        then resubmit_to S (reg_reports_enabled ?r) (entry ?r e) else entry ?r e\<rparr>" by (rule 1 [OF Some])
    also have "\<dots> = reg\<lparr>entry := \<lambda>e. if e \<in> set (devices reg) \<and> needs_resubmit (entry reg e)
        then resubmit_to S (reg_reports_enabled reg) (entry reg e) else entry reg e\<rparr>"
      using d by (auto simp: map_entry_def fun_eq_iff)
    finally show ?thesis .
  qed
qed

lemma fold_map_entry:
  assumes "distinct ds"
  shows "fold (\<lambda>d. map_entry d f) ds reg = reg\<lparr>entry := \<lambda>d. if d \<in> set ds then f (entry reg d) else entry reg d\<rparr>"
  using assms
proof (induction ds arbitrary: reg)
  case Nil
  then show ?case by (cases reg) simp
next
  case (Cons d ds)
  then show ?case by (auto simp: map_entry_def fun_eq_iff)
qed

text \<open>The virtual-joystick switch reaches every adapter on the list exactly once: the loop that looks for the
  next marked adapter is a single pass, in which each adapter takes the flag over and is resubmitted a null
  report, and none is left marked; nothing else of the registry changes.\<close>

theorem switch_reaches_all_once:
  assumes "distinct (devices reg)" and "length (ioc_in r) = 4" and "ioc_out r = []"
  shows "ctl_set_reports S reg r = Some (CORE_ST_SUCCESS, 0, [],
      reg\<lparr>reg_reports_enabled := (rd32 (ioc_in r) 0 \<noteq> 0),
          entry := \<lambda>d. if d \<in> set (devices reg) then
              resubmit_to S (rd32 (ioc_in r) 0 \<noteq> 0) (entry reg d)
            else entry reg d\<rparr>)"
proof -
  have mark: "resubmit_to S on (e\<lparr>needs_resubmit := True\<rparr>) = resubmit_to S on e" for on e
    by (simp add: resubmit_to_def Let_def split: option.split)
  have once: "(\<lambda>d. if d \<in> A \<and> (if d \<in> A then True else P d) then f d else if d \<in> A then g d else h d) =
      (\<lambda>d. if d \<in> A then f d else h d)" for A :: "ptr set" and P and f g h :: "ptr \<Rightarrow> 'a core_device_entry"
    by auto
  have "in_len r = 4" "out_len r = 0" using assms(2,3) by (simp_all add: in_len_def out_len_def)
  then show ?thesis using assms
    by (simp add: ctl_set_reports_def ctl_refuse_def dword_in_some fold_map_entry resubmit_all_eq Let_def mark once
        if_distrib [where f = needs_resubmit] cong: if_cong)
qed

theorem switch_reaches_all_once_witness:
  "\<exists>reg'. ctl_set_reports report_log demo_reg \<lparr>ioc_code = 0xB98C2058, ioc_in = [1, 0, 0, 0], ioc_out = []\<rparr> =
      Some (CORE_ST_SUCCESS, 0, [], reg') \<and> reg_reports_enabled reg' \<and>
      entry reg' 200 = resubmit_to report_log True (demo_entry 9 False)"
proof -
  have "distinct (devices demo_reg)" using demo_reg_ok by (simp add: reg_ok_def)
  from switch_reaches_all_once [OF this, of "\<lparr>ioc_code = 0xB98C2058, ioc_in = [1, 0, 0, 0], ioc_out = []\<rparr>" report_log]
  show ?thesis by (simp add: rd32_def demo_reg_def)
qed

section \<open>In bounds\<close>

text \<open>A change of the adapters' own state, which the registry's counts do not see.\<close>

definition same_list :: "('w, 'o) core_registry \<Rightarrow> ('w, 'o) core_registry \<Rightarrow> bool" where
  "same_list reg reg' \<longleftrightarrow> devices reg' = devices reg \<and> dev_count reg' = dev_count reg \<and> live_count reg' = live_count reg \<and>
     length (reg_button_map reg') = length (reg_button_map reg) \<and> notify reg' = notify reg \<and>
     (\<forall>d. live (entry reg' d) = live (entry reg d))"

lemma same_list_ok: "same_list reg reg' \<Longrightarrow> reg_ok reg ws \<Longrightarrow> reg_ok reg' ws"
  by (simp add: same_list_def reg_ok_def live_devices_def)

lemma same_list_refl [simp]: "same_list reg reg" by (simp add: same_list_def)

text \<open>The interface the control device forwards through: a surface that answers the requests it accepts, in
  the environments it accepts, within their buffers.\<close>

locale device_surface =
  fixes surface :: "'w core_ioctl_env \<Rightarrow> core_ioctl \<Rightarrow> 'w ioc_result"
    and env_ok :: "'w core_ioctl_env \<Rightarrow> bool"
    and req_ok :: "core_ioctl \<Rightarrow> bool"
  assumes answered: "req_ok r \<Longrightarrow> env_ok env \<Longrightarrow> ioc_sound r (surface env r)"
begin

lemma forward_sound:
  assumes "small r" and "req_ok (r\<lparr>ioc_in := drop 4 (ioc_in r)\<rparr>)"
    and "\<And>d cs. d \<in> set (devices reg) \<Longrightarrow> live (entry reg d) \<Longrightarrow> dev_cs (entry reg d) = Some cs \<Longrightarrow>
      env_ok (entry_env (entry reg d) cs now)"
  shows "\<exists>st info out reg'. ctl_forward surface now reg r = Some (st, info, out, reg') \<and>
    length out = length (ioc_out r) \<and> unat info \<le> length (ioc_out r) \<and> same_list reg reg'"
proof (cases "in_len r < 4")
  case True
  then show ?thesis by (simp add: ctl_forward_def ctl_refuse_def same_list_def)
next
  case False
  then have h: "dword_in (ioc_in r) 0 = Some (rd32 (ioc_in r) 0)" using assms(1) by (simp add: dword_in_def in_len_iff)
  show ?thesis
  proof (cases "registry_find reg (rd32 (ioc_in r) 0)")
    case None
    then show ?thesis using False h by (simp add: ctl_forward_def ctl_refuse_def same_list_def)
  next
    case (Some d)
    then have mem: "d \<in> set (devices reg)" by (auto simp: registry_find_def find_Some_iff)
    show ?thesis
    proof (cases "live (entry reg d) \<and> dev_cs (entry reg d) \<noteq> None")
      case False
      then show ?thesis using Some h \<open>\<not> in_len r < 4\<close>
        by (cases "live (entry reg d)") (auto simp: ctl_forward_def ctl_refuse_def Let_def same_list_def)
    next
      case True
      then obtain cs where cs: "dev_cs (entry reg d) = Some cs" "live (entry reg d)" by auto
      have s: "ioc_sound (r\<lparr>ioc_in := drop 4 (ioc_in r)\<rparr>)
          (surface (entry_env (entry reg d) cs now) (r\<lparr>ioc_in := drop 4 (ioc_in r)\<rparr>))"
        by (rule answered [OF assms(2) assms(3) [OF mem cs(2,1)]])
      obtain st info out env where run: "surface (entry_env (entry reg d) cs now) (r\<lparr>ioc_in := drop 4 (ioc_in r)\<rparr>) =
          Some (st, info, out, env)"
        using s by (cases "surface (entry_env (entry reg d) cs now) (r\<lparr>ioc_in := drop 4 (ioc_in r)\<rparr>)") auto
      show ?thesis using s run Some h cs False by (simp add: ctl_forward_def Let_def same_list_def)
    qed
  qed
qed

end

interpretation adapters: device_surface "core_ioctl_dispatch I" "surface_ok I" request_fits for I
  by unfold_locales (rule dispatch_sound)


definition ctl_sound :: "core_ioctl \<Rightarrow> ('w, 'o) ctl_result \<Rightarrow> bool" where
  "ctl_sound r res \<longleftrightarrow> (case res of None \<Rightarrow> False | Some (st, info, out, reg) \<Rightarrow>
     length out = length (ioc_out r) \<and> unat info \<le> length (ioc_out r) \<and> (\<exists>ws. reg_ok reg ws))"

lemma ctl_sound_simps [simp]:
  "ctl_sound r (Some (st, info, out, reg)) \<longleftrightarrow>
     length out = length (ioc_out r) \<and> unat info \<le> length (ioc_out r) \<and> (\<exists>ws. reg_ok reg ws)"
  "ctl_sound r (ctl_refuse st r reg) \<longleftrightarrow> (\<exists>ws. reg_ok reg ws)"
  by (simp_all add: ctl_sound_def ctl_refuse_def)

lemma live_kept [simp]: "live (resubmit_to S on e) = live e" "live (push_map m e) = live e"
  by (simp_all add: resubmit_to_def push_map_def Let_def split: option.split)

lemma apply_map_length [simp]: "length (apply_map i bs m) = length m"
  by (induction i bs m rule: apply_map.induct) auto

lemma button_map_sound:
  assumes "reg_ok reg ws"
  shows "ctl_sound r (ctl_button_map reg r)"
proof -
  let ?m = "apply_map 0 (ioc_in r) (reg_button_map reg)" and ?n = "min (length (ioc_out r)) 16"
  define reg' where "reg' = fold (\<lambda>d. map_entry d (push_map ?m)) (devices reg) (reg\<lparr>reg_button_map := ?m\<rparr>)"
  have d: "distinct (devices reg)" "length (reg_button_map reg) = 16" using assms by (simp_all add: reg_ok_def)
  have "same_list reg reg'" using d by (auto simp: reg'_def fold_map_entry same_list_def)
  then have ok: "reg_ok reg' ws" by (rule same_list_ok [OF _ assms])
  have out: "copy_cells ?n (reg_button_map reg) 0 (ioc_out r) 0 =
      Some (take ?n (reg_button_map reg) @ drop ?n (ioc_out r))"
    using copy_some [of 0 ?n "reg_button_map reg" "ioc_out r"] d(2) by simp
  have "unat (of_nat ?n :: u32) = ?n" by (intro unat_small) simp
  moreover have "ctl_button_map reg r = Some (CORE_ST_SUCCESS, of_nat ?n, take ?n (reg_button_map reg) @ drop ?n (ioc_out r), reg')"
    using out by (simp add: ctl_button_map_def Let_def reg'_def)
  ultimately show ?thesis using ok d(2) by auto
qed

lemma set_reports_sound:
  assumes "small r" "reg_ok reg ws"
  shows "ctl_sound r (ctl_set_reports S reg r)"
proof (cases "in_len r \<noteq> 4 \<or> out_len r \<noteq> 0")
  case False
  then have len: "length (ioc_in r) = 4" "ioc_out r = []" using assms(1) by (simp_all add: in_len_iff out_len_iff)
  define on where "on \<longleftrightarrow> rd32 (ioc_in r) 0 \<noteq> 0"
  define r2 where "r2 = reg\<lparr>reg_reports_enabled := on,
    entry := \<lambda>d. if d \<in> set (devices reg) then (entry reg d)\<lparr>needs_resubmit := True\<rparr> else entry reg d\<rparr>"
  have d: "distinct (devices reg)" using assms(2) by (simp add: reg_ok_def)
  have "same_list reg (resubmit_all S r2)" by (auto simp: resubmit_all_eq same_list_def r2_def)
  then have "reg_ok (resubmit_all S r2) ws" by (rule same_list_ok [OF _ assms(2)])
  moreover have "ctl_set_reports S reg r = ctl_refuse CORE_ST_SUCCESS r (resubmit_all S r2)"
    using False len d by (simp add: ctl_set_reports_def dword_in_some fold_map_entry Let_def r2_def on_def cong: if_cong)
  ultimately show ?thesis by auto
qed (use assms in \<open>auto simp: ctl_set_reports_def\<close>)

lemma enum_sound:
  assumes "small r" "reg_ok reg ws"
  shows "ctl_sound r (ctl_enum_devices reg r)"
  using assms by (auto simp: ctl_enum_devices_def in_len_iff out_len_iff dword_in_some dword_out_some Let_def
      split: prod.split option.split)

lemma lookup_sound:
  assumes "small r" "reg_ok reg ws"
  shows "ctl_sound r (ctl_lookup reg r)"
proof (cases "in_len r \<noteq> 4 \<or> out_len r \<noteq> 4")
  case False
  then have len: "length (ioc_in r) = 4" "length (ioc_out r) = 4" using assms(1) by (simp_all add: in_len_iff out_len_iff)
  show ?thesis using False len assms(2)
    by (auto simp: ctl_lookup_def dword_in_some dword_out_some split: option.split)
qed (use assms in \<open>auto simp: ctl_lookup_def\<close>)

text \<open>A waiter that is on no list.\<close>

definition waiter_free :: "('w, 'o) core_registry \<Rightarrow> ptr list \<Rightarrow> ptr option \<Rightarrow> bool" where
  "waiter_free reg ws waiter \<longleftrightarrow> (\<forall>w. waiter = Some w \<longrightarrow> w \<noteq> waiters (notify reg) \<and> w \<notin> set ws)"

lemma wait_sound:
  assumes "small r" "reg_ok reg ws" "waiter_free reg ws waiter"
  shows "ctl_sound r (ctl_wait N waiter reg r)"
proof (cases "in_len r \<noteq> 0 \<or> out_len r \<noteq> 12 \<or> live_count reg = 0 \<or> waiter = None")
  case False
  then obtain w where w: "waiter = Some w" "w \<noteq> waiters (notify reg)" "w \<notin> set ws" and len: "length (ioc_out r) = 12"
    using assms by (auto simp: waiter_free_def out_len_iff)
  have idle: "nq_idle (notify reg) ws" using assms(2) by (simp add: reg_ok_def)
  have "\<exists>b n us. core_notify_wait N w (notify reg) = Some (b, n) \<and> nq_idle n us"
  proof (cases "w = 0")
    case True
    then show ?thesis using idle by (auto simp: core_notify_wait_def)
  next
    case False
    obtain es vs ow where "serve N (notify reg) (waiting (notify reg)) (ws @ [w]) (owner (notify reg)) = (es, vs, ow)"
      by (metis prod_cases3)
    from wait_implements [OF idle False w(2,3) this] show ?thesis by blast
  qed
  then obtain b n us where run: "core_notify_wait N w (notify reg) = Some (b, n)" "nq_idle n us" by blast
  then have "reg_ok (reg\<lparr>notify := n\<rparr>) us" using assms(2) by (simp add: reg_ok_def live_devices_def)
  then show ?thesis using False w(1) run(1) len by (auto simp: ctl_wait_def Let_def)
qed (use assms in \<open>auto simp: ctl_wait_def\<close>)

text \<open>C11. Every request on the control device is answered without an access outside its buffers and with a count inside the
  output buffer, and keeps the registry sound, under three conditions. A request to be forwarded must fit the adapter's
  surface once its four bytes of index are taken off (\<open>request_fits\<close>): its two unchecked lengths, the block length of
  an effect and the count of variables of a script, are in range. Those lengths are not checked on this way either, so
  the two overruns an adapter allows can be reached through the control device. A waiter to be parked is on the
  list not yet (\<open>waiter_free\<close>), and the records, schedulers and seams of the live adapters are sound (\<open>surface_ok\<close>).\<close>

theorem control_stays_in_buffers:
  assumes "small r" and "request_fits (r\<lparr>ioc_in := drop 4 (ioc_in r)\<rparr>)" and "reg_ok reg ws" and "waiter_free reg ws waiter"
    and "\<And>d cs. d \<in> set (devices reg) \<Longrightarrow> live (entry reg d) \<Longrightarrow> dev_cs (entry reg d) = Some cs \<Longrightarrow>
      surface_ok I (entry_env (entry reg d) cs now)"
  shows "\<exists>st info out reg' vs. core_ctl_dispatch I N waiter now reg r = Some (st, info, out, reg') \<and>
    length out = length (ioc_out r) \<and> unat info \<le> length (ioc_out r) \<and> reg_ok reg' vs"
proof -
  note lens = in_len_iff [OF assms(1)] out_len_iff [OF assms(1)]
  have fwd: "ctl_sound r (ctl_forward (core_ioctl_dispatch I) now reg r)"
    using adapters.forward_sound [OF assms(1,2,5)] same_list_ok [OF _ assms(3)] by fastforce
  have ok: "\<exists>ws. reg_ok reg ws" using assms(3) by (rule exI)
  have "out_len r = 1 \<Longrightarrow> cell_put (ioc_out r) 0 x = Some ((ioc_out r)[0 := x])" for x by (simp add: lens cell_put_def)
  moreover have "\<not> out_len r < 4 \<Longrightarrow> \<exists>out. copy_cells 4 [2, 1, 0, 0] 0 (ioc_out r) 0 = Some out \<and> length out = length (ioc_out r) \<and>
      4 \<le> length (ioc_out r)"
    using copy_some [of 0 4 "[2, 1, 0, 0]" "ioc_out r"] by (simp add: lens)
  moreover have "out_len r = 4 \<Longrightarrow> dword_out (ioc_out r) 0 x = Some (wr32 x)" for x by (simp add: lens dword_out_def)
  ultimately have "ctl_sound r (core_ctl_dispatch I N waiter now reg r)"
    unfolding core_ctl_dispatch_def Let_def
    using ok fwd set_reports_sound [OF assms(1,3)] button_map_sound [OF assms(3)] wait_sound [OF assms(1,3,4)]
      enum_sound [OF assms(1,3)] lookup_sound [OF assms(1,3)]
    apply (auto simp: lens)
    apply (rule exI, assumption)+
    done
  then show ?thesis by (auto simp: ctl_sound_def split: option.splits)
qed

theorem control_stays_in_buffers_witness:
  "\<exists>st info out reg' vs. core_ctl_dispatch demo_ioctl demo_nseams (Some 300) 0 demo_reg
      \<lparr>ioc_code = 0xB98C2060, ioc_in = [], ioc_out = replicate 12 0\<rparr> = Some (st, info, out, reg') \<and>
    length out = 12 \<and> unat info \<le> 12 \<and> reg_ok reg' vs"
proof -
  let ?r = "\<lparr>ioc_code = 0xB98C2060, ioc_in = [], ioc_out = replicate 12 0\<rparr>"
  have "small ?r" "request_fits (?r\<lparr>ioc_in := drop 4 (ioc_in ?r)\<rparr>)"
    by (simp_all add: small_def request_fits_def core_ioctl_fn_def)
  moreover have "waiter_free demo_reg [] (Some 300)"
    by (simp add: waiter_free_def demo_reg_def demo_notify_def core_notify_init_def)
  moreover have "surface_ok demo_ioctl (entry_env (entry demo_reg d) cs 0)"
    if "dev_cs (entry demo_reg d) = Some cs" for d cs
    using that demo_surface [OF empty_inv, of "[]"]
    by (auto simp: surface_ok_def entry_env_def demo_reg_def demo_entry_def demo_env_def scheds_ok_def split: if_splits)
  ultimately show ?thesis
    using control_stays_in_buffers [OF _ _ demo_reg_ok, of ?r "Some 300" demo_ioctl 0 demo_nseams] by auto
qed

end
