(* ===== verification/Command_Block.thy ===== *)
theory Command_Block
  imports Control_Device
begin

text \<open>
  The SDK command block of \<open>src_drv/ioctl.c\<close>: 64 bytes holding up to five joybus transactions, which the driver
  walks twice, once when the block is written (pass 0, what goes on the bus) and again on every read of it
  (pass 1, the cached controller state and the identify).

  The block is a list of bytes and a pointer into it an index. Every access is checked: \<open>None\<close> is an access
  outside the block. A test joined by \<open>&&\<close> reads its bytes at once here, which checks more than the code does.
\<close>

section \<open>The channel\<close>

record core_cmd_channel =
  block :: "u8 list"
  swap_bytes :: bool

definition core_cmd_channel_init :: "core_cmd_channel \<Rightarrow> core_cmd_channel" where
  "core_cmd_channel_init ch = ch\<lparr>block := replicate 64 0, swap_bytes := False\<rparr>"

text \<open>Every group of four bytes reversed; the block is a whole number of groups.\<close>

fun cmd_swap :: "u8 list \<Rightarrow> u8 list" where
  "cmd_swap (a # b # c # d # xs) = d # c # b # a # cmd_swap xs"
| "cmd_swap xs = xs"

text \<open>The nth adapter of the list.\<close>

fun cmd_nth_from :: "s32 \<Rightarrow> ptr list \<Rightarrow> ptr option" where
  "cmd_nth_from n [] = None"
| "cmd_nth_from n (d # ds) = (if n < 1 then Some d else cmd_nth_from (n - 1) ds)"

definition cmd_nth :: "('w, 'o) core_registry \<Rightarrow> s32 \<Rightarrow> ptr option" where
  "cmd_nth reg index = cmd_nth_from index (devices reg)"

definition cmd_emulated_crc :: "u32 \<Rightarrow> u8 \<Rightarrow> u8" where
  "cmd_emulated_crc value cur =
     (if value = 0xFE then 0xE1 else if value = 0x80 then 0xB8 else if value = 0x01 then 0xEB
      else if value = 0x00 then 0x00 else cur)"

definition cmd_setup :: "u8 \<Rightarrow> u8 \<Rightarrow> u8 \<Rightarrow> u8 \<Rightarrow> u8 \<Rightarrow> u8 \<Rightarrow> u8 list" where
  "cmd_setup request_type request v_lo v_hi i_lo i_hi = [request_type, request, v_lo, v_hi, i_lo, i_hi]"

section \<open>One entry\<close>

text \<open>What the calls through an adapter's pointers do: to its core, as the code of the device runs while a
  transfer is waited for, and to the bytes the transfer was given.\<close>

record 'w cmd_seams =
  cmd_ioctl :: "'w ioctl_seams"
  call_cmd_claim :: "ptr \<Rightarrow> ptr \<Rightarrow> 'w core_state \<Rightarrow> bool \<times> 'w core_state"
  call_cmd_xfer :: "ptr \<Rightarrow> ptr \<Rightarrow> u8 list \<Rightarrow> u8 list \<Rightarrow> bool \<Rightarrow> 'w core_state \<Rightarrow> u32 \<times> u8 list \<times> 'w core_state"

definition xfer_at ::
    "'w cmd_seams \<Rightarrow> 'w core_device_entry \<Rightarrow> u8 list \<Rightarrow> nat \<Rightarrow> nat \<Rightarrow> bool \<Rightarrow> 'w core_state \<Rightarrow> u8 list \<Rightarrow>
       (u8 list \<times> 'w core_state) option" where
  "xfer_at C d setup at n keep cs b =
     (if at + n \<le> length b then
        let (_, data, cs) = call_cmd_xfer C (cmd_xfer d) (os_ctx d) setup (take n (drop at b)) keep cs
        in Some (take at b @ data @ drop (at + n) b, cs)
      else None)"

text \<open>The last loop: \<open>k\<close> passes from \<open>i\<close>, each exchanging two bytes of the reply.\<close>

primrec reply_reverse :: "nat \<Rightarrow> nat \<Rightarrow> nat \<Rightarrow> nat \<Rightarrow> u8 list \<Rightarrow> u8 list option" where
  "reply_reverse 0 i reply n b = Some b"
| "reply_reverse (Suc k) i reply n b = do {
     t \<leftarrow> cell_at b (int (reply + i));
     u \<leftarrow> cell_at b (int (reply + n) - 1 - int i);
     b \<leftarrow> cell_put b (int (reply + i)) u;
     b \<leftarrow> cell_put b (int (reply + n) - 1 - int i) t;
     reply_reverse k (i + 1) reply n b }"

text \<open>\<open>entry[1] |= CORE_CMD_FAILED\<close>.\<close>

definition mark_failed :: "nat \<Rightarrow> u8 list \<Rightarrow> u8 list option" where
  "mark_failed e b = do { x \<leftarrow> cell_at b (int e + 1); cell_put b (int e + 1) (x OR 0x80) }"

text \<open>The status byte taken from \<open>at\<close>, the command byte put back there, and the mark.\<close>

definition settle :: "nat \<Rightarrow> nat \<Rightarrow> u8 \<Rightarrow> (u8 \<Rightarrow> bool) \<Rightarrow> u8 list \<Rightarrow> u8 list option" where
  "settle e at saved bad b = do {
     status \<leftarrow> cell_at b (int at);
     b \<leftarrow> cell_put b (int at) saved;
     if bad status then mark_failed e b else Some b }"

text \<open>The part of \<open>core_cmd_exec\<close> from the status byte on.\<close>

definition cmd_wire ::
    "'w cmd_seams \<Rightarrow> 'w core_device_entry \<Rightarrow> nat \<Rightarrow> nat \<Rightarrow> nat \<Rightarrow> 'w core_state \<Rightarrow> u8 list \<Rightarrow>
       (u8 list \<times> 'w core_state) option" where
  "cmd_wire C d e cmd_len reply_len cs b = do {
     let reply = e + cmd_len + 2;
     saved \<leftarrow> cell_at b (int (reply - 1));
     c \<leftarrow> cell_at b (int e + 2);
     (b, cs) \<leftarrow>
       (if cmd_len < 5 then do {
          x \<leftarrow> (if 2 \<le> cmd_len then cell_at b (int e + 3) else Some 0);
          y \<leftarrow> (if 3 \<le> cmd_len then cell_at b (int e + 4) else Some 0);
          z \<leftarrow> (if 4 \<le> cmd_len then cell_at b (int e + 5) else Some 0);
          (b, cs) \<leftarrow> xfer_at C d (cmd_setup 0xC0 (of_nat (0x20 + cmd_len)) c x y z) (reply - 1) (reply_len + 1) False cs b;
          b \<leftarrow> settle e (reply - 1) saved (\<lambda>status. status = 0) b;
          Some (b, cs) }
        else do {
          x \<leftarrow> cell_at b (int e + 3);
          y \<leftarrow> cell_at b (int e + 4);
          (b, cs) \<leftarrow> xfer_at C d (cmd_setup 0x40 0x20 (of_nat reply_len) c x y) (e + 5) (cmd_len - 3) True cs b;
          (b, cs) \<leftarrow> xfer_at C d (cmd_setup 0xC0 0x71 0x30 0 0 0) (reply - 1) (reply_len + 1) False cs b;
          b \<leftarrow> settle e (reply - 1) saved (\<lambda>status. status AND 0x80 = 0 \<or> unat (status AND 0x3F) \<noteq> reply_len) b;
          Some (b, cs) });
     b \<leftarrow> reply_reverse (reply_len div 2) 0 reply reply_len b;
     Some (b, cs) }"

text \<open>The first path: the emulated Pak write, in the entry at \<open>e\<close>.\<close>

definition cmd_pak_write ::
    "'w cmd_seams \<Rightarrow> 'w core_device_entry \<Rightarrow> nat \<Rightarrow> nat \<Rightarrow> bool \<Rightarrow> 'w core_state \<Rightarrow> u8 list \<Rightarrow>
       (u8 list \<times> 'w core_state) option" where
  "cmd_pak_write C d e reply motor cs b = do {
     v \<leftarrow> cell_at b (int e + 5);
     let cs = cs\<lparr>emu_pak_value := ucast v\<rparr>;
     r \<leftarrow> cell_at b (int reply);
     b \<leftarrow> cell_put b (int reply) (cmd_emulated_crc (ucast v) r);
     if \<not> emu_pak_present cs then do {
       r \<leftarrow> cell_at b (int reply);
       b \<leftarrow> cell_put b (int reply) (NOT r);
       Some (b, cs) }
     else Some (b, if motor \<and> (v = 0 \<or> v = 1) \<and> dev_enable d \<noteq> 0
                   then call_enable (cmd_ioctl C) (dev_enable d) (os_ctx d) (v = 1) cs else cs) }"

text \<open>The second: the emulated Pak read.\<close>

definition cmd_pak_read :: "nat \<Rightarrow> 'w core_state \<Rightarrow> u8 list \<Rightarrow> u8 list option" where
  "cmd_pak_read reply cs b =
     (let (fill, crc) = (if \<not> emu_pak_present cs then (0x00, 0xFF)
                         else if emu_pak_value cs = 0xFE then (0x00, 0x00) else (0x80, 0xB8))
      in do {
        b \<leftarrow> cell_put b (int reply + 0x20) crc;
        copy_cells 0x20 (replicate 0x20 fill) 0 b (int reply) })"

text \<open>On an adapter whose entry is not null.\<close>

definition core_cmd_exec ::
    "'w cmd_seams \<Rightarrow> nat \<Rightarrow> 'w core_device_entry \<Rightarrow> u8 list \<Rightarrow> ('w core_device_entry \<times> u8 list) option" where
  "core_cmd_exec C e d b =
     (case dev_cs d of
        None \<Rightarrow> Some (d, b)
      | Some cs \<Rightarrow> do {
          l \<leftarrow> cell_at b (int e);
          n \<leftarrow> cell_at b (int e + 1);
          c \<leftarrow> cell_at b (int e + 2);
          let cmd_len = unat l;
          let reply_len = unat n;
          let reply = e + cmd_len + 2;
          (h, lo) \<leftarrow> (if 3 \<le> cmd_len then do { h \<leftarrow> cell_at b (int e + 3); lo \<leftarrow> cell_at b (int e + 4); Some (h, lo) }
                     else Some (0, 0));
          let ident = (h = 0x80 \<and> lo = 0x01);
          let motor = (h = 0xC0 \<and> lo = 0x1B);
          (b, cs) \<leftarrow>
            (if cmd_len = 0x23 \<and> reply_len = 1 \<and> c = 0x03 \<and> (ident \<or> motor) then
               cmd_pak_write C d e reply motor cs b
             else if cmd_len = 3 \<and> reply_len = 0x21 \<and> c = 0x02 \<and> ident then do {
               b \<leftarrow> cmd_pak_read reply cs b;
               Some (b, cs) }
             else if 5 \<le> cmd_len \<and> 4 \<le> reply_len then Some (b, cs)
             else if cmd_claim d = 0 \<or> cmd_xfer d = 0 then Some (b, cs)
             else
               let (got, cs) = call_cmd_claim C (cmd_claim d) (os_ctx d) cs
               in if \<not> got then Some (b, cs) else cmd_wire C d e cmd_len reply_len cs b);
          Some (d\<lparr>dev_cs := Some cs\<rparr>, b) })"

section \<open>The walk\<close>

text \<open>The three kinds of entry, on the adapter \<open>cmd_nth\<close> finds.\<close>

definition on_adapter ::
    "('w core_device_entry \<Rightarrow> u8 list \<Rightarrow> ('w core_device_entry \<times> u8 list) option) \<Rightarrow> ptr \<Rightarrow>
       ('w, 'o) core_registry \<Rightarrow> u8 list \<Rightarrow> (('w, 'o) core_registry \<times> u8 list) option" where
  "on_adapter f d reg b = do { (e, b) \<leftarrow> f (entry reg d) b; Some (map_entry d (\<lambda>_. e) reg, b) }"

definition cached_read :: "nat \<Rightarrow> 'w core_state \<Rightarrow> u8 list \<Rightarrow> u8 list option" where
  "cached_read p cs b = do {
     b \<leftarrow> cell_put b (int p + 3) (raw cs ! 4);
     b \<leftarrow> cell_put b (int p + 4) (raw cs ! 3);
     b \<leftarrow> cell_put b (int p + 5) (raw cs ! 0);
     cell_put b (int p + 6) (raw cs ! 1) }"

definition identify :: "'w cmd_seams \<Rightarrow> nat \<Rightarrow> 'w core_device_entry \<Rightarrow> u8 list \<Rightarrow> ('w core_device_entry \<times> u8 list) option" where
  "identify C p e b = do {
     (e, b) \<leftarrow> core_cmd_exec C p e b;
     s \<leftarrow> cell_at b (int p + 5);
     Some (e\<lparr>dev_cs := map_option (\<lambda>cs.
         let cs = cs\<lparr>emu_pak_present := (s AND 1 = 1)\<rparr>
         in if s AND 3 \<noteq> 1 then cs\<lparr>keepalive_time := 0\<rparr> else cs) (dev_cs e)\<rparr>, b) }"

definition cmd_entry ::
    "'w cmd_seams \<Rightarrow> s32 \<Rightarrow> nat \<Rightarrow> s32 \<Rightarrow> nat \<Rightarrow> nat \<Rightarrow> ('w, 'o) core_registry \<Rightarrow> u8 list \<Rightarrow>
       (('w, 'o) core_registry \<times> u8 list) option" where
  "cmd_entry C pass p index cmd_len reply_len reg b =
     (let dev = cmd_nth reg index;
          failed = do { b \<leftarrow> mark_failed p b; Some (reg, b) }
      in do {
        c \<leftarrow> cell_at b (int p + 2);
        if cmd_len = 1 \<and> reply_len = 4 \<and> c = 0x01 then
          if pass \<noteq> 1 then Some (reg, b)
          else case Option.bind dev (\<lambda>d. dev_cs (entry reg d)) of
            None \<Rightarrow> failed
          | Some cs \<Rightarrow> do { b \<leftarrow> cached_read p cs b; Some (reg, b) }
        else if cmd_len = 1 \<and> reply_len = 3 \<and> (c = 0x00 \<or> c = 0xFF) then
          if pass \<noteq> 1 then Some (reg, b)
          else case dev of
            None \<Rightarrow> failed
          | Some d \<Rightarrow>
              if dev_cs (entry reg d) = None then failed
              else do {
                b \<leftarrow> cell_put b (int p + 1) (of_nat reply_len);
                on_adapter (identify C p) d reg b }
        else if pass \<noteq> 0 then Some (reg, b)
        else case dev of
          None \<Rightarrow> failed
        | Some d \<Rightarrow>
            if reply_len < 0x26 then do {
              b \<leftarrow> cell_put b (int p + 1) (of_nat reply_len);
              on_adapter (core_cmd_exec C p) d reg b }
            else failed })"

text \<open>One pass of the loop at \<open>p\<close>: where it goes on, or \<open>None\<close> where the walk stops.\<close>

definition cmd_step ::
    "'w cmd_seams \<Rightarrow> s32 \<Rightarrow> nat \<Rightarrow> s32 \<Rightarrow> ('w, 'o) core_registry \<Rightarrow> u8 list \<Rightarrow>
       ((nat \<times> s32) option \<times> ('w, 'o) core_registry \<times> u8 list) option" where
  "cmd_step C pass p index reg b = do {
     l \<leftarrow> cell_at b (int p);
     if l = 0 then Some (Some (p + 1, index + 1), reg, b)
     else if l = 0xFE then Some (None, reg, b)
     else if l = 0xFF then Some (Some (p + 1, index), reg, b)
     else do {
       n \<leftarrow> cell_at b (int p + 1);
       let cmd_len = unat l;
       let reply_len = unat (n AND 0x3F);
       let span = cmd_len + reply_len;
       if cmd_len > 0x26 \<or> index \<ge> 5 \<or> reply_len > 0x26 \<or> (cmd_len > 4 \<and> reply_len > 3) \<or> p + span + 2 \<ge> 0x3F then do {
         b \<leftarrow> mark_failed p b;
         Some (None, reg, b) }
       else do {
         (reg, b) \<leftarrow> cmd_entry C pass p index cmd_len reply_len reg b;
         Some (Some (p + span + 2, index + 1), reg, b) } } }"

lemma step_advances: "cmd_step C pass p index reg b = Some (Some (q, j), reg', b') \<Longrightarrow> p < q"
  by (auto simp: cmd_step_def Let_def bind_eq_Some_conv split: if_splits)

function cmd_walk ::
    "'w cmd_seams \<Rightarrow> s32 \<Rightarrow> nat \<Rightarrow> s32 \<Rightarrow> ('w, 'o) core_registry \<Rightarrow> u8 list \<Rightarrow>
       (('w, 'o) core_registry \<times> u8 list) option" where
  "cmd_walk C pass p index reg b =
     (if p < 0x3F then
        case cmd_step C pass p index reg b of
          None \<Rightarrow> None
        | Some (None, reg, b) \<Rightarrow> Some (reg, b)
        | Some (Some (q, j), reg, b) \<Rightarrow> cmd_walk C pass q j reg b
      else Some (reg, b))"
  by pat_completeness auto

termination
  by (relation "measure (\<lambda>(C, pass, p, index, reg, b). 0x3F - p)") (auto dest: step_advances)

declare cmd_walk.simps [simp del]

definition core_cmd_process ::
    "'w cmd_seams \<Rightarrow> s32 \<Rightarrow> ('w, 'o) core_registry \<Rightarrow> u8 list \<Rightarrow> (('w, 'o) core_registry \<times> u8 list) option" where
  "core_cmd_process C pass reg b = cmd_walk C pass 0 0 reg b"

section \<open>Reading and writing\<close>

text \<open>A null buffer is \<open>None\<close>. The results are the status, the byte count, the buffer, and the registry and the
  channel.\<close>

type_synonym ('w, 'o) cmd_result = "(u32 \<times> u32 \<times> u8 list option \<times> ('w, 'o) core_registry \<times> core_cmd_channel) option"

definition core_cmd_read ::
    "'w cmd_seams \<Rightarrow> ('w, 'o) core_registry \<Rightarrow> core_cmd_channel \<Rightarrow> u8 list option \<Rightarrow> u32 \<Rightarrow> ('w, 'o) cmd_result" where
  "core_cmd_read C reg ch buf len =
     (if live_count reg = 0 \<and> len \<noteq> 1 then Some (CORE_ST_NO_SUCH_DEVICE, 0, buf, reg, ch)
      else if len = 0 then Some (CORE_ST_SUCCESS, 0, buf, reg, ch)
      else if len > 0x40 then Some (CORE_ST_INVALID_PARAM, 0, buf, reg, ch)
      else case buf of
        None \<Rightarrow> Some (CORE_ST_INVALID_PARAM, 0, buf, reg, ch)
      | Some out \<Rightarrow> do {
          (reg, out) \<leftarrow>
            (if len = 1 then do { out \<leftarrow> cell_put out 0 (of_int (live_count reg)); Some (reg, out) }
             else if len = 0x40 then do {
               out \<leftarrow> copy_cells 64 (block ch) 0 out 0;
               go \<leftarrow> cell_at out 0x3F;
               (reg, out) \<leftarrow> (if go = 1 then do {
                   (reg, out) \<leftarrow> core_cmd_process C 1 reg out;
                   out \<leftarrow> cell_put out 0x3F 0;
                   Some (reg, out) } else Some (reg, out));
               Some (reg, if swap_bytes ch then cmd_swap out else out) }
             else Some (reg, out));
          Some (CORE_ST_SUCCESS, len, Some out, reg, ch) })"

definition core_cmd_write ::
    "'w cmd_seams \<Rightarrow> ('w, 'o) core_registry \<Rightarrow> core_cmd_channel \<Rightarrow> u8 list option \<Rightarrow> u32 \<Rightarrow> ('w, 'o) cmd_result" where
  "core_cmd_write C reg ch buf len =
     (if live_count reg = 0 then Some (CORE_ST_NO_SUCH_DEVICE, 0, buf, reg, ch)
      else if len = 0 then Some (CORE_ST_SUCCESS, 0, buf, reg, ch)
      else if len \<noteq> 0x40 then Some (CORE_ST_INVALID_PARAM, len, buf, reg, ch)
      else case buf of
        None \<Rightarrow> Some (CORE_ST_INVALID_PARAM, len, buf, reg, ch)
      | Some data \<Rightarrow> do {
          word \<leftarrow> dword_in data 0x3C;
          let (data, ch) = (if word = 1 then (cmd_swap data, ch\<lparr>swap_bytes := True\<rparr>)
                            else (data, ch\<lparr>swap_bytes := False\<rparr>));
          blk \<leftarrow> copy_cells 64 data 0 (block ch) 0;
          go \<leftarrow> cell_at data 0x3F;
          (reg, blk) \<leftarrow> (if go = 1 then core_cmd_process C 0 reg blk else Some (reg, blk));
          Some (CORE_ST_SUCCESS, len, Some data, reg, ch\<lparr>block := blk\<rparr>) })"

end
