(* ===== verification/Command_Facts.thy ===== *)
theory Command_Facts
  imports Command_Block Control_Facts
begin

text \<open>
  What holds of the SDK command block: a walk ends inside the block and writes only the entries it visits,
  the same ones on the next walk; a reply off the wire is put in place the right way round; the emulated Pak
  answers with valid checksums; a poll is answered from the last packet; and a client of the other byte order.
\<close>

section \<open>Edits of a range\<close>

definition keeps :: "nat \<Rightarrow> nat \<Rightarrow> u8 list \<Rightarrow> u8 list \<Rightarrow> bool" where
  "keeps lo hi b b' \<longleftrightarrow> length b' = length b \<and> (\<forall>i. i < lo \<or> hi \<le> i \<longrightarrow> b' ! i = b ! i)"

named_theorems edit

lemma keeps_refl [edit]: "keeps lo hi b b" by (simp add: keeps_def)

lemma keeps_trans: "keeps lo hi a b \<Longrightarrow> keeps lo hi b c \<Longrightarrow> keeps lo hi a c"
  by (simp add: keeps_def)

lemma keeps_wider: "keeps lo hi a b \<Longrightarrow> lo' \<le> lo \<Longrightarrow> hi \<le> hi' \<Longrightarrow> keeps lo' hi' a b"
  by (simp add: keeps_def)

lemma keeps_put [edit]: "lo \<le> i \<Longrightarrow> i < hi \<Longrightarrow> keeps lo hi b (b[i := x])"
  by (auto simp: keeps_def nth_list_update)

lemma keeps_more: "keeps lo hi a b \<Longrightarrow> lo \<le> i \<Longrightarrow> i < hi \<Longrightarrow> keeps lo hi a (b[i := x])"
  by (rule keeps_trans [OF _ keeps_put])

lemma keeps_nth: "keeps lo hi b b' \<Longrightarrow> i < lo \<or> hi \<le> i \<Longrightarrow> b' ! i = b ! i"
  by (auto simp: keeps_def)

lemma keeps_length: "keeps lo hi b b' \<Longrightarrow> length b' = length b" by (simp add: keeps_def)

lemma keeps_splice [edit]:
  "lo \<le> at \<Longrightarrow> at + length d \<le> hi \<Longrightarrow> at + length d \<le> length b \<Longrightarrow>
   keeps lo hi b (take at b @ d @ drop (at + length d) b)"
  by (auto simp: keeps_def nth_append)

section \<open>The reply turned round\<close>

lemma reverse_run:
  assumes "2 * (i + k) \<le> n" "r + n \<le> length b"
  shows "\<exists>b'. reply_reverse k i r n b = Some b' \<and> length b' = length b \<and>
    (\<forall>x < length b. b' ! x = (if \<exists>j. i \<le> j \<and> j < i + k \<and> (x = r + j \<or> x = r + n - 1 - j) then b ! (2 * r + n - 1 - x) else b ! x))"
  using assms
proof (induction k arbitrary: i b)
  case (Suc k)
  have p: "r + i < length b" "r + n - 1 - i < length b" "r + i \<noteq> r + n - 1 - i" "0 \<le> int (r + n) - 1 - int i"
    "nat (int (r + n) - 1 - int i) = r + n - 1 - i" "nat (int r + int i) = r + i" using Suc.prems by auto
  let ?b = "b[r + i := b ! (r + n - 1 - i), r + n - 1 - i := b ! (r + i)]"
  obtain b' where b': "reply_reverse k (i + 1) r n ?b = Some b'" "length b' = length b"
    "\<And>x. x < length b \<Longrightarrow> b' ! x = (if \<exists>j. i + 1 \<le> j \<and> j < i + 1 + k \<and> (x = r + j \<or> x = r + n - 1 - j) then ?b ! (2 * r + n - 1 - x) else ?b ! x)"
    using Suc.IH [of "i + 1" ?b] Suc.prems by auto
  have run: "reply_reverse (Suc k) i r n b = Some b'"
    using p b'(1) by (simp add: cell_some)
  have at: "b' ! x = (if \<exists>j. i \<le> j \<and> j < i + Suc k \<and> (x = r + j \<or> x = r + n - 1 - j) then b ! (2 * r + n - 1 - x) else b ! x)"
    if x: "x < length b" for x
  proof (cases "\<exists>j. i + 1 \<le> j \<and> j < i + 1 + k \<and> (x = r + j \<or> x = r + n - 1 - j)")
    case True
    then obtain j where j: "i + 1 \<le> j" "j < i + 1 + k" "x = r + j \<or> x = r + n - 1 - j" by blast
    have "2 * r + n - 1 - x \<noteq> r + i" "2 * r + n - 1 - x \<noteq> r + n - 1 - i" using j Suc.prems by auto
    then have "b' ! x = b ! (2 * r + n - 1 - x)" using b'(3) [OF x] True by simp
    moreover have "\<exists>j. i \<le> j \<and> j < i + Suc k \<and> (x = r + j \<or> x = r + n - 1 - j)" using j by (intro exI [of _ j]) auto
    ultimately show ?thesis by simp
  next
    case False
    have e: "(\<exists>j. i \<le> j \<and> j < i + Suc k \<and> (x = r + j \<or> x = r + n - 1 - j)) \<longleftrightarrow> x = r + i \<or> x = r + n - 1 - i"
    proof
      assume "\<exists>j. i \<le> j \<and> j < i + Suc k \<and> (x = r + j \<or> x = r + n - 1 - j)"
      then obtain j where j: "i \<le> j" "j < i + Suc k" "x = r + j \<or> x = r + n - 1 - j" by blast
      then have "j = i" using False by (metis Suc_eq_plus1 Suc_leI add_Suc_right add_Suc le_neq_implies_less)
      then show "x = r + i \<or> x = r + n - 1 - i" using j(3) by simp
    qed (auto intro: exI [of _ i])
    have "b' ! x = ?b ! x" using b'(3) [OF x] by (simp only: False if_False)
    also have "\<dots> = (if x = r + i \<or> x = r + n - 1 - i then b ! (2 * r + n - 1 - x) else b ! x)"
    proof -
      have "2 * r + n - 1 - (r + i) = r + n - 1 - i" "2 * r + n - 1 - (r + n - 1 - i) = r + i" using Suc.prems by auto
      then show ?thesis using p by (auto simp: nth_list_update)
    qed
    finally show ?thesis unfolding e .
  qed
  show ?case using run b'(2) at by blast
qed auto

lemma mirror_same: "u = (if P then f m else f x) \<Longrightarrow> v = (if P \<and> x \<noteq> m then f m else f x) \<Longrightarrow> v = u"
  by (auto split: if_splits)

lemma reverse_reply:
  assumes "r + n \<le> length b"
  shows "reply_reverse (n div 2) 0 r n b = Some (take r b @ rev (take n (drop r b)) @ drop (r + n) b)"
proof -
  obtain b' where b': "reply_reverse (n div 2) 0 r n b = Some b'" "length b' = length b"
    "\<forall>x < length b. b' ! x = (if \<exists>j. 0 \<le> j \<and> j < 0 + n div 2 \<and> (x = r + j \<or> x = r + n - 1 - j) then b ! (2 * r + n - 1 - x) else b ! x)"
    using reverse_run [of 0 "n div 2" n r b] assms by auto
  have "b' ! x = (take r b @ rev (take n (drop r b)) @ drop (r + n) b) ! x" if x: "x < length b" for x
  proof -
    have mirror: "(\<exists>j. 0 \<le> j \<and> j < 0 + n div 2 \<and> (x = r + j \<or> x = r + n - 1 - j)) \<longleftrightarrow>
        (r \<le> x \<and> x < r + n) \<and> x \<noteq> 2 * r + n - 1 - x"
    proof
      assume c: "(r \<le> x \<and> x < r + n) \<and> x \<noteq> 2 * r + n - 1 - x"
      show "\<exists>j. 0 \<le> j \<and> j < 0 + n div 2 \<and> (x = r + j \<or> x = r + n - 1 - j)"
      proof (cases "x - r < n div 2")
        case True
        then show ?thesis using c by (intro exI [of _ "x - r"]) auto
      next
        case False
        then have "r + n - 1 - x < n div 2" using c by linarith
        then show ?thesis using c by (intro exI [of _ "r + n - 1 - x"]) auto
      qed
    qed auto
    have "(take r b @ rev (take n (drop r b)) @ drop (r + n) b) ! x =
        (if r \<le> x \<and> x < r + n then b ! (2 * r + n - 1 - x) else b ! x)"
    proof -
      have "n - Suc (x - r) + r = 2 * r + n - 1 - x" if "r \<le> x" "x < r + n" using that by linarith
      then show ?thesis using assms x by (auto simp: nth_append rev_nth add.commute not_less intro!: arg_cong [of _ _ "(!) b"])
    qed
    moreover have "b' ! x = (if (r \<le> x \<and> x < r + n) \<and> x \<noteq> 2 * r + n - 1 - x then b ! (2 * r + n - 1 - x) else b ! x)"
      unfolding mirror [symmetric] by (rule b'(3) [rule_format, OF x])
    ultimately show ?thesis 
      by (rule mirror_same [where f = "(!) b" and m = "2 * r + n - 1 - x" and x = x and P = "r \<le> x \<and> x < r + n"])
  qed
  then have "b' = take r b @ rev (take n (drop r b)) @ drop (r + n) b"
    using b'(2) assms by (intro nth_equalityI) auto
  then show ?thesis using b'(1) by simp
qed

section \<open>What an entry may write\<close>

text \<open>The entry at \<open>p\<close> ends before \<open>hi\<close>: its header byte \<open>p\<close> stays, and so does the reply length in the next.\<close>

definition edits :: "nat \<Rightarrow> nat \<Rightarrow> u8 list \<Rightarrow> u8 list \<Rightarrow> bool" where
  "edits p hi b b' \<longleftrightarrow> keeps (p + 1) hi b b' \<and> b' ! (p + 1) AND 0x3F = b ! (p + 1) AND 0x3F"

lemma edits_refl [simp]: "edits p hi b b" by (simp add: edits_def keeps_refl)

lemma edits_trans: "edits p hi a b \<Longrightarrow> edits p hi b c \<Longrightarrow> edits p hi a c"
  by (auto simp: edits_def intro: keeps_trans)

lemma edits_length: "edits p hi b b' \<Longrightarrow> length b' = length b" by (simp add: edits_def keeps_def)

lemma edits_put: "p + 1 < i \<Longrightarrow> i < hi \<Longrightarrow> edits p hi b (b[i := x])"
  by (simp add: edits_def keeps_put)

lemma edits_splice:
  "p + 1 < at \<Longrightarrow> at + length d \<le> hi \<Longrightarrow> at + length d \<le> length b \<Longrightarrow>
   edits p hi b (take at b @ d @ drop (at + length d) b)"
  by (simp add: edits_def keeps_splice nth_append)

lemma mark_mask: "(x OR 0x80) AND 0x3F = (x AND 0x3F :: u8)"
  by (rule bit_word_eqI) (auto simp: bit_simps)

lemma of_mask: "(of_nat (unat (x AND 0x3F)) :: u8) AND 0x3F = x AND 0x3F"
  by (simp add: and.assoc)

lemma edits_head: "p + 1 < hi \<Longrightarrow> x AND 0x3F = b ! (p + 1) AND 0x3F \<Longrightarrow> p + 1 < length b \<Longrightarrow> edits p hi b (b[p + 1 := x])"
  by (simp add: edits_def keeps_put)

lemma mark_edits:
  assumes "p + 1 < length b" "p + 1 < hi"
  shows "mark_failed p b = Some (b[p + 1 := b ! (p + 1) OR 0x80])" "edits p hi b (b[p + 1 := b ! (p + 1) OR 0x80])"
proof -
  have "nat (int p + 1) = p + 1" by simp
  then show "mark_failed p b = Some (b[p + 1 := b ! (p + 1) OR 0x80])"
    using assms by (simp add: mark_failed_def cell_some)
  show "edits p hi b (b[p + 1 := b ! (p + 1) OR 0x80])" by (rule edits_head) (use assms mark_mask in simp_all)
qed

text \<open>A transport that fills the buffer it is given.\<close>

definition cmd_transport :: "'w cmd_seams \<Rightarrow> bool" where
  "cmd_transport C \<longleftrightarrow> (\<forall>f x s d k cs st d' cs'. call_cmd_xfer C f x s d k cs = (st, d', cs') \<longrightarrow> length d' = length d)"

lemma xfer_edits:
  assumes "cmd_transport C" "at + n \<le> length b" "p + 1 < at" "at + n \<le> hi"
  obtains b' cs' where "xfer_at C d s at n k cs b = Some (b', cs')" "edits p hi b b'"
proof -
  obtain st data cs' where x: "call_cmd_xfer C (cmd_xfer d) (os_ctx d) s (take n (drop at b)) k cs = (st, data, cs')"
    by (metis prod_cases3)
  then have len: "length data = n" using assms(1,2) unfolding cmd_transport_def by fastforce
  have "xfer_at C d s at n k cs b = Some (take at b @ data @ drop (at + n) b, cs')"
    using assms(2) x by (simp add: xfer_at_def)
  moreover have "edits p hi b (take at b @ data @ drop (at + n) b)"
    using edits_splice [of p at data hi b] assms len by simp
  ultimately show thesis by (rule that)
qed

lemma reverse_edits:
  assumes "p + 1 < r" "r + n \<le> hi" "r + n \<le> length b"
  shows "\<exists>b'. reply_reverse (n div 2) 0 r n b = Some b' \<and> edits p hi b b'"
proof -
  have "length (rev (take n (drop r b))) = n" using assms by simp
  from edits_splice [of p r "rev (take n (drop r b))" hi b, unfolded this]
  show ?thesis using reverse_reply [OF assms(3)] assms by simp
qed

lemma cell_in: "i < length b \<Longrightarrow> cell_at b (int i) = Some (b ! i)" "i < length b \<Longrightarrow> cell_put b (int i) x = Some (b[i := x])"
  by (simp_all add: cell_some)

lemma settle_run:
  assumes "p + 1 < length b" "at < length b" "p + 1 < at"
  shows "settle p at saved bad b =
    Some (if bad (b ! at) then b[at := saved, p + 1 := b ! (p + 1) OR 0x80] else b[at := saved])"
  using assms mark_edits(1) [of p "b[at := saved]" "length b"] by (simp add: settle_def cell_in)

lemma settle_edits:
  assumes "p + 1 < at" "at < hi" "hi \<le> length b"
  shows "\<exists>b'. settle p at saved bad b = Some b' \<and> edits p hi b b'"
proof -
  let ?b = "b[at := saved]"
  have e: "edits p hi b ?b" by (rule edits_put) (use assms in simp_all)
  have "p + 1 < length ?b" "p + 1 < hi" using assms by simp_all
  note edits_trans [OF e mark_edits(2) [OF this]]
  then show ?thesis using e assms settle_run [of p b at saved bad] by auto
qed

lemma wire_edits:
  assumes tr: "cmd_transport C" and len: "1 \<le> cmd_len" "hi = p + cmd_len + reply_len + 2" "hi < length b"
  shows "\<exists>b' cs'. cmd_wire C d p cmd_len reply_len cs b = Some (b', cs') \<and> edits p hi b b'"
proof -
  let ?r = "p + cmd_len + 2"
  have at: "?r - 1 + (reply_len + 1) \<le> length b" "p + 1 < ?r - 1" "?r - 1 + (reply_len + 1) \<le> hi" using len by simp_all
  have cell: "cell_at b (int p + int k) = Some (b ! (p + k))" if "p + k < length b" for k
    using cell_in(1) [OF that] by simp
  have ends: "\<exists>b' cs'. do { (b, cs) \<leftarrow> xfer_at C d s (?r - 1) (reply_len + 1) False cs c;
        b \<leftarrow> settle p (?r - 1) saved bad b; b \<leftarrow> reply_reverse (reply_len div 2) 0 ?r reply_len b; Some (b, cs) } = Some (b', cs') \<and>
      edits p hi a b'" if a: "edits p hi a c" "length c = length a" "hi < length a" for a c s cs saved bad
  proof -
    obtain b1 cs1 where 1: "xfer_at C d s (?r - 1) (reply_len + 1) False cs c = Some (b1, cs1)" "edits p hi c b1"
      by (rule xfer_edits [OF tr, of "?r - 1" "reply_len + 1" c p hi]) (use len a in auto)
    have n1: "length b1 = length a" using edits_length [OF 1(2)] a by simp
    obtain b2 where 2: "settle p (?r - 1) saved bad b1 = Some b2" "edits p hi b1 b2"
      using settle_edits [of p "?r - 1" hi b1 saved bad] len n1 a(3) by auto
    have n2: "length b2 = length a" using edits_length [OF 2(2)] n1 by simp
    obtain b3 where 3: "reply_reverse (reply_len div 2) 0 ?r reply_len b2 = Some b3" "edits p hi b2 b3"
      using reverse_edits [of p ?r reply_len hi b2] len n2 a(3) by auto
    show ?thesis using 1(1) 2(1) 3(1) edits_trans [OF edits_trans [OF edits_trans [OF a(1) 1(2)] 2(2)] 3(2)] by simp
  qed
  have saved: "cell_at b (int (?r - 1)) = Some (b ! (?r - 1))" by (rule cell_in) (use len in simp)
  show ?thesis
  proof (cases "cmd_len < 5")
    case True
    have "\<exists>x. (if 2 \<le> cmd_len then cell_at b (int p + 3) else Some 0) = Some x"
      "\<exists>x. (if 3 \<le> cmd_len then cell_at b (int p + 4) else Some 0) = Some x"
      "\<exists>x. (if 4 \<le> cmd_len then cell_at b (int p + 5) else Some 0) = Some x"
      using cell [of 3] cell [of 4] cell [of 5] len by auto
    then obtain x y z where xyz: "(if 2 \<le> cmd_len then cell_at b (int p + 3) else Some 0) = Some x"
      "(if 3 \<le> cmd_len then cell_at b (int p + 4) else Some 0) = Some y"
      "(if 4 \<le> cmd_len then cell_at b (int p + 5) else Some 0) = Some z" by blast
    have c: "cell_at b (int p + 2) = Some (b ! (p + 2))" using cell [of 2] len by simp
    show ?thesis
      using ends [OF edits_refl refl len(3), of "cmd_setup 0xC0 (of_nat (0x20 + cmd_len)) (b ! (p + 2)) x y z" cs
          "b ! (?r - 1)" "\<lambda>status. status = 0"] True
      unfolding cmd_wire_def Let_def saved c xyz by (simp add: Option.bind_assoc case_prod_unfold del: of_nat_add)
  next
    case False
    then have c: "cell_at b (int p + 2) = Some (b ! (p + 2))" "cell_at b (int p + 3) = Some (b ! (p + 3))"
      "cell_at b (int p + 4) = Some (b ! (p + 4))" using cell [of 2] cell [of 3] cell [of 4] len by simp_all
    obtain b1 cs1 where 1: "xfer_at C d (cmd_setup 0x40 0x20 (of_nat reply_len) (b ! (p + 2)) (b ! (p + 3)) (b ! (p + 4)))
        (p + 5) (cmd_len - 3) True cs b = Some (b1, cs1)" "edits p hi b b1"
      by (rule xfer_edits [OF tr, of "p + 5" "cmd_len - 3" b p hi]) (use len False in auto)
    show ?thesis
      using ends [OF 1(2) edits_length [OF 1(2)] len(3), of "cmd_setup 0xC0 0x71 0x30 0 0 0" cs1 "b ! (?r - 1)"
          "\<lambda>status. status AND 0x80 = 0 \<or> unat (status AND 0x3F) \<noteq> reply_len"] False 1(1)
      unfolding cmd_wire_def Let_def saved c by (simp add: Option.bind_assoc case_prod_unfold del: of_nat_add)
  qed
qed

lemma copy_edits:
  assumes "length src = n" "p + 1 < at" "at + n \<le> hi" "hi \<le> length b"
  shows "\<exists>b'. copy_cells n src 0 b (int at) = Some b' \<and> edits p hi b b'"
  using assms copy_some [of "int at" n src b] edits_splice [of p at src hi b] by simp

lemma cell_plus:
  "p + numeral k < length b \<Longrightarrow> cell_at b (int p + numeral k) = Some (b ! (p + numeral k))"
  "p + 1 < length b \<Longrightarrow> cell_at b (int p + 1) = Some (b ! (p + 1))"
proof -
  have "nat (int p + numeral k) = p + numeral k" "nat (int p + 1) = p + 1" by (simp_all add: nat_add_distrib)
  then show "p + numeral k < length b \<Longrightarrow> cell_at b (int p + numeral k) = Some (b ! (p + numeral k))"
    "p + 1 < length b \<Longrightarrow> cell_at b (int p + 1) = Some (b ! (p + 1))" by (simp_all add: cell_at_def)
qed

lemma pak_write_edits:
  assumes "p + 5 < r" "r < hi" "hi \<le> length b"
  shows "\<exists>b' cs'. cmd_pak_write C d p r motor cs b = Some (b', cs') \<and> edits p hi b b'"
proof -
  have c: "cell_at b (int p + 5) = Some (b ! (p + 5))" using assms by (intro cell_plus) simp
  have e: "edits p hi b (b[r := x])" for x by (rule edits_put) (use assms in simp_all)
  show ?thesis using assms e by (simp add: cmd_pak_write_def c cell_in Let_def)
qed

lemma pak_read_edits:
  assumes "p + 1 < r" "r + 33 \<le> hi" "hi \<le> length b"
  shows "\<exists>b'. cmd_pak_read r cs b = Some b' \<and> edits p hi b b'"
proof -
  have run: "\<exists>b'. do { b \<leftarrow> cell_put b (int (r + 0x20)) crc; copy_cells 0x20 (replicate 0x20 fill) 0 b (int r) } = Some b' \<and>
      edits p hi b b'" for fill crc
  proof -
    have e: "edits p hi b (b[r + 0x20 := crc])" by (rule edits_put) (use assms in simp_all)
    have "\<exists>b'. copy_cells 0x20 (replicate 0x20 fill) 0 (b[r + 0x20 := crc]) (int r) = Some b' \<and> edits p hi (b[r + 0x20 := crc]) b'"
      by (rule copy_edits) (use assms in simp_all)
    then obtain b' where b': "copy_cells 0x20 (replicate 0x20 fill) 0 (b[r + 0x20 := crc]) (int r) = Some b'"
      "edits p hi (b[r + 0x20 := crc]) b'" by blast
    have "r + 0x20 < length b" using assms by simp
    from cell_in(2) [OF this] b'(1) edits_trans [OF e b'(2)] show ?thesis by simp
  qed
  show ?thesis using run unfolding cmd_pak_read_def Let_def by (simp split: if_split del: copy_cells.simps)
qed

lemma exec_edits:
  assumes tr: "cmd_transport C" and len: "1 \<le> unat (b ! p)" "hi = p + unat (b ! p) + unat (b ! (p + 1)) + 2" "hi < length b"
  shows "\<exists>d' b'. core_cmd_exec C p d b = Some (d', b') \<and> edits p hi b b' \<and> live d' = live d"
proof (cases "dev_cs d")
  case None
  then show ?thesis by (simp add: core_cmd_exec_def)
next
  case (Some cs)
  let ?l = "unat (b ! p)" and ?n = "unat (b ! (p + 1))"
  have c: "cell_at b (int p) = Some (b ! p)" "cell_at b (int p + 1) = Some (b ! (p + 1))"
    "cell_at b (int p + 2) = Some (b ! (p + 2))" using len cell_in(1) [of p b] cell_plus(2) [of p b] cell_plus(1) [of p _ b] by auto
  obtain h lo where hl: "(if 3 \<le> ?l then do { h \<leftarrow> cell_at b (int p + 3); lo \<leftarrow> cell_at b (int p + 4); Some (h, lo) }
      else Some (0, 0)) = Some (h, lo)"
    using len cell_plus(1) [of p _ b] by (cases "3 \<le> ?l") auto
  let ?run = "if ?l = 0x23 \<and> ?n = 1 \<and> b ! (p + 2) = 0x03 \<and> (h = 0x80 \<and> lo = 0x01 \<or> h = 0xC0 \<and> lo = 0x1B) then
       cmd_pak_write C d p (p + ?l + 2) (h = 0xC0 \<and> lo = 0x1B) cs b
     else if ?l = 3 \<and> ?n = 0x21 \<and> b ! (p + 2) = 0x02 \<and> h = 0x80 \<and> lo = 0x01 then do {
       b \<leftarrow> cmd_pak_read (p + ?l + 2) cs b;
       Some (b, cs) }
     else if 5 \<le> ?l \<and> 4 \<le> ?n then Some (b, cs)
     else if cmd_claim d = 0 \<or> cmd_xfer d = 0 then Some (b, cs)
     else
       let (got, cs) = call_cmd_claim C (cmd_claim d) (os_ctx d) cs
       in if \<not> got then Some (b, cs) else cmd_wire C d p ?l ?n cs b"
  have "\<exists>b' cs'. ?run = Some (b', cs') \<and> edits p hi b b'"
    using pak_write_edits [of p "p + ?l + 2" hi b C d "h = 0xC0 \<and> lo = 0x1B" cs] pak_read_edits [of p "p + ?l + 2" hi b cs]
      wire_edits [OF tr len, of d] len by (auto split: prod.split)
  then obtain b' cs' where r: "?run = Some (b', cs')" "edits p hi b b'" by blast
  have "core_cmd_exec C p d b = do { (b, cs) \<leftarrow> ?run; Some (d\<lparr>dev_cs := Some cs\<rparr>, b) }"
    using Some by (simp only: core_cmd_exec_def option.case c Option.bind.simps hl Let_def prod.case)
  also have "\<dots> = Some (d\<lparr>dev_cs := Some cs'\<rparr>, b')" unfolding r(1) by simp
  finally show ?thesis using r(2) by simp
qed

section \<open>The walk\<close>

text \<open>The cells the walk may write, entry by entry: everything of an entry but its first byte, and where the
  walk stops on an error, the mark.\<close>

definition bad_entry :: "nat \<Rightarrow> s32 \<Rightarrow> u8 list \<Rightarrow> bool" where
  "bad_entry p index b \<longleftrightarrow> (let cmd_len = unat (b ! p); reply_len = unat (b ! (p + 1) AND 0x3F)
     in cmd_len > 0x26 \<or> index \<ge> 5 \<or> reply_len > 0x26 \<or> (cmd_len > 4 \<and> reply_len > 3) \<or> p + (cmd_len + reply_len) + 2 \<ge> 0x3F)"

definition entry_end :: "nat \<Rightarrow> u8 list \<Rightarrow> nat" where
  "entry_end p b = p + (unat (b ! p) + unat (b ! (p + 1) AND 0x3F)) + 2"

function cmd_cells :: "nat \<Rightarrow> s32 \<Rightarrow> u8 list \<Rightarrow> nat list" where
  "cmd_cells p index b =
     (if 0x3F \<le> p \<or> b ! p = 0xFE then []
      else if b ! p = 0 then cmd_cells (p + 1) (index + 1) b
      else if b ! p = 0xFF then cmd_cells (p + 1) index b
      else if bad_entry p index b then [p + 1]
      else [p + 1..<entry_end p b] @ cmd_cells (entry_end p b) (index + 1) b)"
  by pat_completeness auto
termination by (relation "measure (\<lambda>(p, index, b). 0x3F - p)") (auto simp: entry_end_def)

declare cmd_cells.simps [simp del]

lemma cells_above: "i \<in> set (cmd_cells p index b) \<Longrightarrow> p < i"
proof (induction p index b rule: cmd_cells.induct)
  case (1 p index b)
  show ?case
    using 1 by (subst (asm) cmd_cells.simps [of p index b]) (fastforce simp: entry_end_def split: if_splits)
qed

lemma cells_cong: "(\<And>i. p \<le> i \<Longrightarrow> b ! i = c ! i) \<Longrightarrow> cmd_cells p index b = cmd_cells p index c"
proof (induction p index b rule: cmd_cells.induct)
  case (1 p index b)
  have "entry_end p b = entry_end p c" "bad_entry p index b = bad_entry p index c" "b ! p = c ! p"
    using "1.prems" by (simp_all add: entry_end_def bad_entry_def)
  moreover have "p < entry_end p b" by (simp add: entry_end_def)
  ultimately show ?case using 1 by (simp add: cmd_cells.simps [of p index b] cmd_cells.simps [of p index c])
qed

lemma on_adapter_run:
  assumes "f (entry reg d) b = Some (e, b')" "live e = live (entry reg d)"
  shows "on_adapter f d reg b = Some (map_entry d (\<lambda>_. e) reg, b')" "same_list reg (map_entry d (\<lambda>_. e) reg)"
  using assms by (simp_all add: on_adapter_def same_list_def)

lemma entry_edits:
  assumes tr: "cmd_transport C" and len: "length b = 64" "1 \<le> unat (b ! p)" "unat (b ! (p + 1) AND 0x3F) = n"
    "p + unat (b ! p) + n + 2 = hi" "hi < 0x3F"
  shows "\<exists>reg' b'. cmd_entry C pass p index (unat (b ! p)) n reg b = Some (reg', b') \<and> edits p hi b b' \<and> same_list reg reg'"
proof -
  have c2: "cell_at b (int p + 2) = Some (b ! (p + 2))" using len by (intro cell_plus) simp
  have p: "p + 1 < length b" "p + 1 < hi" "p + 1 < 64" using len by simp_all
  note mark = mark_edits [OF p(1,2)]
  let ?h = "b[p + 1 := of_nat n]"
  have head: "cell_put b (int p + 1) (of_nat n) = Some ?h" "edits p hi b ?h"
  proof -
    have "nat (int p + 1) = p + 1" by simp
    then show "cell_put b (int p + 1) (of_nat n) = Some ?h" using p by (simp add: cell_some)
    have "(of_nat n :: u8) AND 0x3F = b ! (p + 1) AND 0x3F" using of_mask [of "b ! (p + 1)"] unfolding len(3) .
    then show "edits p hi b ?h" by (rule edits_head [OF p(2) _ p(1)])
  qed
  have at: "?h ! p = b ! p" "?h ! (p + 1) = of_nat n" "length ?h = 64" using p len by simp_all
  have n: "n < 64" using len(4,5) by simp
  have h: "1 \<le> unat (?h ! p)" "hi = p + unat (?h ! p) + unat (?h ! (p + 1)) + 2" "hi < length ?h"
    using len at n by (simp_all add: unat_of_nat)
  have exec: "\<exists>d' b'. core_cmd_exec C p d ?h = Some (d', b') \<and> edits p hi b b' \<and> live d' = live d" for d
    using exec_edits [OF tr h] edits_trans [OF head(2)] by blast
  have five: "cell_at b' (int p + 5) = Some (b' ! (p + 5))" if "edits p hi b b'" "n = 3" for b'
    using edits_length [OF that(1)] that(2) len by (intro cell_plus) simp
  have ident: "\<exists>d' b'. identify C p d ?h = Some (d', b') \<and> edits p hi b b' \<and> live d' = live d" if "n = 3" for d
  proof -
    obtain d' b' where x: "core_cmd_exec C p d ?h = Some (d', b')" "edits p hi b b'" "live d' = live d" using exec by blast
    show ?thesis using x five [OF x(2) that] by (simp add: identify_def)
  qed
  have cached: "\<exists>b'. cached_read p cs b = Some b' \<and> edits p hi b b'" if "unat (b ! p) = 1" "n = 4" for cs :: "'a core_state"
  proof -
    have i: "int p + 3 = int (p + 3)" "int p + 4 = int (p + 4)" "int p + 5 = int (p + 5)" "int p + 6 = int (p + 6)" by simp_all
    have e: "edits p hi c (c[p + k := x])" if "2 \<le> k" "k \<le> 6" for c k x
      by (rule edits_put) (use that len \<open>unat (b ! p) = 1\<close> \<open>n = 4\<close> in simp_all)
    have "cached_read p cs b = Some (b[p + 3 := raw cs ! 4, p + 4 := raw cs ! 3, p + 5 := raw cs ! 0, p + 6 := raw cs ! 1])"
      unfolding cached_read_def i using len that by (simp add: cell_in del: of_nat_add)
    moreover have "edits p hi b (b[p + 3 := raw cs ! 4, p + 4 := raw cs ! 3, p + 5 := raw cs ! 0, p + 6 := raw cs ! 1])"
      by (rule edits_trans [OF edits_trans [OF edits_trans [OF e e] e] e]) simp_all
    ultimately show ?thesis by blast
  qed
  have failed: "do { b \<leftarrow> mark_failed p b; Some (reg, b) } = Some (reg, b[p + 1 := b ! (p + 1) OR 0x80])" by (simp add: mark(1))
  define good where "good res \<longleftrightarrow> (\<exists>reg' b'. res = Some (reg', b') \<and> edits p hi b b' \<and> same_list reg reg')" for res
  have on: "good (on_adapter f d reg ?h)" if "\<exists>d' b'. f (entry reg d) ?h = Some (d', b') \<and> edits p hi b b' \<and> live d' = live (entry reg d)" for f d
    using that on_adapter_run unfolding good_def by blast
  have "good (on_adapter (core_cmd_exec C p) d reg ?h)" for d by (rule on) (rule exec)
  moreover have "good (on_adapter (identify C p) d reg ?h)" if "n = 3" for d by (rule on) (rule ident [OF that])
  moreover have "good (Some (reg, b))" "good (Some (reg, b[p + 1 := b ! (p + 1) OR 0x80]))"
    using mark(2) same_list_refl by (simp_all add: good_def)
  moreover have "good (do { b \<leftarrow> cached_read p cs b; Some (reg, b) })" if "unat (b ! p) = 1" "n = 4" for cs :: "'a core_state"
    using cached [OF that, of cs] by (auto simp: good_def)
  ultimately have "good (cmd_entry C pass p index (unat (b ! p)) n reg b)"
    unfolding cmd_entry_def Let_def c2 failed head(1) Option.bind.simps by (simp split: option.split)
  then show ?thesis by (simp add: good_def)
qed

lemma next_end: "0x3F \<le> p \<Longrightarrow> cmd_walk C pass p index reg b = Some (reg, b)"
  by (simp add: cmd_walk.simps)

lemma walk_edits:
  assumes "cmd_transport C" and "length b = 64"
  shows "\<exists>reg' b'. cmd_walk C pass p index reg b = Some (reg', b') \<and> length b' = 64 \<and> same_list reg reg' \<and>
    (\<forall>i. i \<notin> set (cmd_cells p index b) \<longrightarrow> b' ! i = b ! i) \<and> cmd_cells p index b' = cmd_cells p index b"
  using assms(2)
proof (induction "0x3F - p" arbitrary: p index reg b rule: less_induct)
  case less
  show ?case
  proof (cases "0x3F \<le> p")
    case True
    then show ?thesis using less.prems by (simp add: next_end cmd_cells.simps [of p])
  next
    case False
    then have p: "p < length b" "p + 1 < length b" "p < 0x3F" using less.prems by simp_all
    note c = cell_in(1) [OF p(1)] cell_plus(2) [OF p(2)]
    have closer: "0x3F - (p + 1) < 0x3F - p" using p by simp
    have skip: ?thesis if s: "cmd_step C pass p index reg b = Some (Some (p + 1, j), reg, b)" "b ! p = 0 \<and> j = index + 1 \<or> b ! p = 0xFF \<and> j = index" for j
    proof -
      obtain reg' b' where r: "cmd_walk C pass (p + 1) j reg b = Some (reg', b')" "length b' = 64" "same_list reg reg'"
        "\<forall>i. i \<notin> set (cmd_cells (p + 1) j b) \<longrightarrow> b' ! i = b ! i" "cmd_cells (p + 1) j b' = cmd_cells (p + 1) j b"
        using less.hyps [OF closer less.prems, of j reg] by blast
      have "b' ! p = b ! p" using r(4) cells_above [of p "p + 1" j b] by auto
      moreover have "cmd_cells p index b = cmd_cells (p + 1) j b" using s(2) p by (auto simp: cmd_cells.simps [of p index])
      ultimately show ?thesis using s r p by (auto simp: cmd_walk.simps [of C pass p] cmd_cells.simps [of p index b'])
    qed
    consider "b ! p = 0" | "b ! p = 0xFF" | "b ! p = 0xFE" | "b ! p \<noteq> 0" "b ! p \<noteq> 0xFE" "b ! p \<noteq> 0xFF" "bad_entry p index b"
      | "b ! p \<noteq> 0" "b ! p \<noteq> 0xFE" "b ! p \<noteq> 0xFF" "\<not> bad_entry p index b" by blast
    then show ?thesis
    proof cases
      case 1
      then show ?thesis by (intro skip [of "index + 1"]) (simp_all add: cmd_step_def c)
    next
      case 2
      then show ?thesis by (intro skip [of index]) (simp_all add: cmd_step_def c)
    next
      case 3
      then show ?thesis using p less.prems by (simp add: cmd_walk.simps [of C pass p] cmd_step_def c cmd_cells.simps [of p index])
    next
      case 4
      let ?b = "b[p + 1 := b ! (p + 1) OR 0x80]"
      have "cmd_step C pass p index reg b = Some (None, reg, ?b)"
        using 4 mark_edits(1) [of p b "p + 2"] p by (simp add: cmd_step_def c bad_entry_def Let_def)
      moreover have "cmd_cells p index b = [p + 1]" using 4 p by (simp add: cmd_cells.simps [of p index])
      moreover have bad: "bad_entry p index ?b" using 4(4) p by (simp add: bad_entry_def mark_mask)
      moreover have "cmd_cells p index ?b = [p + 1]" using 4 p bad by (subst cmd_cells.simps) simp
      ultimately show ?thesis using 4 p less.prems by (simp add: cmd_walk.simps [of C pass p])
    next
      case 5
      let ?n = "unat (b ! (p + 1) AND 0x3F)" and ?q = "entry_end p b"
      have fits: "?q < 0x3F" using 5(4) by (simp add: bad_entry_def entry_end_def Let_def)
      have one: "1 \<le> unat (b ! p)" using 5(1) by (simp add: Suc_le_eq unat_gt_0)
      obtain reg1 b1 where e: "cmd_entry C pass p index (unat (b ! p)) ?n reg b = Some (reg1, b1)" "edits p ?q b b1" "same_list reg reg1"
        using entry_edits [OF assms(1) less.prems one refl, of ?q pass index reg] fits by (auto simp: entry_end_def)
      have step: "cmd_step C pass p index reg b = Some (Some (?q, index + 1), reg1, b1)"
        using 5 e(1) by (auto simp: cmd_step_def c bad_entry_def entry_end_def Let_def)
      have l1: "length b1 = 64" using edits_length [OF e(2)] less.prems by simp
      have q: "p + 1 < ?q" using one by (simp add: entry_end_def)
      have closer': "0x3F - ?q < 0x3F - p" using q p by linarith
      obtain reg' b' where r: "cmd_walk C pass ?q (index + 1) reg1 b1 = Some (reg', b')" "length b' = 64" "same_list reg1 reg'"
        "\<forall>i. i \<notin> set (cmd_cells ?q (index + 1) b1) \<longrightarrow> b' ! i = b1 ! i"
        "cmd_cells ?q (index + 1) b' = cmd_cells ?q (index + 1) b1"
        using less.hyps [OF closer' l1, of "index + 1" reg1] by blast
      have keep: "keeps (p + 1) ?q b b1" and mask: "b1 ! (p + 1) AND 0x3F = b ! (p + 1) AND 0x3F" using e(2) by (simp_all add: edits_def)
      have tail: "cmd_cells ?q (index + 1) b1 = cmd_cells ?q (index + 1) b"
        by (rule cells_cong) (use keep in \<open>auto dest: keeps_nth\<close>)
      have low: "b' ! i = b1 ! i" if "i \<le> ?q" for i using r(4) cells_above [of i ?q "index + 1" b1] that by fastforce
      have "b' ! p = b ! p" "b' ! (p + 1) AND 0x3F = b ! (p + 1) AND 0x3F"
        using low [of p] low [of "p + 1"] keeps_nth [OF keep, of p] mask q by simp_all
      then have "entry_end p b' = ?q" "bad_entry p index b' = bad_entry p index b" by (simp_all add: entry_end_def bad_entry_def)
      then have "cmd_cells p index b' = cmd_cells p index b"
        using 5 p \<open>b' ! p = b ! p\<close> r(5) tail by (simp add: cmd_cells.simps [of p index])
      moreover have "b' ! i = b ! i" if "i \<notin> set (cmd_cells p index b)" for i
      proof -
        have "i \<notin> set [p + 1..<?q]" "i \<notin> set (cmd_cells ?q (index + 1) b1)"
          using that 5 p tail by (simp_all add: cmd_cells.simps [of p index])
        then show ?thesis using r(4) keeps_nth [OF keep, of i] by (auto simp: not_less not_le)
      qed
      moreover have "same_list reg reg'" using e(3) r(3) by (simp add: same_list_def)
      ultimately show ?thesis using step r(1,2) p by (simp add: cmd_walk.simps [of C pass p])
    qed
  qed
qed

text \<open>C12. On whatever 64 bytes, a walk of the command block ends inside the block: it writes nothing but the cells of
  the entries it visits, the go flag at most by the mark of an entry that starts on the byte before it, and
  the next walk visits the same entries. The registry keeps its lists and counts.\<close>

theorem command_block_contained:
  assumes "cmd_transport C" and "length b = 64"
  shows "\<exists>reg' b'. core_cmd_process C pass reg b = Some (reg', b') \<and> length b' = 64 \<and> same_list reg reg' \<and>
    (\<forall>i. i \<notin> set (cmd_cells 0 0 b) \<longrightarrow> b' ! i = b ! i) \<and> cmd_cells 0 0 b' = cmd_cells 0 0 b"
  unfolding core_cmd_process_def by (rule walk_edits [OF assms])

text \<open>A transport that answers a transfer of the short form with its status and three bytes.\<close>

definition demo_cmd :: "(u8 \<times> u8 list) list cmd_seams" where
  "demo_cmd = \<lparr>cmd_ioctl = demo_ioctl, call_cmd_claim = (\<lambda>_ _ cs. (True, cs)),
     call_cmd_xfer = (\<lambda>_ _ s d _ cs. (0, map (\<lambda>i. if i = 0 then 1 else of_nat i) [0..<length d], cs))\<rparr>"

lemma demo_transport: "cmd_transport demo_cmd"
  by (auto simp: cmd_transport_def demo_cmd_def)

theorem command_block_contained_witness:
  "\<exists>reg' b'. core_cmd_process demo_cmd 0 demo_reg ([2, 3, 4, 5] @ replicate 59 0 @ [1]) = Some (reg', b') \<and> length b' = 64 \<and>
    same_list demo_reg reg'"
  using command_block_contained [OF demo_transport, of "[2, 3, 4, 5] @ replicate 59 0 @ [1]" 0 demo_reg] by auto

section \<open>Off the wire\<close>

text \<open>C21. The short form of a transfer: the reply is put in place the right way round and the command byte
  under the status is put back, so that nothing else of the block changes; the entry is marked failed exactly
  if the status byte is zero, whatever the transfer itself reported.\<close>

theorem wire_reply:
  assumes "1 \<le> k" and "k < 5" and "p + k + n + 2 \<le> length b" and "length ds = n"
    and "call_cmd_xfer C (cmd_xfer d) (os_ctx d)
        (cmd_setup 0xC0 (of_nat (0x20 + k)) (b ! (p + 2)) (if 2 \<le> k then b ! (p + 3) else 0)
          (if 3 \<le> k then b ! (p + 4) else 0) (if 4 \<le> k then b ! (p + 5) else 0))
        (take (n + 1) (drop (p + k + 1) b)) False cs = (st, s # ds, cs')"
  shows "cmd_wire C d p k n cs b =
    Some (take (p + k + 2) (if s = 0 then b[p + 1 := b ! (p + 1) OR 0x80] else b) @ rev ds @ drop (p + k + 2 + n) b, cs')"
proof -
  let ?r = "p + k + 2" and ?b = "take (p + k + 1) b @ (s # ds) @ drop (p + k + 2 + n) b"
  have c: "cell_at b (int p + 2) = Some (b ! (p + 2))" using assms by (intro cell_plus) simp
  define x y z where xyz_def: "x = (if 2 \<le> k then b ! (p + 3) else 0)" "y = (if 3 \<le> k then b ! (p + 4) else 0)"
    "z = (if 4 \<le> k then b ! (p + 5) else 0)"
  have xyz: "(if 2 \<le> k then cell_at b (int p + 3) else Some 0) = Some x"
    "(if 3 \<le> k then cell_at b (int p + 4) else Some 0) = Some y" "(if 4 \<le> k then cell_at b (int p + 5) else Some 0) = Some z"
    using assms cell_plus(1) [of p _ b] unfolding xyz_def by auto
  have saved: "cell_at b (int (?r - 1)) = Some (b ! (?r - 1))" by (rule cell_in) (use assms in simp)
  have run: "xfer_at C d (cmd_setup 0xC0 (of_nat (0x20 + k)) (b ! (p + 2)) x y z) (?r - 1) (n + 1) False cs b = Some (?b, cs')"
    using assms(3,5) by (simp add: xfer_at_def xyz_def)
  have len: "length ?b = length b" using assms by simp
  let ?c = "if s = 0 then b[p + 1 := b ! (p + 1) OR 0x80] else b"
  have restored: "?b[p + k + 1 := b ! (p + k + 1)] = take (p + k + 2) b @ ds @ drop (p + k + 2 + n) b"
  proof -
    have "take (p + k + 2) b = take (p + k + 1) b @ [b ! (p + k + 1)]" using assms take_Suc_conv_app_nth [of "p + k + 1" b] by simp
    moreover have "length (take (p + k + 1) b) = p + k + 1" using assms by simp
    ultimately show ?thesis by (simp add: list_update_append)
  qed
  have marked: "settle p (?r - 1) (b ! (?r - 1)) (\<lambda>status. status = 0) ?b =
      Some (take (p + k + 2) ?c @ ds @ drop (p + k + 2 + n) b)"
  proof -
    have at: "?b ! (p + k + 1) = s" "?b ! (p + 1) = b ! (p + 1)" "?r - 1 = p + k + 1" using assms by (simp_all add: nth_append)
    have upd: "(take (p + k + 2) b @ ds @ drop (p + k + 2 + n) b)[p + 1 := x] =
        take (p + k + 2) (b[p + 1 := x]) @ ds @ drop (p + k + 2 + n) b" for x
      using assms by (simp add: list_update_append take_update_swap)
    have "settle p (p + k + 1) (b ! (p + k + 1)) (\<lambda>status. status = 0) ?b =
        Some (if ?b ! (p + k + 1) = 0 then ?b[p + k + 1 := b ! (p + k + 1), p + 1 := ?b ! (p + 1) OR 0x80]
              else ?b[p + k + 1 := b ! (p + k + 1)])"
      by (rule settle_run) (use assms len in simp_all)
    then show ?thesis unfolding at restored upd by simp
  qed
  have turned: "reply_reverse (n div 2) 0 ?r n (take (p + k + 2) ?c @ ds @ drop (p + k + 2 + n) b) =
      Some (take (p + k + 2) ?c @ rev ds @ drop (p + k + 2 + n) b)"
    using reverse_reply [of ?r n "take (p + k + 2) ?c @ ds @ drop (p + k + 2 + n) b"] assms by simp
  have "cmd_wire C d p k n cs b = do {
      b \<leftarrow> settle p (?r - 1) (b ! (?r - 1)) (\<lambda>status. status = 0) ?b;
      b \<leftarrow> reply_reverse (n div 2) 0 ?r n b;
      Some (b, cs') }"
    by (simp only: cmd_wire_def Let_def saved c xyz run assms(2) if_True Option.bind.simps prod.case Option.bind_assoc)
  then show ?thesis using marked turned by simp
qed

theorem wire_reply_witness:
  "cmd_wire demo_cmd (demo_entry 7 True) 0 1 3 logged_core ([1, 3, 0, 9, 9, 9] @ replicate 58 0) =
    Some ([1, 3, 0, 3, 2, 1] @ replicate 58 0, logged_core)"
  using wire_reply [of 1 0 3 "[1, 3, 0, 9, 9, 9] @ replicate 58 0" "[1, 2, 3]" demo_cmd "demo_entry 7 True" logged_core 0 1 logged_core]
  by (simp add: demo_cmd_def numeral_2_eq_2 numeral_3_eq_3 upt_rec)

section \<open>The emulated Pak\<close>

lemma equal_block_crc:
  "core_pak_data_crc8 (Some (replicate 32 0xFE)) 32 = 0xE1" "core_pak_data_crc8 (Some (replicate 32 0x80)) 32 = 0xB8"
  "core_pak_data_crc8 (Some (replicate 32 0x01)) 32 = 0xEB" "core_pak_data_crc8 (Some (replicate 32 0x00)) 32 = 0x00"
  by code_simp+

text \<open>The Pak the driver emulates speaks the protocol of a real one. The four constants a write is answered
  with are the checksums of 32 equal bytes; a read is answered with a block and its valid checksum, or with no
  accessory, with the checksum inverted; and the identify sequence works, a read after a write of 0x80 giving
  0x80 and one after 0xFE giving 0.\<close>

theorem emulated_pak_crc:
  assumes "r + 33 \<le> length b"
  shows "v \<in> {0xFE, 0x80, 0x01, 0x00} \<longrightarrow> cmd_emulated_crc (ucast v) cur = core_pak_data_crc8 (Some (replicate 32 v)) 32"
    and "\<exists>b' v. cmd_pak_read r cs b = Some b' \<and> take 32 (drop r b') = replicate 32 v \<and>
      b' ! (r + 32) = (if emu_pak_present cs then core_pak_data_crc8 (Some (take 32 (drop r b'))) 32
        else NOT (core_pak_data_crc8 (Some (take 32 (drop r b'))) 32)) \<and>
      (emu_pak_present cs \<and> emu_pak_value cs = 0x80 \<longrightarrow> v = 0x80) \<and> (emu_pak_present cs \<and> emu_pak_value cs = 0xFE \<longrightarrow> v = 0)"
proof -
  show "v \<in> {0xFE, 0x80, 0x01, 0x00} \<longrightarrow> cmd_emulated_crc (ucast v) cur = core_pak_data_crc8 (Some (replicate 32 v)) 32"
    by (auto simp: cmd_emulated_crc_def equal_block_crc)
  have run: "do { b \<leftarrow> cell_put b (int (r + 0x20)) crc; copy_cells 0x20 (replicate 0x20 v) 0 b (int r) } =
      Some (take r b @ replicate 32 v @ crc # drop (r + 33) b)" for crc v :: u8
  proof -
    have "r + 32 < length b" "length (b[r + 32 := crc]) = length b" using assms by simp_all
    moreover have "drop (r + 32) (b[r + 32 := crc]) = crc # drop (r + 33) b"
      using assms by (auto simp: list_eq_iff_nth_eq nth_Cons' nth_list_update add.commute add.left_commute)
    ultimately show ?thesis using assms copy_some [of "int r" 32 "replicate 32 v" "b[r + 32 := crc]"] cell_in(2) [of "r + 32" b crc]
      by simp
  qed
  show "\<exists>b' v. cmd_pak_read r cs b = Some b' \<and> take 32 (drop r b') = replicate 32 v \<and>
      b' ! (r + 32) = (if emu_pak_present cs then core_pak_data_crc8 (Some (take 32 (drop r b'))) 32
        else NOT (core_pak_data_crc8 (Some (take 32 (drop r b'))) 32)) \<and>
      (emu_pak_present cs \<and> emu_pak_value cs = 0x80 \<longrightarrow> v = 0x80) \<and> (emu_pak_present cs \<and> emu_pak_value cs = 0xFE \<longrightarrow> v = 0)"
  proof -
    define v where "v = (if emu_pak_present cs \<and> emu_pak_value cs \<noteq> 0xFE then 0x80 else 0 :: u8)"
    define crc where "crc = (if \<not> emu_pak_present cs then 0xFF else if emu_pak_value cs = 0xFE then 0 else 0xB8 :: u8)"
    let ?b = "take r b @ replicate 32 v @ crc # drop (r + 33) b"
    have "cmd_pak_read r cs b = Some ?b"
      unfolding cmd_pak_read_def Let_def using run by (auto simp: v_def crc_def simp del: copy_cells.simps)
    moreover have "take 32 (drop r ?b) = replicate 32 v" "?b ! (r + 32) = crc" using assms by (simp_all add: nth_append)
    ultimately show ?thesis
      by (intro exI [of _ ?b] exI [of _ v]) (auto simp: v_def crc_def equal_block_crc)
  qed
qed

theorem emulated_pak_crc_witness:
  "\<exists>b'. cmd_pak_read 5 (logged_core\<lparr>emu_pak_present := True, emu_pak_value := 0x80\<rparr>) (replicate 64 0) = Some b' \<and>
     take 32 (drop 5 b') = replicate 32 0x80 \<and> b' ! 37 = 0xB8"
  using emulated_pak_crc(2) [of 5 "replicate 64 0" "logged_core\<lparr>emu_pak_present := True, emu_pak_value := 0x80\<rparr>"]
  by (auto simp: equal_block_crc)

section \<open>Polling\<close>

lemma walk_next:
  assumes "p < 0x3F" "cmd_step C pass p index reg b = Some (Some (q, j), reg', b')"
  shows "cmd_walk C pass p index reg b = cmd_walk C pass q j reg' b'"
  using assms by (simp add: cmd_walk.simps [of C pass p])

lemma walk_stop: "p < 0x3F \<Longrightarrow> p < length b \<Longrightarrow> b ! p = 0xFE \<Longrightarrow> cmd_walk C pass p index reg b = Some (reg, b)"
  by (simp add: cmd_walk.simps [of C pass p] cmd_step_def cell_in)

text \<open>A client that has written a block asking for the controller state gets it with every read of the block,
  from the last packet, the bytes in joybus order, with no transfer and no change of any state: the block
  keeps its go flag, so that the next read answers again.\<close>

theorem poll_answers:
  assumes "length (block ch) = 64" and "block ch ! 0 = 1" and "block ch ! 1 = 4" and "block ch ! 2 = 1"
    and "block ch ! 7 = 0xFE" and "block ch ! 63 = 1" and "\<not> swap_bytes ch"
    and "live_count reg \<noteq> 0" and "devices reg = d # ds" and "dev_cs (entry reg d) = Some cs" and "length buf = 64"
  shows "core_cmd_read C reg ch (Some buf) 64 = Some (CORE_ST_SUCCESS, 64,
    Some ((block ch)[3 := raw cs ! 4, 4 := raw cs ! 3, 5 := raw cs ! 0, 6 := raw cs ! 1, 63 := 0]), reg, ch)"
proof -
  let ?b = "block ch"
  let ?a = "?b[3 := raw cs ! 4, 4 := raw cs ! 3, 5 := raw cs ! 0, 6 := raw cs ! 1]"
  have c: "cell_at ?b 0 = Some 1" "cell_at ?b 1 = Some 4" "cell_at ?b 2 = Some 1"
    using assms by (simp_all add: cell_at_def)
  have cached: "cached_read 0 cs ?b = Some ?a" using assms(1) by (simp add: cached_read_def cell_put_def)
  have "cmd_entry C 1 0 0 1 4 reg ?b = Some (reg, ?a)"
    using assms(9,10) by (simp add: cmd_entry_def c cmd_nth_def cached)
  then have step: "cmd_step C 1 0 0 reg ?b = Some (Some (7, 1), reg, ?a)"
    by (simp add: cmd_step_def c Let_def)
  have "core_cmd_process C 1 reg ?b = Some (reg, ?a)"
    unfolding core_cmd_process_def using walk_next [OF _ step] walk_stop [of 7 ?a] assms(1,5) by simp
  moreover have "copy_cells 64 ?b 0 buf 0 = Some ?b" using copy_some [of 0 64 ?b buf] assms(1,11) by simp
  ultimately show ?thesis using assms(1,6,7,8)
    by (simp add: core_cmd_read_def cell_at_def cell_put_def del: copy_cells.simps)
qed

theorem poll_answers_witness:
  "core_cmd_read demo_cmd demo_reg \<lparr>block = [1, 4, 1, 0, 0, 0, 0, 0xFE] @ replicate 55 0 @ [1], swap_bytes = False\<rparr>
      (Some (replicate 64 9)) 64 =
    Some (CORE_ST_SUCCESS, 64, Some ([1, 4, 1, raw logged_core ! 4, raw logged_core ! 3, raw logged_core ! 0, raw logged_core ! 1, 0xFE] @
      replicate 55 0 @ [0]), demo_reg, \<lparr>block = [1, 4, 1, 0, 0, 0, 0, 0xFE] @ replicate 55 0 @ [1], swap_bytes = False\<rparr>)"
  using poll_answers [of "\<lparr>block = [1, 4, 1, 0, 0, 0, 0, 0xFE] @ replicate 55 0 @ [1], swap_bytes = False\<rparr>" demo_reg 100 "[200]"
      logged_core "replicate 64 9" demo_cmd]
  by (simp add: demo_reg_def demo_entry_def numeral_eq_Suc nth_append list_update_append)

section \<open>The byte order\<close>

lemma swap_involution: "cmd_swap (cmd_swap xs) = xs"
  by (induction xs rule: cmd_swap.induct) simp_all

lemma swap_length [simp]: "length (cmd_swap xs) = length xs"
  by (induction xs rule: cmd_swap.induct) simp_all

lemma swap_last:
  "length xs mod 4 = 0 \<Longrightarrow> xs \<noteq> [] \<Longrightarrow> cmd_swap xs ! (length xs - 1) = xs ! (length xs - 4)"
proof (induction xs rule: cmd_swap.induct)
  case (1 a b c d xs)
  show ?case
  proof (cases "xs = []")
    case False
    have "length xs mod 4 = 0" using "1.prems"(1) by simp
    then have "4 \<le> length xs" using False by (metis dvd_imp_le length_greater_0_conv mod_0_imp_dvd)
    moreover have "length xs - 4 = length xs - Suc (Suc (Suc (Suc 0)))" by simp
    ultimately show ?thesis using 1 False \<open>length xs mod 4 = 0\<close> by (simp add: nth_Cons' Suc_diff_le)
  qed simp
qed simp_all

lemma rd32_low: "rd32 xs at = 1 \<Longrightarrow> xs ! at = 1"
proof -
  assume a: "rd32 xs at = 1"
  have "ucast (rd32 xs at) = xs ! at"
    by (rule bit_word_eqI) (auto simp: rd32_def bit_simps)
  then show ?thesis using a by simp
qed

text \<open>A client of the other byte order, which says so by the dword 1 at 0x3C, has its block run by the same
  dword: swapped, that 1 is the go flag. It cannot write a block without running it, and the swap is undone
  on the way back.\<close>

theorem big_endian_runs:
  assumes "length data = 64" and "rd32 data 0x3C = 1" and "live_count reg \<noteq> 0" and "length (block ch) = 64"
  shows "core_cmd_write C reg ch (Some data) 64 = (case core_cmd_process C 0 reg (cmd_swap data) of
      None \<Rightarrow> None
    | Some (reg', blk) \<Rightarrow> Some (CORE_ST_SUCCESS, 64, Some (cmd_swap data), reg', ch\<lparr>swap_bytes := True, block := blk\<rparr>))"
    and "cmd_swap (cmd_swap data) = data"
proof -
  have "data \<noteq> []" using assms(1) by auto
  then have "cmd_swap data ! 63 = 1" using swap_last [of data] rd32_low [OF assms(2)] assms(1) by simp
  then have "cell_at (cmd_swap data) 63 = Some 1" using assms(1) by (simp add: cell_at_def)
  moreover have "copy_cells 64 (cmd_swap data) 0 (block ch) 0 = Some (cmd_swap data)"
    using copy_some [of 0 64 "cmd_swap data" "block ch"] assms(1,4) by simp
  moreover have "dword_in data 0x3C = Some 1" using assms(1,2) by (simp add: dword_in_def)
  ultimately show "core_cmd_write C reg ch (Some data) 64 = (case core_cmd_process C 0 reg (cmd_swap data) of
      None \<Rightarrow> None
    | Some (reg', blk) \<Rightarrow> Some (CORE_ST_SUCCESS, 64, Some (cmd_swap data), reg', ch\<lparr>swap_bytes := True, block := blk\<rparr>))"
    using assms(3) by (simp add: core_cmd_write_def split: option.split del: copy_cells.simps)
qed (rule swap_involution)

theorem big_endian_runs_witness:
  "core_cmd_write demo_cmd demo_reg \<lparr>block = replicate 64 0, swap_bytes = False\<rparr>
      (Some ([0, 0, 0, 0xFE] @ replicate 56 0 @ [1, 0, 0, 0])) 64 =
    Some (CORE_ST_SUCCESS, 64, Some ([0xFE, 0, 0, 0] @ replicate 56 0 @ [0, 0, 0, 1]), demo_reg,
      \<lparr>block = [0xFE, 0, 0, 0] @ replicate 56 0 @ [0, 0, 0, 1], swap_bytes = True\<rparr>)"
proof -
  let ?d = "[0, 0, 0, 0xFE] @ replicate 56 0 @ [1, 0, 0, 0] :: u8 list"
  have s: "cmd_swap ?d = [0xFE, 0, 0, 0] @ replicate 56 0 @ [0, 0, 0, 1]" by (simp add: numeral_eq_Suc)
  have "core_cmd_process demo_cmd 0 demo_reg (cmd_swap ?d) = Some (demo_reg, cmd_swap ?d)"
    unfolding core_cmd_process_def s by (rule walk_stop) simp_all
  then show ?thesis
    using big_endian_runs(1) [of ?d demo_reg "\<lparr>block = replicate 64 0, swap_bytes = False\<rparr>" demo_cmd]
    unfolding s by (simp add: demo_reg_def rd32_def nth_append)
qed

text \<open>An entry that starts on the byte before the go flag is an error, and its mark lands on the flag.\<close>

lemma go_flag_marked:
  assumes "length b = 64" "\<forall>i<62. b ! i = 0xFF" "b ! 62 = 1"
  shows "core_cmd_process C pass reg b = Some (reg, b[63 := b ! 63 OR 0x80])"
proof -
  have walk: "cmd_walk C pass 0 0 reg b = cmd_walk C pass k 0 reg b" if "k \<le> 62" for k
    using that
  proof (induction k)
    case (Suc k)
    have "cell_at b (int k) = Some 0xFF" using Suc.prems assms by (simp add: cell_in)
    then have "cmd_step C pass k 0 reg b = Some (Some (Suc k, 0), reg, b)" by (simp add: cmd_step_def)
    then show ?case using Suc walk_next [of k C pass 0 reg b "Suc k" 0 reg b] by simp
  qed simp
  have "cmd_step C pass 62 0 reg b = Some (None, reg, b[63 := b ! 63 OR 0x80])"
    using assms mark_edits(1) [of 62 b 64] by (simp add: cmd_step_def cell_at_def Let_def)
  then show ?thesis using walk [of 62] by (simp add: core_cmd_process_def cmd_walk.simps [of C pass 62])
qed

end
