(* ===== verification/Hid_Contract.thy ===== *)
theory Hid_Contract
  imports Ioctl_Facts Report_Queue
begin

text \<open>
  The contract with the HID class driver: \<open>core_hid_ioctl\<close> of \<open>src_drv/ioctl.c\<close>, its dispatch routine
  \<open>AdaptoidIntDeviceControl\<close> and the test \<open>AdaptoidIsDeviceReady\<close> of \<open>src_drv/wdm.c\<close>.

  The output buffer is \<open>None\<close> where the pointer is null; its length is the length the caller gave. A result of
  \<open>None\<close> is an access outside it.
\<close>

section \<open>The codes\<close>

definition CORE_HID_MANUFACTURER :: "u8 list" where
  "CORE_HID_MANUFACTURER = concat (map (\<lambda>c. [c, 0])
     [0x57, 0x69, 0x73, 0x68, 0x20, 0x54, 0x65, 0x63, 0x68, 0x6E, 0x6F, 0x6C, 0x6F, 0x67, 0x69, 0x65, 0x73, 0x2C, 0x20,
      0x49, 0x6E, 0x63, 0x2E, 0x00])"

definition CORE_HID_PRODUCT :: "u8 list" where
  "CORE_HID_PRODUCT = concat (map (\<lambda>c. [c, 0]) [0x41, 0x64, 0x61, 0x70, 0x74, 0x6F, 0x69, 0x64, 0x00])"

text \<open>At most \<open>cap\<close> bytes of a string, bounded by the length the caller gave.\<close>

definition hid_string :: "u8 list option \<Rightarrow> u32 \<Rightarrow> u8 list \<Rightarrow> u32 \<Rightarrow> (u32 \<times> u8 list option) option" where
  "hid_string out olen str cap =
     (let n = (if olen < cap then olen else cap)
      in case out of
           None \<Rightarrow> if n = 0 then Some (n, None) else None
         | Some xs \<Rightarrow> do { xs \<leftarrow> copy_cells (unat n) str 0 xs 0; Some (n, Some xs) })"

type_synonym 'w hid_result = "(u32 \<times> u32 \<times> u8 list option \<times> 'w core_state) option"

definition hid_device_desc :: "'w core_state \<Rightarrow> u8 list option \<Rightarrow> u32 \<Rightarrow> 'w hid_result" where
  "hid_device_desc cs out olen =
     (case out of
        None \<Rightarrow> Some (CORE_ST_BUFFER_TOO_SMALL, 0, out, cs)
      | Some xs \<Rightarrow>
          if olen < 9 then Some (CORE_ST_BUFFER_TOO_SMALL, 0, out, cs)
          else do {
            let len = snd (core_hid_descriptor (devices_mask cs));
            xs \<leftarrow> copy_cells 9 [9, 0x21, 0x01, 0x00, 0x00, 0x01, 0x22, ucast (len AND 0xFF), ucast (drop_bit 8 len AND 0xFF)] 0 xs 0;
            Some (CORE_ST_SUCCESS, 9, Some xs, cs) })"

definition hid_report_desc :: "'w core_state \<Rightarrow> u8 list option \<Rightarrow> u32 \<Rightarrow> 'w hid_result" where
  "hid_report_desc cs out olen =
     (let (desc, len) = core_hid_descriptor (devices_mask cs)
      in case out of
           None \<Rightarrow> Some (CORE_ST_BUFFER_TOO_SMALL, 0, out, cs)
         | Some xs \<Rightarrow>
             if olen < len then Some (CORE_ST_BUFFER_TOO_SMALL, 0, out, cs)
             else do { xs \<leftarrow> copy_cells (unat len) desc 0 xs 0; Some (CORE_ST_SUCCESS, len, Some xs, cs) })"

definition hid_attributes :: "'w core_state \<Rightarrow> u8 list option \<Rightarrow> u32 \<Rightarrow> 'w hid_result" where
  "hid_attributes cs out olen =
     (case out of
        None \<Rightarrow> Some (CORE_ST_BUFFER_TOO_SMALL, 0, out, cs)
      | Some xs \<Rightarrow>
          if olen < 0x20 then Some (CORE_ST_BUFFER_TOO_SMALL, 0, out, cs)
          else do {
            xs \<leftarrow> copy_cells 0x20 (replicate 0x20 0) 0 xs 0;
            xs \<leftarrow> dword_out xs 0 0x20;
            xs \<leftarrow> copy_cells 6 [0xF7, 0x06, 0x01, 0x00, 0x00, 0x01] 0 xs 4;
            Some (CORE_ST_SUCCESS, 0x20, Some xs, cs) })"

definition core_hid_ioctl :: "'w core_state \<Rightarrow> u32 \<Rightarrow> u8 list option \<Rightarrow> u32 \<Rightarrow> u32 \<Rightarrow> u32 \<Rightarrow> 'w hid_result" where
  "core_hid_ioctl cs code out olen hid_in_len arg =
     (if code = 0x000B0003 then hid_device_desc cs out olen
      else if code = 0x000B0007 then hid_report_desc cs out olen
      else if code = 0x000B000F then Some (CORE_ST_SUCCESS, hid_in_len, out, cs)
      else if code = 0x000B0013 then
        if arg AND 0xFFFF = 0x0E then do {
          (n, out) \<leftarrow> hid_string out olen CORE_HID_MANUFACTURER 48;
          Some (CORE_ST_SUCCESS, n, out, cs) }
        else if arg AND 0xFFFF = 0x0F then do {
          (n, out) \<leftarrow> hid_string out olen CORE_HID_PRODUCT 18;
          Some (CORE_ST_SUCCESS, n, out, cs) }
        else if arg AND 0xFFFF = 0x10 then Some (CORE_ST_SUCCESS, 0, out, cs)
        else Some (CORE_ST_NOT_SUPPORTED, 0, out, cs)
      else if code = 0x000B001F \<or> code = 0x000B0023 then
        Some (CORE_ST_SUCCESS, 0, out,
          if arg < 3 then cs\<lparr>collection_enabled := (collection_enabled cs)[unat arg := (if code = 0x000B001F then 1 else 0)]\<rparr> else cs)
      else if code = 0x000B0027 then hid_attributes cs out olen
      else Some (CORE_ST_NOT_SUPPORTED, 0, out, cs))"

section \<open>The dispatch routine\<close>





section \<open>What the contract promises\<close>

lemma desc_room:
  "unat (snd (core_hid_descriptor m)) \<le> length (fst (core_hid_descriptor m))" "unat (snd (core_hid_descriptor m)) < 256"
proof -
  have "m AND 7 = take_bit 3 m" by (simp add: take_bit_eq_mask mask_eq_exp_minus_1)
  then have "unat (m AND 7) < 8" using take_bit_nat_less_exp [of 3 "unat m"] by (simp add: unsigned_take_bit_eq)
  then have i: "unat (m AND 7) \<in> set [0..<8]" by simp
  have "\<forall>i\<in>set [0..<8]. case CORE_HID_DESC_TABLE ! i of (off, n) \<Rightarrow> off + unat n \<le> 185 \<and> unat n < 256" by code_simp
  moreover have "length CORE_HID_DESCRIPTOR = 185" by code_simp
  ultimately show "unat (snd (core_hid_descriptor m)) \<le> length (fst (core_hid_descriptor m))" "unat (snd (core_hid_descriptor m)) < 256"
    using i by (fastforce simp: core_hid_descriptor_def split: prod.split)+
qed

lemma splice_zero: "n \<le> length src \<Longrightarrow> n \<le> length dst \<Longrightarrow> copy_cells n src 0 dst 0 = Some (take n src @ drop n dst)"
  using copy_some [of 0 n src dst] by simp

text \<open>A host that asks for the device descriptor and then for as many bytes of report descriptor as it names gets
  exactly the view of the descriptor that the device's mask selects, whole.\<close>

theorem hid_enumeration:
  assumes "length xs = 9"
  shows "\<exists>d. core_hid_ioctl cs 0x000B0003 (Some xs) 9 i a = Some (CORE_ST_SUCCESS, 9, Some d, cs) \<and> length d = 9 \<and>
    (\<forall>ys. length ys = unat (d ! 7) + 256 * unat (d ! 8) \<longrightarrow>
      core_hid_ioctl cs 0x000B0007 (Some ys) (of_nat (length ys)) i a =
        Some (CORE_ST_SUCCESS, of_nat (length ys),
          Some (take (unat (snd (core_hid_descriptor (devices_mask cs)))) (fst (core_hid_descriptor (devices_mask cs)))), cs))"
proof -
  obtain desc len where dl: "core_hid_descriptor (devices_mask cs) = (desc, len)" by fastforce
  have room: "unat len \<le> length desc" "unat len < 256" using desc_room [of "devices_mask cs"] dl by simp_all
  let ?d = "[9, 0x21, 0x01, 0x00, 0x00, 0x01, 0x22, ucast (len AND 0xFF), ucast (drop_bit 8 len AND 0xFF)] :: u8 list"
  have "core_hid_ioctl cs 0x000B0003 (Some xs) 9 i a = Some (CORE_ST_SUCCESS, 9, Some ?d, cs)"
    using splice_zero [of 9 ?d xs] assms dl by (simp add: core_hid_ioctl_def hid_device_desc_def del: copy_cells.simps)
  moreover have "unat (?d ! 7) + 256 * unat (?d ! 8) = unat len"
  proof -
    have "unat (drop_bit 8 len) = 0" using room(2) unfolding unat_drop_bit_eq by (simp add: drop_bit_eq_div)
    then have "drop_bit 8 len = 0" by (simp add: unat_eq_0)
    moreover have "unat (ucast (len AND 0xFF) :: u8) = unat len"
    proof -
      have "len AND 0xFF = take_bit 8 len" by (simp add: take_bit_eq_mask mask_eq_exp_minus_1)
      then show ?thesis using room(2) by (simp add: unsigned_take_bit_eq take_bit_nat_eq_self unsigned_ucast_eq)
    qed
    ultimately show ?thesis by simp
  qed
  moreover have "core_hid_ioctl cs 0x000B0007 (Some ys) (of_nat (length ys)) i a =
      Some (CORE_ST_SUCCESS, of_nat (length ys), Some (take (unat len) desc), cs)" if "length ys = unat len" for ys
    using splice_zero [of "unat len" desc ys] room that
    by (simp add: core_hid_ioctl_def hid_report_desc_def dl del: copy_cells.simps)
  ultimately show ?thesis by (intro exI [of _ ?d]) (simp add: dl)
qed

theorem hid_enumeration_witness:
  "\<exists>d. core_hid_ioctl logged_core 0x000B0003 (Some (replicate 9 0)) 9 0 0 = Some (CORE_ST_SUCCESS, 9, Some d, logged_core)"
  using hid_enumeration [of "replicate 9 0" logged_core 0 0] by auto

lemma complete_A [simp]: "RemoveLockA (AdaptoidCompleteIrp irp st info dx) = RemoveLockA dx"
  by (simp add: AdaptoidCompleteIrp_def)








end
