(* ===== verification/Notify_Facts.thy ===== *)
theory Notify_Facts
  imports Notify_Queue
begin

text \<open>
  What the notification queue promises its clients, and what it asks of the owner behind its three calls: the
  locale \<open>notify_owner\<close> states it as a relation between the owner and the waiters on the list, which a claim, a
  delivery and an abort keep, and lifts it to every call of the queue.
\<close>

section \<open>The contract\<close>

text \<open>C15. Posting and waiting implement a queue of at most a hundred events that meets a list of waiters: events are
  handed out oldest first, each to the waiter longest parked whose owner still claims it, and a waiter that
  was cancelled meanwhile is passed over without losing the event. Between calls events and waiters never both
  remain.\<close>

theorem notify_refines:
  assumes "nq_idle n ws"
  shows "(serve N n (push_event \<lparr>ev_type = ty, arg1 = a, arg2 = b\<rparr> (waiting n)) ws (owner n) = (es, vs, ow) \<longrightarrow>
      (\<exists>n'. core_notify_post N ty a b n = Some n' \<and> nq_idle n' vs \<and> waiting n' = es \<and> owner n' = ow)) \<and>
    (w \<noteq> 0 \<and> w \<noteq> waiters n \<and> w \<notin> set ws \<and> serve N n (waiting n) (ws @ [w]) (owner n) = (es, vs, ow) \<longrightarrow>
      (\<exists>n'. core_notify_wait N w n = Some (length es < length (waiting n), n') \<and> nq_idle n' vs \<and> waiting n' = es \<and> owner n' = ow)) \<and>
    (w \<noteq> waiters n \<longrightarrow>
      (\<exists>n'. core_notify_cancel w n = (w \<in> set ws, n') \<and> nq_idle n' (remove1 w ws) \<and> waiting n' = waiting n \<and> owner n' = owner n))"
proof (intro conjI)
  show "serve N n (push_event \<lparr>ev_type = ty, arg1 = a, arg2 = b\<rparr> (waiting n)) ws (owner n) = (es, vs, ow) \<longrightarrow>
      (\<exists>n'. core_notify_post N ty a b n = Some n' \<and> nq_idle n' vs \<and> waiting n' = es \<and> owner n' = ow)"
    using post_implements [OF assms] by blast
  show "w \<noteq> 0 \<and> w \<noteq> waiters n \<and> w \<notin> set ws \<and> serve N n (waiting n) (ws @ [w]) (owner n) = (es, vs, ow) \<longrightarrow>
      (\<exists>n'. core_notify_wait N w n = Some (length es < length (waiting n), n') \<and> nq_idle n' vs \<and> waiting n' = es \<and> owner n' = ow)"
    using wait_implements [OF assms] by blast
  show "w \<noteq> waiters n \<longrightarrow>
      (\<exists>n'. core_notify_cancel w n = (w \<in> set ws, n') \<and> nq_idle n' (remove1 w ws) \<and> waiting n' = waiting n \<and> owner n' = owner n)"
    using cancel_implements [OF assms] by blast
qed

text \<open>A queue just initialised, over an owner that only records what it is handed.\<close>

definition fresh_notify :: "(ptr \<times> u32) list core_notify" where
  "fresh_notify = core_notify_init 1 2 3 0 \<lparr>nq_events = [], nq_head = 7, nq_count = 7, nq_dropped = 0, waiters = 500,
     nq_links = \<lparr>flink = (\<lambda>_. 0), blink = (\<lambda>_. 0)\<rparr>, waiter_count = 7, delivering = True, nq_claim = 0, nq_deliver = 0,
     nq_abort = 0, nq_ctx = 0, owner = []\<rparr>"

definition log_seams :: "(ptr \<times> u32) list notify_seams" where
  "log_seams = \<lparr>call_ntf_claim = (\<lambda>_ _ w o'. (w \<noteq> 8, o')), call_ntf_deliver = (\<lambda>_ _ w e o'. o' @ [(w, ev_type e)]),
     call_ntf_abort = (\<lambda>_ _ _ o'. o')\<rparr>"

lemma fresh_idle: "nq_idle fresh_notify []"
proof -
  have "wait_ring (nw_init 500 \<lparr>flink = (\<lambda>_. 0), blink = (\<lambda>_. 0)\<rparr>) 500 []" by (rule ring_init) simp
  then show ?thesis by (simp add: fresh_notify_def nq_idle_def nq_ok_def core_notify_init_def waiting_def loose_def nw_init_def)
qed

theorem notify_refines_witness:
  "\<exists>n'. core_notify_post log_seams 99 0 7 fresh_notify = Some n' \<and> nq_idle n' [] \<and>
     waiting n' = [\<lparr>ev_type = 99, arg1 = 0, arg2 = 7\<rparr>]"
proof -
  have w: "waiting fresh_notify = []" by (simp add: fresh_notify_def core_notify_init_def waiting_def)
  have "serve log_seams fresh_notify (push_event \<lparr>ev_type = 99, arg1 = 0, arg2 = 7\<rparr> (waiting fresh_notify)) [] (owner fresh_notify) =
      ([\<lparr>ev_type = 99, arg1 = 0, arg2 = 7\<rparr>], [], owner fresh_notify)"
    unfolding w by (simp add: push_event_def)
  from notify_refines [OF fresh_idle, of log_seams 99 0 7, THEN conjunct1, THEN mp, OF this] show ?thesis by blast
qed

section \<open>What is asked of the owner\<close>

locale notify_owner =
  fixes N :: "'o notify_seams" and held :: "'o \<Rightarrow> ptr list \<Rightarrow> bool"
  assumes won_delivered: "held ow (w # ws) \<Longrightarrow> call_ntf_claim N f c w ow = (True, ow1) \<Longrightarrow>
      held (call_ntf_deliver N g c w e ow1) ws"
    and won_aborted: "held ow (w # ws) \<Longrightarrow> call_ntf_claim N f c w ow = (True, ow1) \<Longrightarrow> held (call_ntf_abort N g c w ow1) ws"
    and lost: "held ow (w # ws) \<Longrightarrow> call_ntf_claim N f c w ow = (False, ow1) \<Longrightarrow> held ow1 ws"
begin

definition hooked :: "'o core_notify \<Rightarrow> bool" where
  "hooked n \<longleftrightarrow> nq_claim n \<noteq> 0 \<and> nq_deliver n \<noteq> 0 \<and> nq_abort n \<noteq> 0"

lemma serve_held: "hooked n \<Longrightarrow> held ow ws \<Longrightarrow> serve N n es ws ow = (es', vs, ow') \<Longrightarrow> held ow' vs"
proof (induction ws arbitrary: es ow)
  case Nil
  then show ?case by (cases es) auto
next
  case (Cons w ws)
  show ?case
  proof (cases es)
    case (Cons e es1)
    obtain got ow1 where c: "claim_waiter N n w ow = (got, ow1)" by fastforce
    then have call: "call_ntf_claim N (nq_claim n) (nq_ctx n) w ow = (got, ow1)" using Cons.prems(1) by (simp add: claim_waiter_def hooked_def)
    show ?thesis
    proof (cases got)
      case True
      then have "held (deliver_to N n w e ow1) ws"
        using won_delivered [OF Cons.prems(2)] call Cons.prems(1) by (simp add: deliver_to_def hooked_def)
      then show ?thesis using Cons.IH [OF Cons.prems(1)] Cons.prems(3) c True \<open>es = e # es1\<close> by simp
    next
      case False
      then have "held ow1 ws" using lost [OF Cons.prems(2)] call by simp
      then show ?thesis using Cons.IH [OF Cons.prems(1)] Cons.prems(3) c False \<open>es = e # es1\<close> by simp
    qed
  qed (use Cons.prems in auto)
qed

lemma abort_held: "hooked n \<Longrightarrow> held ow ws \<Longrightarrow> held (abort_all N n ws ow) []"
proof (induction ws arbitrary: ow)
  case (Cons w ws)
  obtain got ow1 where c: "call_ntf_claim N (nq_claim n) (nq_ctx n) w ow = (got, ow1)" by fastforce
  have "held (if got then call_ntf_abort N (nq_abort n) (nq_ctx n) w ow1 else ow1) ws"
    using won_aborted [OF Cons.prems(2)] lost [OF Cons.prems(2)] c by (cases got) auto
  then show ?case using Cons.IH [OF Cons.prems(1)] Cons.prems(1) c by (simp add: claim_waiter_def hooked_def)
qed simp

text \<open>Every call of the queue returns, and keeps the owner in step with the waiters on the list.\<close>

lemma post_held:
  assumes "nq_idle n ws" "held (owner n) ws" "hooked n"
  obtains n' vs where "core_notify_post N ty a b n = Some n'" "nq_idle n' vs" "held (owner n') vs" "hooked n'" "waiters n' = waiters n"
proof -
  obtain es vs ow where s: "serve N n (push_event \<lparr>ev_type = ty, arg1 = a, arg2 = b\<rparr> (waiting n)) ws (owner n) = (es, vs, ow)"
    by (metis prod_cases3)
  from post_implements [OF assms(1) s] obtain n' where "core_notify_post N ty a b n = Some n'" "nq_idle n' vs" "owner n' = ow"
    "(waiters n', nq_claim n', nq_deliver n', nq_abort n', nq_ctx n') = (waiters n, nq_claim n, nq_deliver n, nq_abort n, nq_ctx n)" by blast
  then show thesis using that serve_held [OF assms(3,2) s] assms(3) by (auto simp: hooked_def)
qed

lemma wait_held:
  assumes "nq_idle n ws" "held (owner n) (ws @ [w])" "hooked n" "w \<noteq> 0" "w \<noteq> waiters n" "w \<notin> set ws"
  obtains served n' vs where "core_notify_wait N w n = Some (served, n')" "nq_idle n' vs" "held (owner n') vs" "hooked n'"
    "waiters n' = waiters n"
proof -
  obtain es vs ow where s: "serve N n (waiting n) (ws @ [w]) (owner n) = (es, vs, ow)" by (metis prod_cases3)
  from wait_implements [OF assms(1,4,5,6) s] obtain n' where "core_notify_wait N w n = Some (length es < length (waiting n), n')"
    "nq_idle n' vs" "owner n' = ow" "nq_fixed n' = nq_fixed n" by blast
  then show thesis using that serve_held [OF assms(3,2) s] assms(3) by (auto simp: hooked_def nq_fixed_def)
qed

lemma flush_held:
  assumes "nq_idle n ws" "held (owner n) ws" "hooked n"
  obtains n' where "core_notify_flush N n = Some n'" "nq_idle n' []" "held (owner n') []" "hooked n'" "waiters n' = waiters n"
proof -
  from flush_implements [OF assms(1), of N] obtain n' where "core_notify_flush N n = Some n'" "nq_idle n' []"
    "owner n' = abort_all N n ws (owner n)" "nq_fixed n' = nq_fixed n" by blast
  then show thesis using that abort_held [OF assms(3,2)] assms(3) by (auto simp: hooked_def nq_fixed_def)
qed

end

end
