(* ===== verification/Control_Shell.thy ===== *)
theory Control_Shell
  imports Command_Facts Shell_State
begin

text \<open>
  The control device object of \<open>src_drv/wdm.c\<close>: its life cycle, the notification waiter over the three calls of
  the queue, the four dispatch routines, and the sink of a script's events.

  The owner behind the queue's calls is the I/O manager's record of the requests on this device. A waiter lives
  in its request (\<open>ctl_waiter\<close> says where) and points back to it. A spin-locked section is one definition.
\<close>

section \<open>Requests\<close>

record ctl_irps =
  ctl_armed :: "ptr \<Rightarrow> bool"
  ctl_marked :: "ptr \<Rightarrow> bool"
  ctl_buffer :: "ptr \<Rightarrow> u8 list option"
  ctl_file :: "ptr \<Rightarrow> ptr"
  ctl_waiter :: "ptr \<Rightarrow> ptr"
  ctl_request :: "ptr \<Rightarrow> ptr"
  ctl_log :: "(ptr \<times> ntstatus \<times> u32) list"

definition ctl_complete :: "ptr \<Rightarrow> ntstatus \<Rightarrow> u32 \<Rightarrow> ctl_irps \<Rightarrow> ctl_irps" where
  "ctl_complete irp st info m = m\<lparr>ctl_log := ctl_log m @ [(irp, st, info)]\<rparr>"

definition ctl_claim_irp :: "ptr \<Rightarrow> ctl_irps \<Rightarrow> bool \<times> ctl_irps" where
  "ctl_claim_irp irp m = (ctl_armed m irp, m\<lparr>ctl_armed := (ctl_armed m)(irp := False)\<rparr>)"

definition NotifyClaim :: "ptr \<Rightarrow> ctl_irps \<Rightarrow> bool \<times> ctl_irps" where
  "NotifyClaim w m = ctl_claim_irp (ctl_request m w) m"

text \<open>The three dwords, a byte at a time, into a buffer of at least twelve bytes.\<close>

definition NotifyDeliver :: "ptr \<Rightarrow> sched_event \<Rightarrow> ctl_irps \<Rightarrow> ctl_irps" where
  "NotifyDeliver w e m =
     (let irp = ctl_request m w;
          m = (case ctl_buffer m irp of
                 None \<Rightarrow> m
               | Some out \<Rightarrow> m\<lparr>ctl_buffer := (ctl_buffer m)(irp \<mapsto>
                   wr32 (ev_type e) @ wr32 (arg1 e) @ wr32 (arg2 e) @ drop 12 out)\<rparr>)
      in ctl_complete irp STATUS_SUCCESS 12 m)"

definition NotifyAbort :: "ptr \<Rightarrow> ctl_irps \<Rightarrow> ctl_irps" where
  "NotifyAbort w m = ctl_complete (ctl_request m w) STATUS_CANCELLED 0 m"

definition ntf_seams :: "ctl_irps notify_seams" where
  "ntf_seams = \<lparr>call_ntf_claim = (\<lambda>_ _. NotifyClaim), call_ntf_deliver = (\<lambda>_ _. NotifyDeliver),
     call_ntf_abort = (\<lambda>_ _. NotifyAbort)\<rparr>"

text \<open>The pointers are any non-null ones.\<close>

definition AdaptoidNotifyInit :: "ptr \<Rightarrow> ctl_irps core_notify \<Rightarrow> ctl_irps core_notify" where
  "AdaptoidNotifyInit cx n = core_notify_init 1 2 3 cx n"

section \<open>The waiter\<close>

definition AdaptoidWaitNotification :: "ptr \<Rightarrow> ctl_irps core_notify \<Rightarrow> (ntstatus \<times> ctl_irps core_notify) option" where
  "AdaptoidWaitNotification irp n =
     (let m = owner n;
          w = ctl_waiter m irp;
          m = m\<lparr>ctl_request := (ctl_request m)(w := irp), ctl_marked := (ctl_marked m)(irp := True),
            ctl_armed := (ctl_armed m)(irp := True)\<rparr>
      in do {
        (_, n) \<leftarrow> core_notify_wait ntf_seams w (n\<lparr>owner := m\<rparr>);
        Some (STATUS_PENDING, n) })"

definition NotifyCancelRoutine :: "ptr \<Rightarrow> ctl_irps core_notify \<Rightarrow> ctl_irps core_notify" where
  "NotifyCancelRoutine irp n =
     (let (_, n) = core_notify_cancel (ctl_waiter (owner n) irp) n
      in n\<lparr>owner := ctl_complete irp STATUS_CANCELLED 0 (owner n)\<rparr>)"

text \<open>The search of the list for a waiter of one file object (or of any), as a walk along the links.\<close>

partial_function (option) find_victim :: "(ptr \<Rightarrow> bool) \<Rightarrow> links \<Rightarrow> ptr \<Rightarrow> ptr \<Rightarrow> ptr option option" where
  "find_victim P s head w =
     (if w = head then Some None else if P w then Some (Some w) else find_victim P s head (flink s w))"

definition pick_victim :: "ptr option \<Rightarrow> ctl_irps core_notify \<Rightarrow> (ptr option \<times> ctl_irps core_notify) option" where
  "pick_victim file n = do {
     v \<leftarrow> find_victim (\<lambda>w. case file of None \<Rightarrow> True | Some f \<Rightarrow> ctl_file (owner n) (ctl_request (owner n) w) = f)
       (nq_links n) (waiters n) (flink (nq_links n) (waiters n));
     Some (v, case v of None \<Rightarrow> n | Some w \<Rightarrow> snd (core_notify_cancel w n)) }"

text \<open>What is done with it outside the lock.\<close>

definition finish_victim :: "ptr \<Rightarrow> ctl_irps core_notify \<Rightarrow> ctl_irps core_notify" where
  "finish_victim w n =
     (let irp = ctl_request (owner n) w;
          (got, m) = ctl_claim_irp irp (owner n)
      in n\<lparr>owner := if got then ctl_complete irp STATUS_CANCELLED 0 m else m\<rparr>)"

partial_function (option) AdaptoidCancelNotifications :: "ptr option \<Rightarrow> ctl_irps core_notify \<Rightarrow> ctl_irps core_notify option" where
  "AdaptoidCancelNotifications file n = do {
     (v, n) \<leftarrow> pick_victim file n;
     case v of
       None \<Rightarrow> Some n
     | Some w \<Rightarrow> AdaptoidCancelNotifications file (finish_victim w n) }"

section \<open>The control device object\<close>

record 'w ctl_ext =
  Registry :: "('w, ctl_irps) core_registry"
  Channel :: core_cmd_channel
  OpenCount :: s32

record 'w control =
  cdo :: "'w ctl_ext"
  cdo_present :: bool
  g_ControlRefCount :: s32

definition map_notify :: "(ctl_irps core_notify \<Rightarrow> ctl_irps core_notify) \<Rightarrow> 'w ctl_ext \<Rightarrow> 'w ctl_ext" where
  "map_notify f cx = cx\<lparr>Registry := (Registry cx)\<lparr>notify := f (notify (Registry cx))\<rparr>\<rparr>"

definition ctl_answer :: "ptr \<Rightarrow> ntstatus \<Rightarrow> u32 \<Rightarrow> 'w ctl_ext \<Rightarrow> 'w ctl_ext" where
  "ctl_answer irp st info = map_notify (\<lambda>n. n\<lparr>owner := ctl_complete irp st info (owner n)\<rparr>)"

text \<open>\<open>dev_st\<close> and \<open>link_st\<close> are what the I/O manager answers to the creation of the device and of its link.\<close>

definition AdaptoidCreateControlDevice :: "ntstatus \<Rightarrow> ntstatus \<Rightarrow> 'w control \<Rightarrow> ntstatus \<times> 'w control" where
  "AdaptoidCreateControlDevice dev_st link_st g =
     (let (st, g) =
        (if cdo_present g then (STATUS_SUCCESS, g)
         else if \<not> NT_SUCCESS dev_st then (dev_st, g)
         else if \<not> NT_SUCCESS link_st then (link_st, g)
         else
           let cx = (cdo g)\<lparr>OpenCount := 0\<rparr>;
               cx = cx\<lparr>Registry := core_registry_init (Registry cx), Channel := core_cmd_channel_init (Channel cx)\<rparr>;
               cx = map_notify (AdaptoidNotifyInit 1) cx
           in (link_st, g\<lparr>cdo := cx, cdo_present := True\<rparr>))
      in (st, if NT_SUCCESS st then g\<lparr>g_ControlRefCount := to_s32 (g_ControlRefCount g + 1)\<rparr> else g))"

definition AdaptoidControlMaybeDelete :: "'w control \<Rightarrow> 'w control option" where
  "AdaptoidControlMaybeDelete g =
     (if g_ControlRefCount g = 0 \<and> cdo_present g \<and> OpenCount (cdo g) = 0 then do {
        n \<leftarrow> AdaptoidCancelNotifications None (notify (Registry (cdo g)));
        n \<leftarrow> core_notify_flush ntf_seams n;
        Some (g\<lparr>cdo_present := False, cdo := map_notify (\<lambda>_. n) (cdo g)\<rparr>) }
      else Some g)"

definition AdaptoidReleaseControlDevice :: "'w control \<Rightarrow> 'w control option" where
  "AdaptoidReleaseControlDevice g =
     AdaptoidControlMaybeDelete
       (if g_ControlRefCount g > 0 then g\<lparr>g_ControlRefCount := to_s32 (g_ControlRefCount g - 1)\<rparr> else g)"

section \<open>The dispatch routines\<close>

definition reset_tuning :: "'w core_device_entry \<Rightarrow> 'w core_device_entry" where
  "reset_tuning e = e\<lparr>dev_cs := map_option (\<lambda>cs. cs\<lparr>stick_clip := 75, stick_stretch := 10\<rparr>) (dev_cs e)\<rparr>"

definition reset_pak :: "'w core_device_entry \<Rightarrow> 'w core_device_entry" where
  "reset_pak e = e\<lparr>dev_cs := map_option (\<lambda>cs. cs\<lparr>keepalive_time := 0, emu_pak_present := False\<rparr>) (dev_cs e)\<rparr>"

definition AdaptoidControlCreate :: "ptr \<Rightarrow> 'w ctl_ext \<Rightarrow> ntstatus \<times> 'w ctl_ext" where
  "AdaptoidControlCreate irp cx =
     (if live_count (Registry cx) = 0 then (STATUS_DELETE_PENDING, ctl_answer irp STATUS_DELETE_PENDING 0 cx)
      else
        let was = OpenCount cx;
            cx = cx\<lparr>OpenCount := to_s32 (was + 1)\<rparr>;
            reg = Registry cx;
            reg = (if was = 0 then fold (\<lambda>d. map_entry d reset_tuning) (devices reg) reg else reg);
            reg = fold (\<lambda>d. map_entry d reset_pak) (devices reg) reg
        in (STATUS_SUCCESS, ctl_answer irp STATUS_SUCCESS 0 (cx\<lparr>Registry := reg\<rparr>)))"

definition AdaptoidControlCleanup :: "ptr \<Rightarrow> 'w ctl_ext \<Rightarrow> (ntstatus \<times> 'w ctl_ext) option" where
  "AdaptoidControlCleanup irp cx = do {
     n \<leftarrow> AdaptoidCancelNotifications (Some (ctl_file (owner (notify (Registry cx))) irp)) (notify (Registry cx));
     Some (STATUS_SUCCESS, ctl_answer irp STATUS_SUCCESS 0 (map_notify (\<lambda>_. n) cx)) }"

definition AdaptoidControlClose :: "ptr \<Rightarrow> 'w control \<Rightarrow> (ntstatus \<times> 'w control) option" where
  "AdaptoidControlClose irp g = do {
     n \<leftarrow> AdaptoidCancelNotifications (Some (ctl_file (owner (notify (Registry (cdo g)))) irp)) (notify (Registry (cdo g)));
     let cx = map_notify (\<lambda>_. n) (cdo g);
     let cx = (if OpenCount cx > 0 then cx\<lparr>OpenCount := to_s32 (OpenCount cx - 1)\<rparr> else cx);
     g \<leftarrow> AdaptoidControlMaybeDelete (g\<lparr>cdo := cx\<rparr>);
     Some (STATUS_SUCCESS, g\<lparr>cdo := ctl_answer irp STATUS_SUCCESS 0 (cdo g)\<rparr>) }"

text \<open>The one buffer of a request is as long as the longer of its two lengths.\<close>

definition AdaptoidControlIoctl ::
    "'w ioctl_seams \<Rightarrow> u64 \<Rightarrow> ptr \<Rightarrow> u32 \<Rightarrow> u32 \<Rightarrow> u32 \<Rightarrow> 'w ctl_ext \<Rightarrow> (ntstatus \<times> 'w ctl_ext) option" where
  "AdaptoidControlIoctl I now irp code ilen olen cx =
     (if core_ioctl_fn code = 0x818 \<and> ilen = 0 \<and> olen = 12 then do {
        (st, n) \<leftarrow> AdaptoidWaitNotification irp (notify (Registry cx));
        Some (st, map_notify (\<lambda>_. n) cx) }
      else
        let buf = (case ctl_buffer (owner (notify (Registry cx))) irp of None \<Rightarrow> [] | Some b \<Rightarrow> b)
        in do {
          (st, info, out, reg) \<leftarrow> core_ctl_dispatch I ntf_seams None now (Registry cx)
            \<lparr>ioc_code = code, ioc_in = take (unat ilen) buf, ioc_out = take (unat olen) buf\<rparr>;
          let cx = map_notify (\<lambda>n. n\<lparr>owner := (owner n)\<lparr>ctl_buffer := (ctl_buffer (owner n))(irp \<mapsto> out @ drop (unat olen) buf)\<rparr>\<rparr>)
            (cx\<lparr>Registry := reg\<rparr>);
          Some (st, ctl_answer irp st info cx) })"

definition AdaptoidControlReadWrite ::
    "'w cmd_seams \<Rightarrow> bool \<Rightarrow> ptr \<Rightarrow> u32 \<Rightarrow> 'w ctl_ext \<Rightarrow> (ntstatus \<times> 'w ctl_ext) option" where
  "AdaptoidControlReadWrite C is_write irp len cx =
     (let buf = ctl_buffer (owner (notify (Registry cx))) irp
      in do {
        (st, info, buf, reg, ch) \<leftarrow>
          (if is_write then core_cmd_write C (Registry cx) (Channel cx) buf len
           else core_cmd_read C (Registry cx) (Channel cx) buf len);
        let cx = map_notify (\<lambda>n. n\<lparr>owner := (owner n)\<lparr>ctl_buffer := (ctl_buffer (owner n))(irp := buf)\<rparr>\<rparr>)
          (cx\<lparr>Registry := reg, Channel := ch\<rparr>);
        Some (st, ctl_answer irp st info cx) })"

section \<open>A script's events\<close>

definition AdaptoidScriptEvent ::
    "'w seams \<Rightarrow> u32 \<Rightarrow> u32 \<Rightarrow> u32 \<Rightarrow> 'w core_state \<times> 'v control \<Rightarrow> ('w core_state \<times> 'v control) option" where
  "AdaptoidScriptEvent S type a1 a2 = (\<lambda>(cs, g).
     if type = 0 then Some (core_hid_key_event S a1 (a2 \<noteq> 0) cs, g)
     else if type = 1 then Some (core_hid_mouse_button S a1 (a2 \<noteq> 0) cs, g)
     else if type = 2 then Some (core_hid_mouse_move S (s32_of a1) (s32_of a2) 0 cs, g)
     else if cdo_present g then do {
       n \<leftarrow> core_notify_post ntf_seams type a1 a2 (notify (Registry (cdo g)));
       Some (cs, g\<lparr>cdo := map_notify (\<lambda>_. n) (cdo g)\<rparr>) }
     else Some (cs, g))"

end
