(* ===== verification/Control_Owner.thy ===== *)
theory Control_Owner
  imports Control_Shell Notify_Facts
begin

text \<open>
  Who owns a notification request: the runs of the control device's queue with the shell's three calls, its cancel
  routine and its sweeps as an inductive relation, and what holds in all of them; a run in
  which a post is overlapped and unlinks a waiter twice; the life of the device object.
\<close>

section \<open>One owner at a time\<close>

text \<open>\<open>I\<close> are the requests issued, \<open>C\<close> those whose cancel routine has been taken by the I/O manager and not
  finished, \<open>S\<close> the waiters a sweep has unlinked and not yet claimed.\<close>

definition own_inv :: "(ptr \<Rightarrow> ptr) \<Rightarrow> ptr list \<Rightarrow> ptr list \<Rightarrow> ptr list \<Rightarrow> ctl_irps \<Rightarrow> ptr list \<Rightarrow> bool" where
  "own_inv U I C S m ws \<longleftrightarrow> ctl_waiter m = U \<and> inj_on (ctl_waiter m) (set I) \<and> distinct C \<and> distinct ws \<and> set ws \<inter> set S = {} \<and> distinct S \<and>
     (\<forall>w\<in>set ws. count_list (map fst (ctl_log m)) (ctl_request m w) = 0) \<and>
     (\<forall>irp. of_bool (ctl_armed m irp) + of_bool (irp \<in> set C) + count_list (map fst (ctl_log m)) irp = (of_bool (irp \<in> set I) :: nat)) \<and>
     (\<forall>irp. ctl_armed m irp \<longrightarrow> ctl_waiter m irp \<in> set ws \<union> set S) \<and>
     (\<forall>w\<in>set ws \<union> set S. \<exists>irp\<in>set I. ctl_waiter m irp = w \<and> ctl_request m w = irp)"

lemma own_once: "own_inv U I C S m ws \<Longrightarrow>
    of_bool (ctl_armed m i) + of_bool (i \<in> set C) + count_list (map fst (ctl_log m)) i = (of_bool (i \<in> set I) :: nat)"
  unfolding own_inv_def by blast

lemma own_owns: "own_inv U I C S m ws \<Longrightarrow> w \<in> set ws \<union> set S \<Longrightarrow> ctl_request m w \<in> set I \<and> ctl_waiter m (ctl_request m w) = w"
  unfolding own_inv_def by blast

lemma own_inj: "own_inv U I C S m ws \<Longrightarrow> inj_on (ctl_waiter m) (set I)"
  unfolding own_inv_def by blast

lemma own_home: "own_inv U I C S m ws \<Longrightarrow> ctl_armed m i \<Longrightarrow> ctl_waiter m i \<in> set ws \<union> set S"
  unfolding own_inv_def by blast

lemma own_live: "own_inv U I C S m ws \<Longrightarrow> w \<in> set ws \<Longrightarrow> count_list (map fst (ctl_log m)) (ctl_request m w) = 0"
  unfolding own_inv_def by blast

lemma count_snoc: "count_list (map fst (xs @ [(i, st, k)])) j = count_list (map fst xs) j + (if i = j then 1 else 0)"
  by simp

text \<open>A waiter claimed: its request is disarmed, and completed if it was armed; the waiter is forgotten.\<close>

lemma claimed_inv:
  assumes "own_inv U I C S m ws" "w \<in> set ws \<union> set S" "irp = ctl_request m w"
    and "set ws' = set ws - {w}" "distinct ws'" "set S' = set S - {w}" "distinct S'"
    and "ctl_armed m' = (ctl_armed m)(irp := False)" "ctl_waiter m' = ctl_waiter m" "ctl_request m' = ctl_request m"
    and "ctl_log m' = ctl_log m @ (if ctl_armed m irp then [(irp, st, k)] else [])"
  shows "own_inv U I C S' m' ws'"
proof -
  note eq = own_once [OF assms(1)] and inj = own_inj [OF assms(1)]
  have irp: "irp \<in> set I" "ctl_waiter m irp = w" using own_owns [OF assms(1,2)] assms(3) by simp_all
  have owns: "\<exists>i\<in>set I. ctl_waiter m i = v \<and> ctl_request m v = i" if "v \<in> set ws \<union> set S" for v
    using own_owns [OF assms(1) that] by blast
  have one: "of_bool (ctl_armed m' i) + of_bool (i \<in> set C) + count_list (map fst (ctl_log m')) i = (of_bool (i \<in> set I) :: nat)" for i
    using eq [of i] eq [of irp] irp(1) by (auto simp: assms(8,11))
  have home: "ctl_waiter m i \<in> set ws' \<union> set S'" if "ctl_armed m' i" for i
  proof -
    have a: "ctl_armed m i" "i \<noteq> irp" using that assms(8) by (auto split: if_splits)
    then have "i \<in> set I" using eq [of i] by (cases "i \<in> set I") simp_all
    then have "ctl_waiter m i \<noteq> w" using inj irp a(2) by (auto dest: inj_onD)
    moreover have "ctl_waiter m i \<in> set ws \<union> set S" using own_home [OF assms(1) a(1)] .
    ultimately show ?thesis using assms(4,6) by blast
  qed
  have live: "count_list (map fst (ctl_log m')) (ctl_request m v) = 0" if "v \<in> set ws'" for v
  proof -
    have v: "v \<in> set ws" "v \<noteq> w" using that assms(4) by auto
    then have "ctl_request m v \<noteq> irp" using owns [of v] irp(2) by auto
    moreover have "count_list (map fst (ctl_log m)) (ctl_request m v) = 0" using own_live [OF assms(1) v(1)] .
    ultimately show ?thesis by (simp add: assms(11))
  qed
  have "\<exists>i\<in>set I. ctl_waiter m i = v \<and> ctl_request m v = i" if "v \<in> set ws' \<union> set S'" for v
    using that assms(4,6) by (intro owns) auto
  moreover have "set ws' \<inter> set S' = {}" "distinct C" "ctl_waiter m = U" using assms(1,4,6) by (auto simp: own_inv_def)
  ultimately show ?thesis using inj assms(5,7) one home live by (auto simp: own_inv_def assms(9,10))
qed

lemma claim_parts:
  "NotifyClaim w m = (ctl_armed m (ctl_request m w), m\<lparr>ctl_armed := (ctl_armed m)(ctl_request m w := False)\<rparr>)"
  by (simp add: NotifyClaim_def ctl_claim_irp_def)

lemma deliver_parts:
  "ctl_armed (NotifyDeliver w e m) = ctl_armed m" "ctl_waiter (NotifyDeliver w e m) = ctl_waiter m"
  "ctl_request (NotifyDeliver w e m) = ctl_request m"
  "ctl_log (NotifyDeliver w e m) = ctl_log m @ [(ctl_request m w, STATUS_SUCCESS, 12)]"
  by (simp_all add: NotifyDeliver_def ctl_complete_def Let_def split: option.split)

interpretation wdm: notify_owner ntf_seams "own_inv U I C S" for U I C S
proof
  fix m w ws f c m1 and g and e :: sched_event
  assume h: "own_inv U I C S m (w # ws)"
  have mem: "w \<in> set (w # ws) \<union> set S" "set ws = set (w # ws) - {w}" "distinct ws" "set S = set S - {w}" "distinct S"
    using h by (auto simp: own_inv_def)
  show "own_inv U I C S (call_ntf_deliver ntf_seams g c w e m1) ws" if "call_ntf_claim ntf_seams f c w m = (True, m1)"
  proof -
    have p: "ctl_armed m (ctl_request m w)" "m1 = m\<lparr>ctl_armed := (ctl_armed m)(ctl_request m w := False)\<rparr>"
      using that by (simp_all add: ntf_seams_def claim_parts)
    show ?thesis
      by (rule claimed_inv [OF h mem(1) refl mem(2,3,4,5), where st = STATUS_SUCCESS and k = 12])
        (simp_all add: ntf_seams_def deliver_parts p)
  qed
  show "own_inv U I C S (call_ntf_abort ntf_seams g c w m1) ws" if "call_ntf_claim ntf_seams f c w m = (True, m1)"
  proof -
    have p: "ctl_armed m (ctl_request m w)" "m1 = m\<lparr>ctl_armed := (ctl_armed m)(ctl_request m w := False)\<rparr>"
      using that by (simp_all add: ntf_seams_def claim_parts)
    show ?thesis
      by (rule claimed_inv [OF h mem(1) refl mem(2,3,4,5), where st = STATUS_CANCELLED and k = 0])
        (simp_all add: ntf_seams_def NotifyAbort_def ctl_complete_def p)
  qed
  show "own_inv U I C S m1 ws" if "call_ntf_claim ntf_seams f c w m = (False, m1)"
  proof -
    have p: "\<not> ctl_armed m (ctl_request m w)" "m1 = m\<lparr>ctl_armed := (ctl_armed m)(ctl_request m w := False)\<rparr>"
      using that by (simp_all add: ntf_seams_def claim_parts)
    show ?thesis by (rule claimed_inv [OF h mem(1) refl mem(2,3,4,5)]) (simp_all add: p)
  qed
qed

section \<open>The sweep\<close>

lemma find_linked:
  "linked s a xs h \<Longrightarrow> h \<notin> set xs \<Longrightarrow> find_victim P s h (flink s a) = Some (List.find P xs)"
  by (induction xs arbitrary: a) (auto simp: find_victim.simps)

text \<open>The waiters of a sweep: all, or those of one handle.\<close>

definition swept_by :: "ptr option \<Rightarrow> ctl_irps \<Rightarrow> ptr \<Rightarrow> bool" where
  "swept_by file m w \<longleftrightarrow> (case file of None \<Rightarrow> True | Some f \<Rightarrow> ctl_file m (ctl_request m w) = f)"

lemma pick_run:
  assumes "nq_idle n ws"
  shows "\<exists>n'. pick_victim file n = Some (List.find (swept_by file (owner n)) ws, n') \<and>
    nq_idle n' (case List.find (swept_by file (owner n)) ws of None \<Rightarrow> ws | Some w \<Rightarrow> remove1 w ws) \<and>
    waiting n' = waiting n \<and> owner n' = owner n \<and> nq_fixed n' = nq_fixed n"
proof -
  have r: "linked (nq_links n) (waiters n) ws (waiters n)" "waiters n \<notin> set ws"
    using assms by (simp_all add: nq_idle_def nq_ok_def wait_ring_def)
  have s: "swept_by file m = (\<lambda>w. case file of None \<Rightarrow> True | Some f \<Rightarrow> ctl_file m (ctl_request m w) = f)" for m
    by (simp add: swept_by_def fun_eq_iff)
  have f: "find_victim (swept_by file (owner n)) (nq_links n) (waiters n) (flink (nq_links n) (waiters n)) =
      Some (List.find (swept_by file (owner n)) ws)" by (rule find_linked [OF r])
  show ?thesis
  proof (cases "List.find (swept_by file (owner n)) ws")
    case None
    then show ?thesis using f assms by (simp add: pick_victim_def s)
  next
    case (Some w)
    then have "w \<in> set ws" by (auto simp: find_Some_iff)
    then have "w \<noteq> waiters n" using r(2) by metis
    from cancel_implements [OF assms this] obtain n' where "core_notify_cancel w n = (w \<in> set ws, n')" "nq_idle n' (remove1 w ws)"
      "waiting n' = waiting n" "owner n' = owner n" "nq_fixed n' = nq_fixed n" by blast
    then show ?thesis using f Some by (simp add: pick_victim_def s)
  qed
qed

definition drop_waiter :: "ptr \<Rightarrow> ctl_irps \<Rightarrow> ctl_irps" where
  "drop_waiter w m = (let (got, m1) = ctl_claim_irp (ctl_request m w) m
     in if got then ctl_complete (ctl_request m w) STATUS_CANCELLED 0 m1 else m1)"

lemma finish_drop: "finish_victim w n = n\<lparr>owner := drop_waiter w (owner n)\<rparr>"
  by (simp add: finish_victim_def drop_waiter_def Let_def split: prod.split)

lemma drop_parts:
  "ctl_armed (drop_waiter w m) = (ctl_armed m)(ctl_request m w := False)" "ctl_waiter (drop_waiter w m) = ctl_waiter m"
  "ctl_request (drop_waiter w m) = ctl_request m" "ctl_file (drop_waiter w m) = ctl_file m"
  "ctl_log (drop_waiter w m) = ctl_log m @ (if ctl_armed m (ctl_request m w) then [(ctl_request m w, STATUS_CANCELLED, 0)] else [])"
  by (simp_all add: drop_waiter_def ctl_claim_irp_def ctl_complete_def Let_def)

lemma swept_drop [simp]: "swept_by file (drop_waiter w m) = swept_by file m"
  by (simp add: swept_by_def drop_parts fun_eq_iff split: option.split)

lemma find_sat: "List.find P xs = Some x \<Longrightarrow> P x"
  by (auto simp: find_Some_iff)

lemma find_filter:
  "List.find P xs = Some x \<Longrightarrow> filter P xs = x # filter P (remove1 x xs)"
  "List.find P xs = Some x \<Longrightarrow> filter (\<lambda>y. \<not> P y) (remove1 x xs) = filter (\<lambda>y. \<not> P y) xs"
  by (induction xs) (auto split: if_splits dest: find_sat)

lemma sweep_run:
  assumes "nq_idle n ws"
  shows "\<exists>n'. AdaptoidCancelNotifications file n = Some n' \<and> nq_idle n' (filter (\<lambda>w. \<not> swept_by file (owner n) w) ws) \<and>
    waiting n' = waiting n \<and> owner n' = fold drop_waiter (filter (swept_by file (owner n)) ws) (owner n) \<and> nq_fixed n' = nq_fixed n"
  using assms
proof (induction "length ws" arbitrary: n ws rule: less_induct)
  case less
  let ?P = "swept_by file (owner n)"
  obtain n1 where p: "pick_victim file n = Some (List.find ?P ws, n1)"
    "nq_idle n1 (case List.find ?P ws of None \<Rightarrow> ws | Some w \<Rightarrow> remove1 w ws)"
    "waiting n1 = waiting n" "owner n1 = owner n" "nq_fixed n1 = nq_fixed n" using pick_run [OF less.prems] by blast
  show ?case
  proof (cases "List.find ?P ws")
    case None
    then have none: "\<forall>w\<in>set ws. \<not> ?P w" by (simp add: find_None_iff)
    then have "filter (\<lambda>w. \<not> ?P w) ws = ws" "filter ?P ws = []" by (simp_all add: filter_id_conv)
    then show ?thesis using p None by (subst AdaptoidCancelNotifications.simps) simp
  next
    case (Some w)
    let ?n2 = "finish_victim w n1"
    have mem: "w \<in> set ws" using Some by (auto simp: find_Some_iff)
    have o2: "owner ?n2 = drop_waiter w (owner n)" "waiting ?n2 = waiting n" "nq_fixed ?n2 = nq_fixed n"
      using p(3,4,5) by (simp_all add: finish_drop nq_fixed_def)
    have idle2: "nq_idle ?n2 (remove1 w ws)" using p(2) Some by (simp add: finish_drop nq_idle_def nq_ok_def)
    have shorter: "length (remove1 w ws) < length ws" using mem length_pos_if_in_set [OF mem] by (simp add: length_remove1)
    obtain n' where r: "AdaptoidCancelNotifications file ?n2 = Some n'"
      "nq_idle n' (filter (\<lambda>v. \<not> swept_by file (owner ?n2) v) (remove1 w ws))" "waiting n' = waiting ?n2"
      "owner n' = fold drop_waiter (filter (swept_by file (owner ?n2)) (remove1 w ws)) (owner ?n2)" "nq_fixed n' = nq_fixed ?n2"
      using less.hyps [OF shorter idle2] by blast
    have "AdaptoidCancelNotifications file n = Some n'"
      using p(1) Some r(1) by (subst AdaptoidCancelNotifications.simps) simp
    moreover have "nq_idle n' (filter (\<lambda>v. \<not> ?P v) ws)" using r(2) find_filter(2) [OF Some] unfolding o2(1) swept_drop by simp
    moreover have "owner n' = fold drop_waiter (filter ?P ws) (owner n)"
      unfolding find_filter(1) [OF Some] r(4) o2(1) swept_drop by simp
    ultimately show ?thesis using r(3,5) o2(2,3) by simp
  qed
qed

section \<open>Runs\<close>

text \<open>The serialised runs. Waits, cancel routines and the picks of a sweep are sections under the queue's lock; posts and
  flushes are taken to be so too, which is an assumption: their callers in \<open>wdm.c\<close> do not take the lock
  (\<open>loose_reach\<close> below drops it). \<open>cancel_begins\<close> is the I/O manager taking the cancel routine,
  \<open>cancel_runs\<close> the routine itself; a sweep picks under the lock and finishes outside it, so anything may happen in
  between. A request's waiter lies in the request, so no two requests share one.\<close>

inductive ctl_reach :: "ctl_irps core_notify \<Rightarrow> ptr list \<Rightarrow> ptr list \<Rightarrow> ptr list \<Rightarrow> bool" where
  start: "waiters n \<noteq> 0 \<Longrightarrow> flink (nq_links n) = (\<lambda>_. 0) \<Longrightarrow> ctl_armed (owner n) = (\<lambda>_. False) \<Longrightarrow> ctl_log (owner n) = [] \<Longrightarrow>
    ctl_reach (AdaptoidNotifyInit cx n) [] [] []"
| waits: "ctl_reach n I C S \<Longrightarrow> irp \<notin> set I \<Longrightarrow> ctl_waiter (owner n) irp \<notin> {0, waiters n} \<union> ctl_waiter (owner n) ` set I \<Longrightarrow>
    AdaptoidWaitNotification irp n = Some (st, n') \<Longrightarrow> ctl_reach n' (irp # I) C S"
| posts: "ctl_reach n I C S \<Longrightarrow> core_notify_post ntf_seams type a1 a2 n = Some n' \<Longrightarrow> ctl_reach n' I C S"
| cancel_begins: "ctl_reach n I C S \<Longrightarrow> ctl_claim_irp irp (owner n) = (True, m) \<Longrightarrow> ctl_reach (n\<lparr>owner := m\<rparr>) I (irp # C) S"
| cancel_runs: "ctl_reach n I C S \<Longrightarrow> irp \<in> set C \<Longrightarrow> ctl_reach (NotifyCancelRoutine irp n) I (remove1 irp C) S"
| picks: "ctl_reach n I C S \<Longrightarrow> pick_victim sel n = Some (Some w, n') \<Longrightarrow> ctl_reach n' I C (w # S)"
| finishes: "ctl_reach n I C S \<Longrightarrow> w \<in> set S \<Longrightarrow> ctl_reach (finish_victim w n) I C (remove1 w S)"
| flushes: "ctl_reach n I C S \<Longrightarrow> core_notify_flush ntf_seams n = Some n' \<Longrightarrow> ctl_reach n' I C S"

definition run_inv :: "ctl_irps core_notify \<Rightarrow> ptr list \<Rightarrow> ptr list \<Rightarrow> ptr list \<Rightarrow> ptr list \<Rightarrow> bool" where
  "run_inv n I C S ws \<longleftrightarrow> nq_idle n ws \<and> own_inv (ctl_waiter (owner n)) I C S (owner n) ws \<and> wdm.hooked n \<and>
     0 \<notin> ctl_waiter (owner n) ` set I \<and> waiters n \<notin> ctl_waiter (owner n) ` set I"

lemma idle_owner [simp]: "nq_idle (n\<lparr>owner := m\<rparr>) ws = nq_idle n ws" "waiting (n\<lparr>owner := m\<rparr>) = waiting n"
  "wdm.hooked (n\<lparr>owner := m\<rparr>) = wdm.hooked n"
  by (simp_all add: nq_idle_def nq_ok_def waiting_def wdm.hooked_def)

lemma same_waiters: "own_inv U I C S m ws \<Longrightarrow> ctl_waiter m = U"
  by (simp add: own_inv_def)

lemma init_inv:
  assumes "waiters n \<noteq> 0" "flink (nq_links n) = (\<lambda>_. 0)" "ctl_armed (owner n) = (\<lambda>_. False)" "ctl_log (owner n) = []"
  shows "run_inv (AdaptoidNotifyInit cx n) [] [] [] []"
proof -
  have "wait_ring (nw_init (waiters n) (nq_links n)) (waiters n) []" by (rule ring_init [OF assms(1)])
  then show ?thesis using assms
    by (simp add: run_inv_def AdaptoidNotifyInit_def nq_idle_def nq_ok_def core_notify_init_def waiting_def loose_def nw_init_def
      own_inv_def wdm.hooked_def)
qed

lemma wait_inv:
  assumes "run_inv n I C S ws" "irp \<notin> set I" "ctl_waiter (owner n) irp \<notin> {0, waiters n} \<union> ctl_waiter (owner n) ` set I"
  shows "\<exists>n' vs. AdaptoidWaitNotification irp n = Some (STATUS_PENDING, n') \<and> run_inv n' (irp # I) C S vs"
proof -
  define m where "m = owner n"
  define w where "w = ctl_waiter m irp"
  define m1 where "m1 = m\<lparr>ctl_request := (ctl_request m)(w := irp), ctl_marked := (ctl_marked m)(irp := True),
    ctl_armed := (ctl_armed m)(irp := True)\<rparr>"
  have inv: "nq_idle n ws" "own_inv (ctl_waiter m) I C S m ws" "wdm.hooked n" "0 \<notin> ctl_waiter m ` set I" "waiters n \<notin> ctl_waiter m ` set I"
    using assms(1) by (simp_all add: run_inv_def m_def)
  have new: "w \<noteq> 0" "w \<noteq> waiters n" "w \<notin> ctl_waiter m ` set I" using assms(3) by (auto simp: w_def m_def)
  have off: "w \<notin> set ws \<union> set S" using own_owns [OF inv(2), of w] new(3) by (metis imageI)
  have none: "\<not> ctl_armed m irp" "irp \<notin> set C" "count_list (map fst (ctl_log m)) irp = 0"
    using own_once [OF inv(2), of irp] assms(2) by (simp_all split: if_splits)
  have old: "ctl_request m1 v = ctl_request m v" if "v \<in> set ws \<union> set S" for v using that off by (auto simp: m1_def)
  have "own_inv (ctl_waiter m) (irp # I) C S m1 (ws @ [w])"
  proof -
    have "\<forall>v\<in>set (ws @ [w]) \<union> set S. \<exists>i\<in>set (irp # I). ctl_waiter m1 i = v \<and> ctl_request m1 v = i"
    proof
      fix v assume "v \<in> set (ws @ [w]) \<union> set S"
      then consider "v = w" | "v \<in> set ws \<union> set S" by auto
      then show "\<exists>i\<in>set (irp # I). ctl_waiter m1 i = v \<and> ctl_request m1 v = i"
      proof cases
        case 2
        then have "\<exists>i\<in>set I. ctl_waiter m i = v \<and> ctl_request m v = i" using own_owns [OF inv(2) 2] by blast
        then show ?thesis using old [OF 2] by (auto simp: m1_def)
      qed (simp add: m1_def w_def)
    qed
    moreover have "\<forall>v\<in>set (ws @ [w]). count_list (map fst (ctl_log m1)) (ctl_request m1 v) = 0"
      using inv(2) none(3) old by (auto simp: own_inv_def m1_def)
    moreover have "inj_on (ctl_waiter m1) (set (irp # I))" using inv(2) new(3) by (auto simp: own_inv_def m1_def w_def)
    ultimately show ?thesis using inv(2) none off assms(2) by (auto simp: own_inv_def m1_def w_def)
  qed
  then have held: "own_inv (ctl_waiter m) (irp # I) C S (owner (n\<lparr>owner := m1\<rparr>)) (ws @ [w])" by simp
  have pre: "nq_idle (n\<lparr>owner := m1\<rparr>) ws" "wdm.hooked (n\<lparr>owner := m1\<rparr>)" "w \<noteq> waiters (n\<lparr>owner := m1\<rparr>)" "w \<notin> set ws"
    using inv(1,3) new(2) off by simp_all
  obtain served n' vs where r: "core_notify_wait ntf_seams w (n\<lparr>owner := m1\<rparr>) = Some (served, n')" "nq_idle n' vs"
    "own_inv (ctl_waiter m) (irp # I) C S (owner n') vs" "wdm.hooked n'" "waiters n' = waiters (n\<lparr>owner := m1\<rparr>)"
    by (rule wdm.wait_held [OF pre(1) held pre(2) new(1) pre(3,4)])
  have "AdaptoidWaitNotification irp n = Some (STATUS_PENDING, n')"
    using r(1) by (simp add: AdaptoidWaitNotification_def Let_def m1_def w_def m_def)
  moreover have "run_inv n' (irp # I) C S vs"
    using r(2-5) same_waiters [OF r(3)] inv(4,5) new(1,2) by (auto simp: run_inv_def w_def)
  ultimately show ?thesis by blast
qed

lemma post_inv:
  assumes "run_inv n I C S ws"
  shows "\<exists>n' vs. core_notify_post ntf_seams type a1 a2 n = Some n' \<and> run_inv n' I C S vs"
proof -
  have inv: "nq_idle n ws" "own_inv (ctl_waiter (owner n)) I C S (owner n) ws" "wdm.hooked n" using assms by (simp_all add: run_inv_def)
  obtain n' vs where r: "core_notify_post ntf_seams type a1 a2 n = Some n'" "nq_idle n' vs"
    "own_inv (ctl_waiter (owner n)) I C S (owner n') vs" "wdm.hooked n'" "waiters n' = waiters n"
    by (rule wdm.post_held [OF inv])
  then have "run_inv n' I C S vs" using assms same_waiters [OF r(3)] by (simp add: run_inv_def)
  then show ?thesis using r(1) by blast
qed

lemma flush_inv:
  assumes "run_inv n I C S ws"
  shows "\<exists>n'. core_notify_flush ntf_seams n = Some n' \<and> run_inv n' I C S []"
proof -
  have inv: "nq_idle n ws" "own_inv (ctl_waiter (owner n)) I C S (owner n) ws" "wdm.hooked n" using assms by (simp_all add: run_inv_def)
  obtain n' where r: "core_notify_flush ntf_seams n = Some n'" "nq_idle n' []"
    "own_inv (ctl_waiter (owner n)) I C S (owner n') []" "wdm.hooked n'" "waiters n' = waiters n"
    by (rule wdm.flush_held [OF inv])
  then have "run_inv n' I C S []" using assms same_waiters [OF r(3)] by (simp add: run_inv_def)
  then show ?thesis using r(1) by blast
qed

lemma cancel_begins_inv:
  assumes "run_inv n I C S ws" "ctl_claim_irp irp (owner n) = (True, m)"
  shows "run_inv (n\<lparr>owner := m\<rparr>) I (irp # C) S ws"
proof -
  have m: "ctl_armed (owner n) irp" "m = (owner n)\<lparr>ctl_armed := (ctl_armed (owner n))(irp := False)\<rparr>"
    using assms(2) by (simp_all add: ctl_claim_irp_def)
  have inv: "own_inv (ctl_waiter (owner n)) I C S (owner n) ws" using assms(1) by (simp add: run_inv_def)
  note once = own_once [OF inv]
  have "irp \<notin> set C" using once [of irp] m(1) by (auto simp: of_bool_def split: if_splits)
  moreover have "of_bool (ctl_armed m i) + of_bool (i \<in> set (irp # C)) + count_list (map fst (ctl_log m)) i = (of_bool (i \<in> set I) :: nat)" for i
    using once [of i] m calculation by auto
  ultimately have "own_inv (ctl_waiter (owner n)) I (irp # C) S m ws" using inv m(2) by (auto simp: own_inv_def)
  then show ?thesis using assms(1) m(2) by (simp add: run_inv_def)
qed

lemma off_list:
  assumes "own_inv U I C S m ws" "irp \<in> set I" "w \<in> set ws \<union> set S" "w \<noteq> ctl_waiter m irp"
  shows "ctl_request m w \<noteq> irp"
  using own_owns [OF assms(1,3)] assms(4) by auto

lemma cancel_runs_inv:
  assumes "run_inv n I C S ws" "irp \<in> set C"
  shows "run_inv (NotifyCancelRoutine irp n) I (remove1 irp C) S (remove1 (ctl_waiter (owner n) irp) ws)"
proof -
  define m where "m = owner n"
  define w where "w = ctl_waiter m irp"
  have inv: "nq_idle n ws" "own_inv (ctl_waiter m) I C S m ws" using assms(1) by (simp_all add: run_inv_def m_def)
  note once = own_once [OF inv(2)]
  have irp: "irp \<in> set I" "\<not> ctl_armed m irp" using once [of irp] assms(2) by (auto simp: of_bool_def split: if_splits)
  have w: "w \<noteq> waiters n" using assms(1) irp(1) unfolding run_inv_def m_def w_def by (metis imageI)
  obtain n' where c: "core_notify_cancel w n = (w \<in> set ws, n')" "nq_idle n' (remove1 w ws)" "owner n' = m" "nq_fixed n' = nq_fixed n"
    using cancel_implements [OF inv(1) w] m_def by blast
  let ?m = "ctl_complete irp STATUS_CANCELLED 0 m"
  have run: "NotifyCancelRoutine irp n = n'\<lparr>owner := ?m\<rparr>"
    using c(1,3) by (simp add: NotifyCancelRoutine_def Let_def w_def m_def)
  have d: "distinct ws" "distinct C" using inv(2) by (simp_all add: own_inv_def)
  have "of_bool (ctl_armed ?m i) + of_bool (i \<in> set (remove1 irp C)) + count_list (map fst (ctl_log ?m)) i = (of_bool (i \<in> set I) :: nat)" for i
    using once [of i] once [of irp] irp d(2) assms(2) by (auto simp: ctl_complete_def)
  moreover have "count_list (map fst (ctl_log ?m)) (ctl_request ?m v) = 0" if "v \<in> set (remove1 w ws)" for v
    using that d(1) off_list [OF inv(2) irp(1), of v] own_live [OF inv(2), of v] by (auto simp: ctl_complete_def w_def)
  moreover have "ctl_waiter ?m i \<in> set (remove1 w ws) \<union> set S" if "ctl_armed ?m i" for i
  proof -
    have a: "ctl_armed m i" "i \<noteq> irp" using that irp(2) by (auto simp: ctl_complete_def)
    then have "i \<in> set I" using once [of i] by (auto simp: of_bool_def split: if_splits)
    then have "ctl_waiter m i \<noteq> w" using own_inj [OF inv(2)] irp(1) a(2) by (auto simp: w_def dest: inj_onD)
    then show ?thesis using own_home [OF inv(2) a(1)] d(1) by (auto simp: ctl_complete_def)
  qed
  moreover have "\<exists>i\<in>set I. ctl_waiter ?m i = v \<and> ctl_request ?m v = i" if "v \<in> set (remove1 w ws) \<union> set S" for v
    using own_owns [OF inv(2), of v] that d(1) by (auto simp: ctl_complete_def)
  moreover have "set (remove1 w ws) \<inter> set S = {}" "distinct S" using inv(2) d(1) by (auto simp: own_inv_def)
  ultimately have "own_inv (ctl_waiter m) I (remove1 irp C) S ?m (remove1 w ws)"
    using own_inj [OF inv(2)] d by (auto simp: own_inv_def ctl_complete_def)
  moreover have "waiters n' = waiters n" "wdm.hooked n'" using c(4) assms(1) by (simp_all add: nq_fixed_def run_inv_def wdm.hooked_def)
  ultimately show ?thesis using run c(2) assms(1) by (simp add: run_inv_def m_def w_def ctl_complete_def)
qed

lemma picks_inv:
  assumes "run_inv n I C S ws" "pick_victim file n = Some (Some w, n')"
  shows "w \<in> set ws \<and> run_inv n' I C (w # S) (remove1 w ws)"
proof -
  have inv: "nq_idle n ws" "own_inv (ctl_waiter (owner n)) I C S (owner n) ws" using assms(1) by (simp_all add: run_inv_def)
  have f: "List.find (swept_by file (owner n)) ws = Some w" using pick_run [OF inv(1), of "file"] assms(2) by auto
  have p: "nq_idle n' (remove1 w ws)" "owner n' = owner n" "nq_fixed n' = nq_fixed n"
    using f pick_run [OF inv(1), of "file"] assms(2) by auto
  have w: "w \<in> set ws" using f by (auto simp: find_Some_iff)
  have "own_inv (ctl_waiter (owner n)) I C (w # S) (owner n) (remove1 w ws)" using inv(2) w by (auto simp: own_inv_def)
  moreover have "waiters n' = waiters n" "wdm.hooked n'" using p(3) assms(1) by (simp_all add: nq_fixed_def run_inv_def wdm.hooked_def)
  ultimately show ?thesis using w p(1,2) assms(1) by (simp add: run_inv_def)
qed

lemma finishes_inv:
  assumes "run_inv n I C S ws" "w \<in> set S"
  shows "run_inv (finish_victim w n) I C (remove1 w S) ws"
proof -
  have inv: "own_inv (ctl_waiter (owner n)) I C S (owner n) ws" using assms(1) by (simp add: run_inv_def)
  have d: "distinct ws" "distinct S" "w \<notin> set ws" using inv assms(2) by (auto simp: own_inv_def)
  have "own_inv (ctl_waiter (owner n)) I C (remove1 w S) (drop_waiter w (owner n)) ws"
    by (rule claimed_inv [OF inv _ refl, where st = STATUS_CANCELLED and k = 0])
      (use assms(2) d in \<open>auto simp: drop_parts\<close>)
  then show ?thesis using assms(1) by (simp add: finish_drop run_inv_def drop_parts)
qed

lemma reach_inv: "ctl_reach n I C S \<Longrightarrow> \<exists>ws. run_inv n I C S ws"
proof (induction rule: ctl_reach.induct)
  case (start n cx)
  then show ?case using init_inv by blast
next
  case (waits n I C S irp st n')
  then show ?case using wait_inv by fastforce
next
  case (posts n I C S type a1 a2 n')
  then show ?case using post_inv [of n I C S _ type a1 a2] by fastforce
next
  case (cancel_begins n I C S irp m)
  then show ?case using cancel_begins_inv by blast
next
  case (cancel_runs n I C S irp)
  then show ?case using cancel_runs_inv by blast
next
  case (picks n I C S sel w n')
  then show ?case using picks_inv by blast
next
  case (finishes n I C S w)
  then show ?case using finishes_inv by blast
next
  case (flushes n I C S n')
  then show ?case using flush_inv by fastforce
qed

section \<open>What holds of every run\<close>

text \<open>C4. In every run of the notification queue in which posts and flushes are not overlapped by the sections that take
  the queue's lock, which the code does not see to, each issued request has
  exactly one owner: it is armed, or its cancel routine is about to complete it, or it has been completed, once. A
  waiter on the list belongs to a request nobody has completed. When nothing is in progress and the list is empty
  every request has been completed.\<close>

theorem notify_exactly_once:
  assumes "ctl_reach n I C S"
  shows "(\<forall>irp. of_bool (ctl_armed (owner n) irp) + of_bool (irp \<in> set C) + count_list (map fst (ctl_log (owner n))) irp = (of_bool (irp \<in> set I) :: nat)) \<and>
    (\<exists>ws. nq_idle n ws \<and> (\<forall>w\<in>set ws. ctl_request (owner n) w \<in> set I \<and> ctl_request (owner n) w \<notin> fst ` set (ctl_log (owner n)))) \<and>
    (C = [] \<and> S = [] \<and> nw_empty (waiters n) (nq_links n) \<longrightarrow> (\<forall>irp\<in>set I. count_list (map fst (ctl_log (owner n))) irp = 1))"
proof (intro conjI impI)
  obtain ws where r: "run_inv n I C S ws" using reach_inv [OF assms] by blast
  then have inv: "nq_idle n ws" "own_inv (ctl_waiter (owner n)) I C S (owner n) ws" by (simp_all add: run_inv_def)
  note once = own_once [OF inv(2)]
  show "\<forall>irp. of_bool (ctl_armed (owner n) irp) + of_bool (irp \<in> set C) + count_list (map fst (ctl_log (owner n))) irp = (of_bool (irp \<in> set I) :: nat)"
    by (rule allI, rule once)
  show "\<exists>ws. nq_idle n ws \<and> (\<forall>w\<in>set ws. ctl_request (owner n) w \<in> set I \<and> ctl_request (owner n) w \<notin> fst ` set (ctl_log (owner n)))"
    using inv(1) own_owns [OF inv(2)] own_live [OF inv(2)] by (fastforce simp: count_list_0_iff)
  assume q: "C = [] \<and> S = [] \<and> nw_empty (waiters n) (nq_links n)"
  then have ws: "ws = []" using inv(1) by (auto simp: nq_idle_def nq_empty)
  show "\<forall>irp\<in>set I. count_list (map fst (ctl_log (owner n))) irp = 1"
  proof
    fix irp assume "irp \<in> set I"
    moreover have "\<not> ctl_armed (owner n) irp" using own_home [OF inv(2), of irp] q ws by auto
    ultimately show "count_list (map fst (ctl_log (owner n))) irp = 1" using once [of irp] q by simp
  qed
qed

text \<open>From every reachable state each call of the notification path returns: an event is posted, a request waits, the
  list is flushed, and a sweep ends.\<close>

theorem notify_calls_return:
  assumes "ctl_reach n I C S"
  shows "\<exists>n'. core_notify_post ntf_seams type a1 a2 n = Some n'"
    and "\<exists>n'. core_notify_flush ntf_seams n = Some n'"
    and "\<exists>n'. AdaptoidCancelNotifications sel n = Some n'"
    and "irp \<notin> set I \<and> ctl_waiter (owner n) irp \<notin> {0, waiters n} \<union> ctl_waiter (owner n) ` set I \<longrightarrow>
      (\<exists>n'. AdaptoidWaitNotification irp n = Some (STATUS_PENDING, n'))"
proof -
  obtain ws where r: "run_inv n I C S ws" using reach_inv [OF assms] by blast
  show "\<exists>n'. core_notify_post ntf_seams type a1 a2 n = Some n'" using post_inv [OF r] by blast
  show "\<exists>n'. core_notify_flush ntf_seams n = Some n'" using flush_inv [OF r] by blast
  show "\<exists>n'. AdaptoidCancelNotifications sel n = Some n'" using sweep_run r by (metis run_inv_def)
  show "irp \<notin> set I \<and> ctl_waiter (owner n) irp \<notin> {0, waiters n} \<union> ctl_waiter (owner n) ` set I \<longrightarrow>
      (\<exists>n'. AdaptoidWaitNotification irp n = Some (STATUS_PENDING, n'))" using wait_inv [OF r] by blast
qed

section \<open>A sweep as a whole\<close>

lemma fold_drop:
  "ctl_armed (fold drop_waiter vs m) i \<longleftrightarrow> ctl_armed m i \<and> i \<notin> ctl_request m ` set vs"
  "distinct (map (ctl_request m) vs) \<Longrightarrow>
    ctl_log (fold drop_waiter vs m) = ctl_log m @ map (\<lambda>i. (i, STATUS_CANCELLED, 0)) (filter (ctl_armed m) (map (ctl_request m) vs))"
proof (induction vs arbitrary: m)
  case (Cons v vs)
  { case 1 then show ?case using Cons.IH(1) [of "drop_waiter v m"] by (auto simp: drop_parts) }
  { case 2
    have "filter ((ctl_armed m)(ctl_request m v := False)) (map (ctl_request m) vs) = filter (ctl_armed m) (map (ctl_request m) vs)"
      using 2 by (intro filter_cong refl) (auto simp del: set_map)
    moreover have "distinct (map (ctl_request (drop_waiter v m)) vs)" using 2 by (simp add: drop_parts)
    note Cons.IH(2) [OF this]
    ultimately show ?case by (simp add: drop_parts del: filter.simps fun_upd_apply) simp }
qed simp_all

text \<open>C17. The sweep of a closing handle cancels exactly that handle's requests: those of the handle that are armed, and
  whose waiter no other sweep holds, are disarmed and completed as cancelled, each once; every other request stays
  as it is, and nothing else is completed. As in every property of these runs posts and flushes are not overlapped.\<close>

theorem cleanup_spares_others:
  assumes "ctl_reach n I C S"
  shows "\<exists>n' xs. AdaptoidCancelNotifications (Some f) n = Some n' \<and>
     set xs = {irp. ctl_armed (owner n) irp \<and> ctl_file (owner n) irp = f \<and> ctl_waiter (owner n) irp \<notin> set S} \<and> distinct xs \<and>
     ctl_log (owner n') = ctl_log (owner n) @ map (\<lambda>irp. (irp, STATUS_CANCELLED, 0)) xs \<and>
     (\<forall>irp. ctl_armed (owner n') irp \<longleftrightarrow> ctl_armed (owner n) irp \<and> irp \<notin> set xs)"
proof -
  define m where "m = owner n"
  obtain ws where r: "run_inv n I C S ws" using reach_inv [OF assms] by blast
  then have inv: "nq_idle n ws" "own_inv (ctl_waiter m) I C S m ws" by (simp_all add: run_inv_def m_def)
  let ?vs = "filter (swept_by (Some f) m) ws"
  from sweep_run [OF inv(1), of "Some f"] obtain n' where n': "AdaptoidCancelNotifications (Some f) n = Some n'"
    "owner n' = fold drop_waiter ?vs m" by (auto simp: m_def)
  have sw: "swept_by (Some f) m w \<longleftrightarrow> ctl_file m (ctl_request m w) = f" for w by (simp add: swept_by_def)
  have "inj_on (ctl_request m) (set ws)" using own_owns [OF inv(2)] by (metis UnCI inj_on_def)
  then have d: "distinct (map (ctl_request m) ?vs)" using inv(2) by (auto simp: distinct_map own_inv_def inj_on_def)
  have log: "ctl_log (owner n') = ctl_log m @ map (\<lambda>i. (i, STATUS_CANCELLED, 0)) (filter (ctl_armed m) (map (ctl_request m) ?vs))"
    unfolding n'(2) by (rule fold_drop(2) [OF d])
  have hit: "irp \<in> ctl_request m ` set ?vs \<longleftrightarrow> ctl_file m irp = f" if "ctl_armed m irp" "ctl_waiter m irp \<notin> set S" for irp
  proof -
    have w: "ctl_waiter m irp \<in> set ws" using own_home [OF inv(2) that(1)] that(2) by auto
    have "irp \<in> set I" using own_once [OF inv(2), of irp] that(1) by (auto simp: of_bool_def split: if_splits)
    then have q: "ctl_request m (ctl_waiter m irp) = irp"
      using own_owns [OF inv(2), of "ctl_waiter m irp"] w own_inj [OF inv(2)] by (auto dest: inj_onD)
    show ?thesis using w q by (auto simp: sw) (metis (mono_tags, lifting) image_eqI mem_Collect_eq q)
  qed
  have armed: "ctl_armed (owner n') irp \<longleftrightarrow> ctl_armed m irp \<and> irp \<notin> ctl_request m ` set ?vs" for irp
    unfolding n'(2) by (rule fold_drop(1))
  let ?xs = "filter (ctl_armed m) (map (ctl_request m) ?vs)"
  have off: "ctl_waiter m (ctl_request m w) \<notin> set S" if "w \<in> set ws" for w
    using own_owns [OF inv(2), of w] that inv(2) by (auto simp: own_inv_def)
  have "set ?xs = {irp. ctl_armed m irp \<and> ctl_file m irp = f \<and> ctl_waiter m irp \<notin> set S}"
    using hit off by (auto simp: sw)
  moreover have "distinct ?xs" using d by (rule distinct_filter)
  moreover have "ctl_armed (owner n') irp \<longleftrightarrow> ctl_armed m irp \<and> irp \<notin> set ?xs" for irp unfolding armed by auto
  ultimately show ?thesis using n'(1) log unfolding m_def by blast
qed

section \<open>A concrete run\<close>

text \<open>A queue with one request, 11, whose waiter is 12 and whose handle is 70.\<close>

definition one_owner :: ctl_irps where
  "one_owner = \<lparr>ctl_armed = (\<lambda>_. False), ctl_marked = (\<lambda>_. False), ctl_buffer = (\<lambda>_. None), ctl_file = (\<lambda>_. 70),
     ctl_waiter = (\<lambda>irp. irp + 1), ctl_request = (\<lambda>_. 0), ctl_log = []\<rparr>"

definition one_queue :: "ctl_irps core_notify" where
  "one_queue = AdaptoidNotifyInit 1 \<lparr>nq_events = [], nq_head = 7, nq_count = 7, nq_dropped = 0, waiters = 500,
     nq_links = \<lparr>flink = (\<lambda>_. 0), blink = (\<lambda>_. 0)\<rparr>, waiter_count = 7, delivering = True, nq_claim = 0, nq_deliver = 0,
     nq_abort = 0, nq_ctx = 0, owner = one_owner\<rparr>"

lemma one_start: "ctl_reach one_queue [] [] []"
  unfolding one_queue_def by (rule start) (simp_all add: one_owner_def)

lemma one_parked:
  obtains n where "AdaptoidWaitNotification 11 one_queue = Some (STATUS_PENDING, n)" "ctl_reach n [11] [] []"
    "ctl_armed (owner n) = (\<lambda>i. i = 11)" "ctl_log (owner n) = []" "ctl_file (owner n) = (\<lambda>_. 70)" "ctl_waiter (owner n) = (\<lambda>i. i + 1)"
    "ctl_request (owner n) 12 = 11" "waiters n = 500" "flink (nq_links n) 500 = 12" "flink (nq_links n) 12 = 500"
    "blink (nq_links n) 12 = 500" "waiter_count n = 1" "nq_count n = 0" "\<not> delivering n"
proof -
  obtain n where n: "AdaptoidWaitNotification 11 one_queue = Some (STATUS_PENDING, n)"
    "ctl_armed (owner n) = (\<lambda>i. i = 11)" "ctl_log (owner n) = []" "ctl_file (owner n) = (\<lambda>_. 70)" "ctl_waiter (owner n) = (\<lambda>i. i + 1)"
    "ctl_request (owner n) 12 = 11" "waiters n = 500" "flink (nq_links n) 500 = 12" "flink (nq_links n) 12 = 500"
    "blink (nq_links n) 12 = 500" "waiter_count n = 1" "nq_count n = 0" "\<not> delivering n"
    by (auto simp: AdaptoidWaitNotification_def one_queue_def one_owner_def AdaptoidNotifyInit_def core_notify_init_def
      core_notify_wait_def nw_init_def nw_append_def Let_def fun_eq_iff)
  have "ctl_reach n [11] [] []" using waits [OF one_start _ _ n(1)] by (simp add: one_queue_def AdaptoidNotifyInit_def core_notify_init_def one_owner_def)
  then show thesis using that n by blast
qed

lemma one_cancelled:
  obtains n where "ctl_reach n [11] [] []" "ctl_log (owner n) = [(11, STATUS_CANCELLED, 0)]" "nw_empty (waiters n) (nq_links n)"
proof -
  obtain n where n: "ctl_reach n [11] [] []" "ctl_armed (owner n) = (\<lambda>i. i = 11)" "ctl_log (owner n) = []"
    "ctl_waiter (owner n) = (\<lambda>i. i + 1)" "waiters n = 500" "flink (nq_links n) 500 = 12" "flink (nq_links n) 12 = 500"
    by (rule one_parked) blast
  obtain m where m: "ctl_claim_irp 11 (owner n) = (True, m)" "m = (owner n)\<lparr>ctl_armed := (ctl_armed (owner n))(11 := False)\<rparr>"
    using n(2) by (simp add: ctl_claim_irp_def)
  have r: "ctl_reach (NotifyCancelRoutine 11 (n\<lparr>owner := m\<rparr>)) [11] [] []"
    using cancel_runs [OF cancel_begins [OF n(1) m(1)], of 11] by simp
  have "blink (nq_links n) 12 = 500"
  proof -
    obtain ws where ws: "nq_idle n ws" using reach_inv [OF n(1)] by (auto simp: run_inv_def)
    then have "linked (nq_links n) 500 ws 500" using n(5) by (simp add: nq_idle_def nq_ok_def wait_ring_def)
    then show ?thesis using n(6,7) by (cases ws) (auto)
  qed
  then show thesis using that [OF r] n m(2)
    by (simp add: NotifyCancelRoutine_def core_notify_cancel_def nw_unlink_def nw_empty_def ctl_complete_def Let_def)
qed

theorem notify_exactly_once_witness:
  "\<exists>n. ctl_reach n [11] [] [] \<and> count_list (map fst (ctl_log (owner n))) 11 = 1"
proof -
  obtain n where n: "ctl_reach n [11] [] []" "nw_empty (waiters n) (nq_links n)" by (rule one_cancelled) blast
  from notify_exactly_once [OF n(1)] n show ?thesis by auto
qed

theorem notify_calls_return_witness: "\<exists>n. core_notify_flush ntf_seams one_queue = Some n"
  by (rule notify_calls_return(2) [OF one_start])

theorem cleanup_spares_others_witness:
  "\<exists>n n'. ctl_reach n [11] [] [] \<and> ctl_armed (owner n) 11 \<and> AdaptoidCancelNotifications (Some 70) n = Some n' \<and>
     ctl_log (owner n') = [(11, STATUS_CANCELLED, 0)] \<and> \<not> ctl_armed (owner n') 11"
proof -
  obtain n where n: "ctl_reach n [11] [] []" "ctl_armed (owner n) = (\<lambda>i. i = 11)" "ctl_log (owner n) = []" "ctl_file (owner n) = (\<lambda>_. 70)"
    by (rule one_parked) blast
  from cleanup_spares_others [OF n(1), of 70] obtain n' xs where r: "AdaptoidCancelNotifications (Some 70) n = Some n'"
    "set xs = {11}" "distinct xs" "ctl_log (owner n') = map (\<lambda>irp. (irp, STATUS_CANCELLED, 0)) xs"
    "\<forall>irp. ctl_armed (owner n') irp \<longleftrightarrow> ctl_armed (owner n) irp \<and> irp \<notin> set xs" using n(2-4) by auto
  have "length xs = 1" using distinct_card [OF r(3)] r(2) by simp
  then obtain x where "xs = [x]" by (auto simp: length_Suc_conv)
  with r n(1,2) show ?thesis by auto
qed

text \<open>C37. A sweep reads a request that is already completed: it unlinks the waiter under the lock and claims it outside, and
  the cancel routine may complete the request in between. The completed request is no longer the driver's.\<close>

theorem sweep_reads_completed:
  "\<exists>n w. ctl_reach n [11] [] [w] \<and> ctl_request (owner n) w = 11 \<and> ctl_log (owner n) = [(11, STATUS_CANCELLED, 0)]"
proof -
  obtain n where n: "ctl_reach n [11] [] []" "ctl_armed (owner n) = (\<lambda>i. i = 11)" "ctl_log (owner n) = []" "ctl_request (owner n) 12 = 11"
    "ctl_waiter (owner n) = (\<lambda>i. i + 1)" "waiters n = 500" "flink (nq_links n) 500 = 12" "flink (nq_links n) 12 = 500"
    by (rule one_parked) blast
  obtain m where m: "ctl_claim_irp 11 (owner n) = (True, m)" "m = (owner n)\<lparr>ctl_armed := (ctl_armed (owner n))(11 := False)\<rparr>"
    using n(2) by (simp add: ctl_claim_irp_def)
  have c: "ctl_reach (n\<lparr>owner := m\<rparr>) [11] [11] []" by (rule cancel_begins [OF n(1) m(1)])
  let ?n = "n\<lparr>owner := m\<rparr>"
  have v: "find_victim (\<lambda>w. True) (nq_links n) 500 12 = Some (Some 12)" by (simp add: find_victim.simps)
  obtain n2 where n2: "pick_victim None ?n = Some (Some 12, n2)" "owner n2 = m" "flink (nq_links n2) 12 = 0"
    using n(6-8) v by (simp add: pick_victim_def core_notify_cancel_def nw_unlink_def Let_def)
  have "ctl_reach (NotifyCancelRoutine 11 n2) [11] [] [12]"
    using cancel_runs [OF picks [OF c n2(1)], of 11] by simp
  moreover have "owner (NotifyCancelRoutine 11 n2) = ctl_complete 11 STATUS_CANCELLED 0 m"
    using n2(2,3) m(2) n(5) by (simp add: NotifyCancelRoutine_def core_notify_cancel_def Let_def)
  ultimately show ?thesis using m(2) n(3,4) by (intro exI) (auto simp: ctl_complete_def)
qed

section \<open>Without the lock\<close>

text \<open>A post as its callers run it, with no lock: the event is entered and the loop starts, it reads the front waiter, and it
  unlinks what it has read; \<open>P\<close> are the waiters it has read and not unlinked. Cancel routines run in between.\<close>

definition post_entry :: "u32 \<Rightarrow> u32 \<Rightarrow> u32 \<Rightarrow> 'o core_notify \<Rightarrow> 'o core_notify" where
  "post_entry type a1 a2 n =
     (let n = (if nq_count n \<ge> 100 then
                 n\<lparr>nq_head := (nq_head n + 1) smod 100, nq_count := nq_count n - 1, nq_dropped := nq_dropped n + 1\<rparr>
               else n);
          slot = (nq_head n + nq_count n) smod 100
      in n\<lparr>nq_events := (nq_events n)[nat slot := \<lparr>ev_type = type, arg1 = a1, arg2 = a2\<rparr>], nq_count := nq_count n + 1\<rparr>)"

lemma post_parts:
  "core_notify_post N type a1 a2 n =
     (let n = post_entry type a1 a2 n
      in if \<not> nw_empty (waiters n) (nq_links n) \<and> \<not> delivering n then notify_pump N (n\<lparr>delivering := True\<rparr>) else Some n)"
  by (simp add: core_notify_post_def post_entry_def Let_def)

inductive loose_reach :: "ctl_irps core_notify \<Rightarrow> ptr list \<Rightarrow> ptr list \<Rightarrow> ptr list \<Rightarrow> bool" where
  serial: "ctl_reach n I C [] \<Longrightarrow> loose_reach n I C []"
| loop: "loose_reach n I C P \<Longrightarrow> post_entry type a1 a2 n = n' \<Longrightarrow> \<not> nw_empty (waiters n') (nq_links n') \<Longrightarrow> \<not> delivering n' \<Longrightarrow>
    loose_reach (n'\<lparr>delivering := True\<rparr>) I C P"
| peeks: "loose_reach n I C P \<Longrightarrow> delivering n \<Longrightarrow> nq_count n > 0 \<Longrightarrow> \<not> nw_empty (waiters n) (nq_links n) \<Longrightarrow>
    loose_reach n I C (flink (nq_links n) (waiters n) # P)"
| takes: "loose_reach n I C P \<Longrightarrow> w \<in> set P \<Longrightarrow>
    loose_reach (n\<lparr>nq_links := nw_unlink w (nq_links n), waiter_count := waiter_count n - 1\<rparr>) I C (remove1 w P)"
| loose_begins: "loose_reach n I C P \<Longrightarrow> ctl_claim_irp irp (owner n) = (True, m) \<Longrightarrow> loose_reach (n\<lparr>owner := m\<rparr>) I (irp # C) P"
| loose_runs: "loose_reach n I C P \<Longrightarrow> irp \<in> set C \<Longrightarrow> loose_reach (NotifyCancelRoutine irp n) I (remove1 irp C) P"

text \<open>A request that is cancelled while a post has read its waiter is unlinked twice: the second time its links are null,
  null is written through, and the count of the waiters falls below 0.\<close>

theorem post_unlinks_twice:
  "\<exists>n. loose_reach n [11] [] [] \<and> ctl_log (owner n) = [(11, STATUS_CANCELLED, 0)] \<and> waiter_count n = - 1"
proof -
  obtain n where n: "ctl_reach n [11] [] []" "ctl_armed (owner n) = (\<lambda>i. i = 11)" "ctl_log (owner n) = []"
    "ctl_waiter (owner n) = (\<lambda>i. i + 1)" "waiters n = 500" "flink (nq_links n) 500 = 12" "flink (nq_links n) 12 = 500"
    "waiter_count n = 1" "nq_count n = 0" "\<not> delivering n"
    by (rule one_parked) blast
  define p where "p = post_entry 7 0 0 n"
  have p: "waiters p = 500" "nq_links p = nq_links n" "owner p = owner n" "waiter_count p = 1" "nq_count p = 1" "\<not> delivering p"
    using n by (simp_all add: p_def post_entry_def)
  let ?q = "p\<lparr>delivering := True\<rparr>"
  have "loose_reach ?q [11] [] []"
    by (rule loop [OF serial [OF n(1)] p_def [symmetric]]) (use p n(6) in \<open>simp_all add: nw_empty_def\<close>)
  then have q: "loose_reach ?q [11] [] [12]" using peeks [of ?q "[11]" "[]" "[]"] p n(6) by (simp add: nw_empty_def)
  obtain m where m: "ctl_claim_irp 11 (owner ?q) = (True, m)" "m = (owner n)\<lparr>ctl_armed := (ctl_armed (owner n))(11 := False)\<rparr>"
    using n(2) p(3) by (simp add: ctl_claim_irp_def)
  let ?c = "NotifyCancelRoutine 11 (?q\<lparr>owner := m\<rparr>)"
  have c: "loose_reach ?c [11] [] [12]" using loose_runs [OF loose_begins [OF q m(1)], of 11] by simp
  have "waiter_count ?c = 0" "ctl_log (owner ?c) = [(11, STATUS_CANCELLED, 0)]"
    using p n(3,4,7) m(2) by (simp_all add: NotifyCancelRoutine_def core_notify_cancel_def ctl_complete_def Let_def)
  then show ?thesis using takes [OF c, of 12] by (intro exI) (auto intro!: conjI)
qed

section \<open>The life of the device object\<close>

text \<open>\<open>A\<close> adapters hold the object, \<open>H\<close> handles are open on it. Between these calls every other request may change the
  registry and the channel in any way.\<close>

inductive ctl_life :: "'w control \<Rightarrow> nat \<Rightarrow> nat \<Rightarrow> bool" where
  load: "\<not> cdo_present g \<Longrightarrow> g_ControlRefCount g = 0 \<Longrightarrow> ctl_life g 0 0"
| works: "ctl_life g A H \<Longrightarrow> ctl_life (g\<lparr>cdo := (cdo g)\<lparr>Registry := reg, Channel := ch\<rparr>\<rparr>) A H"
| arrive: "ctl_life g A H \<Longrightarrow> A < 2 ^ 30 \<Longrightarrow> AdaptoidCreateControlDevice dev_st link_st g = (st, g') \<Longrightarrow>
    ctl_life g' (if NT_SUCCESS st then A + 1 else A) H"
| leave: "ctl_life g A H \<Longrightarrow> A > 0 \<Longrightarrow> AdaptoidReleaseControlDevice g = Some g' \<Longrightarrow> ctl_life g' (A - 1) H"
| open_handle: "ctl_life g A H \<Longrightarrow> cdo_present g \<Longrightarrow> H < 2 ^ 30 \<Longrightarrow> AdaptoidControlCreate irp (cdo g) = (st, cx) \<Longrightarrow>
    ctl_life (g\<lparr>cdo := cx\<rparr>) A (if NT_SUCCESS st then H + 1 else H)"
| close_handle: "ctl_life g A H \<Longrightarrow> H > 0 \<Longrightarrow> AdaptoidControlClose irp g = Some (st, g') \<Longrightarrow> ctl_life g' A (H - 1)"

lemma map_notify_count [simp]: "OpenCount (map_notify f cx) = OpenCount cx" "OpenCount (ctl_answer irp st k cx) = OpenCount cx"
  by (simp_all add: map_notify_def ctl_answer_def)

lemma maybe_delete:
  assumes "AdaptoidControlMaybeDelete g = Some g'"
  shows "g_ControlRefCount g' = g_ControlRefCount g" "OpenCount (cdo g') = OpenCount (cdo g)"
    "cdo_present g' \<longleftrightarrow> cdo_present g \<and> \<not> (g_ControlRefCount g = 0 \<and> OpenCount (cdo g) = 0)"
  using assms by (auto simp: AdaptoidControlMaybeDelete_def split: if_splits Option.bind_splits)

lemma to_s32_small: "- (2 ^ 31) \<le> x \<Longrightarrow> x < 2 ^ 31 \<Longrightarrow> to_s32 x = x"
  by (simp add: c_arith is_s32_def)

lemma create_status: "NT_SUCCESS STATUS_SUCCESS" "\<not> NT_SUCCESS STATUS_DELETE_PENDING"
  by code_simp+

text \<open>C16. The control device object exists exactly while an adapter or an open handle needs it; its two counts are those
  of the adapters and of the handles, so it is deleted by whichever of them leaves last.\<close>

theorem control_device_lives:
  assumes "ctl_life g A H"
  shows "g_ControlRefCount g = int A \<and> (cdo_present g \<longleftrightarrow> A > 0 \<or> H > 0) \<and> (cdo_present g \<longrightarrow> OpenCount (cdo g) = int H)"
proof -
  have "g_ControlRefCount g = int A \<and> (cdo_present g \<longleftrightarrow> A > 0 \<or> H > 0) \<and> (cdo_present g \<longrightarrow> OpenCount (cdo g) = int H) \<and>
      A \<le> 2 ^ 30 \<and> H \<le> 2 ^ 30"
    using assms
  proof (induction rule: ctl_life.induct)
    case (arrive g A H dev_st link_st st g')
    then show ?case by (auto simp: AdaptoidCreateControlDevice_def Let_def to_s32_small split: if_splits)
  next
    case (leave g A H g')
    then have "AdaptoidControlMaybeDelete (g\<lparr>g_ControlRefCount := int (A - 1)\<rparr>) = Some g'"
      by (simp add: AdaptoidReleaseControlDevice_def to_s32_small of_nat_diff)
    from maybe_delete [OF this] leave show ?case by auto
  next
    case (open_handle g A H irp st cx)
    then show ?case by (auto simp: AdaptoidControlCreate_def Let_def to_s32_small create_status split: if_splits)
  next
    case (close_handle g A H irp st g')
    then obtain n g1 where g1: "AdaptoidControlMaybeDelete (g\<lparr>cdo := (map_notify (\<lambda>_. n) (cdo g))\<lparr>OpenCount := int (H - 1)\<rparr>\<rparr>) = Some g1"
      "g' = g1\<lparr>cdo := ctl_answer irp STATUS_SUCCESS 0 (cdo g1)\<rparr>"
      by (auto simp: AdaptoidControlClose_def to_s32_small of_nat_diff Let_def split: Option.bind_splits)
    from maybe_delete [OF g1(1)] g1(2) close_handle show ?case by auto
  qed auto
  then show ?thesis by blast
qed

definition one_registry :: "s32 \<Rightarrow> (unit, ctl_irps) core_registry" where
  "one_registry n = \<lparr>devices = [], entry = (\<lambda>_. \<lparr>handle = 0, dev_cs = None, dev_sched = None, live = False, needs_resubmit = False,
     dev_vendor = 0, dev_enable = 0, cmd_claim = 0, cmd_xfer = 0, os_ctx = 0\<rparr>), dev_count = 0, live_count = n, generation = 0,
     reg_button_map = [], reg_reports_enabled = False, notify = one_queue\<rparr>"

definition one_control :: "unit control" where
  "one_control = \<lparr>cdo = \<lparr>Registry = one_registry 0, Channel = \<lparr>block = [], swap_bytes = False\<rparr>, OpenCount = 9\<rparr>,
     cdo_present = False, g_ControlRefCount = 0\<rparr>"

text \<open>An adapter arrives, a client opens the device, and the adapter leaves: the object stays.\<close>

lemma one_life:
  obtains g :: "unit control" where "ctl_life g 0 1" "g_ControlRefCount g = 0"
proof -
  obtain g1 where g1: "AdaptoidCreateControlDevice STATUS_SUCCESS STATUS_SUCCESS one_control = (STATUS_SUCCESS, g1)"
    "cdo_present g1" "OpenCount (cdo g1) = 0" "g_ControlRefCount g1 = 1"
    by (simp add: AdaptoidCreateControlDevice_def one_control_def create_status to_s32_small Let_def map_notify_def)
  have "ctl_life one_control 0 0" by (rule load) (simp_all add: one_control_def)
  from arrive [OF this _ g1(1)] have a: "ctl_life g1 1 0" by (simp add: create_status)
  let ?g2 = "g1\<lparr>cdo := (cdo g1)\<lparr>Registry := one_registry 1, Channel := Channel (cdo g1)\<rparr>\<rparr>"
  obtain cx where cx: "AdaptoidControlCreate 11 (cdo ?g2) = (STATUS_SUCCESS, cx)" "OpenCount cx = 1"
    using g1(3) by (simp add: AdaptoidControlCreate_def one_registry_def Let_def to_s32_small)
  have o: "ctl_life (?g2\<lparr>cdo := cx\<rparr>) 1 1" using open_handle [OF works [OF a] _ _ cx(1)] g1(2) by (simp add: create_status)
  obtain g3 where g3: "AdaptoidReleaseControlDevice (?g2\<lparr>cdo := cx\<rparr>) = Some g3" "g_ControlRefCount g3 = 0"
    using g1(4) cx(2) by (simp add: AdaptoidReleaseControlDevice_def AdaptoidControlMaybeDelete_def to_s32_small)
  from leave [OF o _ g3(1)] g3(2) that show thesis by simp
qed

theorem control_device_lives_witness: "\<exists>g :: unit control. ctl_life g 0 1 \<and> cdo_present g \<and> OpenCount (cdo g) = 1"
proof -
  obtain g :: "unit control" where g: "ctl_life g 0 1" by (rule one_life) blast
  from control_device_lives [OF this] g show ?thesis by auto
qed

section \<open>A wait with no adapter\<close>

text \<open>With no live adapter the dispatcher refuses a request to wait for an event, but the driver's dispatch routine parks
  that request before it asks the dispatcher, so it is never refused.\<close>

theorem wait_not_gated:
  assumes "ctl_reach (notify (Registry cx)) I C S" "irp \<notin> set I" "live_count (Registry cx) = 0"
    and "ctl_waiter (owner (notify (Registry cx))) irp \<notin>
      {0, waiters (notify (Registry cx))} \<union> ctl_waiter (owner (notify (Registry cx))) ` set I"
  shows "core_ctl_dispatch J ntf_seams (Some w) now (Registry cx) \<lparr>ioc_code = 0xB98C2060, ioc_in = [], ioc_out = replicate 12 0\<rparr> =
      Some (STATUS_DELETE_PENDING, 0, replicate 12 0, Registry cx)"
    and "\<exists>cx'. AdaptoidControlIoctl J now irp 0xB98C2060 0 12 cx = Some (STATUS_PENDING, cx') \<and>
      ctl_reach (notify (Registry cx')) (irp # I) C S"
proof -
  have fn: "core_ioctl_fn 0xB98C2060 = 0x818" "(0xB98C2060 :: u32) AND 0xFFFF0000 = 0xB98C0000" by code_simp+
  show "core_ctl_dispatch J ntf_seams (Some w) now (Registry cx) \<lparr>ioc_code = 0xB98C2060, ioc_in = [], ioc_out = replicate 12 0\<rparr> =
      Some (STATUS_DELETE_PENDING, 0, replicate 12 0, Registry cx)"
    using assms(3) by (simp add: core_ctl_dispatch_def fn ctl_wait_def ctl_refuse_def in_len_def out_len_def STATUS_DELETE_PENDING_def)
  obtain ws where r: "run_inv (notify (Registry cx)) I C S ws" using reach_inv [OF assms(1)] by blast
  from wait_inv [OF r assms(2,4)] obtain n' where n': "AdaptoidWaitNotification irp (notify (Registry cx)) = Some (STATUS_PENDING, n')" by blast
  from waits [OF assms(1,2,4) n'] show "\<exists>cx'. AdaptoidControlIoctl J now irp 0xB98C2060 0 12 cx = Some (STATUS_PENDING, cx') \<and>
      ctl_reach (notify (Registry cx')) (irp # I) C S"
    using n' by (simp add: AdaptoidControlIoctl_def fn map_notify_def)
qed

theorem wait_not_gated_witness:
  "\<forall>J. \<exists>cx' :: unit ctl_ext. AdaptoidControlIoctl J 0 11 0xB98C2060 0 12 (cdo one_control) = Some (STATUS_PENDING, cx') \<and>
     ctl_reach (notify (Registry cx')) [11] [] []"
proof (intro allI wait_not_gated(2))
  show "ctl_reach (notify (Registry (cdo one_control))) [] [] []" using one_start by (simp add: one_control_def one_registry_def)
qed (simp_all add: one_control_def one_registry_def one_queue_def AdaptoidNotifyInit_def core_notify_init_def one_owner_def)

end
