(* ===== verification/Poll_Engine.thy ===== *)
theory Poll_Engine
  imports Vendor_Slot
begin

text \<open>
  The polling engine of \<open>src_drv/wdm.c\<close>: two interrupt reads kept in flight, their completion, the stop with its
  cancellation, and the recovery of the port that runs when a read has failed.

  The code between two spin-locked sections is open to other processors, so a section is a definition of its own
  and a routine is composed of them. \<open>fly\<close> is what a submission meets: the URB and the IRP the allocators
  return (0 for none) and the status of \<open>IoCallDriver\<close>.
\<close>

section \<open>A read\<close>

record fly =
  fly_pipe :: bool
  fly_urb :: ptr
  fly_irp :: ptr
  fly_status :: ntstatus

text \<open>Whether the read was handed to the bus, the status and the extension.\<close>

definition AdaptoidPollSubmit :: "fly \<Rightarrow> nat \<Rightarrow> shell \<Rightarrow> bool \<times> ntstatus \<times> shell" where
  "AdaptoidPollSubmit f i dx =
     (if i \<ge> 2 \<or> \<not> fly_pipe f then (False, STATUS_INVALID_PARAMETER, dx)
      else if fly_urb f = 0 then (False, STATUS_INSUFFICIENT_RESOURCES, dx)
      else if fly_irp f = 0 then (False, STATUS_INSUFFICIENT_RESOURCES, dx)
      else (True, fly_status f,
        dx\<lparr>PollSlots := (PollSlots dx)[i := (PollSlots dx ! i)\<lparr>PollUrb := fly_urb f, PollIrp := fly_irp f\<rparr>]\<rparr>))"

definition AdaptoidFreePollIrp :: "ptr \<Rightarrow> ptr \<Rightarrow> shell \<Rightarrow> shell" where
  "AdaptoidFreePollIrp irp urb dx = dx\<lparr>freed_polls := freed_polls dx @ [(irp, urb)]\<rparr>"

section \<open>Starting\<close>

text \<open>The locked section of \<open>AdaptoidPollStart\<close>: which slots are to be submitted.\<close>

definition poll_start_locked :: "u32 \<Rightarrow> shell \<Rightarrow> bool list \<times> shell" where
  "poll_start_locked reason dx =
     (let dx = dx\<lparr>PollStopMask := PollStopMask dx AND NOT reason\<rparr>
      in if PollStopMask dx = 0 then
           (map (\<lambda>p. \<not> PollActive p) (PollSlots dx), dx\<lparr>PollSlots := map (\<lambda>p. p\<lparr>PollActive := True\<rparr>) (PollSlots dx)\<rparr>)
         else (map (\<lambda>_. False) (PollSlots dx), dx))"

definition AdaptoidPollStart :: "(nat \<Rightarrow> fly) \<Rightarrow> u32 \<Rightarrow> shell \<Rightarrow> shell" where
  "AdaptoidPollStart F reason dx =
     (let (submit, dx) = poll_start_locked reason dx
      in fold (\<lambda>i dx. if submit ! i then snd (snd (AdaptoidPollSubmit (F i) i dx)) else dx) [0, 1] dx)"

section \<open>Stopping\<close>

definition latch_one :: "poll_slot \<Rightarrow> (ptr \<times> ptr) \<times> poll_slot" where
  "latch_one p = (if PollActive p \<and> \<not> CancelLatch p then ((PollIrp p, PollUrb p), p\<lparr>CancelLatch := True\<rparr>) else ((0, 0), p))"

text \<open>The first section: \<open>slot\<close> is the one that is completing, 2 for none. The results are whether it was the last, and
  what is to be cancelled in each slot.\<close>

definition stop_latch :: "u32 \<Rightarrow> nat \<Rightarrow> shell \<Rightarrow> bool \<times> (ptr \<times> ptr) list \<times> shell" where
  "stop_latch reason slot dx =
     (let dx = dx\<lparr>PollStopMask := PollStopMask dx OR reason\<rparr>;
          (last, dx) =
            (if slot < 2 then
               (PollIrp (PollSlots dx ! (1 - slot)) = 0,
                dx\<lparr>PollSlots := (PollSlots dx)[slot := (PollSlots dx ! slot)\<lparr>PollActive := False\<rparr>]\<rparr>)
             else (False, dx))
      in (last, map (fst \<circ> latch_one) (PollSlots dx), dx\<lparr>PollSlots := map (snd \<circ> latch_one) (PollSlots dx)\<rparr>))"

definition any_cancel :: "(ptr \<times> ptr) list \<Rightarrow> bool" where
  "any_cancel cancel \<longleftrightarrow> (\<exists>c\<in>set cancel. fst c \<noteq> 0)"

text \<open>The second section, and what is freed after it.\<close>

definition settle_one :: "ptr \<times> ptr \<Rightarrow> poll_slot \<Rightarrow> (ptr \<times> ptr) \<times> poll_slot" where
  "settle_one c p = (if fst c \<noteq> 0 \<and> CancelLatch p then ((0, snd c), p\<lparr>CancelLatch := False\<rparr>) else (c, p))"

definition stop_settle :: "(ptr \<times> ptr) list \<Rightarrow> shell \<Rightarrow> (ptr \<times> ptr) list \<times> shell" where
  "stop_settle cancel dx =
     (map2 (\<lambda>c p. fst (settle_one c p)) cancel (PollSlots dx),
      dx\<lparr>PollSlots := map2 (\<lambda>c p. snd (settle_one c p)) cancel (PollSlots dx)\<rparr>)"

definition stop_free :: "(ptr \<times> ptr) list \<Rightarrow> shell \<Rightarrow> shell" where
  "stop_free cancel dx = fold (\<lambda>c dx. if fst c \<noteq> 0 then AdaptoidFreePollIrp (fst c) (snd c) dx else dx) cancel dx"

text \<open>The whole routine; \<open>mid\<close> is what happens between the sections, the completions of the reads cancelled included.\<close>

definition AdaptoidPollStop :: "((ptr \<times> ptr) list \<Rightarrow> shell \<Rightarrow> shell) \<Rightarrow> u32 \<Rightarrow> nat \<Rightarrow> shell \<Rightarrow> bool \<times> shell" where
  "AdaptoidPollStop mid reason slot dx =
     (let (last, cancel, dx) = stop_latch reason slot dx
      in if \<not> any_cancel cancel then (last, dx)
         else
           let (cancel, dx) = stop_settle cancel (mid cancel dx)
           in (last, stop_free cancel dx))"

section \<open>A read completed\<close>

definition poll_taken :: "nat \<Rightarrow> shell \<Rightarrow> bool \<times> u32 \<times> shell" where
  "poll_taken slot dx =
     (let p = PollSlots dx ! slot;
          dx' = dx\<lparr>PollSlots := (PollSlots dx)[slot := p\<lparr>PollIrp := 0, PollUrb := 0, CancelLatch := False\<rparr>]\<rparr>
      in (\<not> CancelLatch p, PollStopMask dx, dx'))"

text \<open>The first section with the freeing after it: what it read of the stop mask, and the extension.\<close>

definition poll_take :: "nat \<Rightarrow> shell \<Rightarrow> u32 \<times> shell" where
  "poll_take slot dx =
     (let p = PollSlots dx ! slot;
          (owns, mask, dx) = poll_taken slot dx
      in (mask, if owns then AdaptoidFreePollIrp (PollIrp p) (PollUrb p) dx else dx))"

definition poll_failed :: "ntstatus \<Rightarrow> u32 \<Rightarrow> bool" where
  "poll_failed st len \<longleftrightarrow> \<not> NT_SUCCESS st \<or> len \<noteq> 5"

text \<open>The end of the failing path: whether the restart is queued, under a reference of the remove lock.\<close>

definition queue_restart :: "shell \<Rightarrow> bool \<times> shell" where
  "queue_restart dx =
     (let (st, dx) = acquire_B dx
      in if NT_SUCCESS st then (True, dx\<lparr>PollRestartPending := True\<rparr>) else (False, dx))"

definition AdaptoidPollComplete ::
    "shell seams \<Rightarrow> fly \<Rightarrow> ((ptr \<times> ptr) list \<Rightarrow> shell \<Rightarrow> shell) \<Rightarrow> nat \<Rightarrow> ntstatus \<Rightarrow> u32 \<Rightarrow> shell core_state \<Rightarrow>
       bool \<times> shell core_state" where
  "AdaptoidPollComplete S f mid slot st len cs =
     (if slot \<ge> 2 then (False, cs)
      else
        let failed = poll_failed st len;
            (mask, dx) = poll_take slot (world cs);
            cs = cs\<lparr>world := dx\<rparr>
        in if mask = 0 \<and> \<not> failed then
             let cs = core_on_raw_packet S (PollBuffer (PollSlots (world cs) ! slot)) cs;
                 cs = core_tick S (interrupt_time (world cs)) cs;
                 (_, _, dx) = AdaptoidPollSubmit f slot (world cs)
             in (False, cs\<lparr>world := dx\<rparr>)
           else
             let (last, dx) = AdaptoidPollStop mid (if failed then 1 else 0) slot (world cs);
                 (queued, dx) = (if last \<and> failed then queue_restart dx else (False, dx))
             in (queued, cs\<lparr>world := dx\<rparr>))"

section \<open>The recovery of the port\<close>

text \<open>What the bus answers: to the port status, with the status itself, and to a reset.\<close>

type_synonym port_answer = "ntstatus \<times> u32 \<times> ntstatus"

abbreviation (input) GAVE_UP :: ntstatus where "GAVE_UP \<equiv> 0xC0012345"

text \<open>The status, and whether the port was cycled.\<close>

definition AdaptoidRecoverPort :: "port_answer \<Rightarrow> ntstatus \<times> bool" where
  "AdaptoidRecoverPort = (\<lambda>(st, status, reset).
     if NT_SUCCESS st \<and> status AND 1 = 0 \<and> status AND 2 \<noteq> 0 then (reset, False) else (GAVE_UP, True))"

text \<open>The ladder, with the tries left: whether a restart is still pending, the last status, how often the port was
  cycled, and the extension.\<close>

primrec recover_ladder ::
    "nat \<Rightarrow> (nat \<Rightarrow> port_answer) \<Rightarrow> (nat \<Rightarrow> fly) \<Rightarrow> bool \<Rightarrow> ntstatus \<Rightarrow> nat \<Rightarrow> shell \<Rightarrow> bool \<times> ntstatus \<times> nat \<times> shell" where
  "recover_ladder 0 A F again st cycles dx = (again, st, cycles, dx)"
| "recover_ladder (Suc tries) A F again st cycles dx =
     (if again \<and> st \<noteq> GAVE_UP then
        let (st, cycled) = AdaptoidRecoverPort (A tries);
            cycles = (if cycled then cycles + 1 else cycles);
            (again, dx) = (if NT_SUCCESS st then (False, AdaptoidPollStart F 1 dx) else (again, dx))
        in recover_ladder tries A F again st cycles dx
      else (again, st, cycles, dx))"

definition AdaptoidPollRestartWorker :: "(nat \<Rightarrow> port_answer) \<Rightarrow> (nat \<Rightarrow> fly) \<Rightarrow> shell \<Rightarrow> nat \<times> shell" where
  "AdaptoidPollRestartWorker A F dx =
     (let again = PollRestartPending dx;
          (again, st, cycles, dx) = recover_ladder 3 A F again STATUS_SUCCESS 0 (dx\<lparr>PollRestartPending := False\<rparr>);
          cycles = (if again \<and> st \<noteq> GAVE_UP then cycles + 1 else cycles)
      in (cycles, release_B dx))"

end
