(* ===== verification/Poll_Facts.thy ===== *)
theory Poll_Facts
  imports Poll_Engine "HOL-Library.Multiset"
begin

text \<open>
  What holds of the polling engine: the recovery ladder; the runs of its sections on several processors as an
  inductive relation, in which every read is freed exactly once as long as completions, stops and starts do not meet.
\<close>

section \<open>The ladder\<close>

datatype port_verdict = Back | Again | Gone

definition verdict :: "port_answer \<Rightarrow> port_verdict" where
  "verdict = (\<lambda>(st, status, reset).
     if \<not> (NT_SUCCESS st \<and> status AND 1 = 0 \<and> status AND 2 \<noteq> 0) then Gone else if NT_SUCCESS reset then Back else Again)"

lemma gave_up_fails: "\<not> NT_SUCCESS GAVE_UP"
  by code_simp

lemma recover_verdict:
  assumes "snd (snd a) \<noteq> GAVE_UP"
  shows "verdict a = Gone \<Longrightarrow> AdaptoidRecoverPort a = (GAVE_UP, True)"
    "verdict a \<noteq> Gone \<Longrightarrow> AdaptoidRecoverPort a = (snd (snd a), False)"
    "verdict a = Back \<Longrightarrow> NT_SUCCESS (snd (snd a))"
    "verdict a = Again \<Longrightarrow> \<not> NT_SUCCESS (snd (snd a))"
  by (auto simp: verdict_def AdaptoidRecoverPort_def split: prod.splits if_splits)

lemma ladder_step:
  assumes "\<And>k. snd (snd (A k)) \<noteq> GAVE_UP" "st \<noteq> GAVE_UP"
  shows "recover_ladder (Suc k) A F True st 0 dx = (case verdict (A k) of
     Back \<Rightarrow> (False, snd (snd (A k)), 0, AdaptoidPollStart F 1 dx)
   | Gone \<Rightarrow> (True, GAVE_UP, 1, dx)
   | Again \<Rightarrow> recover_ladder k A F True (snd (snd (A k))) 0 dx)"
proof (cases "verdict (A k)")
  case Back
  then show ?thesis using recover_verdict [OF assms(1) [of k]] assms by (cases k) simp_all
next
  case Again
  then show ?thesis using recover_verdict [OF assms(1) [of k]] assms by simp
next
  case Gone
  then show ?thesis using recover_verdict [OF assms(1) [of k]] assms gave_up_fails by (cases k) simp_all
qed

text \<open>C19. The recovery of a failed port tries at most three resets. The first that succeeds starts polling again and leaves
  the port alone; a port that is past recovering, or three failed resets, end in exactly one cycle of the port and
  no start. The reference of the remove lock is given back once in every case.\<close>

theorem restart_ladder:
  assumes "\<And>k. snd (snd (A k)) \<noteq> GAVE_UP"
  shows "AdaptoidPollRestartWorker A F dx =
    (let dx' = dx\<lparr>PollRestartPending := False\<rparr>
     in if \<not> PollRestartPending dx then (0, release_B dx')
        else case List.find (\<lambda>k. verdict (A k) \<noteq> Again) [2, 1, 0] of
          None \<Rightarrow> (1, release_B dx')
        | Some k \<Rightarrow> if verdict (A k) = Back then (0, release_B (AdaptoidPollStart F 1 dx')) else (1, release_B dx'))"
proof (cases "PollRestartPending dx")
  case True
  have ok: "(STATUS_SUCCESS :: ntstatus) \<noteq> GAVE_UP" by (simp add: STATUS_SUCCESS_def)
  have three: "(3::nat) = Suc (Suc (Suc 0))" by simp
  show ?thesis
    unfolding AdaptoidPollRestartWorker_def three using True
    by (cases "verdict (A 2)"; cases "verdict (A 1)"; cases "verdict (A 0)")
      (simp_all add: ladder_step [OF assms ok] ladder_step [OF assms assms] assms Let_def numeral_2_eq_2 del: recover_ladder.simps(2))
next
  case False
  then show ?thesis by (simp add: AdaptoidPollRestartWorker_def Let_def numeral_3_eq_3)
qed

theorem restart_ladder_witness:
  "fst (AdaptoidPollRestartWorker (\<lambda>k. (0, 2, if k = 1 then 0 else 0xC0000001)) (\<lambda>i. \<lparr>fly_pipe = True, fly_urb = 1, fly_irp = 2, fly_status = 0\<rparr>)
     (zeroed_ext\<lparr>PollRestartPending := True\<rparr>)) = 0"
proof -
  have a: "snd (snd ((\<lambda>k :: nat. (0, 2, if k = 1 then 0 else 0xC0000001) :: port_answer) k)) \<noteq> GAVE_UP" for k by simp
  have "verdict (0, 2, 0xC0000001) = Again" "verdict (0, 2, 0) = Back" by code_simp+
  then show ?thesis by (subst restart_ladder [OF a]) (simp add: Let_def)
qed

section \<open>Runs on several processors\<close>

text \<open>Where everybody stands between two sections: \<open>flying\<close> are the reads the bus has, \<open>todo\<close> the slots marked active and
  not yet submitted, \<open>tails\<close> the completions that have taken their read and are on their way to the stop, with whether
  the read failed, \<open>stops\<close> the stops that have latched and not settled, with whether they queue a restart. \<open>handed\<close>
  are all the reads the bus was ever given, \<open>restarts\<close> how often the restart was queued.\<close>

record poll_run =
  dev :: shell
  flying :: "(nat \<times> ptr) list"
  todo :: "nat list"
  tails :: "(nat \<times> bool) list"
  stops :: "((ptr \<times> ptr) list \<times> bool) list"
  handed :: "(nat \<times> ptr) list"
  restarts :: nat

definition finish_stop :: "bool \<Rightarrow> poll_run \<Rightarrow> poll_run" where
  "finish_stop restart r =
     (if restart then let (q, dx) = queue_restart (dev r) in r\<lparr>dev := dx, restarts := restarts r + (if q then 1 else 0)\<rparr> else r)"

definition enter_stop :: "(ptr \<times> ptr) list \<Rightarrow> bool \<Rightarrow> poll_run \<Rightarrow> poll_run" where
  "enter_stop cancel restart r =
     (if any_cancel cancel then r\<lparr>stops := (cancel, restart) # stops r\<rparr> else finish_stop restart r)"

text \<open>With \<open>serial\<close> a completion or a stop begins only when nothing is left to submit and no completion is between its
  first section and its stop, and a start only when, besides, no stop is waiting for its cancellations. The source
  ensures neither: \<open>Poll_Runs\<close> has what happens without them.\<close>

inductive poll_step :: "bool \<Rightarrow> poll_run \<Rightarrow> poll_run \<Rightarrow> bool" for serial :: bool where
  starts: "serial \<longrightarrow> todo r = [] \<and> tails r = [] \<and> stops r = [] \<Longrightarrow> poll_start_locked reason (dev r) = (submit, dx) \<Longrightarrow>
    poll_step serial r (r\<lparr>dev := dx, todo := todo r @ filter (\<lambda>i. submit ! i) [0, 1]\<rparr>)"
| submits: "i \<in> set (todo r) \<Longrightarrow> AdaptoidPollSubmit f i (dev r) = (True, st, dx) \<Longrightarrow> fly_irp f \<notin> snd ` set (handed r) \<Longrightarrow>
    poll_step serial r (r\<lparr>dev := dx, todo := remove1 i (todo r), flying := (i, fly_irp f) # flying r, handed := (i, fly_irp f) # handed r\<rparr>)"
| submit_fails: "i \<in> set (todo r) \<Longrightarrow> AdaptoidPollSubmit f i (dev r) = (False, st, dx) \<Longrightarrow>
    poll_step serial r (r\<lparr>dev := dx, todo := remove1 i (todo r)\<rparr>)"
| accepts: "serial \<longrightarrow> todo r = [] \<and> tails r = [] \<Longrightarrow> (i, irp) \<in> set (flying r) \<Longrightarrow> poll_take i (dev r) = (0, dx) \<Longrightarrow> \<not> failed \<Longrightarrow>
    poll_step serial r (r\<lparr>dev := dx, flying := remove1 (i, irp) (flying r), todo := i # todo r\<rparr>)"
| gives_up: "serial \<longrightarrow> todo r = [] \<and> tails r = [] \<Longrightarrow> (i, irp) \<in> set (flying r) \<Longrightarrow> poll_take i (dev r) = (sm, dx) \<Longrightarrow> sm \<noteq> 0 \<or> failed \<Longrightarrow>
    poll_step serial r (r\<lparr>dev := dx, flying := remove1 (i, irp) (flying r), tails := (i, failed) # tails r\<rparr>)"
| stop_begins: "serial \<longrightarrow> todo r = [] \<and> tails r = [] \<Longrightarrow> reason \<noteq> 0 \<Longrightarrow> stop_latch reason 2 (dev r) = (final, cancel, dx) \<Longrightarrow>
    poll_step serial r (enter_stop cancel False (r\<lparr>dev := dx\<rparr>))"
| tail_stops: "(i, failed) \<in> set (tails r) \<Longrightarrow> stop_latch (if failed then 1 else 0) i (dev r) = (final, cancel, dx) \<Longrightarrow>
    poll_step serial r (enter_stop cancel (final \<and> failed) (r\<lparr>dev := dx, tails := remove1 (i, failed) (tails r)\<rparr>))"
| stop_settles: "(cancel, restart) \<in> set (stops r) \<Longrightarrow> stop_settle cancel (dev r) = (cancel', dx) \<Longrightarrow>
    poll_step serial r (finish_stop restart (r\<lparr>dev := stop_free cancel' dx, stops := remove1 (cancel, restart) (stops r)\<rparr>))"

inductive poll_reach :: "bool \<Rightarrow> poll_run \<Rightarrow> bool" for serial :: bool where
  init: "poll_reach serial \<lparr>dev = AdaptoidDevExtInit zeroed_ext, flying = [], todo = [], tails = [], stops = [], handed = [], restarts = 0\<rparr>"
| step: "poll_reach serial r \<Longrightarrow> poll_step serial r r' \<Longrightarrow> poll_reach serial r'"

section \<open>The invariant of the serial runs\<close>

definition poll_held :: "poll_run \<Rightarrow> ptr list" where
  "poll_held r = concat (map (\<lambda>c. filter (\<lambda>x. x \<noteq> 0) (map fst (fst c))) (stops r))"

text \<open>Slot \<open>i\<close>: a slot between its mark and its submission, or between its read and its stop, has no read and no latch;
  the bus has exactly the reads of the slots; a stop holds the read of the slot, which is then latched, or one that
  has completed; a latched read is held by a stop.\<close>

definition slot_ok :: "poll_run \<Rightarrow> nat \<Rightarrow> bool" where
  "slot_ok r i \<longleftrightarrow> (let p = PollSlots (dev r) ! i in
     (i \<in> set (todo r) \<or> i \<in> fst ` set (tails r) \<longrightarrow> PollActive p \<and> \<not> CancelLatch p \<and> PollIrp p = 0) \<and>
     (\<not> PollActive p \<longrightarrow> \<not> CancelLatch p \<and> PollIrp p = 0) \<and>
     (\<forall>irp. (i, irp) \<in> set (flying r) \<longleftrightarrow> irp \<noteq> 0 \<and> PollIrp p = irp) \<and>
     (PollIrp p \<noteq> 0 \<longrightarrow> (i, PollIrp p) \<in> set (handed r)) \<and>
     (\<forall>c\<in>set (stops r). fst (fst c ! i) \<noteq> 0 \<longrightarrow> (i, fst (fst c ! i)) \<in> set (handed r) \<and>
       (PollIrp p = fst (fst c ! i) \<and> CancelLatch p \<or>
        PollIrp p = 0 \<and> \<not> CancelLatch p \<and> (i \<in> fst ` set (tails r) \<or> \<not> PollActive p))) \<and>
     (CancelLatch p \<and> PollIrp p \<noteq> 0 \<longrightarrow> PollIrp p \<in> set (poll_held r)))"

definition frame_ok :: "poll_run \<Rightarrow> bool" where
  "frame_ok r \<longleftrightarrow> length (PollSlots (dev r)) = 2 \<and> distinct (flying r) \<and> fst ` set (flying r) \<subseteq> {0, 1} \<and> distinct (todo r) \<and> set (todo r) \<subseteq> {0, 1} \<and>
     (todo r \<noteq> [] \<longrightarrow> stops r = [] \<and> tails r = [] \<and> PollStopMask (dev r) = 0) \<and>
     length (tails r) \<le> 1 \<and> fst ` set (tails r) \<subseteq> {0, 1} \<and> (\<forall>t\<in>set (tails r). \<not> snd t \<longrightarrow> PollStopMask (dev r) \<noteq> 0) \<and>
     (stops r \<noteq> [] \<longrightarrow> PollStopMask (dev r) \<noteq> 0) \<and> (\<forall>c\<in>set (stops r). length (fst c) = 2)"

definition account_ok :: "poll_run \<Rightarrow> bool" where
  "account_ok r \<longleftrightarrow> distinct (poll_held r) \<and> inj_on snd (set (handed r)) \<and> 0 \<notin> snd ` set (handed r) \<and>
     (\<forall>irp. count_list (map fst (freed_polls (dev r))) irp + of_bool (irp \<in> snd ` set (flying r) \<or> irp \<in> set (poll_held r)) =
        (of_bool (irp \<in> snd ` set (handed r)) :: nat))"

definition poll_inv :: "poll_run \<Rightarrow> bool" where
  "poll_inv r \<longleftrightarrow> frame_ok r \<and> (\<forall>i<2. slot_ok r i) \<and> account_ok r"

lemma init_ok: "poll_inv \<lparr>dev = AdaptoidDevExtInit zeroed_ext, flying = [], todo = [], tails = [], stops = [], handed = [], restarts = 0\<rparr>"
  by (auto simp: poll_inv_def frame_ok_def slot_ok_def account_ok_def poll_held_def AdaptoidDevExtInit_def zeroed_ext_def zero_poll_def less_2_cases_iff)

text \<open>Neither the lock nor the flag nor the count matters.\<close>

lemma finish_frame [simp]:
  "flying (finish_stop b r) = flying r" "todo (finish_stop b r) = todo r" "tails (finish_stop b r) = tails r"
  "stops (finish_stop b r) = stops r" "handed (finish_stop b r) = handed r" "poll_held (finish_stop b r) = poll_held r"
  "PollSlots (dev (finish_stop b r)) = PollSlots (dev r)" "PollStopMask (dev (finish_stop b r)) = PollStopMask (dev r)"
  "freed_polls (dev (finish_stop b r)) = freed_polls (dev r)"
  by (auto simp: finish_stop_def queue_restart_def acquire_B_def poll_held_def Let_def split: prod.split)

lemma poll_finish_inv [simp]: "poll_inv (finish_stop b r) = poll_inv r"
  by (simp add: poll_inv_def frame_ok_def slot_ok_def account_ok_def)

lemma submits_inv:
  assumes "poll_inv r" "i \<in> set (todo r)" "AdaptoidPollSubmit f i (dev r) = (True, st, dx)" "fly_irp f \<notin> snd ` set (handed r)"
  shows "poll_inv (r\<lparr>dev := dx, todo := remove1 i (todo r), flying := (i, fly_irp f) # flying r, handed := (i, fly_irp f) # handed r\<rparr>)"
    (is "poll_inv ?r")
proof -
  have inv: "frame_ok r" "\<And>j. j < 2 \<Longrightarrow> slot_ok r j" "account_ok r" using assms(1) by (simp_all add: poll_inv_def)
  have i: "i < 2" "stops r = []" "tails r = []" using inv(1) assms(2) by (auto simp: frame_ok_def)
  have dx: "fly_irp f \<noteq> 0" "dx = (dev r)\<lparr>PollSlots := (PollSlots (dev r))[i := (PollSlots (dev r) ! i)\<lparr>PollUrb := fly_urb f, PollIrp := fly_irp f\<rparr>]\<rparr>"
    using assms(3) by (auto simp: AdaptoidPollSubmit_def split: if_splits)
  have len: "length (PollSlots (dev r)) = 2" using inv(1) by (simp add: frame_ok_def)
  have old: "(i, fly_irp f) \<notin> set (flying r)" using inv(2) [OF i(1)] assms(2) dx(1) by (auto simp: slot_ok_def Let_def)
  have "frame_ok ?r" using inv(1) i old by (auto simp: frame_ok_def dx(2) set_remove1_eq)
  moreover have "slot_ok ?r j" if "j < 2" for j
  proof (cases "j = i")
    case True
    then show ?thesis using inv(2) [OF i(1)] assms(2) i dx(1) len inv(1) by (auto simp: slot_ok_def dx(2) Let_def frame_ok_def poll_held_def)
  next
    case False
    then show ?thesis using inv(2) [OF that] i len by (auto simp: slot_ok_def dx(2) Let_def poll_held_def)
  qed
  moreover have "account_ok ?r"
  proof -
    have h: "poll_held r = []" "poll_held ?r = []" using i(2) by (simp_all add: poll_held_def)
    have acct: "count_list (map fst (freed_polls (dev r))) irp + of_bool (irp \<in> snd ` set (flying r)) = (of_bool (irp \<in> snd ` set (handed r)) :: nat)" for irp
      using inv(3) h by (simp add: account_ok_def)
    have "count_list (map fst (freed_polls (dev ?r))) irp + of_bool (irp \<in> snd ` set (flying ?r)) = (of_bool (irp \<in> snd ` set (handed ?r)) :: nat)" for irp
      using acct [of irp] assms(4) by (cases "irp = fly_irp f") (simp_all add: dx(2))
    moreover have "inj_on snd (set (handed ?r))" using inv(3) assms(4) by (auto simp: account_ok_def inj_on_def image_iff)
    ultimately show ?thesis using inv(3) h dx(1) by (simp add: account_ok_def)
  qed
  ultimately show ?thesis by (simp add: poll_inv_def)
qed

lemma inv_parts:
  assumes "poll_inv r"
  shows "frame_ok r" "j < 2 \<Longrightarrow> slot_ok r j" "account_ok r" "length (PollSlots (dev r)) = 2"
  using assms by (auto simp: poll_inv_def frame_ok_def)

lemma submit_fails_inv:
  assumes "poll_inv r" "i \<in> set (todo r)" "AdaptoidPollSubmit f i (dev r) = (False, st, dx)"
  shows "poll_inv (r\<lparr>dev := dx, todo := remove1 i (todo r)\<rparr>)"
proof -
  have "dx = dev r" using assms(3) by (auto simp: AdaptoidPollSubmit_def split: if_splits)
  then show ?thesis using assms(1)
    by (auto simp: poll_inv_def frame_ok_def slot_ok_def account_ok_def poll_held_def Let_def set_remove1_eq)
qed

lemma starts_inv:
  assumes "poll_inv r" "todo r = []" "tails r = []" "stops r = []" "poll_start_locked reason (dev r) = (submit, dx)"
  shows "poll_inv (r\<lparr>dev := dx, todo := todo r @ filter (\<lambda>i. submit ! i) [0, 1]\<rparr>)" (is "poll_inv ?r")
proof (cases "PollStopMask (dev r) AND NOT reason = 0")
  case False
  then have "submit = map (\<lambda>_. False) (PollSlots (dev r))" "dx = (dev r)\<lparr>PollStopMask := PollStopMask (dev r) AND NOT reason\<rparr>"
    using assms(5) by (simp_all add: poll_start_locked_def Let_def)
  then show ?thesis using assms(1-4) inv_parts(4) [OF assms(1)]
    by (auto simp: poll_inv_def frame_ok_def slot_ok_def account_ok_def poll_held_def Let_def)
next
  case True
  have e: "submit = map (\<lambda>p. \<not> PollActive p) (PollSlots (dev r))" "PollStopMask dx = 0"
    "PollSlots dx = map (\<lambda>p. p\<lparr>PollActive := True\<rparr>) (PollSlots (dev r))" "freed_polls dx = freed_polls (dev r)"
    using assms(5) True by (auto simp: poll_start_locked_def Let_def)
  note len = inv_parts(4) [OF assms(1)]
  have "frame_ok ?r" using inv_parts(1) [OF assms(1)] assms(2-4) e by (auto simp: frame_ok_def)
  moreover have "slot_ok ?r j" if "j < 2" for j
    using inv_parts(2) [OF assms(1) that] that assms(2-4) e len by (auto simp: slot_ok_def poll_held_def Let_def)
  moreover have "account_ok ?r" using inv_parts(3) [OF assms(1)] assms(2-4) e by (simp add: account_ok_def poll_held_def)
  ultimately show ?thesis by (simp add: poll_inv_def)
qed

text \<open>A read in flight is that of its slot; one that a stop holds was handed to that slot.\<close>

lemma flying_slot: "poll_inv r \<Longrightarrow> (i, irp) \<in> set (flying r) \<Longrightarrow> i < 2 \<and> irp \<noteq> 0 \<and> PollIrp (PollSlots (dev r) ! i) = irp \<and> (i, irp) \<in> set (handed r)"
proof -
  assume a: "poll_inv r" "(i, irp) \<in> set (flying r)"
  then have "i < 2" using inv_parts(1) [OF a(1)] by (auto simp: frame_ok_def)
  then show ?thesis using inv_parts(2) [OF a(1), of i] a(2) by (auto simp: slot_ok_def Let_def)
qed

lemma two_handed: "poll_inv r \<Longrightarrow> (i, irp) \<in> set (handed r) \<Longrightarrow> (j, irp) \<in> set (handed r) \<Longrightarrow> i = j"
  unfolding poll_inv_def account_ok_def by (metis inj_on_eq_iff prod.inject snd_conv)

lemma slot_held:
  assumes "poll_inv r" "c \<in> set (stops r)" "i < 2" "fst (fst c ! i) \<noteq> 0"
  shows "(i, fst (fst c ! i)) \<in> set (handed r)"
    "PollIrp (PollSlots (dev r) ! i) = fst (fst c ! i) \<and> CancelLatch (PollSlots (dev r) ! i) \<or>
      PollIrp (PollSlots (dev r) ! i) = 0 \<and> \<not> CancelLatch (PollSlots (dev r) ! i) \<and>
      (i \<in> fst ` set (tails r) \<or> \<not> PollActive (PollSlots (dev r) ! i))"
  using inv_parts(2) [OF assms(1,3)] assms(2,4) unfolding slot_ok_def Let_def by blast+

lemma slot_handed: "poll_inv r \<Longrightarrow> i < 2 \<Longrightarrow> PollIrp (PollSlots (dev r) ! i) \<noteq> 0 \<Longrightarrow>
    (i, PollIrp (PollSlots (dev r) ! i)) \<in> set (handed r) \<and> (i, PollIrp (PollSlots (dev r) ! i)) \<in> set (flying r)"
  using inv_parts(2) [of r i] unfolding slot_ok_def Let_def by blast

lemma slot_fly: "poll_inv r \<Longrightarrow> i < 2 \<Longrightarrow> (i, v) \<in> set (flying r) \<longleftrightarrow> v \<noteq> 0 \<and> PollIrp (PollSlots (dev r) ! i) = v"
  by (simp add: poll_inv_def slot_ok_def Let_def)

lemma held_where:
  assumes "poll_inv r" "irp \<in> set (poll_held r)"
  obtains c j where "c \<in> set (stops r)" "j < 2" "fst (fst c ! j) = irp" "irp \<noteq> 0" "(j, irp) \<in> set (handed r)"
proof -
  from assms(2) obtain c where c: "c \<in> set (stops r)" "irp \<in> fst ` set (fst c)" "irp \<noteq> 0" by (auto simp: poll_held_def)
  then have "length (fst c) = 2" using inv_parts(1) [OF assms(1)] by (simp add: frame_ok_def)
  then obtain j where "j < 2" "fst (fst c ! j) = irp" using c(2) by (auto simp: in_set_conv_nth)
  moreover have "(j, irp) \<in> set (handed r)" using slot_held(1) [OF assms(1) c(1) calculation(1)] c(3) calculation(2) by simp
  ultimately show thesis using that c by blast
qed

lemma held_in:
  assumes "poll_inv r" "c \<in> set (stops r)" "j < 2" "fst (fst c ! j) \<noteq> 0"
  shows "fst (fst c ! j) \<in> set (poll_held r)"
proof -
  have "fst c ! j \<in> set (fst c)" using inv_parts(1) [OF assms(1)] assms(2,3) by (simp add: frame_ok_def)
  then show ?thesis using assms(2,4) by (force simp: poll_held_def)
qed

lemma unlatched_unheld:
  assumes "poll_inv r" "i < 2" "PollIrp (PollSlots (dev r) ! i) = irp" "irp \<in> set (poll_held r)"
  shows "CancelLatch (PollSlots (dev r) ! i)"
proof -
  obtain c j where c: "c \<in> set (stops r)" "j < 2" "fst (fst c ! j) = irp" "irp \<noteq> 0" "(j, irp) \<in> set (handed r)" by (rule held_where [OF assms(1,4)])
  have "(i, irp) \<in> set (handed r)" using slot_handed [OF assms(1,2)] assms(3) c(4) by simp
  then have "j = i" using two_handed [OF assms(1) c(5)] by simp
  then show ?thesis using slot_held(2) [OF assms(1) c(1,2)] c(3,4) assms(3) by metis
qed

text \<open>What a completion has done when it leaves its first section.\<close>

lemma take_parts:
  assumes "poll_take i dx = (sm, dx')"
  shows "sm = PollStopMask dx" "PollStopMask dx' = PollStopMask dx"
    "PollSlots dx' = (PollSlots dx)[i := (PollSlots dx ! i)\<lparr>PollIrp := 0, PollUrb := 0, CancelLatch := False\<rparr>]"
    "map fst (freed_polls dx') = map fst (freed_polls dx) @ (if CancelLatch (PollSlots dx ! i) then [] else [PollIrp (PollSlots dx ! i)])"
  using assms by (auto simp: poll_take_def poll_taken_def AdaptoidFreePollIrp_def Let_def split: if_splits)

lemma take_account:
  assumes inv: "poll_inv r" and f: "(i, irp) \<in> set (flying r)" and t: "poll_take i (dev r) = (sm, dx)"
  shows "count_list (map fst (freed_polls dx)) v + of_bool (v \<in> snd ` set (remove1 (i, irp) (flying r)) \<or> v \<in> set (poll_held r)) =
    (of_bool (v \<in> snd ` set (handed r)) :: nat)"
proof -
  have i: "i < 2" "irp \<noteq> 0" "PollIrp (PollSlots (dev r) ! i) = irp" "(i, irp) \<in> set (handed r)" using flying_slot [OF inv f] by simp_all
  have old: "count_list (map fst (freed_polls (dev r))) v + of_bool (v \<in> snd ` set (flying r) \<or> v \<in> set (poll_held r)) =
      (of_bool (v \<in> snd ` set (handed r)) :: nat)" using inv_parts(3) [OF inv] by (simp add: account_ok_def)
  have d: "distinct (flying r)" using inv_parts(1) [OF inv] by (simp add: frame_ok_def)
  have fl: "snd ` set (remove1 (i, irp) (flying r)) = snd ` set (flying r) - {irp}"
  proof -
    have "j = i" if "(j, irp) \<in> set (flying r)" for j using two_handed [OF inv i(4), of j] flying_slot [OF inv that] by simp
    then have "v \<noteq> irp \<longleftrightarrow> (j, v) \<noteq> (i, irp)" if "(j, v) \<in> set (flying r)" for j v using that by auto
    then have "snd ` (set (flying r) - {(i, irp)}) = snd ` set (flying r) - {irp}" by (auto simp: image_iff Bex_def) (metis snd_conv)?
    then show ?thesis using d by (simp add: set_remove1_eq)
  qed
  show ?thesis
  proof (cases "v = irp")
    case False
    then show ?thesis using old fl take_parts(4) [OF t] i(3) by simp
  next
    case True
    have in_fl: "irp \<in> snd ` set (flying r)" using f by force
    have hand: "irp \<in> snd ` set (handed r)" using i(4) by force
    have zero: "count_list (map fst (freed_polls (dev r))) irp = 0" using old in_fl hand unfolding True by simp
    show ?thesis
    proof (cases "CancelLatch (PollSlots (dev r) ! i)")
      case True
      then have "irp \<in> set (poll_held r)" using inv_parts(2) [OF inv i(1)] i(2,3) unfolding slot_ok_def Let_def by blast
      then show ?thesis using \<open>v = irp\<close> zero hand take_parts(4) [OF t] True by simp
    next
      case False
      then have "irp \<notin> set (poll_held r)" using unlatched_unheld [OF inv i(1,3)] by blast
      then show ?thesis using \<open>v = irp\<close> zero hand take_parts(4) [OF t] False fl i(3) by simp
    qed
  qed
qed

lemma take_inv:
  assumes inv: "poll_inv r" and idle: "todo r = []" "tails r = []" and f: "(i, irp) \<in> set (flying r)"
    and t: "poll_take i (dev r) = (sm, dx)" and kind: "ts = [] \<and> td = [i] \<and> sm = 0 \<or> ts = [(i, failed)] \<and> td = [] \<and> (sm \<noteq> 0 \<or> failed)"
  shows "poll_inv (r\<lparr>dev := dx, flying := remove1 (i, irp) (flying r), todo := td, tails := ts\<rparr>)" (is "poll_inv ?r")
proof -
  have i: "i < 2" "irp \<noteq> 0" "PollIrp (PollSlots (dev r) ! i) = irp" "(i, irp) \<in> set (handed r)" using flying_slot [OF inv f] by simp_all
  note len = inv_parts(4) [OF inv] and fr = inv_parts(1) [OF inv] and tp = take_parts [OF t]
  have poll_held: "poll_held ?r = poll_held r" by (simp add: poll_held_def)
  have act: "PollActive (PollSlots (dev r) ! i)" using inv_parts(2) [OF inv i(1)] i(2,3) unfolding slot_ok_def Let_def by blast
  have stop0: "sm = 0 \<Longrightarrow> stops r = []" using fr tp(1) by (auto simp: frame_ok_def)
  have d: "distinct (flying r)" using fr by (simp add: frame_ok_def)
  have "frame_ok ?r" using fr kind i(1) tp(1,2,3) stop0 d by (auto simp: frame_ok_def set_remove1_eq)
  moreover have "slot_ok ?r j" if "j < 2" for j
  proof (cases "j = i")
    case True
    have "(i, v) \<in> set (flying r) \<longleftrightarrow> v = irp" for v using slot_fly [OF inv i(1)] i(2,3) by auto
    then have fly: "(i, v) \<notin> set (remove1 (i, irp) (flying r))" for v using d by (simp add: set_remove1_eq)
    have p: "PollSlots dx ! i = (PollSlots (dev r) ! i)\<lparr>PollIrp := 0, PollUrb := 0, CancelLatch := False\<rparr>" using tp(3) len i(1) by simp
    have "stops r \<noteq> [] \<Longrightarrow> i \<in> fst ` set ts" using kind stop0 by auto
    then have st: "\<forall>c\<in>set (stops r). fst (fst c ! i) \<noteq> 0 \<longrightarrow> (i, fst (fst c ! i)) \<in> set (handed r) \<and> i \<in> fst ` set ts"
      using slot_held(1) [OF inv _ i(1)] by force
    show ?thesis unfolding True slot_ok_def Let_def using p act fly st by auto
  next
    case False
    then have same: "PollSlots dx ! j = PollSlots (dev r) ! j" using tp(3) by simp
    have off: "j \<notin> set td" "j \<notin> fst ` set ts" using kind False by auto
    have "(j, v) \<in> set (remove1 (i, irp) (flying r)) \<longleftrightarrow> (j, v) \<in> set (flying r)" for v using False d by (auto simp: set_remove1_eq)
    then show ?thesis using inv_parts(2) [OF inv that] same off idle unfolding slot_ok_def Let_def poll_held by simp
  qed
  moreover have "account_ok ?r" using take_account [OF inv f t] inv_parts(3) [OF inv] by (simp add: account_ok_def poll_held)
  ultimately show ?thesis by (simp add: poll_inv_def)
qed

text \<open>The first section of a stop, of a completion (\<open>slot\<close> is its own) or from outside.\<close>

lemma latch_parts:
  assumes "stop_latch reason slot dx = (final, cancel, dx')" "length (PollSlots dx) = 2"
  defines "q \<equiv> \<lambda>j. if j = slot then (PollSlots dx ! j)\<lparr>PollActive := False\<rparr> else PollSlots dx ! j"
  shows "PollStopMask dx' = PollStopMask dx OR reason" "freed_polls dx' = freed_polls dx" "length cancel = 2" "length (PollSlots dx') = 2"
    "j < 2 \<Longrightarrow> cancel ! j = fst (latch_one (q j))" "j < 2 \<Longrightarrow> PollSlots dx' ! j = snd (latch_one (q j))"
  using assms(1,2) by (auto simp: stop_latch_def Let_def q_def nth_list_update split: if_splits)

lemma latch_slot:
  assumes "stop_latch reason slot dx = (final, cancel, dx')" "length (PollSlots dx) = 2" "j < 2"
  defines "p \<equiv> PollSlots dx ! j" and "p' \<equiv> PollSlots dx' ! j"
  shows "PollIrp p' = PollIrp p" "PollActive p' \<longleftrightarrow> PollActive p \<and> j \<noteq> slot"
    "CancelLatch p' \<longleftrightarrow> CancelLatch p \<or> PollActive p \<and> j \<noteq> slot"
    "fst (cancel ! j) = (if PollActive p \<and> j \<noteq> slot \<and> \<not> CancelLatch p then PollIrp p else 0)"
  using latch_parts(5,6) [OF assms(1,2,3)] by (auto simp: latch_one_def p_def p'_def split: if_splits)

lemma latch_inv:
  assumes inv: "poll_inv r" and idle: "todo r = []" and l: "stop_latch reason slot (dev r) = (final, cancel, dx)"
    and who: "slot = 2 \<and> tails r = [] \<and> reason \<noteq> 0 \<or> tails r = [(slot, failed)] \<and> reason = (if failed then 1 else 0)"
  shows "poll_inv (enter_stop cancel b (r\<lparr>dev := dx, tails := []\<rparr>))"
proof -
  let ?r = "r\<lparr>dev := dx, tails := [], stops := (if any_cancel cancel then (cancel, b) # stops r else stops r)\<rparr>"
  note len = inv_parts(4) [OF inv] and fr = inv_parts(1) [OF inv]
  note lp = latch_parts(1-4) [OF l len] and ls = latch_slot [OF l len]
  have busy: "PollStopMask dx \<noteq> 0"
  proof -
    have "PollStopMask (dev r) \<noteq> 0 \<or> reason \<noteq> 0" using who fr by (auto simp: frame_ok_def)
    then show ?thesis using lp(1) by (simp add: or_eq_0_iff)
  qed
  have own: "j \<in> fst ` set (tails r) \<longleftrightarrow> j = slot" if "j < 2" for j using who that by auto
  have poll_held: "poll_held ?r = filter (\<lambda>x. x \<noteq> 0) (map fst cancel) @ poll_held r" if "any_cancel cancel" using that by (simp add: poll_held_def)
  have held0: "poll_held ?r = poll_held r" "filter (\<lambda>x. x \<noteq> 0) (map fst cancel) = []" if "\<not> any_cancel cancel"
    using that by (auto simp: poll_held_def any_cancel_def filter_empty_conv)
  have new: "(j, fst (cancel ! j)) \<in> set (flying r) \<and> fst (cancel ! j) \<notin> set (poll_held r)"
    if "j < 2" "fst (cancel ! j) \<noteq> 0" for j
  proof -
    have c: "fst (cancel ! j) = PollIrp (PollSlots (dev r) ! j)" "\<not> CancelLatch (PollSlots (dev r) ! j)" using ls(4) [OF that(1)] that(2) by (auto split: if_splits)
    then show ?thesis using slot_handed [OF inv that(1)] that(2) unlatched_unheld [OF inv that(1) refl] by auto
  qed
  have "frame_ok ?r" using fr idle lp(3,4) busy by (auto simp: frame_ok_def)
  moreover have "account_ok ?r"
  proof -
    obtain a c where ac: "cancel = [a, c]" using lp(3) by (auto simp: numeral_2_eq_2 length_Suc_conv)
    have "fst a = 0 \<or> fst a \<noteq> fst c"
    proof (rule ccontr)
      assume n: "\<not> (fst a = 0 \<or> fst a \<noteq> fst c)"
      then have "(0, fst a) \<in> set (flying r)" "(1, fst a) \<in> set (flying r)" using new [of 0] new [of 1] by (simp_all add: ac)
      then show False using flying_slot [OF inv] two_handed [OF inv] by (metis zero_neq_one)
    qed
    moreover have "fst a \<noteq> 0 \<Longrightarrow> fst a \<notin> set (poll_held r) \<and> fst a \<in> snd ` set (flying r)" using new [of 0] by (force simp: ac)
    moreover have "fst c \<noteq> 0 \<Longrightarrow> fst c \<notin> set (poll_held r) \<and> fst c \<in> snd ` set (flying r)" using new [of 1] by (force simp: ac)
    ultimately have h: "distinct (poll_held ?r)" "v \<in> snd ` set (flying r) \<or> v \<in> set (poll_held ?r) \<longleftrightarrow> v \<in> snd ` set (flying r) \<or> v \<in> set (poll_held r)" for v
      using inv_parts(3) [OF inv] poll_held held0 by (cases "any_cancel cancel"; auto simp: account_ok_def ac)+
    then show ?thesis using inv_parts(3) [OF inv] lp(2) by (simp add: account_ok_def)
  qed
  moreover have "slot_ok ?r j" if "j < 2" for j
  proof -
    have old: "fst (fst c ! j) \<noteq> 0 \<Longrightarrow> (j, fst (fst c ! j)) \<in> set (handed r) \<and>
        (PollIrp (PollSlots dx ! j) = fst (fst c ! j) \<and> CancelLatch (PollSlots dx ! j) \<or>
         PollIrp (PollSlots dx ! j) = 0 \<and> \<not> CancelLatch (PollSlots dx ! j) \<and> \<not> PollActive (PollSlots dx ! j))" if "c \<in> set (stops r)" for c
      using slot_held [OF inv that \<open>j < 2\<close>] ls(1-3) [OF \<open>j < 2\<close>] own [OF \<open>j < 2\<close>] by auto
    have sp: "\<not> PollActive (PollSlots (dev r) ! j) \<longrightarrow> \<not> CancelLatch (PollSlots (dev r) ! j) \<and> PollIrp (PollSlots (dev r) ! j) = 0"
      "j = slot \<longrightarrow> \<not> CancelLatch (PollSlots (dev r) ! j) \<and> PollIrp (PollSlots (dev r) ! j) = 0"
      "CancelLatch (PollSlots (dev r) ! j) \<and> PollIrp (PollSlots (dev r) ! j) \<noteq> 0 \<longrightarrow> PollIrp (PollSlots (dev r) ! j) \<in> set (poll_held r)"
      using inv_parts(2) [OF inv that] own [OF that] by (simp_all add: slot_ok_def Let_def)
    have fresh: "fst (cancel ! j) \<noteq> 0 \<Longrightarrow> (j, fst (cancel ! j)) \<in> set (handed r) \<and> PollIrp (PollSlots dx ! j) = fst (cancel ! j) \<and> CancelLatch (PollSlots dx ! j)"
      using ls [OF that] slot_handed [OF inv that] by (auto split: if_splits)
    have kept: "CancelLatch (PollSlots dx ! j) \<and> PollIrp (PollSlots dx ! j) \<noteq> 0 \<Longrightarrow> PollIrp (PollSlots dx ! j) \<in> set (poll_held ?r)"
    proof -
      assume k: "CancelLatch (PollSlots dx ! j) \<and> PollIrp (PollSlots dx ! j) \<noteq> 0"
      have sub: "set (poll_held r) \<subseteq> set (poll_held ?r)" using poll_held held0 by (cases "any_cancel cancel") auto
      show "PollIrp (PollSlots dx ! j) \<in> set (poll_held ?r)"
      proof (cases "CancelLatch (PollSlots (dev r) ! j)")
        case True
        then show ?thesis using k sp(3) ls(1) [OF that] sub by auto
      next
        case False
        then have e: "fst (cancel ! j) = PollIrp (PollSlots dx ! j)" "fst (cancel ! j) \<noteq> 0" using k ls [OF that] by auto
        have "cancel ! j \<in> set cancel" using lp(3) that by simp
        then have "any_cancel cancel" using e(2) by (auto simp: any_cancel_def)
        moreover have "fst (cancel ! j) \<in> set (map fst cancel)" using \<open>cancel ! j \<in> set cancel\<close> by simp
        ultimately show ?thesis using poll_held e by simp
      qed
    qed
    show ?thesis using slot_fly [OF inv that] slot_handed [OF inv that] ls(1,2,3) [OF that] sp old fresh kept idle
      by (auto simp: slot_ok_def Let_def)
  qed
  ultimately have "poll_inv ?r" by (simp add: poll_inv_def)
  then show ?thesis by (cases "any_cancel cancel") (simp_all add: enter_stop_def)
qed

text \<open>The second section.\<close>

lemma free_parts:
  "map fst (freed_polls (stop_free cancel dx)) = map fst (freed_polls dx) @ filter (\<lambda>x. x \<noteq> 0) (map fst cancel)"
  "PollSlots (stop_free cancel dx) = PollSlots dx" "PollStopMask (stop_free cancel dx) = PollStopMask dx"
proof -
  have "map fst (freed_polls (stop_free cancel dx)) = map fst (freed_polls dx) @ filter (\<lambda>x. x \<noteq> 0) (map fst cancel) \<and>
      PollSlots (stop_free cancel dx) = PollSlots dx \<and> PollStopMask (stop_free cancel dx) = PollStopMask dx"
    unfolding stop_free_def by (induction cancel arbitrary: dx) (simp_all add: AdaptoidFreePollIrp_def)
  then show "map fst (freed_polls (stop_free cancel dx)) = map fst (freed_polls dx) @ filter (\<lambda>x. x \<noteq> 0) (map fst cancel)"
    "PollSlots (stop_free cancel dx) = PollSlots dx" "PollStopMask (stop_free cancel dx) = PollStopMask dx" by simp_all
qed

lemma settle_parts:
  assumes "stop_settle cancel dx = (cancel', dx')" "length (PollSlots dx) = 2" "length cancel = 2"
  shows "length cancel' = 2" "length (PollSlots dx') = 2" "PollStopMask dx' = PollStopMask dx" "freed_polls dx' = freed_polls dx"
    "j < 2 \<Longrightarrow> fst (cancel' ! j) = (if CancelLatch (PollSlots dx ! j) then 0 else fst (cancel ! j))"
    "j < 2 \<Longrightarrow> PollSlots dx' ! j = (if fst (cancel ! j) \<noteq> 0 then (PollSlots dx ! j)\<lparr>CancelLatch := False\<rparr> else PollSlots dx ! j)"
  using assms by (auto simp: stop_settle_def settle_one_def)

lemma count_distinct: "distinct xs \<Longrightarrow> count_list xs x = of_bool (x \<in> set xs)"
  by (induction xs) auto

lemma settle_inv:
  assumes inv: "poll_inv r" and c: "(cancel, b) \<in> set (stops r)" and st: "stop_settle cancel (dev r) = (cancel', dx)"
  shows "poll_inv (r\<lparr>dev := stop_free cancel' dx, stops := remove1 (cancel, b) (stops r)\<rparr>)" (is "poll_inv ?r")
proof -
  note len = inv_parts(4) [OF inv] and fr = inv_parts(1) [OF inv]
  have lc: "length cancel = 2" using fr c by (force simp: frame_ok_def)
  note sp = settle_parts [OF st len lc]
  obtain xs ys where xy: "stops r = xs @ (cancel, b) # ys" "remove1 (cancel, b) (stops r) = xs @ ys"
    using split_list_first [OF c] by (auto simp: remove1_append)
  have stops': "stops ?r = xs @ ys" using xy(2) by simp
  have hr: "poll_held ?r = concat (map (\<lambda>c. filter (\<lambda>x. x \<noteq> 0) (map fst (fst c))) (xs @ ys))" by (simp only: poll_held_def stops')
  have hp: "mset (poll_held r) = mset (filter (\<lambda>x. x \<noteq> 0) (map fst cancel)) + mset (poll_held ?r)" unfolding hr by (simp add: poll_held_def xy(1))
  have "set (stops ?r) = set xs \<union> set ys" by (simp only: stops' set_append)
  then have sub: "set (stops ?r) \<subseteq> set (stops r)" using xy(1) by auto
  have dist: "distinct (poll_held r)" using inv_parts(3) [OF inv] by (simp add: account_ok_def)
  have d2: "distinct (filter (\<lambda>x. x \<noteq> 0) (map fst cancel))" "distinct (poll_held ?r)" "set (filter (\<lambda>x. x \<noteq> 0) (map fst cancel)) \<inter> set (poll_held ?r) = {}"
    "set (poll_held r) = set (filter (\<lambda>x. x \<noteq> 0) (map fst cancel)) \<union> set (poll_held ?r)"
    using dist hp by (metis distinct_append mset_append mset_eq_imp_distinct_iff set_append set_mset_mset set_mset_union)+
  have mine: "fst (cancel ! j) \<in> set (filter (\<lambda>x. x \<noteq> 0) (map fst cancel))" if "j < 2" "fst (cancel ! j) \<noteq> 0" for j
    using that lc by simp
  have other: "fst (fst k ! j) \<in> set (poll_held ?r)" if "k \<in> set (stops ?r)" "j < 2" "fst (fst k ! j) \<noteq> 0" for k j
  proof -
    have "length (fst k) = 2" using fr sub that(1) by (auto simp: frame_ok_def)
    then have "fst k ! j \<in> set (fst k)" using that(2) by simp
    then show ?thesis using that(1,3) by (force simp: poll_held_def)
  qed
  have "frame_ok ?r" using fr sp(2,3) sub c by (auto simp: frame_ok_def free_parts)
  moreover have "slot_ok ?r j" if j: "j < 2" for j
  proof -
    let ?p = "PollSlots (dev r) ! j"
    have so: "slot_ok r j" by (rule inv_parts(2) [OF inv j])
    have p': "PollSlots (dev ?r) ! j = (if fst (cancel ! j) \<noteq> 0 then ?p\<lparr>CancelLatch := False\<rparr> else ?p)" using sp(6) [OF j] by (simp add: free_parts)
    have others: "\<forall>k\<in>set (stops ?r). fst (fst k ! j) \<noteq> 0 \<longrightarrow> (j, fst (fst k ! j)) \<in> set (handed r) \<and>
        (PollIrp ?p = fst (fst k ! j) \<and> CancelLatch ?p \<and> fst (cancel ! j) = 0 \<or>
         PollIrp ?p = 0 \<and> \<not> CancelLatch ?p \<and> (j \<in> fst ` set (tails r) \<or> \<not> PollActive ?p))"
    proof (intro ballI impI)
      fix k assume k: "k \<in> set (stops ?r)" "fst (fst k ! j) \<noteq> 0"
      then have ks: "k \<in> set (stops r)" using sub by blast
      have "fst (cancel ! j) = 0" if "PollIrp ?p = fst (fst k ! j)" "CancelLatch ?p"
      proof (rule ccontr)
        assume n: "fst (cancel ! j) \<noteq> 0"
        then have "PollIrp ?p = fst (cancel ! j)" using slot_held(2) [OF inv c j] that k(2) by auto
        then show False using mine [OF j n] other [OF k(1) j k(2)] d2(3) that(1) by auto
      qed
      then show "(j, fst (fst k ! j)) \<in> set (handed r) \<and>
        (PollIrp ?p = fst (fst k ! j) \<and> CancelLatch ?p \<and> fst (cancel ! j) = 0 \<or>
         PollIrp ?p = 0 \<and> \<not> CancelLatch ?p \<and> (j \<in> fst ` set (tails r) \<or> \<not> PollActive ?p))"
        using slot_held [OF inv ks j k(2)] by blast
    qed
    have kept: "PollIrp ?p \<in> set (poll_held ?r)" if q: "fst (cancel ! j) = 0" "CancelLatch ?p" "PollIrp ?p \<noteq> 0"
    proof (rule ccontr)
      assume n: "PollIrp ?p \<notin> set (poll_held ?r)"
      have "PollIrp ?p \<in> set (poll_held r)" using so q unfolding slot_ok_def Let_def by simp
      then have "PollIrp ?p \<in> fst ` set cancel" using n d2(4) by auto
      then obtain k where k: "k < 2" "fst (cancel ! k) = PollIrp ?p" using lc by (auto simp: in_set_conv_nth)
      then have "(k, PollIrp ?p) \<in> set (handed r)" using slot_held(1) [OF inv c k(1)] q(3) by simp
      then have "k = j" using two_handed [OF inv] slot_handed [OF inv j q(3)] by blast
      then show False using k(2) q(1,3) by simp
    qed
    show ?thesis using so others kept unfolding slot_ok_def Let_def p' by auto
  qed
  moreover have "account_ok ?r"
  proof -
    let ?f = "filter (\<lambda>x. x \<noteq> 0) (map fst cancel')"
    have f: "v \<in> set ?f \<longleftrightarrow> v \<noteq> 0 \<and> (\<exists>j<2. fst (cancel ! j) = v \<and> \<not> CancelLatch (PollSlots (dev r) ! j))" for v
    proof -
      have "v \<in> fst ` set cancel' \<longleftrightarrow> (\<exists>j<2. fst (cancel' ! j) = v)" using sp(1) by (metis image_iff in_set_conv_nth)
      then have "v \<in> set ?f \<longleftrightarrow> v \<noteq> 0 \<and> (\<exists>j<2. fst (cancel' ! j) = v)" by auto
      moreover have "v \<noteq> 0 \<Longrightarrow> fst (cancel' ! j) = v \<longleftrightarrow> fst (cancel ! j) = v \<and> \<not> CancelLatch (PollSlots (dev r) ! j)" if "j < 2" for j
        using sp(5) [OF that] by auto
      ultimately show ?thesis by blast
    qed
    have "distinct ?f"
    proof -
      obtain a e a' e' where ac: "cancel = [a, e]" "cancel' = [a', e']" using lc sp(1) by (auto simp: numeral_2_eq_2 length_Suc_conv)
      have "fst a' = 0 \<or> fst a' = fst a" "fst e' = 0 \<or> fst e' = fst e" using sp(5) [of 0] sp(5) [of 1] by (auto simp: ac split: if_splits)
      then show ?thesis using d2(1) by (auto simp: ac split: if_splits)
    qed
    then have cnt: "count_list ?f v = of_bool (v \<in> set ?f)" for v by (rule count_distinct)
    have "of_bool (v \<in> snd ` set (flying r) \<or> v \<in> set (poll_held r)) = (of_bool (v \<in> set ?f) + of_bool (v \<in> snd ` set (flying r) \<or> v \<in> set (poll_held ?r)) :: nat)" for v
    proof (cases "v \<in> set ?f")
      case True
      then obtain j where j: "v \<noteq> 0" "j < 2" "fst (cancel ! j) = v" "\<not> CancelLatch (PollSlots (dev r) ! j)" using f by blast
      have "(k, v) \<notin> set (flying r)" for k
      proof
        assume k: "(k, v) \<in> set (flying r)"
        then have "k = j" using two_handed [OF inv] flying_slot [OF inv k] slot_held(1) [OF inv c j(2)] j(1,3) by auto
        then show False using flying_slot [OF inv k] slot_held(2) [OF inv c j(2)] j(1,3,4) by auto
      qed
      then have "v \<notin> snd ` set (flying r)" by force
      moreover have "v \<in> set (poll_held r)" "v \<notin> set (poll_held ?r)" using mine [OF j(2)] j(1,3) d2(3,4) by auto
      ultimately show ?thesis using True by simp
    next
      case False
      have "v \<in> snd ` set (flying r)" if h: "v \<in> set (poll_held r)" "v \<notin> set (poll_held ?r)"
      proof -
        have "v \<in> fst ` set cancel" "v \<noteq> 0" using h d2(4) by auto
        then obtain j where j: "j < 2" "fst (cancel ! j) = v" using lc by (auto simp: in_set_conv_nth)
        then have "CancelLatch (PollSlots (dev r) ! j)" using False f \<open>v \<noteq> 0\<close> by blast
        then have "PollIrp (PollSlots (dev r) ! j) = v" using slot_held(2) [OF inv c j(1)] j(2) \<open>v \<noteq> 0\<close> by auto
        then show ?thesis using slot_fly [OF inv j(1), of v] \<open>v \<noteq> 0\<close> by force
      qed
      then show ?thesis using False d2(4) by auto
    qed
    moreover have "count_list (map fst (freed_polls (dev ?r))) v = count_list (map fst (freed_polls (dev r))) v + of_bool (v \<in> set ?f)" for v
      using cnt [of v] sp(4) by (simp add: free_parts)
    moreover have "count_list (map fst (freed_polls (dev r))) v + of_bool (v \<in> snd ` set (flying r) \<or> v \<in> set (poll_held r)) =
        (of_bool (v \<in> snd ` set (handed r)) :: nat)" for v using inv_parts(3) [OF inv] by (simp add: account_ok_def)
    ultimately have "count_list (map fst (freed_polls (dev ?r))) v + of_bool (v \<in> snd ` set (flying r) \<or> v \<in> set (poll_held ?r)) =
        (of_bool (v \<in> snd ` set (handed r)) :: nat)" for v by (metis add.assoc)
    then show ?thesis using inv_parts(3) [OF inv] d2(2) by (simp add: account_ok_def)
  qed
  ultimately show ?thesis by (simp add: poll_inv_def)
qed

section \<open>Every read is freed once\<close>

lemma poll_step_inv: "poll_step True r r' \<Longrightarrow> poll_inv r \<Longrightarrow> poll_inv r'"
proof (induction rule: poll_step.induct)
  case (starts r reason submit dx)
  then show ?case using starts_inv by simp
next
  case (submits i r f st dx)
  then show ?case using submits_inv by simp
next
  case (submit_fails i r f st dx)
  then show ?case using submit_fails_inv by simp
next
  case (accepts r i irp dx failed)
  then show ?case using take_inv [of r i irp 0 dx "[]" "[i]"] by (cases r) simp
next
  case (gives_up r i irp sm dx failed)
  then show ?case using take_inv [of r i irp sm dx "[(i, failed)]" "[]" failed] by (cases r) simp
next
  case (stop_begins r reason final cancel dx)
  then show ?case using latch_inv [of r reason 2 final cancel dx] by (cases r) simp
next
  case (tail_stops i failed r final cancel dx)
  have "length (tails r) \<le> 1" "todo r \<noteq> [] \<longrightarrow> tails r = []" using inv_parts(1) [OF tail_stops.prems] by (simp_all add: frame_ok_def)
  then have "tails r = [(i, failed)]" "todo r = []" using tail_stops.hyps(1) by (cases "tails r"; auto)+
  then show ?case using latch_inv [OF tail_stops.prems _ tail_stops.hyps(2), of failed "final \<and> failed"] by simp
next
  case (stop_settles cancel restart r cancel' dx)
  then show ?case using settle_inv by simp
qed

lemma serial_inv: "poll_reach True r \<Longrightarrow> poll_inv r"
  by (induction rule: poll_reach.induct) (use init_ok poll_step_inv in blast)+

text \<open>C5. As long as a completion or a stop begins only when nothing is left to submit and no completion is between its
  first section and its stop, and a start only when, besides, no stop is waiting for its cancellations (the condition
  \<open>serial\<close>), every read handed to the bus is freed at most once and never while the bus has it; with no stop in
  progress a read that is no longer in flight has been freed. A slot never has two reads in flight, and nothing is left
  to submit while a reason to stop is set.\<close>

theorem poll_frees_once:
  assumes "poll_reach True r"
  shows "(\<forall>irp. count_list (map fst (freed_polls (dev r))) irp \<le> 1) \<and>
    (\<forall>i irp. (i, irp) \<in> set (flying r) \<longrightarrow> irp \<notin> fst ` set (freed_polls (dev r))) \<and>
    (\<forall>i irp. stops r = [] \<and> (i, irp) \<in> set (handed r) \<longrightarrow> (i, irp) \<in> set (flying r) \<or> irp \<in> fst ` set (freed_polls (dev r))) \<and>
    (\<forall>i irp irp'. (i, irp) \<in> set (flying r) \<and> (i, irp') \<in> set (flying r) \<longrightarrow> irp = irp') \<and>
    (PollStopMask (dev r) \<noteq> 0 \<longrightarrow> todo r = [])"
proof -
  have inv: "poll_inv r" by (rule serial_inv [OF assms])
  have acct: "count_list (map fst (freed_polls (dev r))) irp + of_bool (irp \<in> snd ` set (flying r) \<or> irp \<in> set (poll_held r)) =
      (of_bool (irp \<in> snd ` set (handed r)) :: nat)" for irp using inv_parts(3) [OF inv] by (simp add: account_ok_def)
  have freed: "irp \<in> fst ` set (freed_polls (dev r)) \<longleftrightarrow> count_list (map fst (freed_polls (dev r))) irp \<noteq> 0" for irp
    by (simp add: count_list_0_iff)
  have "count_list (map fst (freed_polls (dev r))) irp \<le> 1" for irp using acct [of irp] by (simp add: of_bool_def split: if_splits)
  moreover have "irp \<notin> fst ` set (freed_polls (dev r))" if "(i, irp) \<in> set (flying r)" for i irp
  proof -
    have "irp \<in> snd ` set (flying r)" using that by force
    then show ?thesis using acct [of irp] unfolding freed by (simp add: of_bool_def split: if_splits)
  qed
  moreover have "(i, irp) \<in> set (flying r) \<or> irp \<in> fst ` set (freed_polls (dev r))" if "stops r = []" "(i, irp) \<in> set (handed r)" for i irp
  proof (cases "irp \<in> snd ` set (flying r)")
    case True
    then obtain j where "(j, irp) \<in> set (flying r)" by force
    then show ?thesis using flying_slot [OF inv] two_handed [OF inv that(2)] by metis
  next
    case False
    have "irp \<in> snd ` set (handed r)" "poll_held r = []" using that by (force, simp add: poll_held_def)
    then show ?thesis using acct [of irp] False unfolding freed by simp
  qed
  moreover have "irp = irp'" if "(i, irp) \<in> set (flying r)" "(i, irp') \<in> set (flying r)" for i irp irp'
    using flying_slot [OF inv that(1)] flying_slot [OF inv that(2)] by simp
  moreover have "PollStopMask (dev r) \<noteq> 0 \<longrightarrow> todo r = []" using inv_parts(1) [OF inv] by (auto simp: frame_ok_def)
  ultimately show ?thesis by blast
qed

end
