(* ===== verification/Poll_Runs.thy ===== *)
theory Poll_Runs
  imports Poll_Facts
begin

text \<open>
  Runs of the polling engine on concrete reads: one in which a read fails and polling stops, and three in which
  sections of different processors meet: a read is never freed, a read is freed twice, a restart is queued twice.
\<close>

section \<open>Concrete runs\<close>

text \<open>Both slots submitted, with the reads 20 and 30.\<close>

definition run_at ::
    "poll_slot list \<Rightarrow> u32 \<Rightarrow> (ptr \<times> ptr) list \<Rightarrow> (nat \<times> ptr) list \<Rightarrow> nat list \<Rightarrow> (nat \<times> bool) list \<Rightarrow>
       ((ptr \<times> ptr) list \<times> bool) list \<Rightarrow> (nat \<times> ptr) list \<Rightarrow> poll_run" where
  "run_at ps m fr fl td es sp hs =
     \<lparr>dev = (AdaptoidDevExtInit zeroed_ext)\<lparr>PollSlots := ps, PollStopMask := m, freed_polls := fr\<rparr>,
      flying = fl, todo = td, tails = es, stops = sp, handed = hs, restarts = 0\<rparr>"

definition at :: "bool \<Rightarrow> ptr \<Rightarrow> bool \<Rightarrow> poll_slot" where
  "at latch irp act = \<lparr>CancelLatch = latch, PollIrp = irp, PollUrb = (if irp = 0 then 0 else irp + 1), PollBuffer = replicate 5 0, PollActive = act\<rparr>"

definition good_fly :: "ptr \<Rightarrow> fly" where
  "good_fly irp = \<lparr>fly_pipe = True, fly_urb = irp + 1, fly_irp = irp, fly_status = STATUS_PENDING\<rparr>"

lemmas run_defs = run_at_def at_def good_fly_def poll_start_locked_def AdaptoidPollSubmit_def poll_take_def poll_taken_def
  stop_latch_def latch_one_def stop_settle_def settle_one_def stop_free_def AdaptoidFreePollIrp_def any_cancel_def enter_stop_def
  finish_stop_def Let_def

lemma both_flying: "poll_reach b (run_at [at False 20 True, at False 30 True] 0 [] [(1, 30), (0, 20)] [] [] [] [(1, 30), (0, 20)])"
proof -
  let ?r0 = "run_at [at False 0 False, at False 0 False] 4 [] [] [] [] [] []"
  have "poll_reach b ?r0"
  proof -
    have "?r0 = \<lparr>dev = AdaptoidDevExtInit zeroed_ext, flying = [], todo = [], tails = [], stops = [], handed = [], restarts = 0\<rparr>"
      by (simp add: run_at_def at_def AdaptoidDevExtInit_def zeroed_ext_def zero_poll_def numeral_2_eq_2)
    then show ?thesis using poll_reach.init by simp
  qed
  moreover have "poll_step b ?r0 (run_at [at False 0 True, at False 0 True] 0 [] [] [0, 1] [] [] [])"
    using starts [of b ?r0 4 "[True, True]" "dev (run_at [at False 0 True, at False 0 True] 0 [] [] [0, 1] [] [] [])"]
    by (simp add: run_defs)
  moreover have "poll_step b (run_at [at False 0 True, at False 0 True] 0 [] [] [0, 1] [] [] [])
      (run_at [at False 20 True, at False 0 True] 0 [] [(0, 20)] [1] [] [] [(0, 20)])"
    using submits [of 0 "run_at [at False 0 True, at False 0 True] 0 [] [] [0, 1] [] [] []" "good_fly 20" STATUS_PENDING
      "dev (run_at [at False 20 True, at False 0 True] 0 [] [(0, 20)] [1] [] [] [(0, 20)])" b] by (simp add: run_defs)
  moreover have "poll_step b (run_at [at False 20 True, at False 0 True] 0 [] [(0, 20)] [1] [] [] [(0, 20)])
      (run_at [at False 20 True, at False 30 True] 0 [] [(1, 30), (0, 20)] [] [] [] [(1, 30), (0, 20)])"
    using submits [of 1 "run_at [at False 20 True, at False 0 True] 0 [] [(0, 20)] [1] [] [] [(0, 20)]" "good_fly 30" STATUS_PENDING
      "dev (run_at [at False 20 True, at False 30 True] 0 [] [(1, 30), (0, 20)] [] [] [] [(1, 30), (0, 20)])" b] by (simp add: run_defs)
  ultimately show ?thesis using poll_reach.step by blast
qed

text \<open>A read fails on one processor: the other read is cancelled.\<close>

lemma one_fails: "poll_reach True (run_at [at False 0 False, at False 0 True] 1 [(20, 21)] [] [] [(1, True)] [([(0, 0), (30, 31)], False)] [(1, 30), (0, 20)])"
proof -
  note both_flying [of True]
  moreover have "poll_step True (run_at [at False 20 True, at False 30 True] 0 [] [(1, 30), (0, 20)] [] [] [] [(1, 30), (0, 20)])
      (run_at [at False 0 True, at False 30 True] 0 [(20, 21)] [(1, 30)] [] [(0, True)] [] [(1, 30), (0, 20)])"
    using gives_up [where serial = True and r = "run_at [at False 20 True, at False 30 True] 0 [] [(1, 30), (0, 20)] [] [] [] [(1, 30), (0, 20)]"
      and dx = "dev (run_at [at False 0 True, at False 30 True] 0 [(20, 21)] [(1, 30)] [] [(0, True)] [] [(1, 30), (0, 20)])" and i = "0" and irp = "20" and sm = "0" and failed = "True"] by (simp add: run_defs)
  moreover have "poll_step True (run_at [at False 0 True, at False 30 True] 0 [(20, 21)] [(1, 30)] [] [(0, True)] [] [(1, 30), (0, 20)])
      (run_at [at False 0 False, at True 30 True] 1 [(20, 21)] [(1, 30)] [] [] [([(0, 0), (30, 31)], False)] [(1, 30), (0, 20)])"
    using tail_stops [where serial = True and r = "run_at [at False 0 True, at False 30 True] 0 [(20, 21)] [(1, 30)] [] [(0, True)] [] [(1, 30), (0, 20)]"
      and dx = "dev (run_at [at False 0 False, at True 30 True] 1 [(20, 21)] [(1, 30)] [] [] [([(0, 0), (30, 31)], False)] [(1, 30), (0, 20)])" and i = "0" and failed = "True" and final = "False" and cancel = "[(0, 0), (30, 31)]"] by (simp add: run_defs)
  moreover have "poll_step True (run_at [at False 0 False, at True 30 True] 1 [(20, 21)] [(1, 30)] [] [] [([(0, 0), (30, 31)], False)] [(1, 30), (0, 20)])
      (run_at [at False 0 False, at False 0 True] 1 [(20, 21)] [] [] [(1, True)] [([(0, 0), (30, 31)], False)] [(1, 30), (0, 20)])"
    using gives_up [where serial = True and r = "run_at [at False 0 False, at True 30 True] 1 [(20, 21)] [(1, 30)] [] [] [([(0, 0), (30, 31)], False)] [(1, 30), (0, 20)]"
      and dx = "dev (run_at [at False 0 False, at False 0 True] 1 [(20, 21)] [] [] [(1, True)] [([(0, 0), (30, 31)], False)] [(1, 30), (0, 20)])" and i = "1" and irp = "30" and sm = "1" and failed = "True"] by (simp add: run_defs)
  ultimately show ?thesis using poll_reach.step by blast
qed

theorem poll_frees_once_witness:
  "\<exists>r. poll_reach True r \<and> handed r = [(1, 30), (0, 20)] \<and> flying r = [] \<and> (\<forall>irp. count_list (map fst (freed_polls (dev r))) irp \<le> 1)"
  using poll_frees_once [OF one_fails] one_fails by (intro exI conjI) (auto simp: run_at_def)

section \<open>Sections that meet\<close>

text \<open>C34. On two processors a read can be lost. A stop that finds a slot between its completed read and its next one latches
  the slot with nothing to cancel, and finishes; the next read goes out after the stop, and its completion, which finds
  the latch set, leaves the freeing to a stop that is no longer there.\<close>

theorem read_never_freed:
  "\<exists>r. poll_reach False r \<and> flying r = [] \<and> todo r = [] \<and> tails r = [] \<and> stops r = [] \<and>
     (0, 40) \<in> set (handed r) \<and> 40 \<notin> fst ` set (freed_polls (dev r))"
proof -
  note both_flying [of False]
  moreover have "poll_step False (run_at [at False 20 True, at False 30 True] 0 [] [(1, 30), (0, 20)] [] [] [] [(1, 30), (0, 20)])
      (run_at [at False 0 True, at False 30 True] 0 [(20, 21)] [(1, 30)] [0] [] [] [(1, 30), (0, 20)])"
    using accepts [where serial = False and r = "run_at [at False 20 True, at False 30 True] 0 [] [(1, 30), (0, 20)] [] [] [] [(1, 30), (0, 20)]"
      and dx = "dev (run_at [at False 0 True, at False 30 True] 0 [(20, 21)] [(1, 30)] [0] [] [] [(1, 30), (0, 20)])" and i = "0" and irp = "20" and failed = "False"] by (simp add: run_defs)
  moreover have "poll_step False (run_at [at False 0 True, at False 30 True] 0 [(20, 21)] [(1, 30)] [0] [] [] [(1, 30), (0, 20)])
      (run_at [at True 0 True, at True 30 True] 4 [(20, 21)] [(1, 30)] [0] [] [([(0, 0), (30, 31)], False)] [(1, 30), (0, 20)])"
    using stop_begins [where serial = False and r = "run_at [at False 0 True, at False 30 True] 0 [(20, 21)] [(1, 30)] [0] [] [] [(1, 30), (0, 20)]"
      and dx = "dev (run_at [at True 0 True, at True 30 True] 4 [(20, 21)] [(1, 30)] [0] [] [([(0, 0), (30, 31)], False)] [(1, 30), (0, 20)])" and reason = "4" and final = "False" and cancel = "[(0, 0), (30, 31)]"] by (simp add: run_defs)
  moreover have "poll_step False (run_at [at True 0 True, at True 30 True] 4 [(20, 21)] [(1, 30)] [0] [] [([(0, 0), (30, 31)], False)] [(1, 30), (0, 20)])
      (run_at [at True 0 True, at False 0 True] 4 [(20, 21)] [] [0] [(1, False)] [([(0, 0), (30, 31)], False)] [(1, 30), (0, 20)])"
    using gives_up [where serial = False and r = "run_at [at True 0 True, at True 30 True] 4 [(20, 21)] [(1, 30)] [0] [] [([(0, 0), (30, 31)], False)] [(1, 30), (0, 20)]"
      and dx = "dev (run_at [at True 0 True, at False 0 True] 4 [(20, 21)] [] [0] [(1, False)] [([(0, 0), (30, 31)], False)] [(1, 30), (0, 20)])" and i = "1" and irp = "30" and sm = "4" and failed = "False"] by (simp add: run_defs)
  moreover have "poll_step False (run_at [at True 0 True, at False 0 True] 4 [(20, 21)] [] [0] [(1, False)] [([(0, 0), (30, 31)], False)] [(1, 30), (0, 20)])
      (run_at [at True 0 True, at False 0 False] 4 [(20, 21)] [] [0] [] [([(0, 0), (30, 31)], False)] [(1, 30), (0, 20)])"
    using tail_stops [where serial = False and r = "run_at [at True 0 True, at False 0 True] 4 [(20, 21)] [] [0] [(1, False)] [([(0, 0), (30, 31)], False)] [(1, 30), (0, 20)]"
      and dx = "dev (run_at [at True 0 True, at False 0 False] 4 [(20, 21)] [] [0] [] [([(0, 0), (30, 31)], False)] [(1, 30), (0, 20)])" and i = "1" and failed = "False" and final = "True" and cancel = "[(0, 0), (0, 0)]"] by (simp add: run_defs)
  moreover have "poll_step False (run_at [at True 0 True, at False 0 False] 4 [(20, 21)] [] [0] [] [([(0, 0), (30, 31)], False)] [(1, 30), (0, 20)])
      (run_at [at True 0 True, at False 0 False] 4 [(20, 21), (30, 31)] [] [0] [] [] [(1, 30), (0, 20)])"
    using stop_settles [where serial = False and r = "run_at [at True 0 True, at False 0 False] 4 [(20, 21)] [] [0] [] [([(0, 0), (30, 31)], False)] [(1, 30), (0, 20)]"
      and dx = "dev (run_at [at True 0 True, at False 0 False] 4 [(20, 21)] [] [0] [] [([(0, 0), (30, 31)], False)] [(1, 30), (0, 20)])" and cancel = "[(0, 0), (30, 31)]" and restart = "False" and cancel' = "[(0, 0), (30, 31)]"] by (simp add: run_defs)
  moreover have "poll_step False (run_at [at True 0 True, at False 0 False] 4 [(20, 21), (30, 31)] [] [0] [] [] [(1, 30), (0, 20)])
      (run_at [at True 40 True, at False 0 False] 4 [(20, 21), (30, 31)] [(0, 40)] [] [] [] [(0, 40), (1, 30), (0, 20)])"
    using submits [where serial = False and r = "run_at [at True 0 True, at False 0 False] 4 [(20, 21), (30, 31)] [] [0] [] [] [(1, 30), (0, 20)]"
      and dx = "dev (run_at [at True 40 True, at False 0 False] 4 [(20, 21), (30, 31)] [(0, 40)] [] [] [] [(0, 40), (1, 30), (0, 20)])" and i = "0" and f = "good_fly 40" and st = "STATUS_PENDING"] by (simp add: run_defs)
  moreover have "poll_step False (run_at [at True 40 True, at False 0 False] 4 [(20, 21), (30, 31)] [(0, 40)] [] [] [] [(0, 40), (1, 30), (0, 20)])
      (run_at [at False 0 True, at False 0 False] 4 [(20, 21), (30, 31)] [] [] [(0, False)] [] [(0, 40), (1, 30), (0, 20)])"
    using gives_up [where serial = False and r = "run_at [at True 40 True, at False 0 False] 4 [(20, 21), (30, 31)] [(0, 40)] [] [] [] [(0, 40), (1, 30), (0, 20)]"
      and dx = "dev (run_at [at False 0 True, at False 0 False] 4 [(20, 21), (30, 31)] [] [] [(0, False)] [] [(0, 40), (1, 30), (0, 20)])" and i = "0" and irp = "40" and sm = "4" and failed = "False"] by (simp add: run_defs)
  moreover have "poll_step False (run_at [at False 0 True, at False 0 False] 4 [(20, 21), (30, 31)] [] [] [(0, False)] [] [(0, 40), (1, 30), (0, 20)])
      (run_at [at False 0 False, at False 0 False] 4 [(20, 21), (30, 31)] [] [] [] [] [(0, 40), (1, 30), (0, 20)])"
    using tail_stops [where serial = False and r = "run_at [at False 0 True, at False 0 False] 4 [(20, 21), (30, 31)] [] [] [(0, False)] [] [(0, 40), (1, 30), (0, 20)]"
      and dx = "dev (run_at [at False 0 False, at False 0 False] 4 [(20, 21), (30, 31)] [] [] [] [] [(0, 40), (1, 30), (0, 20)])" and i = "0" and failed = "False" and final = "True" and cancel = "[(0, 0), (0, 0)]"] by (simp add: run_defs)
  ultimately have "poll_reach False (run_at [at False 0 False, at False 0 False] 4 [(20, 21), (30, 31)] [] [] [] [] [(0, 40), (1, 30), (0, 20)])"
    using poll_reach.step by blast
  then show ?thesis by (intro exI conjI) (assumption, simp_all add: run_at_def)
qed

text \<open>Completions that do not overlap are not enough for reads to be freed once. If polling starts again while a stop still waits
  for its cancellations, the second section of that stop meets the latches of the next stop and clears them; the next
  stop then takes its reads for completed and frees them while the bus has them, and their completions free them again.\<close>

theorem read_freed_twice:
  "\<exists>r. poll_reach False r \<and> count_list (map fst (freed_polls (dev r))) 40 = 2 \<and>
     (1, 50) \<in> set (flying r) \<and> 50 \<in> fst ` set (freed_polls (dev r))"
proof -
  note both_flying [of False]
  moreover have "poll_step False (run_at [at False 20 True, at False 30 True] 0 [] [(1, 30), (0, 20)] [] [] [] [(1, 30), (0, 20)])
      (run_at [at True 20 True, at True 30 True] 4 [] [(1, 30), (0, 20)] [] [] [([(20, 21), (30, 31)], False)] [(1, 30), (0, 20)])"
    using stop_begins [where serial = False and r = "run_at [at False 20 True, at False 30 True] 0 [] [(1, 30), (0, 20)] [] [] [] [(1, 30), (0, 20)]"
      and dx = "dev (run_at [at True 20 True, at True 30 True] 4 [] [(1, 30), (0, 20)] [] [] [([(20, 21), (30, 31)], False)] [(1, 30), (0, 20)])" and reason = "4" and final = "False" and cancel = "[(20, 21), (30, 31)]"] by (simp add: run_defs)
  moreover have "poll_step False (run_at [at True 20 True, at True 30 True] 4 [] [(1, 30), (0, 20)] [] [] [([(20, 21), (30, 31)], False)] [(1, 30), (0, 20)])
      (run_at [at False 0 True, at True 30 True] 4 [] [(1, 30)] [] [(0, False)] [([(20, 21), (30, 31)], False)] [(1, 30), (0, 20)])"
    using gives_up [where serial = False and r = "run_at [at True 20 True, at True 30 True] 4 [] [(1, 30), (0, 20)] [] [] [([(20, 21), (30, 31)], False)] [(1, 30), (0, 20)]"
      and dx = "dev (run_at [at False 0 True, at True 30 True] 4 [] [(1, 30)] [] [(0, False)] [([(20, 21), (30, 31)], False)] [(1, 30), (0, 20)])" and i = "0" and irp = "20" and sm = "4" and failed = "False"] by (simp add: run_defs)
  moreover have "poll_step False (run_at [at False 0 True, at True 30 True] 4 [] [(1, 30)] [] [(0, False)] [([(20, 21), (30, 31)], False)] [(1, 30), (0, 20)])
      (run_at [at False 0 False, at True 30 True] 4 [] [(1, 30)] [] [] [([(20, 21), (30, 31)], False)] [(1, 30), (0, 20)])"
    using tail_stops [where serial = False and r = "run_at [at False 0 True, at True 30 True] 4 [] [(1, 30)] [] [(0, False)] [([(20, 21), (30, 31)], False)] [(1, 30), (0, 20)]"
      and dx = "dev (run_at [at False 0 False, at True 30 True] 4 [] [(1, 30)] [] [] [([(20, 21), (30, 31)], False)] [(1, 30), (0, 20)])" and i = "0" and failed = "False" and final = "False" and cancel = "[(0, 0), (0, 0)]"] by (simp add: run_defs)
  moreover have "poll_step False (run_at [at False 0 False, at True 30 True] 4 [] [(1, 30)] [] [] [([(20, 21), (30, 31)], False)] [(1, 30), (0, 20)])
      (run_at [at False 0 False, at False 0 True] 4 [] [] [] [(1, False)] [([(20, 21), (30, 31)], False)] [(1, 30), (0, 20)])"
    using gives_up [where serial = False and r = "run_at [at False 0 False, at True 30 True] 4 [] [(1, 30)] [] [] [([(20, 21), (30, 31)], False)] [(1, 30), (0, 20)]"
      and dx = "dev (run_at [at False 0 False, at False 0 True] 4 [] [] [] [(1, False)] [([(20, 21), (30, 31)], False)] [(1, 30), (0, 20)])" and i = "1" and irp = "30" and sm = "4" and failed = "False"] by (simp add: run_defs)
  moreover have "poll_step False (run_at [at False 0 False, at False 0 True] 4 [] [] [] [(1, False)] [([(20, 21), (30, 31)], False)] [(1, 30), (0, 20)])
      (run_at [at False 0 False, at False 0 False] 4 [] [] [] [] [([(20, 21), (30, 31)], False)] [(1, 30), (0, 20)])"
    using tail_stops [where serial = False and r = "run_at [at False 0 False, at False 0 True] 4 [] [] [] [(1, False)] [([(20, 21), (30, 31)], False)] [(1, 30), (0, 20)]"
      and dx = "dev (run_at [at False 0 False, at False 0 False] 4 [] [] [] [] [([(20, 21), (30, 31)], False)] [(1, 30), (0, 20)])" and i = "1" and failed = "False" and final = "True" and cancel = "[(0, 0), (0, 0)]"] by (simp add: run_defs)
  moreover have "poll_step False (run_at [at False 0 False, at False 0 False] 4 [] [] [] [] [([(20, 21), (30, 31)], False)] [(1, 30), (0, 20)])
      (run_at [at False 0 True, at False 0 True] 0 [] [] [0, 1] [] [([(20, 21), (30, 31)], False)] [(1, 30), (0, 20)])"
    using starts [where serial = False and r = "run_at [at False 0 False, at False 0 False] 4 [] [] [] [] [([(20, 21), (30, 31)], False)] [(1, 30), (0, 20)]"
      and dx = "dev (run_at [at False 0 True, at False 0 True] 0 [] [] [0, 1] [] [([(20, 21), (30, 31)], False)] [(1, 30), (0, 20)])" and reason = "4" and submit = "[True, True]"] by (simp add: run_defs)
  moreover have "poll_step False (run_at [at False 0 True, at False 0 True] 0 [] [] [0, 1] [] [([(20, 21), (30, 31)], False)] [(1, 30), (0, 20)])
      (run_at [at False 40 True, at False 0 True] 0 [] [(0, 40)] [1] [] [([(20, 21), (30, 31)], False)] [(0, 40), (1, 30), (0, 20)])"
    using submits [where serial = False and r = "run_at [at False 0 True, at False 0 True] 0 [] [] [0, 1] [] [([(20, 21), (30, 31)], False)] [(1, 30), (0, 20)]"
      and dx = "dev (run_at [at False 40 True, at False 0 True] 0 [] [(0, 40)] [1] [] [([(20, 21), (30, 31)], False)] [(0, 40), (1, 30), (0, 20)])" and i = "0" and f = "good_fly 40" and st = "STATUS_PENDING"] by (simp add: run_defs)
  moreover have "poll_step False (run_at [at False 40 True, at False 0 True] 0 [] [(0, 40)] [1] [] [([(20, 21), (30, 31)], False)] [(0, 40), (1, 30), (0, 20)])
      (run_at [at False 40 True, at False 50 True] 0 [] [(1, 50), (0, 40)] [] [] [([(20, 21), (30, 31)], False)] [(1, 50), (0, 40), (1, 30), (0, 20)])"
    using submits [where serial = False and r = "run_at [at False 40 True, at False 0 True] 0 [] [(0, 40)] [1] [] [([(20, 21), (30, 31)], False)] [(0, 40), (1, 30), (0, 20)]"
      and dx = "dev (run_at [at False 40 True, at False 50 True] 0 [] [(1, 50), (0, 40)] [] [] [([(20, 21), (30, 31)], False)] [(1, 50), (0, 40), (1, 30), (0, 20)])" and i = "1" and f = "good_fly 50" and st = "STATUS_PENDING"] by (simp add: run_defs)
  moreover have "poll_step False (run_at [at False 40 True, at False 50 True] 0 [] [(1, 50), (0, 40)] [] [] [([(20, 21), (30, 31)], False)] [(1, 50), (0, 40), (1, 30), (0, 20)])
      (run_at [at True 40 True, at True 50 True] 4 [] [(1, 50), (0, 40)] [] [] [([(40, 41), (50, 51)], False), ([(20, 21), (30, 31)], False)] [(1, 50), (0, 40), (1, 30), (0, 20)])"
    using stop_begins [where serial = False and r = "run_at [at False 40 True, at False 50 True] 0 [] [(1, 50), (0, 40)] [] [] [([(20, 21), (30, 31)], False)] [(1, 50), (0, 40), (1, 30), (0, 20)]"
      and dx = "dev (run_at [at True 40 True, at True 50 True] 4 [] [(1, 50), (0, 40)] [] [] [([(40, 41), (50, 51)], False), ([(20, 21), (30, 31)], False)] [(1, 50), (0, 40), (1, 30), (0, 20)])" and reason = "4" and final = "False" and cancel = "[(40, 41), (50, 51)]"] by (simp add: run_defs)
  moreover have "poll_step False (run_at [at True 40 True, at True 50 True] 4 [] [(1, 50), (0, 40)] [] [] [([(40, 41), (50, 51)], False), ([(20, 21), (30, 31)], False)] [(1, 50), (0, 40), (1, 30), (0, 20)])
      (run_at [at False 40 True, at False 50 True] 4 [] [(1, 50), (0, 40)] [] [] [([(40, 41), (50, 51)], False)] [(1, 50), (0, 40), (1, 30), (0, 20)])"
    using stop_settles [where serial = False and r = "run_at [at True 40 True, at True 50 True] 4 [] [(1, 50), (0, 40)] [] [] [([(40, 41), (50, 51)], False), ([(20, 21), (30, 31)], False)] [(1, 50), (0, 40), (1, 30), (0, 20)]"
      and dx = "dev (run_at [at False 40 True, at False 50 True] 4 [] [(1, 50), (0, 40)] [] [] [([(40, 41), (50, 51)], False)] [(1, 50), (0, 40), (1, 30), (0, 20)])" and cancel = "[(20, 21), (30, 31)]" and restart = "False" and cancel' = "[(0, 21), (0, 31)]"] by (simp add: run_defs)
  moreover have "poll_step False (run_at [at False 40 True, at False 50 True] 4 [] [(1, 50), (0, 40)] [] [] [([(40, 41), (50, 51)], False)] [(1, 50), (0, 40), (1, 30), (0, 20)])
      (run_at [at False 40 True, at False 50 True] 4 [(40, 41), (50, 51)] [(1, 50), (0, 40)] [] [] [] [(1, 50), (0, 40), (1, 30), (0, 20)])"
    using stop_settles [where serial = False and r = "run_at [at False 40 True, at False 50 True] 4 [] [(1, 50), (0, 40)] [] [] [([(40, 41), (50, 51)], False)] [(1, 50), (0, 40), (1, 30), (0, 20)]"
      and dx = "dev (run_at [at False 40 True, at False 50 True] 4 [] [(1, 50), (0, 40)] [] [] [] [(1, 50), (0, 40), (1, 30), (0, 20)])" and cancel = "[(40, 41), (50, 51)]" and restart = "False" and cancel' = "[(40, 41), (50, 51)]"] by (simp add: run_defs)
  moreover have "poll_step False (run_at [at False 40 True, at False 50 True] 4 [(40, 41), (50, 51)] [(1, 50), (0, 40)] [] [] [] [(1, 50), (0, 40), (1, 30), (0, 20)])
      (run_at [at False 0 True, at False 50 True] 4 [(40, 41), (50, 51), (40, 41)] [(1, 50)] [] [(0, False)] [] [(1, 50), (0, 40), (1, 30), (0, 20)])"
    using gives_up [where serial = False and r = "run_at [at False 40 True, at False 50 True] 4 [(40, 41), (50, 51)] [(1, 50), (0, 40)] [] [] [] [(1, 50), (0, 40), (1, 30), (0, 20)]"
      and dx = "dev (run_at [at False 0 True, at False 50 True] 4 [(40, 41), (50, 51), (40, 41)] [(1, 50)] [] [(0, False)] [] [(1, 50), (0, 40), (1, 30), (0, 20)])" and i = "0" and irp = "40" and sm = "4" and failed = "False"] by (simp add: run_defs)
  ultimately have "poll_reach False (run_at [at False 0 True, at False 50 True] 4 [(40, 41), (50, 51), (40, 41)] [(1, 50)] [] [(0, False)] [] [(1, 50), (0, 40), (1, 30), (0, 20)])"
    using poll_reach.step by blast
  then show ?thesis by (intro exI conjI) (assumption, simp_all add: run_at_def)
qed

text \<open>C33. The restart can be queued twice for one failure: when both reads fail at once, each completion finds the other slot
  without a read and takes itself for the last. The work item is then queued while it is queued.\<close>

theorem restart_queued_twice: "\<exists>r. poll_reach False r \<and> handed r = [(1, 30), (0, 20)] \<and> restarts r = 2"
proof -
  note both_flying [of False]
  moreover have "poll_step False (run_at [at False 20 True, at False 30 True] 0 [] [(1, 30), (0, 20)] [] [] [] [(1, 30), (0, 20)])
      (run_at [at False 0 True, at False 30 True] 0 [(20, 21)] [(1, 30)] [] [(0, True)] [] [(1, 30), (0, 20)])"
    using gives_up [where serial = False and r = "run_at [at False 20 True, at False 30 True] 0 [] [(1, 30), (0, 20)] [] [] [] [(1, 30), (0, 20)]"
      and dx = "dev (run_at [at False 0 True, at False 30 True] 0 [(20, 21)] [(1, 30)] [] [(0, True)] [] [(1, 30), (0, 20)])" and i = "0" and irp = "20" and sm = "0" and failed = "True"] by (simp add: run_defs)
  moreover have "poll_step False (run_at [at False 0 True, at False 30 True] 0 [(20, 21)] [(1, 30)] [] [(0, True)] [] [(1, 30), (0, 20)])
      (run_at [at False 0 True, at False 0 True] 0 [(20, 21), (30, 31)] [] [] [(1, True), (0, True)] [] [(1, 30), (0, 20)])"
    using gives_up [where serial = False and r = "run_at [at False 0 True, at False 30 True] 0 [(20, 21)] [(1, 30)] [] [(0, True)] [] [(1, 30), (0, 20)]"
      and dx = "dev (run_at [at False 0 True, at False 0 True] 0 [(20, 21), (30, 31)] [] [] [(1, True), (0, True)] [] [(1, 30), (0, 20)])" and i = "1" and irp = "30" and sm = "0" and failed = "True"] by (simp add: run_defs)
  ultimately have r: "poll_reach False (run_at [at False 0 True, at False 0 True] 0 [(20, 21), (30, 31)] [] [] [(1, True), (0, True)] [] [(1, 30), (0, 20)])"
    using poll_reach.step by blast
  let ?r = "run_at [at False 0 True, at False 0 True] 0 [(20, 21), (30, 31)] [] [] [(1, True), (0, True)] [] [(1, 30), (0, 20)]"
  let ?c = "[(0, 0), (0, 0)] :: (ptr \<times> ptr) list"
  let ?d1 = "dev (run_at [at False 0 False, at True 0 True] 1 [(20, 21), (30, 31)] [] [] [] [] [])"
  let ?l = "\<lparr>IoCount = 2, Removed = False, RemoveEvent = False\<rparr>"
  have t1: "stop_latch 1 0 (dev ?r) = (True, ?c, ?d1)" by (simp add: run_defs)
  have lock: "RemoveLockB ?d1 = AdaptoidLockInit" "AdaptoidLockAcquire AdaptoidLockInit = (STATUS_SUCCESS, ?l)"
    by (simp add: run_at_def AdaptoidDevExtInit_def) code_simp
  let ?s = "?r\<lparr>dev := ?d1\<lparr>RemoveLockB := ?l, PollRestartPending := True\<rparr>, tails := [(1, True)], restarts := 1\<rparr>"
  have "enter_stop ?c True (?r\<lparr>dev := ?d1, tails := [(1, True)]\<rparr>) = ?s"
    using lock by (simp add: enter_stop_def any_cancel_def finish_stop_def queue_restart_def acquire_B_def Let_def run_at_def)
  then have s: "poll_reach False ?s"
    using poll_reach.step [OF r tail_stops [of 0 True ?r True ?c ?d1 False]] t1 by (simp add: run_at_def)
  obtain c2 d2 where t2: "stop_latch 1 1 (dev ?s) = (True, c2, d2)" "\<not> any_cancel c2" "RemoveLockB d2 = ?l"
    by (simp add: stop_latch_def latch_one_def any_cancel_def run_at_def at_def Let_def)
  have "NT_SUCCESS (fst (AdaptoidLockAcquire ?l))" by code_simp
  then have "restarts (enter_stop c2 True (?s\<lparr>dev := d2, tails := []\<rparr>)) = 2" "handed (enter_stop c2 True (?s\<lparr>dev := d2, tails := []\<rparr>)) = [(1, 30), (0, 20)]"
    using t2(2,3) by (auto simp: enter_stop_def finish_stop_def queue_restart_def acquire_B_def Let_def run_at_def split: prod.split)
  moreover have "poll_reach False (enter_stop c2 True (?s\<lparr>dev := d2, tails := []\<rparr>))"
    using poll_reach.step [OF s tail_stops [of 1 True ?s True c2 d2 False]] t2(1) by simp
  ultimately show ?thesis by blast
qed

end
