(* ===== verification/Device_Name.thy ===== *)
theory Device_Name
  imports Shell_State Sched_State
begin

text \<open>
  The name of a device in \<open>src_drv/wdm.c\<close>: the search of the hubs for the port the adapter is on, and the path that
  is written into the device's name.

  The topology is what the bus driver answers, a parameter; a hub is known by its name. A path is written into a
  buffer at an offset, every access is checked, and \<open>None\<close> is an access outside it. The ports of a hub are
  fewer than the largest number of the loop counter, as a hub descriptor counts them in a byte, so that the counter
  does not wrap.
\<close>

section \<open>The search\<close>

type_synonym hub = "u16 list"

record port_info =
  Connected :: bool
  IsHub :: bool
  VendorId :: u16
  ProductId :: u16
  DeviceAddress :: u16
  ChildHubName :: "hub option"

record topology =
  RootHub :: "nat \<Rightarrow> ntstatus \<times> hub option"
  HubPorts :: "hub \<Rightarrow> ntstatus \<times> u32"
  PortInfo :: "hub \<Rightarrow> nat \<Rightarrow> ntstatus \<times> port_info"

definition port_digit :: "nat \<Rightarrow> u8" where
  "port_digit port = of_nat (0x30 + port mod 10)"

definition is_us :: "u16 \<Rightarrow> port_info \<Rightarrow> bool" where
  "is_us addr info \<longleftrightarrow> VendorId info = 0x06F7 \<and> ProductId info = 1 \<and> DeviceAddress info = addr"

text \<open>The loop over the ports of a hub; \<open>deeper\<close> is the search of a hub below.\<close>

primrec scan_ports ::
    "topology \<Rightarrow> u16 \<Rightarrow> (hub \<Rightarrow> nat \<Rightarrow> u8 list \<Rightarrow> (int \<times> u8 list) option) \<Rightarrow> hub \<Rightarrow> nat \<Rightarrow> nat list \<Rightarrow> u8 list \<Rightarrow>
       (int \<times> u8 list) option" where
  "scan_ports T addr deeper hub at [] buf = Some (- 1, buf)"
| "scan_ports T addr deeper hub at (port # ports) buf =
     (let (st, info) = PortInfo T hub port
      in if \<not> NT_SUCCESS st \<or> \<not> Connected info then scan_ports T addr deeper hub at ports buf
         else if \<not> IsHub info then
           if is_us addr info then do {
             buf \<leftarrow> cell_put buf (int at) (port_digit port);
             Some (1, buf) }
           else scan_ports T addr deeper hub at ports buf
         else case ChildHubName info of
           None \<Rightarrow> scan_ports T addr deeper hub at ports buf
         | Some child \<Rightarrow> do {
             (digits, buf) \<leftarrow> deeper child (at + 1) buf;
             if digits \<ge> 0 then do {
               buf \<leftarrow> cell_put buf (int at) (port_digit port);
               Some (digits + 1, buf) }
             else scan_ports T addr deeper hub at ports buf })"

text \<open>Structural in the bytes left for the path.\<close>

primrec FindOnHub :: "nat \<Rightarrow> topology \<Rightarrow> u16 \<Rightarrow> hub \<Rightarrow> nat \<Rightarrow> u8 list \<Rightarrow> (int \<times> u8 list) option" where
  "FindOnHub 0 T addr hub at buf = Some (- 1, buf)"
| "FindOnHub (Suc n) T addr hub at buf =
     (let (st, ports) = HubPorts T hub
      in if \<not> NT_SUCCESS st then Some (- 1, buf)
         else scan_ports T addr (FindOnHub n T addr) hub at [1..<unat ports + 1] buf)"

section \<open>The name\<close>

primrec controller_loop :: "nat list \<Rightarrow> topology \<Rightarrow> u16 \<Rightarrow> nat \<Rightarrow> u8 list \<Rightarrow> (bool \<times> u8 list) option" where
  "controller_loop [] T addr n name = Some (False, name)"
| "controller_loop (index # rest) T addr n name =
     (let (st, root) = RootHub T index
      in case root of
           None \<Rightarrow> controller_loop rest T addr n name
         | Some hub \<Rightarrow>
             if \<not> NT_SUCCESS st then controller_loop rest T addr n name
             else do {
               (digits, name) \<leftarrow> FindOnHub (n - 2) T addr hub 1 name;
               if digits \<ge> 0 then do {
                 name \<leftarrow> cell_put name 0 (of_nat (0x41 + index));
                 name \<leftarrow> cell_put name (1 + digits) 0;
                 Some (True, name) }
               else controller_loop rest T addr n name })"

text \<open>\<open>None\<close> for a topology of which a function was never installed.\<close>

definition AdaptoidBuildLocationName :: "topology option \<Rightarrow> u16 \<Rightarrow> u8 list \<Rightarrow> nat \<Rightarrow> (bool \<times> u8 list) option" where
  "AdaptoidBuildLocationName topo addr name n =
     (case topo of
        None \<Rightarrow> Some (False, name)
      | Some T \<Rightarrow>
          if n < 2 then Some (False, name)
          else do {
            name \<leftarrow> cell_put name 0 0;
            controller_loop [0..<6] T addr n name })"

definition AdaptoidSetDeviceName :: "topology option \<Rightarrow> shell core_state \<Rightarrow> shell core_state option" where
  "AdaptoidSetDeviceName topo cs = do {
     (found, name) \<leftarrow> AdaptoidBuildLocationName topo (UsbAddress (world cs)) (device_name cs) 10;
     if found then Some (cs\<lparr>device_name := name\<rparr>)
     else do {
       name \<leftarrow> cell_put name 0 0x3F;
       name \<leftarrow> cell_put name 1 0;
       Some (cs\<lparr>device_name := name\<rparr>) } }"

section \<open>What it finds\<close>

text \<open>The paths from a hub to the adapter, outermost port first.\<close>

inductive port_path :: "topology \<Rightarrow> u16 \<Rightarrow> hub \<Rightarrow> nat list \<Rightarrow> bool" for T :: topology and addr :: u16 where
  here: "HubPorts T hub = (st, ports) \<Longrightarrow> NT_SUCCESS st \<Longrightarrow> 1 \<le> p \<Longrightarrow> p \<le> unat ports \<Longrightarrow> PortInfo T hub p = (st', info) \<Longrightarrow>
    NT_SUCCESS st' \<Longrightarrow> Connected info \<Longrightarrow> \<not> IsHub info \<Longrightarrow> is_us addr info \<Longrightarrow> port_path T addr hub [p]"
| below: "HubPorts T hub = (st, ports) \<Longrightarrow> NT_SUCCESS st \<Longrightarrow> 1 \<le> p \<Longrightarrow> p \<le> unat ports \<Longrightarrow> PortInfo T hub p = (st', info) \<Longrightarrow>
    NT_SUCCESS st' \<Longrightarrow> Connected info \<Longrightarrow> IsHub info \<Longrightarrow> ChildHubName info = Some child \<Longrightarrow> port_path T addr child ps \<Longrightarrow>
    port_path T addr hub (p # ps)"

inductive_cases port_pathE: "port_path T addr hub ps"

text \<open>Below a port.\<close>

definition port_leads :: "topology \<Rightarrow> u16 \<Rightarrow> hub \<Rightarrow> nat \<Rightarrow> nat list \<Rightarrow> bool" where
  "port_leads T addr hub p ps \<longleftrightarrow> (\<exists>st' info. PortInfo T hub p = (st', info) \<and> NT_SUCCESS st' \<and> Connected info \<and>
     (if IsHub info then \<exists>child. ChildHubName info = Some child \<and> port_path T addr child ps
      else ps = [] \<and> is_us addr info))"

lemma path_leads:
  "port_path T addr hub ps \<longleftrightarrow> (\<exists>st ports p qs. HubPorts T hub = (st, ports) \<and> NT_SUCCESS st \<and> 1 \<le> p \<and> p \<le> unat ports \<and>
     ps = p # qs \<and> port_leads T addr hub p qs)"
proof
  assume "port_path T addr hub ps"
  then show "\<exists>st ports p qs. HubPorts T hub = (st, ports) \<and> NT_SUCCESS st \<and> 1 \<le> p \<and> p \<le> unat ports \<and> ps = p # qs \<and> port_leads T addr hub p qs"
    by cases (auto simp: port_leads_def)
next
  assume "\<exists>st ports p qs. HubPorts T hub = (st, ports) \<and> NT_SUCCESS st \<and> 1 \<le> p \<and> p \<le> unat ports \<and> ps = p # qs \<and> port_leads T addr hub p qs"
  then show "port_path T addr hub ps" by (auto simp: port_leads_def simp del: One_nat_def split: if_splits intro: here below)
qed

lemma path_nonempty: "port_path T addr hub ps \<Longrightarrow> ps \<noteq> []"
  by (auto elim: port_pathE)

text \<open>A search in a buffer with room for \<open>n\<close> digits: whether and what it writes.\<close>

definition search_result :: "(nat list \<Rightarrow> bool) \<Rightarrow> nat \<Rightarrow> nat \<Rightarrow> u8 list \<Rightarrow> (int \<times> u8 list) option \<Rightarrow> bool" where
  "search_result P n at buf res \<longleftrightarrow>
     (if \<exists>ps. P ps \<and> length ps \<le> n
      then \<exists>ps. P ps \<and> length ps \<le> n \<and> res = Some (int (length ps), take at buf @ map port_digit ps @ drop (at + length ps) buf)
      else res = Some (- 1, buf))"

lemma search_same:
  assumes "search_result Q n at buf res" and same: "\<And>ps. length ps \<le> n \<Longrightarrow> P ps \<longleftrightarrow> Q ps"
  shows "search_result P n at buf res"
proof -
  have "(P ps \<and> length ps \<le> n \<and> C) = (Q ps \<and> length ps \<le> n \<and> C)" for ps C using same by auto
  moreover have "(P ps \<and> length ps \<le> n) = (Q ps \<and> length ps \<le> n)" for ps using same by auto
  ultimately show ?thesis using assms(1) unfolding search_result_def by (simp only:)
qed

definition leads_from :: "topology \<Rightarrow> u16 \<Rightarrow> hub \<Rightarrow> nat list \<Rightarrow> nat list \<Rightarrow> bool" where
  "leads_from T addr hub ports ps \<longleftrightarrow> (\<exists>p qs. ps = p # qs \<and> p \<in> set ports \<and> port_leads T addr hub p qs)"

text \<open>One port: what its turn of the loop gives, and what the others are asked for otherwise.\<close>

lemma scan_turn:
  assumes deep: "\<And>child b. at + 1 + n \<le> length b \<Longrightarrow> search_result (port_path T addr child) n (at + 1) b (deeper child (at + 1) b)"
    and room: "at + Suc n \<le> length buf"
  shows "if \<exists>qs. port_leads T addr hub p qs \<and> length qs \<le> n
    then \<exists>qs. port_leads T addr hub p qs \<and> length qs \<le> n \<and> scan_ports T addr deeper hub at (p # ports) buf =
      Some (int (length qs) + 1, take at buf @ map port_digit (p # qs) @ drop (at + Suc (length qs)) buf)
    else scan_ports T addr deeper hub at (p # ports) buf = scan_ports T addr deeper hub at ports buf"
proof -
  obtain st info where q: "PortInfo T hub p = (st, info)" by fastforce
  have put: "cell_put b (int at) (port_digit p) = Some (b[at := port_digit p])" if "length b = length buf" for b using that room by (simp add: cell_put_def)
  show ?thesis
  proof (cases "NT_SUCCESS st \<and> Connected info")
    case False
    then show ?thesis using q by (auto simp: port_leads_def)
  next
    case up: True
    show ?thesis
    proof (cases "IsHub info")
      case False
      then have l: "port_leads T addr hub p qs \<longleftrightarrow> qs = [] \<and> is_us addr info" for qs using q up by (simp add: port_leads_def)
      show ?thesis using q up False room put [of buf] by (simp add: l upd_conv_take_nth_drop)
    next
      case hub: True
      show ?thesis
      proof (cases "ChildHubName info")
        case None
        then show ?thesis using q up hub by (simp add: port_leads_def)
      next
        case (Some child)
        have l: "port_leads T addr hub p qs \<longleftrightarrow> port_path T addr child qs" for qs using q up hub Some by (simp add: port_leads_def)
        have d: "search_result (port_path T addr child) n (at + 1) buf (deeper child (at + 1) buf)" using deep room by simp
        show ?thesis
        proof (cases "\<exists>qs. port_path T addr child qs \<and> length qs \<le> n")
          case True
          then obtain qs where qs: "port_path T addr child qs" "length qs \<le> n"
            "deeper child (at + 1) buf = Some (int (length qs), take (at + 1) buf @ map port_digit qs @ drop (at + 1 + length qs) buf)"
            using d by (auto simp: search_result_def)
          let ?b = "take (at + 1) buf @ map port_digit qs @ drop (at + 1 + length qs) buf"
          have "length ?b = length buf" using qs(2) room by simp
          moreover have "?b[at := port_digit p] = take at buf @ map port_digit (p # qs) @ drop (at + Suc (length qs)) buf"
          proof -
            have "take (at + 1) buf = take at buf @ [buf ! at]" using room by (simp add: take_Suc_conv_app_nth)
            then show ?thesis using room by (simp add: list_update_append)
          qed
          ultimately have "scan_ports T addr deeper hub at (p # ports) buf =
              Some (int (length qs) + 1, take at buf @ map port_digit (p # qs) @ drop (at + Suc (length qs)) buf)"
            using qs(3) q up hub Some put [of ?b] by (simp del: list.map)
          then show ?thesis using qs(1,2) unfolding l by auto
        next
          case False
          then have "deeper child (at + 1) buf = Some (- 1, buf)" using d by (simp add: search_result_def)
          then have "scan_ports T addr deeper hub at (p # ports) buf = scan_ports T addr deeper hub at ports buf"
            using q up hub Some by simp
          with False show ?thesis by (simp only: l if_False)
        qed
      qed
    qed
  qed
qed

lemma scan_finds:
  assumes deep: "\<And>child b. at + 1 + n \<le> length b \<Longrightarrow> search_result (port_path T addr child) n (at + 1) b (deeper child (at + 1) b)"
    and room: "at + Suc n \<le> length buf"
  shows "search_result (leads_from T addr hub ports) (Suc n) at buf (scan_ports T addr deeper hub at ports buf)"
proof (induction ports)
  case Nil
  then show ?case by (simp add: search_result_def leads_from_def)
next
  case (Cons p ports)
  note turn = scan_turn [where deeper = deeper and n = n and T = T and addr = addr and at = at and buf = buf and hub = hub and p = p
    and ports = ports, OF deep room]
  show ?case
  proof (cases "\<exists>qs. port_leads T addr hub p qs \<and> length qs \<le> n")
    case True
    then obtain qs where qs: "port_leads T addr hub p qs" "length qs \<le> n" "scan_ports T addr deeper hub at (p # ports) buf =
        Some (int (length qs) + 1, take at buf @ map port_digit (p # qs) @ drop (at + Suc (length qs)) buf)" using turn by auto
    have "leads_from T addr hub (p # ports) (p # qs)" using qs(1) by (simp add: leads_from_def)
    then show ?thesis unfolding search_result_def using qs(2,3) by (auto intro!: exI [of _ "p # qs"])
  next
    case False
    then have same: "scan_ports T addr deeper hub at (p # ports) buf = scan_ports T addr deeper hub at ports buf" using turn by (simp only: if_False)
    have "leads_from T addr hub (p # ports) ps \<longleftrightarrow> leads_from T addr hub ports ps" if "length ps \<le> Suc n" for ps
      using that False by (auto simp: leads_from_def)
    with Cons.IH show ?thesis unfolding same by (rule search_same)
  qed
qed

lemma hub_finds:
  "at + n \<le> length buf \<Longrightarrow> search_result (port_path T addr hub) n at buf (FindOnHub n T addr hub at buf)"
proof (induction n arbitrary: hub at buf)
  case 0
  then show ?case using path_nonempty by (auto simp: search_result_def)
next
  case (Suc n)
  obtain st ports where h: "HubPorts T hub = (st, ports)" by fastforce
  show ?case
  proof (cases "NT_SUCCESS st")
    case False
    then have "\<not> port_path T addr hub ps" for ps using h by (simp add: path_leads)
    then show ?thesis using h False by (simp add: search_result_def)
  next
    case True
    have "port_path T addr hub ps \<longleftrightarrow> leads_from T addr hub [1..<unat ports + 1] ps" for ps
      using h True by (auto simp: path_leads leads_from_def)
    moreover have "search_result (leads_from T addr hub [1..<unat ports + 1]) (Suc n) at buf (FindOnHub (Suc n) T addr hub at buf)"
      using scan_finds [of at n T addr "FindOnHub n T addr" buf hub "[1..<unat ports + 1]"] Suc h True by simp
    ultimately show ?thesis by (metis search_same)
  qed
qed

text \<open>The controllers, in their order.\<close>

definition at_root :: "topology \<Rightarrow> u16 \<Rightarrow> nat \<Rightarrow> nat list \<Rightarrow> bool" where
  "at_root T addr index ps \<longleftrightarrow> (\<exists>st hub. RootHub T index = (st, Some hub) \<and> NT_SUCCESS st \<and> port_path T addr hub ps \<and> length ps \<le> 8)"

lemma location_put:
  assumes len: "length name = 10" and small: "length ps \<le> 8"
  shows "\<exists>name'. do { name \<leftarrow> cell_put (take 1 name @ map port_digit ps @ drop (1 + length ps) name) 0 c;
      name \<leftarrow> cell_put name (1 + int (length ps)) 0; Some (True, name) } = Some (True, name') \<and>
    length name' = 10 \<and> take (length ps + 2) name' = c # map port_digit ps @ [0]"
proof -
  obtain a rest where n: "name = a # rest" "length rest = 9" using len by (cases name) auto
  have "nat (1 + int (length ps)) = Suc (length ps)" by simp
  moreover have "(map port_digit ps @ drop (length ps) rest)[length ps := 0] = map port_digit ps @ 0 # drop (Suc (length ps)) rest"
    using n small by (simp add: list_update_append Cons_nth_drop_Suc [symmetric])
  ultimately show ?thesis using n small by (simp add: cell_put_def)
qed

definition named :: "(nat \<Rightarrow> nat list \<Rightarrow> bool) \<Rightarrow> nat set \<Rightarrow> bool \<Rightarrow> u8 list \<Rightarrow> bool" where
  "named P K found name \<longleftrightarrow>
    (if \<exists>k\<in>K. \<exists>ps. P k ps
     then found \<and> (\<exists>k\<in>K. \<exists>ps. P k ps \<and> (\<forall>j\<in>K. j < k \<longrightarrow> (\<nexists>qs. P j qs)) \<and>
       take (length ps + 2) name = of_nat (0x41 + k) # map port_digit ps @ [0])
     else \<not> found)"

lemma named_skip:
  assumes none: "\<nexists>ps. P k ps"
  shows "named P (insert k K) found name \<longleftrightarrow> named P K found name"
proof -
  have "(\<exists>x\<in>insert k K. \<exists>ps. P x ps) = (\<exists>x\<in>K. \<exists>ps. P x ps)" using none by auto
  moreover have "(\<exists>x\<in>insert k K. \<exists>ps. P x ps \<and> C x ps) = (\<exists>x\<in>K. \<exists>ps. P x ps \<and> C x ps)" for C using none by auto
  moreover have "(\<forall>j\<in>insert k K. j < m \<longrightarrow> (\<nexists>qs. P j qs)) = (\<forall>j\<in>K. j < m \<longrightarrow> (\<nexists>qs. P j qs))" for m using none by auto
  ultimately show ?thesis unfolding named_def by (simp only:)
qed

lemma named_first:
  assumes "P k ps" "\<forall>j\<in>K. k < j" "take (length ps + 2) name = of_nat (0x41 + k) # map port_digit ps @ [0]"
  shows "named P (insert k K) True name"
proof -
  have "\<forall>j\<in>insert k K. j < k \<longrightarrow> (\<nexists>qs. P j qs)" using assms(2) by auto
  then have "\<exists>x\<in>insert k K. \<exists>ps. P x ps \<and> (\<forall>j\<in>insert k K. j < x \<longrightarrow> (\<nexists>qs. P j qs)) \<and>
      take (length ps + 2) name = of_nat (0x41 + x) # map port_digit ps @ [0]" using assms by blast
  then show ?thesis unfolding named_def by (simp del: of_nat_add) blast
qed

lemma controllers_find:
  assumes len: "length name = 10" and up: "sorted_wrt (<) xs"
  shows "\<exists>found name'. controller_loop xs T addr 10 name = Some (found, name') \<and> length name' = 10 \<and>
    named (at_root T addr) (set xs) found name'"
  using up
proof (induction xs)
  case Nil
  then show ?case using len by (simp add: named_def) (rule exI [of _ False], simp)
next
  case (Cons index rest)
  obtain st root where r: "RootHub T index = (st, root)" by fastforce
  show ?case
  proof (cases "\<exists>ps. at_root T addr index ps")
    case True
    then obtain hub where hub: "root = Some hub" "NT_SUCCESS st" "\<exists>ps. port_path T addr hub ps \<and> length ps \<le> 8"
      using r by (auto simp: at_root_def)
    then obtain ps where ps: "port_path T addr hub ps" "length ps \<le> 8"
      "FindOnHub 8 T addr hub 1 name = Some (int (length ps), take 1 name @ map port_digit ps @ drop (1 + length ps) name)"
      using hub_finds [of 1 8 name T addr hub] len by (auto simp: search_result_def)
    obtain name' where n: "controller_loop (index # rest) T addr 10 name = Some (True, name')" "length name' = 10"
      "take (length ps + 2) name' = of_nat (0x41 + index) # map port_digit ps @ [0]"
      using location_put [OF len ps(2), of "of_nat (0x41 + index)"] r hub ps(3) by (auto simp del: of_nat_add)
    have "at_root T addr index ps" using ps r hub by (simp add: at_root_def)
    moreover have "\<forall>j\<in>set rest. index < j" using Cons.prems by simp
    ultimately have "named (at_root T addr) (set (index # rest)) True name'" using n(3) by (simp only: list.set) (rule named_first)
    then show ?thesis using n by blast
  next
    case False
    have "controller_loop (index # rest) T addr 10 name = controller_loop rest T addr 10 name"
    proof (cases "\<exists>hub. root = Some hub \<and> NT_SUCCESS st")
      case True
      then obtain hub where hub: "root = Some hub" "NT_SUCCESS st" by auto
      then have "\<not> (\<exists>ps. port_path T addr hub ps \<and> length ps \<le> 8)" using False r by (auto simp: at_root_def)
      then have "FindOnHub 8 T addr hub 1 name = Some (- 1, name)"
        using hub_finds [of 1 8 name T addr hub] len by (auto simp: search_result_def)
      then show ?thesis using r hub by simp
    qed (use r in \<open>auto split: option.splits\<close>)
    moreover have "named (at_root T addr) (set (index # rest)) found name' = named (at_root T addr) (set rest) found name'" for found name'
      using named_skip [of "at_root T addr" index] False by simp
    ultimately show ?thesis using Cons by simp
  qed
qed

text \<open>C20. Naming a device always returns. It writes only the ten bytes of the name; if the adapter is on a path of
  at most eight ports below one of the six controllers, the name is the letter of the first such controller, the last
  digits of the ports of one of its paths and a NUL, and it is a question mark otherwise.\<close>

theorem location_name_found:
  assumes "length (device_name cs) = 10"
  shows "\<exists>cs'. AdaptoidSetDeviceName (Some T) cs = Some cs' \<and> cs'\<lparr>device_name := device_name cs\<rparr> = cs \<and> length (device_name cs') = 10 \<and>
    (if \<exists>k<6. \<exists>ps. at_root T (UsbAddress (world cs)) k ps
     then \<exists>k<6. \<exists>ps. at_root T (UsbAddress (world cs)) k ps \<and> (\<forall>j<k. \<nexists>qs. at_root T (UsbAddress (world cs)) j qs) \<and>
       take (length ps + 2) (device_name cs') = of_nat (0x41 + k) # map port_digit ps @ [0]
     else take 2 (device_name cs') = [0x3F, 0])"
proof -
  let ?a = "UsbAddress (world cs)" and ?name = "(device_name cs)[0 := 0]"
  obtain found name where r: "controller_loop [0..<6] T ?a 10 ?name = Some (found, name)" "length name = 10" and
f: "named (at_root T ?a) {0..<6} found name"
    using controllers_find [of ?name "[0..<6]" T ?a] assms by (simp only: set_upt sorted_wrt_upt length_list_update) blast
  have e: "(\<exists>k\<in>{0..<6}. \<exists>ps. at_root T ?a k ps) = (\<exists>k<6. \<exists>ps. at_root T ?a k ps)" by auto
  have b: "AdaptoidBuildLocationName (Some T) ?a (device_name cs) 10 = Some (found, name)"
    using r assms by (simp add: AdaptoidBuildLocationName_def cell_put_def)
  show ?thesis
  proof (cases "\<exists>k<6. \<exists>ps. at_root T ?a k ps")
    case True
    then have s: "AdaptoidSetDeviceName (Some T) cs = Some (cs\<lparr>device_name := name\<rparr>)" using b f e by (simp add: AdaptoidSetDeviceName_def named_def)
    obtain k ps where kp: "k \<in> {0..<6}" "at_root T ?a k ps" "\<forall>j\<in>{0..<6}. j < k \<longrightarrow> (\<nexists>qs. at_root T ?a j qs)"
      "take (length ps + 2) name = of_nat (0x41 + k) # map port_digit ps @ [0]"
      using f True unfolding named_def e by (simp only: if_True) blast
    have "k < 6" "\<forall>j<k. \<nexists>qs. at_root T ?a j qs" using kp(1,3) by auto
    with kp(2,4) have "\<exists>k<6. \<exists>ps. at_root T ?a k ps \<and> (\<forall>j<k. \<nexists>qs. at_root T ?a j qs) \<and>
        take (length ps + 2) name = of_nat (0x41 + k) # map port_digit ps @ [0]" by blast
    then show ?thesis using s True r(2) by (simp only: if_True) simp
  next
    case False
    obtain c d rest where n: "name = c # d # rest" using r(2) by (cases name; cases "tl name") auto
    have s: "AdaptoidSetDeviceName (Some T) cs = Some (cs\<lparr>device_name := 0x3F # 0 # rest\<rparr>)"
      using b f e False n by (simp add: named_def AdaptoidSetDeviceName_def cell_put_def)
    then show ?thesis using False r(2) n by (simp only: if_False) simp
  qed
qed

text \<open>Two controllers; the second has a hub on port 2, and the adapter at address 5 is on its port 13.\<close>

definition two_controllers :: topology where
  "two_controllers = \<lparr>
     RootHub = (\<lambda>k. if k = 0 then (0, Some [0x41]) else if k = 1 then (0, Some [0x42]) else (0xC0000001, None)),
     HubPorts = (\<lambda>hub. (0, if hub = [0x43] then 13 else 2)),
     PortInfo = (\<lambda>hub p.
       (0, if hub = [0x42] \<and> p = 2 then \<lparr>Connected = True, IsHub = True, VendorId = 0, ProductId = 0, DeviceAddress = 0, ChildHubName = Some [0x43]\<rparr>
           else if hub = [0x43] \<and> p = 13 then \<lparr>Connected = True, IsHub = False, VendorId = 0x06F7, ProductId = 1, DeviceAddress = 5, ChildHubName = None\<rparr>
           else \<lparr>Connected = False, IsHub = False, VendorId = 0, ProductId = 0, DeviceAddress = 0, ChildHubName = None\<rparr>))\<rparr>"

lemma ok_zero: "NT_SUCCESS 0"
  by code_simp

lemma one_path: "port_path two_controllers 5 [0x42] [2, 13]"
proof (rule below)
  show "port_path two_controllers 5 [0x43] [13]" by (rule here) (auto simp: two_controllers_def is_us_def ok_zero)
qed (auto simp: two_controllers_def ok_zero)

theorem location_name_found_witness:
  "\<exists>cs'. AdaptoidSetDeviceName (Some two_controllers) (core_zeroed (zeroed_ext\<lparr>UsbAddress := 5\<rparr>)) = Some cs' \<and>
     length (device_name cs') = 10 \<and> device_name cs' ! 0 \<noteq> 0x3F"
proof -
  have len: "length (device_name (core_zeroed (zeroed_ext\<lparr>UsbAddress := 5\<rparr>))) = 10" by (simp add: core_zeroed_def)
  have a: "UsbAddress (world (core_zeroed (zeroed_ext\<lparr>UsbAddress := 5\<rparr>))) = 5" by (simp add: core_zeroed_def)
  have "at_root two_controllers 5 1 [2, 13]" using one_path by (simp add: at_root_def) (simp add: two_controllers_def ok_zero)
  then have e: "\<exists>k<6. \<exists>ps. at_root two_controllers 5 k ps" by (meson one_less_numeral_iff semiring_norm(76))
  obtain cs' k ps where r: "AdaptoidSetDeviceName (Some two_controllers) (core_zeroed (zeroed_ext\<lparr>UsbAddress := 5\<rparr>)) = Some cs'"
    "length (device_name cs') = 10" "k < 6" "take (length ps + 2) (device_name cs') = of_nat (0x41 + k) # map port_digit ps @ [0]"
    using location_name_found [OF len, of two_controllers] e unfolding a by (auto simp del: of_nat_add)
  have "device_name cs' ! 0 = of_nat (0x41 + k)" using arg_cong [OF r(4), of "\<lambda>xs. xs ! 0"] by (simp del: of_nat_add)
  moreover have "k \<in> {0, 1, 2, 3, 4, 5}" using r(3) by auto
  ultimately have "device_name cs' ! 0 \<noteq> 0x3F" by auto
  with r show ?thesis by blast
qed

end
