(* ===== verification/Spec2Isabelle.thy ===== *)
theory Spec2Isabelle
  imports Prelude Core_State Pak_CRC Hid_Reports Effect_Engine Effect_Ring Send_Chain Accessory Core_Frames
    Core_Input Shell_State Report_Queue Vendor_Slot Device_Run N64_Bus Script_VM Sched_Facts
    Ioctl_Facts Wait_List Notify_Queue Control_Facts Command_Block
    Command_Facts Hid_Contract Notify_Facts Control_Shell Control_Owner Poll_Runs Device_Name
begin

text \<open>
  A verification development for the Adaptoid driver, \<open>src/src_drv\<close>: a Windows driver for a USB adapter that
  makes a Nintendo 64 controller a HID device with force feedback, and runs scripts that turn its input into
  keys and mouse events.

  \<^bold>\<open>The program.\<close> \<open>core.c\<close> holds the device's logic with no operating system in it. A raw packet comes in
  through \<open>core_on_raw_packet\<close>; what the core does outside goes through the seams of \<open>core_state\<close>: a sink
  for reports, three forms of the vendor transport, two hooks. \<open>script.c\<close> interprets bytecode and \<open>sched.c\<close>
  schedules its threads over the same core. \<open>ioctl.c\<close> answers the private control codes of an adapter and
  of the control device, the SDK's command block and the HID class driver. \<open>wdm.c\<close> is the shell: it queues reports and parks reads, owns
  the slot of the vendor transport, counts the references of the remove lock, keeps the interrupt reads in flight, owns the control device with its
  parked notification requests, and installs itself in the seams.

  \<^bold>\<open>The theories\<close>, in the order of the code:

  \<^item> \<open>Prelude\<close>: signed integers of a fixed width with their wrap-around, truncating division, list lemmas.
  \<^item> \<open>Core_State\<close>: the records of \<open>core.h\<close>, the seams as a record of functions over the core's state and a
    world \<open>'w\<close>, \<open>core_init\<close>, \<open>core_reset\<close>, \<open>core_emit\<close>; the invariant \<open>core_wf\<close>.
  \<^item> \<open>Pak_CRC\<close>: the checksums of the Controller Pak; both are polynomial remainders, and the address
    encoding is injective.
  \<^item> \<open>Hid_Reports\<close>: decoding of the stick and the buttons, the packed report, keyboard and mouse, the report
    descriptor. The keyboard implements a set of modifiers and an ordered list of keys; a packed report is
    read back through the descriptor, which declares fourteen of its sixteen buttons.
  \<^item> \<open>Effect_Engine\<close>, \<open>Effect_Ring\<close>, \<open>Send_Chain\<close>: force feedback. Waveforms, envelopes, condition effects and
    the modulator; the ring of evaluated ticks and the window handed to the motor; the chain of transfers
    and the deferred work.
  \<^item> \<open>Accessory\<close>: the dialogue that finds out what is plugged in, as a function of the replies.
  \<^item> \<open>Core_Frames\<close>: the locale \<open>chain_relation\<close>, which lifts a relation that the four steps of the effect
    chain keep to all of its handlers, and \<open>world_relation\<close>, which lifts a relation kept by the seams to
    every operation of the core.
  \<^item> \<open>Core_Input\<close>: the packet, the tuning mode (a refinement of an automaton of three phases), the clock; what a packet
    adds to the reports an observer has seen.
  \<^item> \<open>Shell_State\<close>, \<open>Report_Queue\<close>: the device extension, the remove lock; the report ring, parked reads and
    their cancellation. The spin-locked sections are separate definitions, so that an interleaving is a
    list of them; a system of reads steps by \<open>read_step\<close>. One at a time the handlers implement the queue
    \<open>read_spec\<close>; \<open>AdaptoidReadReport_between\<close> has the gap in which they do not.
  \<^item> \<open>Vendor_Slot\<close>, \<open>Device_Run\<close>: the slot of the vendor transport, its completion and its clients, with the
    locale \<open>vendor_transport\<close> between the core and the shell; the runs of a device as the inductive relation
    \<open>device_step\<close>, in which the bus completes what it accepts, and \<open>lock_run\<close>, which adds everything else that
    touches the remove lock: completions that find no transfer, submissions refused after their completion, the
    other holders and the wait of a removal.
  \<^item> \<open>N64_Bus\<close>: a transaction on the controller's bus over the synchronous transport.
  \<^item> \<open>Script_VM\<close>: the interpreter. Every access goes through a bounds check whose failure is \<open>None\<close>; the locale
    \<open>native_library\<close> states what the interpreter asks of its natives, and shows that a run ends in memory.
  \<^item> \<open>Sched_State\<close>, \<open>Sched_Run\<close>, \<open>Sched_Inv\<close>, \<open>Sched_Facts\<close>: threads, events, builtins, the pass, loading and
    input; a run as the rounds \<open>sched_rounds\<close>; the invariant with the count of the blocks owned; the builtins as a \<open>native_library\<close>.
  \<^item> \<open>Ioctl_Device\<close>, \<open>Ioctl_Facts\<close>: the control codes of an adapter over buffers whose bounds the model checks.
  \<^item> \<open>Control_Device\<close>, \<open>Control_Facts\<close>: the registry of adapters, the driver-wide codes and the forward.
  \<^item> \<open>Command_Block\<close>, \<open>Command_Facts\<close>: the two passes over the command block, the Pak the driver emulates, the
    transfer and its reply; a walk stays within the cells of its entries.
  \<^item> \<open>Hid_Contract\<close>: the requests of the HID class driver and their dispatch routine.
  \<^item> \<open>Wait_List\<close>, \<open>Notify_Queue\<close>, \<open>Notify_Facts\<close>: an intrusive ring of nodes in a store of links, the notification
    queue over it as a refinement of two lists, and what it asks of the owner behind its three calls (the
    locale \<open>notify_owner\<close>).
  \<^item> \<open>Control_Shell\<close>, \<open>Control_Owner\<close>: the control device object, the waiter that lives in a request, cancellation and
    sweeps, the dispatch routines; the runs of the notification path as the inductive relation \<open>ctl_reach\<close>
    and the life of the object as \<open>ctl_life\<close>, with the shell as the \<open>notify_owner\<close> of the queue. \<open>ctl_reach\<close>
    takes posts and flushes not to overlap the sections under the queue's lock, which the code does not ensure;
    \<open>loose_reach\<close> lets a post be overlapped and shows what happens then.
  \<^item> \<open>Poll_Engine\<close>, \<open>Poll_Facts\<close>, \<open>Poll_Runs\<close>: the two interrupt reads in flight, their completion, the stop in its
    two locked sections, the recovery of a failed port; the sections on several processors as the inductive
    relation \<open>poll_reach\<close>, whose flag asks that completions, stops and starts wait for each other as its rules say.
    With it set every read is freed once; without it three runs show what goes wrong.
  \<^item> \<open>Device_Name\<close>: the search of the hubs for the adapter's port, specified by the inductive \<open>port_path\<close>,
    and the name built from it.

  \<^bold>\<open>Fuel.\<close> The loop of the interpreter has the budget plus one: each turn spends a unit. A sweep of the
  scheduler has the tokens plus the threads queued plus one: an instruction costs a token and queues at most
  one thread, and a thread stopped without a token is gone. \<open>Sched_Facts\<close> shows both are enough.
  The guard of \<open>core_effect_run_deferred\<close> (32) is the code's own. \<open>notify_pump\<close>, \<open>core_notify_flush\<close>, \<open>find_victim\<close> and
  \<open>AdaptoidCancelNotifications\<close> follow links and are partial functions; \<open>notify_calls_return\<close> shows that they return
  from every reachable state. Every other loop is structural or has a termination proof.

  \<^bold>\<open>Hypotheses.\<close> What is not in the repository is a parameter: \<open>bus\<close> says how the USB stack answers a
  submission and that it completes it later, except where a property says otherwise; \<open>fly\<close> and \<open>port_answer\<close> say
  what a submission and a port recovery meet; \<open>topology\<close> is what the bus driver tells of its hubs; \<open>pool\<close> lists what the
  kernel's allocator returns; \<open>late\<close> says what arrives while a pass of the scheduler runs. The hooks that
  the properties of \<open>Device_Run\<close> take are asked to keep the transport's balance; the witnesses install
  concrete ones.

  \<^bold>\<open>Not modelled.\<close> The rest of \<open>wdm.c\<close>: the entry points and dispatch stubs, Plug and Play, power and the
  URBs, most of it calls into the kernel; \<open>kstub.h\<close> and \<open>harness.c\<close>, the test bench; \<open>tools\<close>. The memory model
  is sequential: two processors meet only where a property quantifies over interleavings or late callers. The
  memory of a waiter is taken to read as unlinked before its first use, as the zeroed extension of the control
  device does.
\<close>

end
